(* ===== verification/Prelude.thy ===== *)
theory Prelude
  imports Complex_Main "HOL-Library.Sublist" "HOL-Library.Char_ord" "HOL-Library.List_Lexorder"
begin

text \<open>
  Shared prelude of the development: the part of the Go standard library the agent's sources use
  on strings (\<open>strings\<close>, \<open>strconv\<close>) and the generic facts about lists and options that the
  component theories share.

  A Go \<open>string\<close> is a byte sequence and is modelled by \<^typ>\<open>string\<close>, a list of 8-bit
  characters; \<open><\<close> on strings is Go's bytewise order. The case and white-space functions
  (\<open>ToUpper\<close>, \<open>ToLower\<close>, \<open>TrimSpace\<close>, \<open>Fields\<close>, \<open>unicode.IsDigit\<close>) are modelled on the
  ASCII range, which is what node names, aliases, URLs and the CLI output consist of.
  \<open>strings.Index\<close> returns an option instead of Go's \<open>-1\<close>.
\<close>

named_theorems go_lib \<open>facts on the Go library functions, used by the component proofs\<close>

type_synonym go_time = "int option"  \<comment> \<open>nanoseconds since the epoch; \<open>None\<close> is the zero \<open>time.Time\<close>\<close>

section \<open>Lists\<close>

definition take_last :: "nat \<Rightarrow> 'a list \<Rightarrow> 'a list" where
  "take_last n xs = drop (length xs - n) xs"

lemma length_take_last [simp]: "length (take_last n xs) = min n (length xs)"
  by (simp add: take_last_def)

lemma take_last_short [simp]: "length xs \<le> n \<Longrightarrow> take_last n xs = xs"
  by (simp add: take_last_def)

lemma take_last_Nil [simp]: "take_last n [] = []"
  by (simp add: take_last_def)

lemma take_last_append_long:
  "n \<le> length ys \<Longrightarrow> take_last n (xs @ ys) = take_last n ys"
  by (simp add: take_last_def)

lemma take_last_append_short:
  "length ys \<le> n \<Longrightarrow> take_last n (xs @ ys) = take_last (n - length ys) xs @ ys"
  by (simp add: take_last_def)

lemma take_last_take_last [simp]: "take_last n (take_last n xs @ ys) = take_last n (xs @ ys)"
proof (cases "n \<le> length ys")
  case True
  then show ?thesis by (simp add: take_last_append_long)
next
  case False
  then have n: "length ys \<le> n" by simp
  show ?thesis
  proof (cases "length xs \<le> n")
    case True
    then show ?thesis by simp
  next
    case False
    with n have "length xs - n + (length xs - (length xs - n) - (n - length ys)) = length xs - (n - length ys)"
      by simp
    with n show ?thesis by (simp add: take_last_append_short) (simp add: take_last_def add.commute)
  qed
qed

lemma set_take_last_subset: "set (take_last n xs) \<subseteq> set xs"
  by (simp add: take_last_def set_drop_subset)

section \<open>Package strings\<close>

abbreviation hasPrefix :: "string \<Rightarrow> string \<Rightarrow> bool" where
  "hasPrefix s p \<equiv> prefix p s"

abbreviation hasSuffix :: "string \<Rightarrow> string \<Rightarrow> bool" where
  "hasSuffix s p \<equiv> suffix p s"

fun strIndex :: "string \<Rightarrow> string \<Rightarrow> nat option" where
  "strIndex [] sub = (if sub = [] then Some 0 else None)"
| "strIndex (c # s) sub = (if prefix sub (c # s) then Some 0 else map_option Suc (strIndex s sub))"

definition strContains :: "string \<Rightarrow> string \<Rightarrow> bool" where
  "strContains s sub \<longleftrightarrow> strIndex s sub \<noteq> None"

definition trimPrefix :: "string \<Rightarrow> string \<Rightarrow> string" where
  "trimPrefix s p = (if prefix p s then drop (length p) s else s)"

definition trimSuffix :: "string \<Rightarrow> string \<Rightarrow> string" where
  "trimSuffix s p = (if suffix p s then take (length s - length p) s else s)"

definition trimLeftFunc :: "string \<Rightarrow> (char \<Rightarrow> bool) \<Rightarrow> string" where
  "trimLeftFunc s f = dropWhile f s"

definition trimRightFunc :: "string \<Rightarrow> (char \<Rightarrow> bool) \<Rightarrow> string" where
  "trimRightFunc s f = rev (dropWhile f (rev s))"

definition isSpace :: "char \<Rightarrow> bool" where
  "isSpace c \<longleftrightarrow> c = CHR '' '' \<or> (9 \<le> (of_char c :: nat) \<and> (of_char c :: nat) \<le> 13)"

definition isDigit :: "char \<Rightarrow> bool" where
  "isDigit c \<longleftrightarrow> 48 \<le> (of_char c :: nat) \<and> (of_char c :: nat) \<le> 57"

definition trimSpace :: "string \<Rightarrow> string" where
  "trimSpace s = trimRightFunc (trimLeftFunc s isSpace) isSpace"

definition lowerChar :: "char \<Rightarrow> char" where
  "lowerChar c = (if 65 \<le> (of_char c :: nat) \<and> (of_char c :: nat) \<le> 90 then char_of (of_char c + 32 :: nat) else c)"

definition upperChar :: "char \<Rightarrow> char" where
  "upperChar c = (if 97 \<le> (of_char c :: nat) \<and> (of_char c :: nat) \<le> 122 then char_of (of_char c - 32 :: nat) else c)"

definition toLower :: "string \<Rightarrow> string" where
  "toLower s = map lowerChar s"

definition toUpper :: "string \<Rightarrow> string" where
  "toUpper s = map upperChar s"

text \<open>\<open>strings.EqualFold\<close>.\<close>

definition equalFold :: "string \<Rightarrow> string \<Rightarrow> bool" where
  "equalFold s t \<longleftrightarrow> toLower s = toLower t"

text \<open>\<open>strings.Split\<close> by a one-byte separator.\<close>

fun splitChar :: "char \<Rightarrow> string \<Rightarrow> string list" where
  "splitChar c [] = [[]]"
| "splitChar c (x # xs) =
     (if x = c then [] # splitChar c xs
      else (case splitChar c xs of [] \<Rightarrow> [[x]] | w # ws \<Rightarrow> (x # w) # ws))"

text \<open>\<open>strings.Join\<close> with a one-byte separator.\<close>

fun joinChar :: "char \<Rightarrow> string list \<Rightarrow> string" where
  "joinChar c [] = []"
| "joinChar c [w] = w"
| "joinChar c (w # ws) = w @ c # joinChar c ws"

text \<open>\<open>strings.Cut\<close> at a one-byte separator: \<open>Some (before, after)\<close> when it occurs.\<close>

fun cutChar :: "char \<Rightarrow> string \<Rightarrow> (string \<times> string) option" where
  "cutChar c [] = None"
| "cutChar c (x # xs) =
     (if x = c then Some ([], xs)
      else (case cutChar c xs of None \<Rightarrow> None | Some (a, b) \<Rightarrow> Some (x # a, b)))"

text \<open>\<open>strings.Fields\<close>: the maximal runs without white space.\<close>

definition fields :: "string \<Rightarrow> string list" where
  "fields s = filter (\<lambda>w. w \<noteq> [])
     (splitChar CHR '' '' (map (\<lambda>c. if isSpace c then CHR '' '' else c) s))"

lemma strIndex_Some:
  "strIndex s sub = Some i \<Longrightarrow> s = take i s @ sub @ drop (i + length sub) s"
proof (induction s arbitrary: i)
  case Nil
  then show ?case by (simp split: if_splits)
next
  case (Cons c s)
  show ?case
  proof (cases "prefix sub (c # s)")
    case True
    with Cons.prems have "i = 0" by simp
    with True show ?thesis by (auto simp: prefix_def)
  next
    case False
    with Cons.prems obtain j where "strIndex s sub = Some j" and i: "i = Suc j"
      by auto
    then have "s = take j s @ sub @ drop (j + length sub) s" by (intro Cons.IH)
    with i show ?thesis by simp
  qed
qed

lemma strIndex_None_iff: "strIndex s sub = None \<longleftrightarrow> \<not> (\<exists>a b. s = a @ sub @ b)"
proof (induction s)
  case Nil
  then show ?case by simp
next
  case (Cons c s)
  have "(\<exists>a b. c # s = a @ sub @ b) \<longleftrightarrow> prefix sub (c # s) \<or> (\<exists>a b. s = a @ sub @ b)"
    (is "?l \<longleftrightarrow> ?r")
  proof
    assume ?l
    then obtain a b where ab: "c # s = a @ sub @ b" by blast
    then show ?r by (cases a) (auto simp: prefix_def)
  next
    assume ?r
    then show ?l
    proof
      assume "prefix sub (c # s)"
      then show ?l by (metis append_Nil prefix_def)
    next
      assume "\<exists>a b. s = a @ sub @ b"
      then show ?l by (metis append_Cons)
    qed
  qed
  with Cons.IH show ?case by simp
qed

lemma strContains_iff: "strContains s sub \<longleftrightarrow> (\<exists>a b. s = a @ sub @ b)"
  by (simp add: strContains_def strIndex_None_iff)

lemma splitChar_not_Nil [simp]: "splitChar c s \<noteq> []"
  by (induction s) (auto split: list.splits)

lemma joinChar_Cons: "ws \<noteq> [] \<Longrightarrow> joinChar c (w # ws) = w @ c # joinChar c ws"
  by (cases ws) auto

lemma joinChar_splitChar [go_lib]: "joinChar c (splitChar c s) = s"
proof (induction s)
  case Nil
  then show ?case by simp
next
  case (Cons x s)
  obtain w ws where w: "splitChar c s = w # ws" by (cases "splitChar c s") auto
  with Cons.IH show ?case by (cases ws) auto
qed

lemma splitChar_no_sep: "c \<notin> set s \<Longrightarrow> splitChar c s = [s]"
  by (induction s) auto

lemma splitChar_append_sep: "c \<notin> set w \<Longrightarrow> splitChar c (w @ c # s) = w # splitChar c s"
  by (induction w) auto

lemma splitChar_joinChar [go_lib]:
  "ws \<noteq> [] \<Longrightarrow> \<forall>w\<in>set ws. c \<notin> set w \<Longrightarrow> splitChar c (joinChar c ws) = ws"
proof (induction ws)
  case Nil
  then show ?case by simp
next
  case (Cons w ws)
  then show ?case
    by (cases "ws = []") (simp_all add: joinChar_Cons splitChar_no_sep splitChar_append_sep)
qed

lemma splitChar_no_sep_in: "w \<in> set (splitChar c s) \<Longrightarrow> c \<notin> set w"
proof (induction s arbitrary: w)
  case Nil
  then show ?case by simp
next
  case (Cons x s)
  obtain v vs where v: "splitChar c s = v # vs" by (cases "splitChar c s") auto
  with Cons show ?case by (auto split: if_splits)
qed

lemma cutChar_append: "c \<notin> set a \<Longrightarrow> cutChar c (a @ c # b) = Some (a, b)"
  by (induction a) auto

lemma cutChar_SomeD: "cutChar c s = Some (a, b) \<Longrightarrow> s = a @ c # b \<and> c \<notin> set a"
  by (induction s arbitrary: a) (auto split: if_splits option.splits)

lemma cutChar_Some: "cutChar c s = Some (a, b) \<longleftrightarrow> s = a @ c # b \<and> c \<notin> set a"
  using cutChar_append cutChar_SomeD by metis

lemma cutChar_None: "cutChar c s = None \<longleftrightarrow> c \<notin> set s"
  by (induction s) (auto split: option.splits)

section \<open>Package strconv\<close>

text \<open>\<open>strconv.Itoa\<close> on Go's \<open>int\<close> and \<open>strconv.Atoi\<close>, which returns the value and whether
  the conversion succeeded: a syntax error yields 0, a value outside the 64-bit range yields the
  nearest bound.\<close>

definition digitChar :: "nat \<Rightarrow> char" where
  "digitChar d = char_of (48 + d)"

definition digitVal :: "char \<Rightarrow> nat" where
  "digitVal c = of_char c - 48"

fun natDigits :: "nat \<Rightarrow> string" where
  "natDigits n = (if n < 10 then [digitChar n] else natDigits (n div 10) @ [digitChar (n mod 10)])"

declare natDigits.simps [simp del]

definition itoa :: "int \<Rightarrow> string" where
  "itoa i = (if i < 0 then CHR ''-'' # natDigits (nat (- i)) else natDigits (nat i))"

definition digitsVal :: "string \<Rightarrow> nat" where
  "digitsVal s = foldl (\<lambda>n c. 10 * n + digitVal c) 0 s"

definition maxInt64 :: int where "maxInt64 = 2 ^ 63 - 1"

definition minInt64 :: int where "minInt64 = - (2 ^ 63)"

definition atoi :: "string \<Rightarrow> int \<times> bool" where
  "atoi s =
     (let neg = prefix ''-'' s;
          body = (if neg \<or> prefix ''+'' s then tl s else s)
      in if body = [] \<or> \<not> list_all isDigit body then (0, False)
         else let v = (if neg then - int (digitsVal body) else int (digitsVal body))
              in if v > maxInt64 then (maxInt64, False)
                 else if v < minInt64 then (minInt64, False)
                 else (v, True))"

lemma isDigit_digitChar [simp]: "d < 10 \<Longrightarrow> isDigit (digitChar d)"
  by (simp add: isDigit_def digitChar_def of_char_of)

lemma digitVal_digitChar [simp]: "d < 10 \<Longrightarrow> digitVal (digitChar d) = d"
  by (simp add: digitVal_def digitChar_def of_char_of)

lemma natDigits_isDigit: "list_all isDigit (natDigits n)"
proof (induction n rule: natDigits.induct)
  case (1 n)
  then show ?case by (subst natDigits.simps) auto
qed

lemma natDigits_not_Nil [simp]: "natDigits n \<noteq> []"
  by (subst natDigits.simps) simp

lemma digitsVal_snoc [simp]: "digitsVal (s @ [c]) = 10 * digitsVal s + digitVal c"
  by (simp add: digitsVal_def)

lemma digitsVal_natDigits [simp]: "digitsVal (natDigits n) = n"
proof (induction n rule: natDigits.induct)
  case (1 n)
  show ?case
  proof (cases "n < 10")
    case True
    then show ?thesis by (simp add: natDigits.simps [of n] digitsVal_def)
  next
    case False
    with 1 have "digitsVal (natDigits (n div 10)) = n div 10" by simp
    with False show ?thesis by (simp add: natDigits.simps [of n])
  qed
qed

lemma natDigits_hd_digit: "natDigits n = c # s \<Longrightarrow> isDigit c"
  using natDigits_isDigit [of n] by simp

lemma natDigits_no_sign [simp]: "\<not> prefix ''-'' (natDigits n)" "\<not> prefix ''+'' (natDigits n)"
proof -
  obtain c s where c: "natDigits n = c # s" by (cases "natDigits n") auto
  with natDigits_hd_digit have "isDigit c" .
  then show "\<not> prefix ''-'' (natDigits n)" "\<not> prefix ''+'' (natDigits n)"
    by (auto simp: c isDigit_def)
qed

lemma atoi_itoa [go_lib]: "minInt64 \<le> i \<Longrightarrow> i \<le> maxInt64 \<Longrightarrow> atoi (itoa i) = (i, True)"
  by (simp add: atoi_def itoa_def natDigits_isDigit Let_def)

lemma itoa_inj: "itoa i = itoa j \<Longrightarrow> i = j"
proof -
  assume eq: "itoa i = itoa j"
  have d: "nat a = nat b" if "natDigits (nat a) = natDigits (nat b)" for a b :: int
    using that by (metis digitsVal_natDigits)
  have n: "CHR ''-'' # natDigits m \<noteq> natDigits k" for m k
    using natDigits_no_sign(1) [of k] by (metis Cons_prefix_Cons Nil_prefix)
  from eq show "i = j"
    using d [of i j] d [of "- i" "- j"] n [of "nat (- i)" "nat j"] n [of "nat (- j)" "nat i"]
    by (auto simp: itoa_def split: if_splits)
qed

section \<open>Interfaces\<close>

text \<open>
  A bounded buffer that keeps the newest \<open>cap\<close> elements of everything written to it. The
  agent has three: the per-job line ring, the output tail of a listing and the ring of terminated
  jobs. \<open>view\<close> is what a reader sees.
\<close>

locale tail_buffer =
  fixes cap :: nat
    and view :: "'b \<Rightarrow> 'a list"
    and push :: "'b \<Rightarrow> 'a list \<Rightarrow> 'b"
    and inv :: "'b \<Rightarrow> bool"
  assumes view_push: "inv b \<Longrightarrow> view (push b xs) = take_last cap (view b @ xs)"
    and inv_push: "inv b \<Longrightarrow> inv (push b xs)"
begin

lemma inv_pushes: "inv b \<Longrightarrow> inv (foldl push b xss)"
  by (induction xss arbitrary: b) (auto intro: inv_push)

lemma view_pushes:
  "inv b \<Longrightarrow> take_last cap (view b) = view b \<Longrightarrow> view (foldl push b xss) = take_last cap (view b @ concat xss)"
proof (induction xss arbitrary: b)
  case Nil
  then show ?case by simp
next
  case (Cons xs xss)
  have "view (foldl push (push b xs) xss) = take_last cap (view (push b xs) @ concat xss)"
    by (rule Cons.IH) (use Cons.prems in \<open>auto intro: inv_push simp: view_push\<close>)
  then show ?case using Cons.prems by (simp add: view_push)
qed

lemma view_pushes_bounded:
  "inv b \<Longrightarrow> length (view b) \<le> cap \<Longrightarrow> length (view (foldl push b xss)) \<le> cap"
  by (simp add: view_pushes)

end

text \<open>
  A keyed store with upsert semantics: the registry map and the SQLite tables written with
  \<open>INSERT .. ON CONFLICT DO UPDATE\<close>. The key of a record is computed from the record, \<open>val\<close>
  is what the store keeps of it, and \<open>look\<close> reads the store as a partial map.
\<close>

locale keyed_store =
  fixes look :: "'s \<Rightarrow> 'k \<Rightarrow> 'v option"
    and key :: "'r \<Rightarrow> 'k"
    and val :: "'r \<Rightarrow> 'v"
    and put :: "'r \<Rightarrow> 's \<Rightarrow> 's"
    and del :: "'k \<Rightarrow> 's \<Rightarrow> 's"
    and ok :: "'s \<Rightarrow> bool"
  assumes look_put: "ok s \<Longrightarrow> look (put r s) = (look s)(key r \<mapsto> val r)"
    and look_del: "ok s \<Longrightarrow> look (del k s) = (look s)(k := None)"
    and ok_put: "ok s \<Longrightarrow> ok (put r s)"
    and ok_del: "ok s \<Longrightarrow> ok (del k s)"
begin

lemma ok_puts: "ok s \<Longrightarrow> ok (fold put rs s)"
  by (induction rs arbitrary: s) (auto intro: ok_put)

lemma look_puts: "ok s \<Longrightarrow> look (fold put rs s) = look s ++ map_of (rev (map (\<lambda>r. (key r, val r)) rs))"
proof (induction rs arbitrary: s)
  case Nil
  then show ?case by simp
next
  case (Cons r rs)
  then show ?case by (simp add: look_put ok_put) (simp add: fun_upd_def)
qed

lemma ok_dels: "ok s \<Longrightarrow> ok (fold del ks s)"
  by (induction ks arbitrary: s) (auto intro: ok_del)

lemma look_dels: "ok s \<Longrightarrow> look (fold del ks s) = (look s) |` (- set ks)"
proof (induction ks arbitrary: s)
  case Nil
  then show ?case by (simp add: restrict_map_def)
next
  case (Cons k ks)
  then show ?case by (simp add: look_del ok_del) (auto simp: restrict_map_def fun_eq_iff)
qed

lemma look_put_del: "ok s \<Longrightarrow> look (del (key r) (put r s)) = (look s)(key r := None)"
  by (simp add: look_put look_del ok_put)

end

end
