(* ===== verification/Paths.thy ===== *)
theory Paths
  imports Prelude
begin

text \<open>
  Paths: \<open>filepath.Clean\<close> and \<open>filepath.Join\<close> on Unix, and the agent's containment tests
  built on them: \<open>pathInsideAny\<close> (init_handler.go), \<open>pathUnderAny\<close>, \<open>isDuplicacyWebCache\<close> and
  \<open>rewriteLegacyBackuproot\<close> (repos.go), \<open>pathUnderAny2\<close> (filters.go). The tests compare
  strings; the theorems say what they mean on path components. The locale \<open>path_guard\<close> is the
  contract the destructive handlers (delete, reconcile, restore) rely on.
\<close>

section \<open>Package path/filepath\<close>

definition sepChar :: char where "sepChar = CHR ''/''"

text \<open>\<open>Clean\<close> reads the components left to right and keeps the output components on a stack
  (innermost first).\<close>

definition cleanStep :: "bool \<Rightarrow> string list \<Rightarrow> string \<Rightarrow> string list" where
  "cleanStep rooted st c =
     (if c = [] \<or> c = ''.'' then st
      else if c = ''..'' then
        (case st of
           [] \<Rightarrow> if rooted then [] else [''..'']
         | t # ts \<Rightarrow> if t = ''..'' then ''..'' # t # ts else ts)
      else c # st)"

definition isAbs :: "string \<Rightarrow> bool" where
  "isAbs p \<longleftrightarrow> prefix ''/'' p"

definition cleanParts :: "string \<Rightarrow> string list" where
  "cleanParts p = rev (foldl (cleanStep (isAbs p)) [] (splitChar sepChar p))"

definition pathClean :: "string \<Rightarrow> string" where
  "pathClean p =
     (let body = joinChar sepChar (cleanParts p)
      in if isAbs p then sepChar # body else if body = [] then ''.'' else body)"

definition pathJoin :: "string list \<Rightarrow> string" where
  "pathJoin es =
     (let ne = dropWhile (\<lambda>e. e = []) es
      in if ne = [] then [] else pathClean (joinChar sepChar ne))"

text \<open>\<open>filepath.Base\<close>.\<close>

definition pathBase :: "string \<Rightarrow> string" where
  "pathBase p =
     (if p = [] then ''.''
      else let s = trimRightFunc p (\<lambda>c. c = CHR ''/'') in if s = [] then ''/'' else last (splitChar CHR ''/'' s))"

section \<open>Containment tests\<close>

definition insideRoot :: "string \<Rightarrow> string \<Rightarrow> bool" where
  "insideRoot path r \<longleftrightarrow>
     (let rc = pathClean r in path = rc \<or> hasPrefix path (rc @ [sepChar]))"

fun pathInsideAny :: "string \<Rightarrow> string list \<Rightarrow> bool" where
  "pathInsideAny path [] = False"
| "pathInsideAny path (r # roots) =
     (let rc = pathClean r
      in if path = rc then True
         else if hasPrefix path (rc @ [sepChar]) then True
         else pathInsideAny path roots)"

fun pathUnderAny :: "string \<Rightarrow> string list \<Rightarrow> bool" where
  "pathUnderAny path [] = False"
| "pathUnderAny path (p # pres) =
     (let pc = pathClean p
      in if path = pc \<or> hasPrefix path (pc @ [sepChar]) then True else pathUnderAny path pres)"

fun pathUnderAny2 :: "string list \<Rightarrow> string \<Rightarrow> bool" where
  "pathUnderAny2 [] pre = False"
| "pathUnderAny2 (p # paths) pre =
     (if p = pre \<or> hasPrefix p (pre @ [sepChar]) then True else pathUnderAny2 paths pre)"

definition isDuplicacyWebCache :: "string \<Rightarrow> bool" where
  "isDuplicacyWebCache path \<longleftrightarrow>
     (let marker = [sepChar] @ ''cache'' @ [sepChar] @ ''localhost''
      in hasSuffix path marker \<or> strContains path (marker @ [sepChar]))"

text \<open>\<open>rewriteLegacyBackuproot\<close> ranges over a Go map; the list is one iteration order of it.\<close>

definition legacyStep :: "string \<Rightarrow> string \<times> string \<Rightarrow> string \<times> string \<Rightarrow> string \<times> string" where
  "legacyStep path kv best =
     (let sc = pathClean (fst kv)
      in if path = sc \<or> hasPrefix path (sc @ [sepChar])
         then (if length sc > length (fst best) then (sc, pathClean (snd kv)) else best)
         else best)"

definition rewriteLegacyBackuproot :: "string \<Rightarrow> (string \<times> string) list \<Rightarrow> string" where
  "rewriteLegacyBackuproot path legacyMap =
     (if legacyMap = [] \<or> path = [] then path
      else let best = fold (legacyStep path) legacyMap ([], [])
           in if fst best = [] then path else snd best @ trimPrefix path (fst best))"

section \<open>Clean is a normal form\<close>

fun stackOk :: "bool \<Rightarrow> string list \<Rightarrow> bool" where
  "stackOk rooted [] = True"
| "stackOk rooted (c # st) \<longleftrightarrow>
     c \<noteq> [] \<and> c \<noteq> ''.'' \<and> sepChar \<notin> set c \<and>
     (c = ''..'' \<longrightarrow> \<not> rooted \<and> list_all (\<lambda>x. x = ''..'') st) \<and> stackOk rooted st"

lemma stackOk_cleanStep: "stackOk rooted st \<Longrightarrow> sepChar \<notin> set c \<Longrightarrow> stackOk rooted (cleanStep rooted st c)"
  by (auto simp: cleanStep_def split: list.splits)

lemma stackOk_foldl:
  "stackOk rooted st \<Longrightarrow> \<forall>c\<in>set cs. sepChar \<notin> set c \<Longrightarrow> stackOk rooted (foldl (cleanStep rooted) st cs)"
  by (induction cs arbitrary: st) (auto intro: stackOk_cleanStep)

lemma stackOk_cleanParts: "stackOk (isAbs p) (rev (cleanParts p))"
  by (auto simp: cleanParts_def intro!: stackOk_foldl dest: splitChar_no_sep_in)

lemma foldl_cleanStep_ok: "stackOk rooted st \<Longrightarrow> foldl (cleanStep rooted) [] (rev st) = st"
proof (induction st)
  case Nil
  then show ?case by simp
next
  case (Cons c st)
  then have "foldl (cleanStep rooted) [] (rev (c # st)) = cleanStep rooted st c" by simp
  also have "\<dots> = c # st"
    using Cons.prems by (cases st) (auto simp: cleanStep_def)
  finally show ?case .
qed

lemma stackOk_mem: "stackOk rooted st \<Longrightarrow> c \<in> set st \<Longrightarrow> c \<noteq> [] \<and> sepChar \<notin> set c"
  by (induction st) auto

lemma cleanParts_mem: "c \<in> set (cleanParts p) \<Longrightarrow> c \<noteq> [] \<and> sepChar \<notin> set c"
  using stackOk_mem [OF stackOk_cleanParts, of c p] by simp

lemma joinChar_eq_Nil: "\<forall>w\<in>set ws. w \<noteq> [] \<Longrightarrow> joinChar c ws = [] \<longleftrightarrow> ws = []"
  by (cases ws) (auto, metis joinChar.simps(2) joinChar_Cons append_is_Nil_conv)

lemma joinChar_hd: "\<forall>w\<in>set ws. w \<noteq> [] \<Longrightarrow> ws \<noteq> [] \<Longrightarrow> hd (joinChar c ws) = hd (hd ws)"
  by (cases ws; cases "tl ws") (auto simp: joinChar_Cons)

lemma isAbs_pathClean [simp]: "isAbs (pathClean p) = isAbs p"
proof (cases "cleanParts p = []")
  case True
  then show ?thesis by (simp add: pathClean_def isAbs_def sepChar_def)
next
  case False
  let ?b = "joinChar sepChar (cleanParts p)"
  have ne: "\<forall>w\<in>set (cleanParts p). w \<noteq> []" by (simp add: cleanParts_mem)
  with False have b: "?b \<noteq> []" by (simp add: joinChar_eq_Nil)
  have h: "hd (cleanParts p) \<in> set (cleanParts p)" using False by simp
  have "hd ?b = hd (hd (cleanParts p))" using ne False by (simp add: joinChar_hd)
  moreover have "hd (hd (cleanParts p)) \<in> set (hd (cleanParts p))" using ne h by simp
  ultimately have "hd ?b \<noteq> sepChar" using cleanParts_mem [OF h] by metis
  with b show ?thesis by (cases ?b) (auto simp: pathClean_def isAbs_def sepChar_def Let_def)
qed

lemma splitChar_pathClean:
  "cleanParts p \<noteq> [] \<Longrightarrow>
   splitChar sepChar (pathClean p) = (if isAbs p then [[]] else []) @ cleanParts p"
proof -
  assume ne: "cleanParts p \<noteq> []"
  then have "splitChar sepChar (joinChar sepChar (cleanParts p)) = cleanParts p"
    by (intro splitChar_joinChar) (auto dest: cleanParts_mem)
  moreover have "joinChar sepChar (cleanParts p) \<noteq> []"
    using ne by (subst joinChar_eq_Nil) (auto dest: cleanParts_mem)
  ultimately show ?thesis by (simp add: pathClean_def Let_def)
qed

lemma cleanStep_Nil [simp]: "cleanStep r st [] = st"
  by (simp add: cleanStep_def)

lemma cleanParts_pathClean [simp]: "cleanParts (pathClean p) = cleanParts p"
proof (cases "cleanParts p = []")
  case True
  then show ?thesis
    by (simp add: pathClean_def cleanParts_def [of "''.''"] cleanParts_def [of "''/''"] cleanStep_def sepChar_def)
next
  case False
  then show ?thesis
    using foldl_cleanStep_ok [OF stackOk_cleanParts [of p]]
    by (cases "isAbs p") (simp_all add: cleanParts_def [of "pathClean p"] splitChar_pathClean)
qed

lemma pathClean_idem: "pathClean (pathClean p) = pathClean p"
  by (simp add: pathClean_def [of "pathClean p"]) (simp add: pathClean_def Let_def)

lemma pathClean_eq_iff:
  "pathClean p = pathClean q \<longleftrightarrow> isAbs p = isAbs q \<and> cleanParts p = cleanParts q"
proof
  assume "pathClean p = pathClean q"
  then show "isAbs p = isAbs q \<and> cleanParts p = cleanParts q"
    by (metis isAbs_pathClean cleanParts_pathClean)
next
  assume "isAbs p = isAbs q \<and> cleanParts p = cleanParts q"
  then show "pathClean p = pathClean q" by (simp add: pathClean_def)
qed

lemma pathClean_abs: "isAbs p \<Longrightarrow> pathClean p = sepChar # joinChar sepChar (cleanParts p)"
  by (simp add: pathClean_def Let_def)

lemma cleanParts_abs_no_dots: "isAbs p \<Longrightarrow> c \<in> set (cleanParts p) \<Longrightarrow> c \<noteq> ''.'' \<and> c \<noteq> ''..''"
proof -
  assume "isAbs p" "c \<in> set (cleanParts p)"
  moreover have "stackOk True st \<Longrightarrow> x \<in> set st \<Longrightarrow> x \<noteq> ''.'' \<and> x \<noteq> ''..''" for st x
    by (induction st) auto
  ultimately show ?thesis using stackOk_cleanParts [of p] by (metis set_rev)
qed

section \<open>What the containment tests mean\<close>

text \<open>\<open>pathWithin r p\<close>: walking the components of \<open>r\<close> from the root of the file system
  and then some more ones gives \<open>p\<close>.\<close>

definition pathWithin :: "string \<Rightarrow> string \<Rightarrow> bool" where
  "pathWithin r p \<longleftrightarrow> isAbs r \<and> isAbs p \<and> prefix (cleanParts r) (cleanParts p)"

lemma joinChar_append: "xs \<noteq> [] \<Longrightarrow> ys \<noteq> [] \<Longrightarrow> joinChar c (xs @ ys) = joinChar c xs @ c # joinChar c ys"
proof (induction xs)
  case Nil
  then show ?case by simp
next
  case (Cons x xs)
  then show ?case by (cases "xs = []") (simp_all add: joinChar_Cons)
qed

lemma splitChar_append: "splitChar c (a @ c # b) = splitChar c a @ splitChar c b"
  by (induction a) (auto split: list.splits)

lemma joinChar_prefix_iff:
  assumes "rs \<noteq> []" "\<forall>w\<in>set rs. w \<noteq> [] \<and> c \<notin> set w" "\<forall>w\<in>set ps. w \<noteq> [] \<and> c \<notin> set w"
  shows "joinChar c ps = joinChar c rs \<or> prefix (joinChar c rs @ [c]) (joinChar c ps) \<longleftrightarrow> prefix rs ps"
    (is "?l \<longleftrightarrow> _")
proof
  have sr: "splitChar c (joinChar c rs) = rs" using assms by (intro splitChar_joinChar) auto
  have ne: "joinChar c rs \<noteq> []" using assms by (subst joinChar_eq_Nil) auto
  assume l: ?l
  with ne have "ps \<noteq> []" by auto
  then have sp: "splitChar c (joinChar c ps) = ps" using assms by (intro splitChar_joinChar) auto
  from l show "prefix rs ps"
  proof
    assume "joinChar c ps = joinChar c rs"
    with sr sp have "ps = rs" by simp
    then show "prefix rs ps" by simp
  next
    assume "prefix (joinChar c rs @ [c]) (joinChar c ps)"
    then obtain t where "joinChar c ps = joinChar c rs @ c # t" by (auto simp: prefix_def)
    with sr sp have "ps = rs @ splitChar c t" by (metis splitChar_append)
    then show "prefix rs ps" by (simp add: prefix_def)
  qed
next
  assume "prefix rs ps"
  then obtain qs where "ps = rs @ qs" by (auto simp: prefix_def)
  then show ?l using assms by (cases "qs = []") (auto simp: joinChar_append)
qed

lemma canonical_abs: "pathClean p = p \<Longrightarrow> isAbs p \<Longrightarrow> p = sepChar # joinChar sepChar (cleanParts p)"
  by (metis pathClean_abs)

lemma cleanParts_slash [simp]: "cleanParts ''/'' = []"
  by (simp add: cleanParts_def cleanStep_def sepChar_def)

lemma pathClean_slash_iff: "isAbs r \<Longrightarrow> pathClean r = ''/'' \<longleftrightarrow> cleanParts r = []"
  using cleanParts_pathClean [of r] by (auto simp: pathClean_abs sepChar_def)

lemma insideRoot_iff:
  assumes "pathClean p = p" "isAbs p" "isAbs r" "pathClean r \<noteq> ''/''"
  shows "insideRoot p r \<longleftrightarrow> pathWithin r p"
proof -
  let ?r = "joinChar sepChar (cleanParts r)" and ?p = "joinChar sepChar (cleanParts p)"
  have p: "p = sepChar # ?p" using assms by (simp add: canonical_abs)
  have "insideRoot p r \<longleftrightarrow> ?p = ?r \<or> prefix (?r @ [sepChar]) ?p"
    using assms p by (auto simp: insideRoot_def pathClean_abs Let_def) (metis Cons_prefix_Cons append_Cons)+
  also have "\<dots> \<longleftrightarrow> prefix (cleanParts r) (cleanParts p)"
    using assms by (intro joinChar_prefix_iff) (auto simp: pathClean_slash_iff dest: cleanParts_mem)
  finally show ?thesis using assms by (simp add: pathWithin_def)
qed

lemma insideRoot_slash: "pathClean p = p \<Longrightarrow> pathClean r = ''/'' \<Longrightarrow> insideRoot p r \<longleftrightarrow> p = ''/''"
proof -
  assume c: "pathClean p = p" and r: "pathClean r = ''/''"
  have "\<not> prefix ''//'' p"
  proof
    assume pre: "prefix ''//'' p"
    then have abs: "isAbs p" by (auto simp: isAbs_def prefix_def)
    let ?b = "joinChar sepChar (cleanParts p)"
    have pb: "p = sepChar # ?b" using c abs by (rule canonical_abs)
    then have "prefix [sepChar] ?b" using pre by (metis Cons_prefix_Cons sepChar_def)
    then have b: "?b \<noteq> []" "hd ?b = sepChar" by (cases ?b; auto)+
    then have ne: "cleanParts p \<noteq> []" by auto
    then have "hd ?b = hd (hd (cleanParts p))" by (intro joinChar_hd) (auto dest: cleanParts_mem)
    moreover have "hd (cleanParts p) \<in> set (cleanParts p)" using ne by simp
    ultimately show False using b cleanParts_mem [of "hd (cleanParts p)" p] by (metis list.set_sel(1))
  qed
  then show ?thesis using r by (simp add: insideRoot_def Let_def sepChar_def)
qed

lemma pathInsideAny_iff: "pathInsideAny p roots \<longleftrightarrow> (\<exists>r\<in>set roots. insideRoot p r)"
  by (induction roots) (auto simp: insideRoot_def Let_def)

lemma pathUnderAny_eq_pathInsideAny: "pathUnderAny p roots = pathInsideAny p roots"
  by (induction roots) (auto simp: Let_def)

lemma pathClean_not_Nil [simp]: "pathClean p \<noteq> []"
  by (simp add: pathClean_def Let_def)

lemma pathWithin_trans: "pathWithin r p \<Longrightarrow> pathWithin p q \<Longrightarrow> pathWithin r q"
  by (auto simp: pathWithin_def intro: prefix_order.trans)

lemma pathWithin_refl: "isAbs p \<Longrightarrow> pathWithin p p"
  by (simp add: pathWithin_def)

definition plainName :: "string \<Rightarrow> bool" where
  "plainName x \<longleftrightarrow> x \<noteq> [] \<and> x \<noteq> ''.'' \<and> x \<noteq> ''..'' \<and> sepChar \<notin> set x"

lemma pathJoin_child:
  assumes "p \<noteq> []" "plainName x"
  shows "cleanParts (pathJoin [p, x]) = cleanParts p @ [x]" "isAbs (pathJoin [p, x]) = isAbs p"
    "pathClean (pathJoin [p, x]) = pathJoin [p, x]"
proof -
  have j: "pathJoin [p, x] = pathClean (p @ sepChar # x)" using assms by (simp add: pathJoin_def)
  have a: "isAbs (p @ sepChar # x) = isAbs p" using assms by (cases p) (auto simp: isAbs_def)
  have "splitChar sepChar (p @ sepChar # x) = splitChar sepChar p @ [x]"
    using assms by (simp add: splitChar_append splitChar_no_sep plainName_def)
  then have "cleanParts (p @ sepChar # x) = cleanParts p @ [x]"
    using assms by (simp add: cleanParts_def a) (simp add: cleanStep_def plainName_def)
  with j a show "cleanParts (pathJoin [p, x]) = cleanParts p @ [x]" "isAbs (pathJoin [p, x]) = isAbs p"
    "pathClean (pathJoin [p, x]) = pathJoin [p, x]"
    by (simp_all add: pathClean_idem)
qed

section \<open>The guard interface\<close>

text \<open>
  The contract of a containment test over a list of configured roots. Its soundness half is what
  the destructive operations rely on: whatever lies below a path that passed the test lies below
  one of the roots.
\<close>

locale path_guard =
  fixes guard :: "string \<Rightarrow> string list \<Rightarrow> bool"
  assumes guard_sound:
      "pathClean p = p \<Longrightarrow> isAbs p \<Longrightarrow> \<forall>r\<in>set roots. isAbs r \<Longrightarrow> guard p roots \<Longrightarrow>
       \<exists>r\<in>set roots. pathWithin r p"
    and guard_complete:
      "pathClean p = p \<Longrightarrow> r \<in> set roots \<Longrightarrow> pathClean r \<noteq> ''/'' \<Longrightarrow> pathWithin r p \<Longrightarrow> guard p roots"
begin

lemma guard_below:
  assumes "pathClean p = p" "isAbs p" "\<forall>r\<in>set roots. isAbs r" "guard p roots" "plainName x"
    "pathWithin (pathJoin [p, x]) q"
  shows "\<exists>r\<in>set roots. pathWithin r q"
proof -
  have ne: "p \<noteq> []" using assms(2) by (auto simp: isAbs_def)
  obtain r where r: "r \<in> set roots" "pathWithin r p" using guard_sound [OF assms(1-4)] by blast
  have "pathWithin p (pathJoin [p, x])"
    using assms(2,5) ne by (simp add: pathWithin_def pathJoin_child)
  with r assms(6) show ?thesis by (meson pathWithin_trans)
qed

lemma guard_closed:
  "pathClean p = p \<Longrightarrow> isAbs p \<Longrightarrow> \<forall>r\<in>set roots. isAbs r \<and> pathClean r \<noteq> ''/'' \<Longrightarrow> guard p roots \<Longrightarrow>
   pathClean q = q \<Longrightarrow> pathWithin p q \<Longrightarrow> guard q roots"
  using guard_sound guard_complete pathWithin_trans by meson

end

lemma pathInsideAny_sound:
  "pathClean p = p \<Longrightarrow> isAbs p \<Longrightarrow> \<forall>r\<in>set roots. isAbs r \<Longrightarrow> pathInsideAny p roots \<Longrightarrow>
   \<exists>r\<in>set roots. pathWithin r p"
proof -
  assume p: "pathClean p = p" "isAbs p" and rs: "\<forall>r\<in>set roots. isAbs r" and "pathInsideAny p roots"
  then obtain r where r: "r \<in> set roots" "insideRoot p r" by (auto simp: pathInsideAny_iff)
  have "pathWithin r p"
  proof (cases "pathClean r = ''/''")
    case True
    then show ?thesis using p rs r by (auto simp: insideRoot_slash pathWithin_def pathClean_slash_iff)
  next
    case False
    then show ?thesis using p rs r by (simp add: insideRoot_iff)
  qed
  with r show ?thesis by blast
qed

lemma pathInsideAny_complete:
  "pathClean p = p \<Longrightarrow> r \<in> set roots \<Longrightarrow> pathClean r \<noteq> ''/'' \<Longrightarrow> pathWithin r p \<Longrightarrow> pathInsideAny p roots"
proof -
  assume a: "pathClean p = p" "r \<in> set roots" "pathClean r \<noteq> ''/''" "pathWithin r p"
  then have "isAbs p" "isAbs r" by (simp_all add: pathWithin_def)
  with a have "insideRoot p r" by (simp add: insideRoot_iff)
  with a show ?thesis by (auto simp: pathInsideAny_iff)
qed

interpretation inside: path_guard pathInsideAny
  by unfold_locales (blast intro: pathInsideAny_sound pathInsideAny_complete)+

interpretation under: path_guard pathUnderAny
  by unfold_locales
    (auto simp: pathUnderAny_eq_pathInsideAny intro: pathInsideAny_sound pathInsideAny_complete)

section \<open>Longest match of the legacy map\<close>

definition legacyMatch :: "string \<Rightarrow> string \<times> string \<Rightarrow> bool" where
  "legacyMatch path kv \<longleftrightarrow> insideRoot path (fst kv)"

definition legacyBest :: "string \<Rightarrow> (string \<times> string) set \<Rightarrow> string \<times> string \<Rightarrow> bool" where
  "legacyBest path S best \<longleftrightarrow>
     (if \<exists>kv\<in>S. legacyMatch path kv
      then \<exists>kv\<in>S. legacyMatch path kv \<and> best = (pathClean (fst kv), pathClean (snd kv)) \<and>
             (\<forall>kv'\<in>S. legacyMatch path kv' \<longrightarrow> length (pathClean (fst kv')) \<le> length (fst best))
      else best = ([], []))"

lemma legacyStep_best: "legacyBest path S best \<Longrightarrow> legacyBest path (insert kv S) (legacyStep path kv best)"
proof (cases "legacyMatch path kv")
  case False
  assume b: "legacyBest path S best"
  have "legacyStep path kv best = best" using False by (auto simp: legacyStep_def legacyMatch_def insideRoot_def Let_def)
  with b False show ?thesis by (auto simp: legacyBest_def split: if_splits)
next
  case True
  assume b: "legacyBest path S best"
  show ?thesis
  proof (cases "length (pathClean (fst kv)) > length (fst best)")
    case True
    then have st: "legacyStep path kv best = (pathClean (fst kv), pathClean (snd kv))"
      using \<open>legacyMatch path kv\<close> by (auto simp: legacyStep_def legacyMatch_def insideRoot_def Let_def)
    have "\<forall>kv'\<in>S. legacyMatch path kv' \<longrightarrow> length (pathClean (fst kv')) \<le> length (pathClean (fst kv))"
      using b True by (fastforce simp: legacyBest_def split: if_splits)
    with st \<open>legacyMatch path kv\<close> show ?thesis by (auto simp: legacyBest_def)
  next
    case False
    then have st: "legacyStep path kv best = best"
      using \<open>legacyMatch path kv\<close> by (auto simp: legacyStep_def Let_def)
    have "fst best \<noteq> []" using False by auto
    then have "\<exists>kv\<in>S. legacyMatch path kv" using b by (auto simp: legacyBest_def split: if_splits)
    with b False show ?thesis unfolding st by (auto simp: legacyBest_def split: if_splits)
  qed
qed

lemma fold_legacyStep_best:
  "legacyBest path S best \<Longrightarrow> legacyBest path (S \<union> set m) (fold (legacyStep path) m best)"
proof (induction m arbitrary: S best)
  case Nil
  then show ?case by simp
next
  case (Cons kv m)
  have "legacyBest path (insert kv S \<union> set m) (fold (legacyStep path) m (legacyStep path kv best))"
    by (rule Cons.IH) (rule legacyStep_best [OF Cons.prems])
  then show ?case by simp
qed

lemma legacyMatch_prefix: "legacyMatch path kv \<Longrightarrow> prefix (pathClean (fst kv)) path"
  by (auto simp: legacyMatch_def insideRoot_def Let_def prefix_def)

section \<open>Properties\<close>

text \<open>C37. On a canonical absolute path and absolute roots other than the file-system root,
  \<open>pathInsideAny\<close> decides containment component by component: the path is one of the roots or
  lies below one. A sibling whose name merely starts with a root's name is not inside.\<close>

theorem pathInsideAny_components:
  assumes "pathClean p = p" "isAbs p" "\<forall>r\<in>set roots. isAbs r \<and> pathClean r \<noteq> ''/''"
  shows "pathInsideAny p roots \<longleftrightarrow> (\<exists>r\<in>set roots. prefix (cleanParts r) (cleanParts p))"
proof -
  have abs: "\<forall>r\<in>set roots. isAbs r" using assms by simp
  have "pathInsideAny p roots \<longleftrightarrow> (\<exists>r\<in>set roots. pathWithin r p)"
    using inside.guard_sound [OF assms(1,2) abs] inside.guard_complete [OF assms(1)] assms(3) by blast
  with assms show ?thesis by (auto simp: pathWithin_def)
qed

theorem pathInsideAny_components_witness:
  "pathInsideAny ''/data/a'' [''/srv'', ''/data//''] \<and> \<not> pathInsideAny ''/database'' [''/srv'', ''/data//'']"
proof -
  have c: "pathClean ''/data/a'' = ''/data/a''" "pathClean ''/database'' = ''/database''" by code_simp+
  have a: "isAbs ''/data/a''" "isAbs ''/database''" by code_simp+
  have r: "\<forall>r\<in>set [''/srv'', ''/data//'']. isAbs r \<and> pathClean r \<noteq> ''/''" by code_simp
  have "\<exists>r\<in>set [''/srv'', ''/data//'']. prefix (cleanParts r) (cleanParts ''/data/a'')" by code_simp
  moreover have "\<not> (\<exists>r\<in>set [''/srv'', ''/data//'']. prefix (cleanParts r) (cleanParts ''/database''))"
    by code_simp
  ultimately show ?thesis
    using pathInsideAny_components [OF c(1) a(1) r] pathInsideAny_components [OF c(2) a(2) r] by simp
qed

text \<open>A configured root that cleans to \<open>/\<close> contains only the file-system root itself:
  the test looks for the prefix \<open>//\<close>, which no canonical path has.\<close>

theorem pathInsideAny_slash_root:
  assumes "pathClean p = p" "\<forall>r\<in>set roots. pathClean r = ''/''" "p \<noteq> ''/''"
  shows "\<not> pathInsideAny p roots"
  using assms by (auto simp: pathInsideAny_iff insideRoot_slash)

theorem pathInsideAny_slash_root_witness: "\<not> pathInsideAny ''/data'' [''/'']"
proof -
  have "pathClean ''/data'' = ''/data''" "\<forall>r\<in>set [''/'']. pathClean r = ''/''" by code_simp+
  then show ?thesis by (intro pathInsideAny_slash_root) simp_all
qed

text \<open>\<open>rewriteLegacyBackuproot\<close> replaces the longest synthetic prefix of the path that the
  map has by its host path, whatever the order in which the Go map is iterated, as long as no two
  synthetic keys clean to the same path.\<close>

theorem rewriteLegacyBackuproot_longest:
  assumes inj: "inj_on (\<lambda>kv. pathClean (fst kv)) (set m)" and mem: "(s, h) \<in> set m"
    and match: "path = pathClean s \<or> hasPrefix path (pathClean s @ [sepChar])"
    and longest: "\<forall>kv\<in>set m. path = pathClean (fst kv) \<or> hasPrefix path (pathClean (fst kv) @ [sepChar]) \<longrightarrow>
      length (pathClean (fst kv)) \<le> length (pathClean s)"
  shows "rewriteLegacyBackuproot path m = pathClean h @ drop (length (pathClean s)) path"
proof -
  let ?b = "fold (legacyStep path) m ([], [])"
  have m1: "legacyMatch path (s, h)" using match by (simp add: legacyMatch_def insideRoot_def Let_def)
  have "legacyBest path {} ([], [])" by (simp add: legacyBest_def)
  then have "legacyBest path (set m) ?b" using fold_legacyStep_best [of path "{}" _ m] by simp
  then obtain kv where kv: "kv \<in> set m" "legacyMatch path kv" "?b = (pathClean (fst kv), pathClean (snd kv))"
      "length (pathClean s) \<le> length (pathClean (fst kv))"
    using mem m1 by (force simp: legacyBest_def split: if_splits)
  then have "length (pathClean (fst kv)) = length (pathClean s)"
    using longest by (force simp: legacyMatch_def insideRoot_def Let_def)
  then have "pathClean (fst kv) = pathClean s"
    using legacyMatch_prefix [OF m1] legacyMatch_prefix [OF kv(2)] by (auto simp: prefix_def append_eq_append_conv)
  then have "kv = (s, h)" using inj mem kv(1) by (force simp: inj_on_def)
  moreover have "path \<noteq> []" using match by (metis pathClean_not_Nil prefix_Nil append_is_Nil_conv)
  ultimately show ?thesis
    using kv(3) mem legacyMatch_prefix [OF m1] by (auto simp: rewriteLegacyBackuproot_def Let_def trimPrefix_def)
qed

theorem rewriteLegacyBackuproot_longest_witness:
  "rewriteLegacyBackuproot ''/backuproot/path1/x/f'' [(''/backuproot/path1'', ''/home''), (''/backuproot/path1/x'', ''/srv/x'')]
     = ''/srv/x/f''"
proof -
  let ?m = "[(''/backuproot/path1'', ''/home''), (''/backuproot/path1/x'', ''/srv/x'')]"
  have c: "pathClean ''/backuproot/path1'' = ''/backuproot/path1''" "pathClean ''/backuproot/path1/x'' = ''/backuproot/path1/x''"
    "pathClean ''/srv/x'' = ''/srv/x''" by code_simp+
  have "rewriteLegacyBackuproot ''/backuproot/path1/x/f'' ?m
      = pathClean ''/srv/x'' @ drop (length (pathClean ''/backuproot/path1/x'')) ''/backuproot/path1/x/f''"
    by (rule rewriteLegacyBackuproot_longest) (simp_all add: c sepChar_def inj_on_def)
  then show ?thesis by (simp add: c)
qed

end
