(* ===== verification/Repos.thy ===== *)
theory Repos
  imports Paths "HOL-Library.AList" "HOL-Library.Multiset"
begin

text \<open>
  The repo registry (repos_mapping.go) and the repo index built from it (repos.go).

  A Go map is an association list with distinct keys; its order stands for one of the iteration
  orders Go may choose, and the theorems about \<open>mappingList\<close>, \<open>indexList\<close> and
  \<open>getBySnapshotID\<close> show that no result depends on it. A JSON file is modelled by what
  \<open>os.ReadFile\<close> followed by \<open>json.Unmarshal\<close> makes of it. The SHA-1 digest is the argument
  \<open>sha\<close>: nothing below depends on more than its being a function, and where two paths must have
  different ids this is a hypothesis.
\<close>

section \<open>Disk\<close>

record rawPreference =
  pName :: string
  pSnapshotID :: string
  pRepositoryPath :: string
  pStorageURL :: string
  pEncrypted :: bool
  pBackupProhibited :: bool
  pRestoreProhibited :: bool
  pDoNotSavePassword :: bool
  pNobackupFile :: string
  pKeys :: "(string \<times> string) list"
  pFiltersFile :: string
  pExcludeByAttr :: bool

text \<open>A node of the file system: a directory, or a file with the preferences entries it decodes
  to (\<open>None\<close> when it is not such a document).\<close>

datatype fsNode = DirNode | FileNode "rawPreference list option"

text \<open>\<open>ioErr\<close> lists the paths whose access fails with an error other than \<open>ErrNotExist\<close>,
  \<open>rmErr\<close> the entries whose removal fails.\<close>

record disk =
  entries :: "(string \<times> fsNode) list"
  ioErr :: "string list"
  rmErr :: "string list"

datatype statResult = StatOk fsNode | StatNotExist | StatErr

definition osStat :: "disk \<Rightarrow> string \<Rightarrow> statResult" where
  "osStat d p =
     (if p \<in> set (ioErr d) then StatErr
      else case map_of (entries d) p of None \<Rightarrow> StatNotExist | Some n \<Rightarrow> StatOk n)"

text \<open>\<open>os.RemoveAll\<close> removes everything it can and returns an error if something is left: an entry
  stays when it, or an entry below it, cannot be removed.\<close>

definition rmBlocked :: "disk \<Rightarrow> string \<Rightarrow> bool" where
  "rmBlocked d q \<longleftrightarrow> list_ex (\<lambda>(x, _). pathWithin q x \<and> x \<in> set (rmErr d)) (entries d)"

definition removeAll :: "string \<Rightarrow> disk \<Rightarrow> bool \<times> disk" where
  "removeAll t d =
     (list_ex (\<lambda>(q, _). pathWithin t q \<and> q \<in> set (rmErr d)) (entries d),
      d\<lparr>entries := filter (\<lambda>(q, _). \<not> pathWithin t q \<or> rmBlocked d q) (entries d)\<rparr>)"

section \<open>The registry\<close>

record RepoStorageMapping =
  smStorageAlias :: string
  smCredentialID :: string
  smStorageType :: string
  smIsPrimary :: bool

record RepoMapping =
  mRepoPath :: string
  mRepoID :: string
  mUUID :: string
  mStorages :: "RepoStorageMapping list"
  mRegisteredAt :: go_time

datatype mappingFile = NoFile | EmptyFile | Unreadable | Malformed | Entries "RepoMapping list"

record repoMappingStore =
  byID :: "(string \<times> RepoMapping) list"
  storeFile :: mappingFile
  storeFault :: bool  \<comment> \<open>writing the temporary file or the rename fails\<close>

definition hexDigit :: "nat \<Rightarrow> char" where
  "hexDigit d = (if d < 10 then char_of (48 + d) else char_of (87 + d))"

definition hexEncode :: "string \<Rightarrow> string" where
  "hexEncode s = concat (map (\<lambda>c. [hexDigit (of_char c div 16), hexDigit (of_char c mod 16)]) s)"

definition repoIDFromPath :: "(string \<Rightarrow> string) \<Rightarrow> string \<Rightarrow> string" where
  "repoIDFromPath sha p = take 12 (hexEncode (sha (pathClean p)))"

definition newRepoMappingStore :: "mappingFile \<Rightarrow> bool \<Rightarrow> repoMappingStore" where
  "newRepoMappingStore f fault = \<lparr>byID = [], storeFile = f, storeFault = fault\<rparr>"

text \<open>\<open>load\<close>: \<open>Inl ()\<close> is the error the caller treats as fatal.\<close>

definition mappingLoad :: "(string \<Rightarrow> string) \<Rightarrow> repoMappingStore \<Rightarrow> unit + repoMappingStore" where
  "mappingLoad sha s =
     (case storeFile s of
        NoFile \<Rightarrow> Inr s
      | Unreadable \<Rightarrow> Inl ()
      | EmptyFile \<Rightarrow> Inr s
      | Malformed \<Rightarrow> Inl ()
      | Entries es \<Rightarrow>
          Inr (s\<lparr>byID := fold (\<lambda>e m. AList.update (repoIDFromPath sha (mRepoPath e)) e m) es []\<rparr>))"

text \<open>\<open>persist\<close> returns whether it failed; it writes the values of the map.\<close>

definition persist :: "repoMappingStore \<Rightarrow> bool \<times> repoMappingStore" where
  "persist s =
     (if storeFault s then (True, s)
      else (False, s\<lparr>storeFile := Entries (map snd (byID s))\<rparr>))"

definition upsert :: "(string \<Rightarrow> string) \<Rightarrow> int \<Rightarrow> RepoMapping \<Rightarrow> repoMappingStore \<Rightarrow> bool \<times> repoMappingStore" where
  "upsert sha now m s =
     (let m' = (if mRegisteredAt m = None then m\<lparr>mRegisteredAt := Some now\<rparr> else m)
      in persist (s\<lparr>byID := AList.update (repoIDFromPath sha (mRepoPath m)) m' (byID s)\<rparr>))"

definition mappingDelete :: "(string \<Rightarrow> string) \<Rightarrow> string \<Rightarrow> repoMappingStore \<Rightarrow> bool \<times> repoMappingStore" where
  "mappingDelete sha p s = persist (s\<lparr>byID := AList.delete (repoIDFromPath sha p) (byID s)\<rparr>)"

definition mappingGet :: "repoMappingStore \<Rightarrow> string \<Rightarrow> RepoMapping option" where
  "mappingGet s repoID = map_of (byID s) repoID"

definition getByPath :: "(string \<Rightarrow> string) \<Rightarrow> repoMappingStore \<Rightarrow> string \<Rightarrow> RepoMapping option" where
  "getByPath sha s p = mappingGet s (repoIDFromPath sha p)"

text \<open>\<open>list\<close>: the hand-written insertion sort, on indices as in the code.\<close>

definition swapAt :: "nat \<Rightarrow> 'a list \<Rightarrow> 'a list" where
  "swapAt j xs = xs[j - 1 := xs ! j, j := xs ! (j - 1)]"

fun sinkDown :: "('a \<Rightarrow> string) \<Rightarrow> nat \<Rightarrow> 'a list \<Rightarrow> 'a list" where
  "sinkDown key 0 out = out"
| "sinkDown key (Suc j) out =
     (if key (out ! j) > key (out ! Suc j) then sinkDown key j (swapAt (Suc j) out) else out)"

definition insertionSort :: "('a \<Rightarrow> string) \<Rightarrow> 'a list \<Rightarrow> 'a list" where
  "insertionSort key out = fold (sinkDown key) [1..<length out] out"

definition mappingList :: "repoMappingStore \<Rightarrow> RepoMapping list" where
  "mappingList s = insertionSort mRepoPath (map snd (byID s))"

section \<open>The index\<close>

record Storage =
  sName :: string
  sURL :: string
  sEncrypted :: bool
  sNoBackup :: bool
  sNoRestore :: bool
  sFiltersFile :: string
  sConfiguredKeys :: "string list"

record Repo =
  rID :: string
  rPath :: string
  rHostPath :: string
  rSnapshotID :: string
  rStorages :: "Storage list"
  rHasFilters :: bool
  rLastScannedAt :: go_time
  rSourcePath :: string
  rSourceHostPath :: string
  rLastBackupAt :: go_time

record repoIndex =
  legacyBackuprootMap :: "(string \<times> string) list"
  ixRepos :: "(string \<times> Repo) list"
  lastScanned :: go_time

definition newRepoIndex :: "(string \<times> string) list \<Rightarrow> repoIndex" where
  "newRepoIndex legacy = \<lparr>legacyBackuprootMap = legacy, ixRepos = [], lastScanned = None\<rparr>"

definition repoScanTTL :: int where "repoScanTTL = 30 * 1000000000"

definition fileExists :: "disk \<Rightarrow> string \<Rightarrow> bool" where
  "fileExists d p = (case osStat d p of StatOk n \<Rightarrow> n \<noteq> DirNode | _ \<Rightarrow> False)"

datatype loadErr = ErrNotExist | ErrOther

definition readPreferences :: "disk \<Rightarrow> string \<Rightarrow> loadErr + rawPreference list" where
  "readPreferences d p =
     (case osStat d p of
        StatNotExist \<Rightarrow> Inl ErrNotExist
      | StatErr \<Rightarrow> Inl ErrOther
      | StatOk DirNode \<Rightarrow> Inl ErrOther
      | StatOk (FileNode None) \<Rightarrow> Inl ErrOther
      | StatOk (FileNode (Some raws)) \<Rightarrow> Inr raws)"

definition storageOf :: "rawPreference \<Rightarrow> Storage" where
  "storageOf p =
     \<lparr>sName = pName p, sURL = pStorageURL p, sEncrypted = pEncrypted p,
      sNoBackup = pBackupProhibited p, sNoRestore = pRestoreProhibited p,
      sFiltersFile = pFiltersFile p, sConfiguredKeys = sort (map fst (pKeys p))\<rparr>"

definition trimRightSlash :: "string \<Rightarrow> string" where
  "trimRightSlash s = trimRightFunc s (\<lambda>c. c = sepChar)"

definition loadRepo :: "(string \<Rightarrow> string) \<Rightarrow> int \<Rightarrow> disk \<Rightarrow> (string \<times> string) list \<Rightarrow> string \<Rightarrow> loadErr + Repo" where
  "loadRepo sha now d legacy repoRoot =
     (case readPreferences d (pathJoin [repoRoot, ''.duplicacy'', ''preferences'']) of
        Inl e \<Rightarrow> Inl e
      | Inr [] \<Rightarrow> Inl ErrOther
      | Inr (r0 # raws) \<Rightarrow>
          let sp0 = trimRightSlash (pRepositoryPath r0);
              sp = (if sp0 = [] \<or> sp0 = ''/'' then repoRoot
                    else rewriteLegacyBackuproot (pathClean sp0) legacy)
          in Inr \<lparr>rID = repoIDFromPath sha repoRoot, rPath = repoRoot, rHostPath = repoRoot,
                  rSnapshotID = pSnapshotID r0, rStorages = map storageOf (r0 # raws),
                  rHasFilters = fileExists d (pathJoin [repoRoot, ''.duplicacy'', ''filters'']),
                  rLastScannedAt = Some now, rSourcePath = sp, rSourceHostPath = sp,
                  rLastBackupAt = None\<rparr>)"

definition scanStep :: "(string \<Rightarrow> string) \<Rightarrow> int \<Rightarrow> disk \<Rightarrow> (string \<times> string) list \<Rightarrow> RepoMapping \<Rightarrow>
    (string \<times> Repo) list \<Rightarrow> (string \<times> Repo) list" where
  "scanStep sha now d legacy m found =
     (let repoRoot = pathClean (mRepoPath m)
      in if isDuplicacyWebCache repoRoot then found
         else case loadRepo sha now d legacy repoRoot of
                Inl _ \<Rightarrow> found
              | Inr repo \<Rightarrow> AList.update (rID repo) repo found)"

definition scanLocked :: "(string \<Rightarrow> string) \<Rightarrow> int \<Rightarrow> disk \<Rightarrow> repoMappingStore \<Rightarrow> repoIndex \<Rightarrow> repoIndex" where
  "scanLocked sha now d s ix =
     ix\<lparr>ixRepos := fold (scanStep sha now d (legacyBackuprootMap ix)) (mappingList s) [],
        lastScanned := Some now\<rparr>"

definition scan :: "(string \<Rightarrow> string) \<Rightarrow> int \<Rightarrow> disk \<Rightarrow> repoMappingStore \<Rightarrow> repoIndex \<Rightarrow> repoIndex" where
  "scan sha now d s ix =
     (case lastScanned ix of
        Some t \<Rightarrow> if now - t < repoScanTTL then ix else scanLocked sha now d s ix
      | None \<Rightarrow> scanLocked sha now d s ix)"

definition indexList :: "repoIndex \<Rightarrow> Repo list" where
  "indexList ix = sort_key rPath (map snd (ixRepos ix))"

definition indexGet :: "repoIndex \<Rightarrow> string \<Rightarrow> Repo option" where
  "indexGet ix i = map_of (ixRepos ix) i"

definition snapStep :: "string \<Rightarrow> Repo \<Rightarrow> Repo option \<Rightarrow> Repo option" where
  "snapStep snapID rp best =
     (if rSnapshotID rp \<noteq> snapID then best
      else case best of
             None \<Rightarrow> Some rp
           | Some b \<Rightarrow> if rPath rp < rPath b then Some rp else best)"

definition getBySnapshotID :: "repoIndex \<Rightarrow> string \<Rightarrow> Repo option" where
  "getBySnapshotID ix snapID =
     (if snapID = [] then None else fold (snapStep snapID) (map snd (ixRepos ix)) None)"

datatype 'a httpResult = HttpOk 'a | HttpError nat

definition handleListRepos :: "(string \<Rightarrow> string) \<Rightarrow> int \<Rightarrow> disk \<Rightarrow> repoMappingStore \<Rightarrow> repoIndex \<Rightarrow>
    Repo list httpResult \<times> repoIndex" where
  "handleListRepos sha now d s ix = (let ix' = scan sha now d s ix in (HttpOk (indexList ix'), ix'))"

definition redactKeys :: "rawPreference \<Rightarrow> rawPreference" where
  "redactKeys p = p\<lparr>pKeys := map (\<lambda>(k, _). (k, ''<configured>'')) (pKeys p)\<rparr>"

definition handleGetPreferences :: "disk \<Rightarrow> repoIndex \<Rightarrow> string \<Rightarrow> rawPreference list httpResult" where
  "handleGetPreferences d ix i =
     (case indexGet ix i of
        None \<Rightarrow> HttpError 404
      | Some repo \<Rightarrow>
          (case readPreferences d (pathJoin [rPath repo, ''.duplicacy'', ''preferences'']) of
             Inl _ \<Rightarrow> HttpError 500
           | Inr raws \<Rightarrow> HttpOk (map redactKeys raws)))"

section \<open>Facts: sorting\<close>

fun insRev :: "('a \<Rightarrow> string) \<Rightarrow> 'a \<Rightarrow> 'a list \<Rightarrow> 'a list" where
  "insRev key x [] = [x]"
| "insRev key x (y # rs) = (if key y > key x then y # insRev key x rs else x # y # rs)"

lemma sinkDown_insRev:
  "sinkDown key (length rs) (rev rs @ x # zs) = rev (insRev key x rs) @ zs"
proof (induction rs arbitrary: zs)
  case Nil
  then show ?case by simp
next
  case (Cons y rs)
  have "swapAt (Suc (length rs)) (rev (y # rs) @ x # zs) = rev rs @ x # y # zs"
    by (simp add: swapAt_def nth_append list_update_append)
  then show ?case using Cons.IH [of "y # zs"] by (simp add: nth_append)
qed

lemma length_insRev [simp]: "length (insRev key x rs) = Suc (length rs)"
  by (induction rs) auto

lemma fold_sinkDown:
  "fold (sinkDown key) [length rs..<length rs + length zs] (rev rs @ zs) = rev (fold (insRev key) zs rs)"
proof (induction zs arbitrary: rs)
  case Nil
  then show ?case by simp
next
  case (Cons z zs)
  have "fold (sinkDown key) [length rs..<length rs + length (z # zs)] (rev rs @ z # zs)
      = fold (sinkDown key) [length (insRev key z rs)..<length (insRev key z rs) + length zs]
          (rev (insRev key z rs) @ zs)"
    by (simp add: upt_conv_Cons sinkDown_insRev del: upt_Suc)
  also have "\<dots> = rev (fold (insRev key) zs (insRev key z rs))" by (rule Cons.IH)
  finally show ?case by (simp only: fold_simps)
qed

lemma insertionSort_insRev: "insertionSort key xs = rev (fold (insRev key) xs [])"
proof (cases xs)
  case Nil
  then show ?thesis by (simp add: insertionSort_def)
next
  case (Cons x ys)
  then show ?thesis
    using fold_sinkDown [of key "[x]" ys] by (simp add: insertionSort_def)
qed

lemma mset_fold_insRev: "mset (fold (insRev key) xs rs) = mset xs + mset rs"
proof -
  have "mset (insRev key x rs) = add_mset x (mset rs)" for x rs by (induction rs) auto
  then show ?thesis by (induction xs arbitrary: rs) auto
qed

lemma sorted_insRev: "sorted_wrt (\<lambda>a b. key b \<le> key a) rs \<Longrightarrow> sorted_wrt (\<lambda>a b. key b \<le> key a) (insRev key x rs)"
proof (induction rs)
  case Nil
  then show ?case by simp
next
  case (Cons y rs)
  have "set (insRev key x rs) = insert x (set rs)" by (induction rs) auto
  with Cons show ?case by auto
qed

lemma sorted_insertionSort: "sorted (map key (insertionSort key xs))"
proof -
  have "sorted_wrt (\<lambda>a b. key b \<le> key a) (fold (insRev key) xs rs)" if "sorted_wrt (\<lambda>a b. key b \<le> key a) rs" for rs
    using that by (induction xs arbitrary: rs) (auto intro: sorted_insRev)
  then show ?thesis by (simp add: insertionSort_insRev sorted_wrt_map sorted_wrt_rev)
qed

lemma mset_insertionSort [simp]: "mset (insertionSort key xs) = mset xs"
  by (simp add: insertionSort_insRev mset_fold_insRev)

lemma set_insertionSort [simp]: "set (insertionSort key xs) = set xs"
  by (metis mset_insertionSort set_mset_mset)

lemma insertionSort_unique:
  "inj_on key (set xs) \<Longrightarrow> mset xs = mset ys \<Longrightarrow> insertionSort key xs = insertionSort key ys"
  by (metis sort_key_inj_key_eq mset_insertionSort sorted_insertionSort set_insertionSort)

section \<open>Facts: the registry\<close>

text \<open>Every key is the id of the path it maps to.\<close>

definition storeOk :: "(string \<Rightarrow> string) \<Rightarrow> repoMappingStore \<Rightarrow> bool" where
  "storeOk sha s \<longleftrightarrow>
     distinct (map fst (byID s)) \<and> (\<forall>(k, m)\<in>set (byID s). k = repoIDFromPath sha (mRepoPath m))"

definition stamped :: "int \<Rightarrow> RepoMapping \<Rightarrow> RepoMapping" where
  "stamped now m = (if mRegisteredAt m = None then m\<lparr>mRegisteredAt := Some now\<rparr> else m)"

lemma stamped_path [simp]: "mRepoPath (stamped now m) = mRepoPath m"
  by (simp add: stamped_def)

lemma byID_persist [simp]: "byID (snd (persist s)) = byID s"
  by (simp add: persist_def)

lemma storeFault_persist [simp]: "storeFault (snd (persist s)) = storeFault s"
  by (simp add: persist_def)

lemma byID_upsert: "byID (snd (upsert sha now m s)) = AList.update (repoIDFromPath sha (mRepoPath m)) (stamped now m) (byID s)"
  by (simp add: upsert_def stamped_def Let_def)

lemma byID_mappingDelete: "byID (snd (mappingDelete sha p s)) = AList.delete (repoIDFromPath sha p) (byID s)"
  by (simp add: mappingDelete_def)

lemma repoIDFromPath_clean [simp]: "repoIDFromPath sha (pathClean p) = repoIDFromPath sha p"
  by (simp add: repoIDFromPath_def pathClean_idem)

lemma set_update_subset: "set (AList.update k v al) \<subseteq> insert (k, v) (set al)"
  by (induction al) auto

lemma set_delete_subset: "set (AList.delete k al) \<subseteq> set al"
  by (auto simp: AList.delete_eq)

lemma storeOk_update:
  "storeOk sha s \<Longrightarrow> k = repoIDFromPath sha (mRepoPath m) \<Longrightarrow> storeOk sha (s\<lparr>byID := AList.update k m (byID s)\<rparr>)"
  using set_update_subset [of k m "byID s"]
  by (auto simp: storeOk_def distinct_update dest!: set_mp)

lemma storeOk_byID: "byID s = byID t \<Longrightarrow> storeOk sha s \<longleftrightarrow> storeOk sha t"
  by (simp add: storeOk_def)

lemma storeOk_upsert: "storeOk sha s \<Longrightarrow> storeOk sha (snd (upsert sha now m s))"
  using storeOk_update [of sha s "repoIDFromPath sha (mRepoPath m)" "stamped now m"]
  by (simp add: storeOk_def byID_upsert)

lemma storeOk_mappingDelete: "storeOk sha s \<Longrightarrow> storeOk sha (snd (mappingDelete sha p s))"
  using set_delete_subset [of "repoIDFromPath sha p" "byID s"]
  by (auto simp: storeOk_def byID_mappingDelete distinct_delete)

lemma storeOk_new: "storeOk sha (newRepoMappingStore f e)"
  by (simp add: storeOk_def newRepoMappingStore_def)

lemma storeOk_mappingLoad: "storeOk sha s \<Longrightarrow> mappingLoad sha s = Inr s' \<Longrightarrow> storeOk sha s'"
proof -
  let ?f = "\<lambda>e m. AList.update (repoIDFromPath sha (mRepoPath e)) e m"
  have "storeOk sha (s\<lparr>byID := fold ?f es al\<rparr>)" if "storeOk sha (s\<lparr>byID := al\<rparr>)" for es al
    using that
  proof (induction es arbitrary: al)
    case (Cons e es)
    have "storeOk sha (s\<lparr>byID := ?f e al\<rparr>)" using storeOk_update [OF Cons.prems, of _ e] by simp
    then show ?case using Cons.IH by simp
  qed simp
  moreover have "storeOk sha (s\<lparr>byID := []\<rparr>)" by (simp add: storeOk_def)
  ultimately show "storeOk sha s \<Longrightarrow> mappingLoad sha s = Inr s' \<Longrightarrow> storeOk sha s'"
    by (auto simp: mappingLoad_def split: mappingFile.splits)
qed

lemma mappingGet_fun: "mappingGet s = map_of (byID s)"
  by (simp add: mappingGet_def fun_eq_iff)

text \<open>The registry implements the keyed-store contract; the deletion key is a path.\<close>

interpretation reg: keyed_store mappingGet "\<lambda>m. repoIDFromPath sha (mRepoPath m)" "stamped now"
    "\<lambda>m s. snd (upsert sha now m s)" "\<lambda>k s. snd (persist (s\<lparr>byID := AList.delete k (byID s)\<rparr>))" "storeOk sha" for sha now
proof unfold_locales
  fix s k assume "storeOk sha s"
  then show "storeOk sha (snd (persist (s\<lparr>byID := AList.delete k (byID s)\<rparr>)))"
    using set_delete_subset [of k "byID s"] by (auto simp: storeOk_def distinct_delete)
qed (simp_all add: mappingGet_fun byID_upsert update_conv' delete_conv' storeOk_upsert)

lemma mappingGet_delete: "mappingGet (snd (mappingDelete sha p s)) = (mappingGet s)(repoIDFromPath sha p := None)"
  by (simp add: mappingGet_fun byID_mappingDelete delete_conv')

lemma storeOk_path: "storeOk sha s \<Longrightarrow> m \<in> set (map snd (byID s)) \<Longrightarrow> mappingGet s (repoIDFromPath sha (mRepoPath m)) = Some m"
  by (force simp: storeOk_def mappingGet_def)

lemma storeOk_inj_path: "storeOk sha s \<Longrightarrow> inj_on mRepoPath (set (map snd (byID s)))"
  by (rule inj_onI) (metis storeOk_path option.inject)

lemma set_mappingList [simp]: "set (mappingList s) = snd ` set (byID s)"
  by (simp add: mappingList_def)

lemma mappingList_unique:
  "storeOk sha s \<Longrightarrow> mset (byID s) = mset (byID t) \<Longrightarrow> mappingList s = mappingList t"
  unfolding mappingList_def by (rule insertionSort_unique) (auto dest: storeOk_inj_path)

lemma load_fold:
  assumes "storeOk sha s"
  shows "map_of (fold (\<lambda>e m. AList.update (repoIDFromPath sha (mRepoPath e)) e m) (map snd (byID s)) [])
     = map_of (byID s)"
proof -
  let ?f = "\<lambda>e m. AList.update (repoIDFromPath sha (mRepoPath e)) e m"
  have "map_of (fold ?f (map snd xs) al) = map_of al ++ map_of xs"
    if "\<forall>(k, m)\<in>set xs. k = repoIDFromPath sha (mRepoPath m)" "distinct (map fst xs)" for xs al
    using that
  proof (induction xs arbitrary: al)
    case (Cons x xs)
    obtain k m where x: "x = (k, m)" by (cases x)
    have "k \<notin> dom (map_of xs)" using Cons.prems x by (simp add: dom_map_of_conv_image_fst)
    then have "(map_of al)(k \<mapsto> m) ++ map_of xs = (map_of al ++ map_of xs)(k \<mapsto> m)" by (rule map_add_upd_left)
    then show ?case using Cons x by (simp add: update_conv' map_add_upd del: fun_upd_apply)
  qed simp
  from this [of "byID s" "[]"] assms show ?thesis by (simp add: storeOk_def)
qed

section \<open>Facts: the index\<close>

definition loadable :: "(string \<Rightarrow> string) \<Rightarrow> int \<Rightarrow> disk \<Rightarrow> (string \<times> string) list \<Rightarrow> RepoMapping \<Rightarrow> Repo \<Rightarrow> bool" where
  "loadable sha now d legacy m r \<longleftrightarrow>
     \<not> isDuplicacyWebCache (pathClean (mRepoPath m)) \<and> loadRepo sha now d legacy (pathClean (mRepoPath m)) = Inr r"

lemma loadRepo_paths: "loadRepo sha now d legacy p = Inr r \<Longrightarrow> rPath r = p \<and> rID r = repoIDFromPath sha p"
  by (auto simp: loadRepo_def Let_def split: sum.splits list.splits)

lemma scanStep_map_of:
  "map_of (scanStep sha now d legacy m found) =
     (if \<exists>r. loadable sha now d legacy m r
      then (map_of found)(repoIDFromPath sha (mRepoPath m) \<mapsto> (THE r. loadable sha now d legacy m r))
      else map_of found)"
  by (auto simp: scanStep_def loadable_def Let_def update_conv' split: sum.splits dest: loadRepo_paths)

lemma fold_scanStep:
  assumes "distinct (map (\<lambda>m. repoIDFromPath sha (mRepoPath m)) ms)"
  shows "map_of (fold (scanStep sha now d legacy) ms found) i = Some r \<longleftrightarrow>
     (\<exists>m\<in>set ms. repoIDFromPath sha (mRepoPath m) = i \<and> loadable sha now d legacy m r) \<or>
     ((\<forall>m\<in>set ms. repoIDFromPath sha (mRepoPath m) = i \<longrightarrow> (\<forall>r. \<not> loadable sha now d legacy m r)) \<and>
       map_of found i = Some r)"
  using assms
proof (induction ms arbitrary: found)
  case Nil
  then show ?case by simp
next
  case (Cons m ms)
  have uniq: "loadable sha now d legacy m r \<Longrightarrow> loadable sha now d legacy m r' \<Longrightarrow> r = r'" for r r'
    by (simp add: loadable_def)
  then have the: "loadable sha now d legacy m r \<Longrightarrow> (THE r. loadable sha now d legacy m r) = r" for r by blast
  show ?case
  proof (cases "repoIDFromPath sha (mRepoPath m) = i")
    case True
    then have "\<forall>m'\<in>set ms. repoIDFromPath sha (mRepoPath m') \<noteq> i" using Cons.prems by (simp, metis rev_image_eqI)
    with True Cons show ?thesis using the by (auto simp: scanStep_map_of)
  next
    case False
    with Cons show ?thesis by (auto simp: scanStep_map_of)
  qed
qed

lemma storeOk_distinct_ids: "storeOk sha s \<Longrightarrow> distinct (map (\<lambda>m. repoIDFromPath sha (mRepoPath m)) (mappingList s))"
proof -
  assume ok: "storeOk sha s"
  then have "map (\<lambda>m. repoIDFromPath sha (mRepoPath m)) (map snd (byID s)) = map fst (byID s)"
    by (auto simp: storeOk_def)
  then have "mset (map (\<lambda>m. repoIDFromPath sha (mRepoPath m)) (mappingList s)) = mset (map fst (byID s))"
    by (metis mappingList_def mset_insertionSort mset_map)
  with ok show ?thesis by (metis storeOk_def mset_eq_imp_distinct_iff)
qed

text \<open>The index invariant: keys are the ids of the repos and the paths are canonical.\<close>

definition reposOk :: "(string \<Rightarrow> string) \<Rightarrow> (string \<times> Repo) list \<Rightarrow> bool" where
  "reposOk sha rs \<longleftrightarrow>
     distinct (map fst rs) \<and>
     (\<forall>(i, r)\<in>set rs. i = rID r \<and> rID r = repoIDFromPath sha (rPath r) \<and> pathClean (rPath r) = rPath r)"

definition indexOk :: "(string \<Rightarrow> string) \<Rightarrow> repoIndex \<Rightarrow> bool" where
  "indexOk sha ix \<longleftrightarrow> reposOk sha (ixRepos ix)"

lemma scanStep_ok:
  assumes ok: "reposOk sha found"
  shows "reposOk sha (scanStep sha now d legacy m found)"
proof -
  have "reposOk sha (AList.update (rID r) r found)"
    if "loadRepo sha now d legacy (pathClean (mRepoPath m)) = Inr r" for r
    using ok loadRepo_paths [OF that] set_update_subset [of "rID r" r found]
    by (auto simp: reposOk_def distinct_update pathClean_idem dest!: set_mp)
  with ok show ?thesis by (auto simp: scanStep_def Let_def split: sum.splits)
qed

lemma fold_scanStep_ok: "reposOk sha found \<Longrightarrow> reposOk sha (fold (scanStep sha now d legacy) ms found)"
  by (induction ms arbitrary: found) (auto intro: scanStep_ok)

lemma indexOk_scanLocked: "indexOk sha (scanLocked sha now d s ix)"
  unfolding indexOk_def scanLocked_def by (simp, rule fold_scanStep_ok) (simp add: reposOk_def)

lemma indexOk_scan: "indexOk sha ix \<Longrightarrow> indexOk sha (scan sha now d s ix)"
  by (auto simp: scan_def indexOk_scanLocked split: option.splits)

lemma indexOk_inj_path: "indexOk sha ix \<Longrightarrow> inj_on rPath (set (map snd (ixRepos ix)))"
proof (rule inj_onI)
  fix a b
  assume ok: "indexOk sha ix" and a: "a \<in> set (map snd (ixRepos ix))" and b: "b \<in> set (map snd (ixRepos ix))"
    and p: "rPath a = rPath b"
  obtain i j where i: "(i, a) \<in> set (ixRepos ix)" and j: "(j, b) \<in> set (ixRepos ix)" using a b by auto
  have "i = repoIDFromPath sha (rPath a)" "j = repoIDFromPath sha (rPath b)"
    using ok i j by (auto simp: indexOk_def reposOk_def)
  with p have "i = j" by simp
  with ok i j show "a = b" by (auto simp: indexOk_def reposOk_def dest: eq_key_imp_eq_value)
qed

lemma set_indexList [simp]: "set (indexList ix) = snd ` set (ixRepos ix)"
  by (simp add: indexList_def)

definition snapBest :: "string \<Rightarrow> Repo set \<Rightarrow> Repo option \<Rightarrow> bool" where
  "snapBest i S b \<longleftrightarrow>
     (case b of
        None \<Rightarrow> \<forall>r\<in>S. rSnapshotID r \<noteq> i
      | Some x \<Rightarrow> x \<in> S \<and> rSnapshotID x = i \<and> (\<forall>r\<in>S. rSnapshotID r = i \<longrightarrow> rPath x \<le> rPath r))"

lemma snapStep_best: "snapBest i S b \<Longrightarrow> snapBest i (insert r S) (snapStep i r b)"
  by (auto simp: snapBest_def snapStep_def split: option.splits)

lemma fold_snapStep_best: "snapBest i S b \<Longrightarrow> snapBest i (S \<union> set rs) (fold (snapStep i) rs b)"
proof (induction rs arbitrary: S b)
  case (Cons r rs)
  have "snapBest i (insert r S \<union> set rs) (fold (snapStep i) rs (snapStep i r b))"
    by (rule Cons.IH) (rule snapStep_best [OF Cons.prems])
  then show ?case by simp
qed simp

lemma getBySnapshotID_best: "i \<noteq> [] \<Longrightarrow> snapBest i (snd ` set (ixRepos ix)) (getBySnapshotID ix i)"
  using fold_snapStep_best [of i "{}" None "map snd (ixRepos ix)"] by (simp add: getBySnapshotID_def snapBest_def [of i "{}"])

section \<open>Properties\<close>

text \<open>C25. After an upsert that did not fail, an agent that restarts and loads repos.json answers
  every lookup as the running one does: the upserted mapping under its path's id, stamped with its
  registration time, and everything else unchanged.\<close>

theorem upsert_load_roundtrip:
  assumes "storeOk sha s" "upsert sha now m s = (False, s')"
  shows "\<exists>s''. mappingLoad sha (newRepoMappingStore (storeFile s') f) = Inr s'' \<and> storeOk sha s'' \<and>
     mappingGet s'' = (mappingGet s)(repoIDFromPath sha (mRepoPath m) \<mapsto>
        (if mRegisteredAt m = None then m\<lparr>mRegisteredAt := Some now\<rparr> else m))"
proof -
  have sf: "storeFile s' = Entries (map snd (byID s'))"
    using assms(2) by (auto simp: upsert_def persist_def Let_def split: if_splits)
  have s': "s' = snd (upsert sha now m s)" using assms(2) by simp
  have ok: "storeOk sha s'" unfolding s' by (rule reg.ok_put [OF assms(1)])
  obtain s'' where l: "mappingLoad sha (newRepoMappingStore (storeFile s') f) = Inr s''"
      "map_of (byID s'') = map_of (byID s')"
    using load_fold [OF ok] by (simp add: mappingLoad_def sf newRepoMappingStore_def)
  have "mappingGet s'' = mappingGet s'" using l(2) by (simp add: mappingGet_fun)
  also have "\<dots> = (mappingGet s)(repoIDFromPath sha (mRepoPath m) \<mapsto> stamped now m)"
    unfolding s' by (rule reg.look_put [OF assms(1)])
  finally show ?thesis using l(1) storeOk_mappingLoad [OF storeOk_new l(1)] by (auto simp: stamped_def)
qed

definition exMapping :: RepoMapping where
  "exMapping = \<lparr>mRepoPath = ''/data/a'', mRepoID = ''a'', mUUID = ''u1'', mStorages = [], mRegisteredAt = None\<rparr>"

theorem upsert_load_roundtrip_witness:
  "\<exists>s' s''. upsert id 7 exMapping (newRepoMappingStore NoFile False) = (False, s') \<and>
     mappingLoad id (newRepoMappingStore (storeFile s') False) = Inr s'' \<and>
     mappingGet s'' (repoIDFromPath id ''/data/a'') = Some (exMapping\<lparr>mRegisteredAt := Some 7\<rparr>)"
proof -
  let ?s = "newRepoMappingStore NoFile False"
  obtain s' where s': "upsert id 7 exMapping ?s = (False, s')"
    by (simp add: upsert_def persist_def newRepoMappingStore_def Let_def)
  show ?thesis
    using upsert_load_roundtrip [OF storeOk_new s', of False] s' by (auto simp: exMapping_def)
qed

text \<open>\<open>list\<close> returns each mapping once, in ascending path order, and the result does not
  depend on the order in which Go iterates the map: the hand-written insertion sort is a sort, and
  no two entries have the same path.\<close>

theorem mappingList_deterministic:
  assumes "storeOk sha s" "storeOk sha t" "mset (byID t) = mset (byID s)"
  shows "mappingList t = mappingList s \<and> sorted (map mRepoPath (mappingList s)) \<and>
     distinct (map mRepoPath (mappingList s)) \<and> mset (mappingList s) = mset (map snd (byID s))"
proof (intro conjI)
  show "mappingList t = mappingList s" using mappingList_unique assms by metis
  have "distinct (mappingList s)" using storeOk_distinct_ids [OF assms(1)] distinct_map by blast
  then show "distinct (map mRepoPath (mappingList s))"
    using storeOk_inj_path [OF assms(1)] by (simp add: distinct_map)
qed (simp_all add: mappingList_def sorted_insertionSort)

theorem mappingList_deterministic_witness:
  "let m = exMapping; m' = exMapping\<lparr>mRepoPath := ''/b''\<rparr>;
       k = repoIDFromPath id ''/data/a''; k' = repoIDFromPath id ''/b'';
       s = (newRepoMappingStore NoFile False)\<lparr>byID := [(k, m), (k', m')]\<rparr>
   in map mRepoPath (mappingList s) = [''/b'', ''/data/a''] \<and>
      mappingList (s\<lparr>byID := [(k', m'), (k, m)]\<rparr>) = mappingList s"
proof -
  let ?m = exMapping and ?m' = "exMapping\<lparr>mRepoPath := ''/b''\<rparr>"
  let ?k = "repoIDFromPath id ''/data/a''" and ?k' = "repoIDFromPath id ''/b''"
  let ?s = "(newRepoMappingStore NoFile False)\<lparr>byID := [(?k, ?m), (?k', ?m')]\<rparr>"
  let ?t = "?s\<lparr>byID := [(?k', ?m'), (?k, ?m)]\<rparr>"
  have ne: "?k \<noteq> ?k'" by code_simp
  have ok: "storeOk id ?s" "storeOk id ?t" using ne by (auto simp: storeOk_def exMapping_def)
  have eq: "mset (byID ?t) = mset (byID ?s)" by simp
  have "map mRepoPath (mappingList ?s) = [''/b'', ''/data/a'']"
    by (simp add: mappingList_def insertionSort_insRev exMapping_def)
  with mappingList_deterministic [OF ok eq] show ?thesis by simp
qed

text \<open>A forced scan rebuilds the index from the registry alone: a repo is listed exactly when
  its path is registered, is not a Duplicacy Web Edition cache, and its preferences load; it is then
  found under the id of its path.\<close>

theorem scanLocked_index:
  assumes "storeOk sha s"
  shows "indexGet (scanLocked sha now d s ix) i = Some r \<longleftrightarrow>
     (\<exists>m\<in>set (mappingList s). i = repoIDFromPath sha (mRepoPath m) \<and>
        \<not> isDuplicacyWebCache (pathClean (mRepoPath m)) \<and>
        loadRepo sha now d (legacyBackuprootMap ix) (pathClean (mRepoPath m)) = Inr r)"
  using fold_scanStep [OF storeOk_distinct_ids [OF assms], of now d "legacyBackuprootMap ix" "[]" i r]
  by (auto simp: indexGet_def scanLocked_def loadable_def)

definition exPref :: rawPreference where
  "exPref = \<lparr>pName = ''default'', pSnapshotID = ''a'', pRepositoryPath = [], pStorageURL = ''b2://x'',
     pEncrypted = True, pBackupProhibited = False, pRestoreProhibited = False, pDoNotSavePassword = True,
     pNobackupFile = [], pKeys = [], pFiltersFile = [], pExcludeByAttr = False\<rparr>"

definition exDisk :: disk where
  "exDisk = \<lparr>entries = [(''/data/a/.duplicacy'', DirNode),
     (''/data/a/.duplicacy/preferences'', FileNode (Some [exPref]))], ioErr = [], rmErr = []\<rparr>"

theorem scanLocked_index_witness:
  "\<exists>r. indexGet (scanLocked id 9 exDisk (snd (upsert id 7 exMapping (newRepoMappingStore NoFile False))) (newRepoIndex []))
     (repoIDFromPath id ''/data/a'') = Some r \<and> rPath r = ''/data/a''"
proof -
  let ?s = "snd (upsert id 7 exMapping (newRepoMappingStore NoFile False))"
  have ok: "storeOk id ?s" by (rule storeOk_upsert [OF storeOk_new])
  have c: "pathClean ''/data/a'' = ''/data/a''"
    "pathJoin [''/data/a'', ''.duplicacy'', ''preferences''] = ''/data/a/.duplicacy/preferences''"
    "\<not> isDuplicacyWebCache ''/data/a''" by code_simp+
  have l: "mappingList ?s = [stamped 7 exMapping]"
    by (simp add: mappingList_def byID_upsert newRepoMappingStore_def insertionSort_insRev)
  obtain r where "loadRepo id 9 exDisk [] ''/data/a'' = Inr r"
    by (simp add: loadRepo_def c readPreferences_def osStat_def exDisk_def Let_def)
  moreover from this have "rPath r = ''/data/a''" by (simp add: loadRepo_paths)
  ultimately show ?thesis
    using scanLocked_index [OF ok, of 9 exDisk "newRepoIndex []" "repoIDFromPath id ''/data/a''" r, unfolded l]
    by (auto simp: c exMapping_def newRepoIndex_def stamped_def)
qed

text \<open>\<open>getBySnapshotID\<close> returns the repo with the smallest path among those that carry the
  snapshot id, and none exactly when no repo carries it, whatever the order of the map.\<close>

theorem getBySnapshotID_least:
  assumes "indexOk sha ix" "snapID \<noteq> []"
  shows "getBySnapshotID ix snapID = Some r \<longleftrightarrow>
     r \<in> snd ` set (ixRepos ix) \<and> rSnapshotID r = snapID \<and>
     (\<forall>q\<in>snd ` set (ixRepos ix). rSnapshotID q = snapID \<longrightarrow> rPath r \<le> rPath q)"
proof -
  have inj: "inj_on rPath (snd ` set (ixRepos ix))" using indexOk_inj_path [OF assms(1)] by simp
  show ?thesis
  proof (cases "getBySnapshotID ix snapID")
    case None
    then show ?thesis using getBySnapshotID_best [OF assms(2), of ix] by (auto simp: snapBest_def)
  next
    case (Some x)
    then have x: "x \<in> snd ` set (ixRepos ix)" "rSnapshotID x = snapID"
        "\<forall>q\<in>snd ` set (ixRepos ix). rSnapshotID q = snapID \<longrightarrow> rPath x \<le> rPath q"
      using getBySnapshotID_best [OF assms(2), of ix] by (auto simp: snapBest_def)
    show ?thesis
    proof
      assume "getBySnapshotID ix snapID = Some r"
      with Some x show "r \<in> snd ` set (ixRepos ix) \<and> rSnapshotID r = snapID \<and>
        (\<forall>q\<in>snd ` set (ixRepos ix). rSnapshotID q = snapID \<longrightarrow> rPath r \<le> rPath q)" by simp
    next
      assume r: "r \<in> snd ` set (ixRepos ix) \<and> rSnapshotID r = snapID \<and>
        (\<forall>q\<in>snd ` set (ixRepos ix). rSnapshotID q = snapID \<longrightarrow> rPath r \<le> rPath q)"
      with x have "rPath x = rPath r" by (metis order_antisym)
      with inj x(1) r have "x = r" by (metis inj_onD)
      with Some show "getBySnapshotID ix snapID = Some r" by simp
    qed
  qed
qed

definition exRepo :: "string \<Rightarrow> Repo" where
  "exRepo p = \<lparr>rID = repoIDFromPath id p, rPath = p, rHostPath = p, rSnapshotID = ''a'', rStorages = [],
     rHasFilters = False, rLastScannedAt = None, rSourcePath = p, rSourceHostPath = p, rLastBackupAt = None\<rparr>"

theorem getBySnapshotID_least_witness:
  "let ix = (newRepoIndex [])\<lparr>ixRepos := [(repoIDFromPath id ''/d'', exRepo ''/d''), (repoIDFromPath id ''/b'', exRepo ''/b'')]\<rparr>
   in getBySnapshotID ix ''a'' = Some (exRepo ''/b'')"
proof -
  let ?ix = "(newRepoIndex [])\<lparr>ixRepos := [(repoIDFromPath id ''/d'', exRepo ''/d''), (repoIDFromPath id ''/b'', exRepo ''/b'')]\<rparr>"
  have "repoIDFromPath id ''/d'' \<noteq> repoIDFromPath id ''/b''" "pathClean ''/d'' = ''/d''" "pathClean ''/b'' = ''/b''"
    by code_simp+
  then have "indexOk id ?ix" by (auto simp: indexOk_def reposOk_def exRepo_def)
  from getBySnapshotID_least [OF this, of "''a''" "exRepo ''/b''"] show ?thesis by (simp add: exRepo_def)
qed

end
