(* ===== verification/JobTypes.thy ===== *)
theory JobTypes
  imports Prelude
begin

text \<open>
  The data types of jobs.go that several components share: the job life cycle, the structured
  progress, and \<open>jobPublic\<close>, the serialisable part of a job that \<open>jobs.list()\<close> returns.
  \<open>JobAction\<close> is a string type in the code, and so it is here. \<open>Percent\<close>, a \<open>float64\<close>, is a
  rational number: rounding is not modelled.
\<close>

datatype JobState = JobPending | JobRunning | JobCompleted | JobFailed | JobCancelled

type_synonym JobAction = string

definition ActionInit :: JobAction where "ActionInit = ''init''"
definition ActionBackup :: JobAction where "ActionBackup = ''backup''"
definition ActionRestore :: JobAction where "ActionRestore = ''restore''"
definition ActionCheck :: JobAction where "ActionCheck = ''check''"
definition ActionPrune :: JobAction where "ActionPrune = ''prune''"
definition ActionCopy :: JobAction where "ActionCopy = ''copy''"

lemmas action_defs = ActionInit_def ActionBackup_def ActionRestore_def ActionCheck_def ActionPrune_def ActionCopy_def

datatype JobEvent = EventStarted | EventProgress | EventCompleted | EventFailed | EventCancelled

definition ringBufferSize :: nat where "ringBufferSize = 500"
definition recentJobsRetained :: nat where "recentJobsRetained = 50"
definition subscriberBuffer :: nat where "subscriberBuffer = 256"

record JobProgress =
  Percent :: rat
  Speed :: string
  ETA :: string
  LastChunk :: int
  UpdatedAt :: go_time
  TotalChunks :: int
  NewChunks :: int
  BytesUploaded :: string
  Duration :: string
  CheckRevisionsTotal :: int
  CheckRevisionsVerified :: int
  CheckPoolBytes :: int
  CheckPoolBytesPretty :: string
  CheckPoolChunks :: int
  PruneSnapshotsRemoved :: int
  PruneChunksDeleted :: int
  PruneFossilsProcessed :: int
  PrunePreviewRevisions :: "string list"
  PrunePreviewChunks :: int

definition emptyProgress :: JobProgress where
  "emptyProgress =
     \<lparr>Percent = 0, Speed = [], ETA = [], LastChunk = 0, UpdatedAt = None, TotalChunks = 0, NewChunks = 0,
      BytesUploaded = [], Duration = [], CheckRevisionsTotal = 0, CheckRevisionsVerified = 0,
      CheckPoolBytes = 0, CheckPoolBytesPretty = [], CheckPoolChunks = 0, PruneSnapshotsRemoved = 0,
      PruneChunksDeleted = 0, PruneFossilsProcessed = 0, PrunePreviewRevisions = [], PrunePreviewChunks = 0\<rparr>"

record jobPublic =
  jID :: string
  jRepoID :: string
  jRepoPath :: string
  jAction :: JobAction
  jStorageName :: string
  jArgs :: "string list"
  jState :: JobState
  jStartedAt :: go_time
  jCompletedAt :: go_time
  jExitCode :: int
  jErrorMsg :: string
  jLineCount :: nat
  jProgress :: "JobProgress option"
  jScheduleID :: string
  jTriggerKey :: string

text \<open>\<open>JobState\<close> values after which nothing more happens to a job.\<close>

definition terminal :: "JobState \<Rightarrow> bool" where
  "terminal st \<longleftrightarrow> st \<in> {JobCompleted, JobFailed, JobCancelled}"

lemma terminal_simps [simp]:
  "terminal JobCompleted" "terminal JobFailed" "terminal JobCancelled"
  "\<not> terminal JobPending" "\<not> terminal JobRunning"
  by (simp_all add: terminal_def)

end
