(* ===== verification/Lifecycle.thy ===== *)
theory Lifecycle
  imports Repos JobTypes
begin

text \<open>
  Removal and recovery of repos: the delete handler (delete_handler.go) and the reconcile loop
  (reconcile.go). Both wipe \<open>.duplicacy\<close> directories, so the central theorems are safety
  theorems: whatever disappears from the disk lay below the \<open>.duplicacy\<close> of a repo inside the
  configured roots that had no running job.

  One request or tick is one function on the application state; other goroutines do not interleave
  with it. What the controller answers is an argument.
\<close>

record app =
  cfgBackupRoots :: "string list"
  cfgNodeName :: string
  appMapping :: repoMappingStore
  appRepos :: repoIndex
  appDisk :: disk
  appJobs :: "jobPublic list"  \<comment> \<open>what \<open>jobs.list()\<close> returns\<close>
  rescans :: nat  \<comment> \<open>background rescans requested\<close>
  fleetTriggers :: nat

section \<open>POST /repos/delete\<close>

record deleteRepoResp =
  drRemoved :: bool
  drRepoPath :: string
  drWipedPaths :: "string list"
  drResolvedVia :: string

definition jobRunningOn :: "jobPublic list \<Rightarrow> string \<Rightarrow> bool" where
  "jobRunningOn jobs repoID \<longleftrightarrow> list_ex (\<lambda>j. jRepoID j = repoID \<and> jState j = JobRunning) jobs"

definition rescanAsync :: "app \<Rightarrow> app" where
  "rescanAsync a = a\<lparr>rescans := rescans a + 1\<rparr>"

definition dupDir :: "string \<Rightarrow> string" where
  "dupDir p = pathJoin [p, ''.duplicacy'']"

text \<open>The wiping loop of the handler; \<open>None\<close> is the early return with status 500.\<close>

fun wipeParents :: "(string \<Rightarrow> string) \<Rightarrow> string list \<Rightarrow> string list \<Rightarrow> app \<Rightarrow> string list option \<times> app" where
  "wipeParents sha [] wiped a = (Some wiped, a)"
| "wipeParents sha (p # ps) wiped a =
     (if \<not> pathInsideAny p (cfgBackupRoots a) then wipeParents sha ps wiped a
      else let (err, d') = removeAll (dupDir p) (appDisk a)
           in if err then (None, a\<lparr>appDisk := d'\<rparr>)
              else wipeParents sha ps (wiped @ [p])
                     (a\<lparr>appDisk := d', appMapping := snd (mappingDelete sha p (appMapping a))\<rparr>))"

definition resolveParents :: "(string \<Rightarrow> string) \<Rightarrow> int \<Rightarrow> string \<Rightarrow> app \<Rightarrow> (string list \<times> string \<times> app) option" where
  "resolveParents sha now clean a =
     (case osStat (appDisk a) (dupDir clean) of
        StatOk _ \<Rightarrow> Some ([clean], ''literal'', a)
      | StatErr \<Rightarrow> None
      | StatNotExist \<Rightarrow>
          let a' = a\<lparr>appRepos := scan sha now (appDisk a) (appMapping a) (appRepos a)\<rparr>;
              ps = map rPath (filter (\<lambda>r. rSourcePath r = clean \<or> rSourceHostPath r = clean) (indexList (appRepos a')))
          in Some (ps, if ps \<noteq> [] then ''scan-cache'' else ''none'', a'))"

definition handleDeleteRepo :: "(string \<Rightarrow> string) \<Rightarrow> int \<Rightarrow> string option \<Rightarrow> app \<Rightarrow> deleteRepoResp httpResult \<times> app" where
  "handleDeleteRepo sha now req a =
     (case req of
        None \<Rightarrow> (HttpError 400, a)
      | Some repoPath \<Rightarrow>
          if \<not> hasPrefix repoPath ''/'' then (HttpError 400, a)
          else let clean = pathClean repoPath
          in if clean \<noteq> repoPath then (HttpError 400, a)
          else if \<not> pathInsideAny clean (cfgBackupRoots a) then (HttpError 400, a)
          else case resolveParents sha now clean a of
            None \<Rightarrow> (HttpError 500, a)
          | Some (parents, via, a1) \<Rightarrow>
              let checkIDs = repoIDFromPath sha clean # map (repoIDFromPath sha) parents
              in if list_ex (\<lambda>i. jobRunningOn (appJobs a1) i) checkIDs then (HttpError 409, a1)
              else case wipeParents sha parents [] a1 of
                (None, a2) \<Rightarrow> (HttpError 500, a2)
              | (Some wiped, a2) \<Rightarrow>
                  (HttpOk \<lparr>drRemoved = (wiped \<noteq> []), drRepoPath = clean, drWipedPaths = wiped, drResolvedVia = via\<rparr>,
                   rescanAsync (a2\<lparr>appMapping := snd (mappingDelete sha clean (appMapping a2))\<rparr>)))"

section \<open>Reconcile\<close>

record reconcileRepoDTO =
  cID :: string
  cNode :: string
  cRepoPath :: string

record tombstoneDTO =
  tSnapshotID :: string
  tRepoPath :: string

text \<open>What a call to the controller yields: any failure (no client, transport, a status other than
  200, an undecodable body), the status 404, or the decoded body.\<close>

datatype 'a ccAnswer = CCFailed | CCNotFound | CCOk 'a

text \<open>\<open>fetchCentralRepos\<close> keeps the rows of this node of what the controller answered.\<close>

definition fetchCentralRepos :: "string \<Rightarrow> reconcileRepoDTO list ccAnswer \<Rightarrow> reconcileRepoDTO list option" where
  "fetchCentralRepos node answer =
     (case answer of CCOk rs \<Rightarrow> Some (filter (\<lambda>r. cNode r = node) rs) | _ \<Rightarrow> None)"

text \<open>\<open>fetchTombstones\<close>: a controller without the endpoint counts as one without tombstones.\<close>

definition fetchTombstones :: "tombstoneDTO list ccAnswer \<Rightarrow> tombstoneDTO list option" where
  "fetchTombstones answer =
     (case answer of CCFailed \<Rightarrow> None | CCNotFound \<Rightarrow> Some [] | CCOk ts \<Rightarrow> Some ts)"

definition refreshStep :: "(string \<Rightarrow> string) \<Rightarrow> int \<Rightarrow> reconcileRepoDTO \<Rightarrow> repoMappingStore \<Rightarrow> repoMappingStore" where
  "refreshStep sha now r s =
     (let path = pathClean (cRepoPath r)
      in if path = [] \<or> path = ''.'' then s
         else if getByPath sha s path \<noteq> None then s
         else snd (upsert sha now \<lparr>mRepoPath = path, mRepoID = [], mUUID = cID r, mStorages = [], mRegisteredAt = None\<rparr> s))"

definition refreshMappingFromController :: "(string \<Rightarrow> string) \<Rightarrow> int \<Rightarrow> reconcileRepoDTO list ccAnswer \<Rightarrow> app \<Rightarrow> app" where
  "refreshMappingFromController sha now answer a =
     (case fetchCentralRepos (cfgNodeName a) answer of
        None \<Rightarrow> a
      | Some central \<Rightarrow> a\<lparr>appMapping := fold (refreshStep sha now) central (appMapping a)\<rparr>)"

definition orphanStep :: "(string \<Rightarrow> string) \<Rightarrow> string list \<Rightarrow> RepoMapping \<Rightarrow> nat \<times> app \<Rightarrow> nat \<times> app" where
  "orphanStep sha keep m na =
     (let (wiped, a) = na; clean = pathClean (mRepoPath m)
      in if mUUID m = [] then na
         else if mUUID m \<in> set keep then na
         else if \<not> pathInsideAny clean (cfgBackupRoots a) then na
         else if jobRunningOn (appJobs a) (repoIDFromPath sha clean) then na
         else let (err, d') = removeAll (dupDir clean) (appDisk a); a1 = a\<lparr>appDisk := d'\<rparr>
              in if err then (wiped, a1)
                 else let (perr, s') = mappingDelete sha clean (appMapping a1); a2 = a1\<lparr>appMapping := s'\<rparr>
                      in if perr then (wiped, a2) else (wiped + 1, a2))"

definition tombStep :: "(string \<Rightarrow> string) \<Rightarrow> (string \<times> string) list \<Rightarrow> Repo \<Rightarrow> nat \<times> app \<Rightarrow> nat \<times> app" where
  "tombStep sha tombSet r na =
     (let (wiped, a) = na
      in if rSnapshotID r = [] then na
         else if map_of tombSet (rSnapshotID r) = None then na
         else if jobRunningOn (appJobs a) (repoIDFromPath sha (rPath r)) then na
         else if \<not> pathInsideAny (rPath r) (cfgBackupRoots a) then na
         else let (err, d') = removeAll (dupDir (rPath r)) (appDisk a); a1 = a\<lparr>appDisk := d'\<rparr>
              in if err then (wiped, a1)
                 else (wiped + 1, a1\<lparr>appMapping := snd (mappingDelete sha (rPath r) (appMapping a1))\<rparr>))"

definition reconcileTombstones :: "(string \<Rightarrow> string) \<Rightarrow> int \<Rightarrow> tombstoneDTO list ccAnswer \<Rightarrow> app \<Rightarrow> nat \<times> app" where
  "reconcileTombstones sha now answer a =
     (case fetchTombstones answer of
        None \<Rightarrow> (0, a)
      | Some tombs \<Rightarrow>
          if tombs = [] then (0, a)
          else let a1 = a\<lparr>appRepos := scan sha now (appDisk a) (appMapping a) (appRepos a)\<rparr>;
                   tombSet = rev (map (\<lambda>t. (tSnapshotID t, tRepoPath t)) tombs)
               in fold (tombStep sha tombSet) (indexList (appRepos a1)) (0, a1))"

text \<open>\<open>False\<close> in the result is the error return.\<close>

definition reconcileOrphans :: "(string \<Rightarrow> string) \<Rightarrow> int \<Rightarrow> reconcileRepoDTO list ccAnswer \<Rightarrow> tombstoneDTO list ccAnswer \<Rightarrow>
    app \<Rightarrow> bool \<times> app" where
  "reconcileOrphans sha now answer tombAnswer a =
     (case fetchCentralRepos (cfgNodeName a) answer of
        None \<Rightarrow> (False, a)
      | Some central \<Rightarrow>
          if central = [] then (True, a)
          else let (w1, a1) = fold (orphanStep sha (map cID central)) (mappingList (appMapping a)) (0, a);
                   (w2, a2) = reconcileTombstones sha now tombAnswer a1
               in if w1 + w2 > 0
                  then (True, a2\<lparr>appRepos := scanLocked sha now (appDisk a2) (appMapping a2) (appRepos a2),
                                 fleetTriggers := fleetTriggers a2 + 1\<rparr>)
                  else (True, a2))"

section \<open>Facts: what may disappear\<close>

text \<open>\<open>wipesOnly sha roots jobs d d'\<close>: going from \<open>d\<close> to \<open>d'\<close> nothing appears, and what
  disappears lay in the \<open>.duplicacy\<close> of a path inside the roots without a running job.\<close>

definition wipeable :: "(string \<Rightarrow> string) \<Rightarrow> string list \<Rightarrow> jobPublic list \<Rightarrow> string \<Rightarrow> bool" where
  "wipeable sha roots jobs q \<longleftrightarrow>
     (\<exists>p. pathWithin (dupDir p) q \<and> \<not> jobRunningOn jobs (repoIDFromPath sha p) \<and>
          (\<exists>r\<in>set roots. pathWithin r (dupDir p)))"

definition wipesOnly :: "(string \<Rightarrow> string) \<Rightarrow> string list \<Rightarrow> jobPublic list \<Rightarrow> disk \<Rightarrow> disk \<Rightarrow> bool" where
  "wipesOnly sha roots jobs d d' \<longleftrightarrow>
     set (entries d') \<subseteq> set (entries d) \<and> ioErr d' = ioErr d \<and> rmErr d' = rmErr d \<and>
     (\<forall>q n. (q, n) \<in> set (entries d) \<longrightarrow> (q, n) \<notin> set (entries d') \<longrightarrow> wipeable sha roots jobs q)"

lemma wipesOnly_refl [simp, intro]: "wipesOnly sha roots jobs d d"
  by (simp add: wipesOnly_def)

lemma wipesOnly_trans:
  "wipesOnly sha roots jobs d d' \<Longrightarrow> wipesOnly sha roots jobs d' d'' \<Longrightarrow> wipesOnly sha roots jobs d d''"
  unfolding wipesOnly_def by (metis subset_trans)

lemma plainName_duplicacy [simp]: "plainName ''.duplicacy''"
  by (simp add: plainName_def sepChar_def)

lemma pathInsideAny_abs: "\<forall>r\<in>set roots. isAbs r \<Longrightarrow> pathInsideAny p roots \<Longrightarrow> isAbs p"
  by (auto simp: pathInsideAny_iff insideRoot_def Let_def) (metis isAbs_def isAbs_pathClean append_prefixD prefix_order.trans)+

lemma removeAll_wipesOnly:
  assumes roots: "\<forall>r\<in>set roots. isAbs r" and p: "pathClean p = p" and g: "pathInsideAny p roots"
    and idle: "\<not> jobRunningOn jobs (repoIDFromPath sha p)"
  shows "wipesOnly sha roots jobs d (snd (removeAll (dupDir p) d))"
proof -
  have abs: "isAbs p" by (rule pathInsideAny_abs [OF roots g])
  then have ne: "p \<noteq> []" by (auto simp: isAbs_def)
  have "pathWithin (dupDir p) (dupDir p)"
    using abs ne by (simp add: dupDir_def pathWithin_refl pathJoin_child)
  then have "\<exists>r\<in>set roots. pathWithin r (dupDir p)"
    unfolding dupDir_def by (intro inside.guard_below [OF p abs roots g plainName_duplicacy])
  with idle have "wipeable sha roots jobs q" if "pathWithin (dupDir p) q" for q
    using that by (auto simp: wipeable_def)
  then show ?thesis by (auto simp: wipesOnly_def removeAll_def)
qed

text \<open>Steps over the application keep the configuration and the job list, and only wipe what may
  be wiped.\<close>

definition safeStep :: "(string \<Rightarrow> string) \<Rightarrow> app \<Rightarrow> app \<Rightarrow> bool" where
  "safeStep sha a a' \<longleftrightarrow>
     cfgBackupRoots a' = cfgBackupRoots a \<and> cfgNodeName a' = cfgNodeName a \<and> appJobs a' = appJobs a \<and>
     wipesOnly sha (cfgBackupRoots a) (appJobs a) (appDisk a) (appDisk a') \<and>
     mappingGet (appMapping a') \<subseteq>\<^sub>m mappingGet (appMapping a)"

lemma safeStep_refl [simp, intro]: "safeStep sha a a"
  by (simp add: safeStep_def)

lemma safeStep_trans: "safeStep sha a b \<Longrightarrow> safeStep sha b c \<Longrightarrow> safeStep sha a c"
  by (auto simp: safeStep_def intro: wipesOnly_trans map_le_trans)

lemma mappingDelete_le: "mappingGet (snd (mappingDelete sha p s)) \<subseteq>\<^sub>m mappingGet s"
  by (simp add: mappingGet_delete map_le_def)

lemma wipeParents_safe:
  assumes "\<forall>r\<in>set (cfgBackupRoots a). isAbs r"
    "\<forall>p\<in>set ps. pathClean p = p \<and> \<not> jobRunningOn (appJobs a) (repoIDFromPath sha p)"
  shows "safeStep sha a (snd (wipeParents sha ps wiped a))"
  using assms
proof (induction ps arbitrary: wiped a)
  case Nil
  then show ?case by simp
next
  case (Cons p ps)
  show ?case
  proof (cases "pathInsideAny p (cfgBackupRoots a)")
    case False
    then show ?thesis using Cons by simp
  next
    case True
    let ?r = "removeAll (dupDir p) (appDisk a)"
    let ?a1 = "a\<lparr>appDisk := snd ?r\<rparr>" and ?a2 = "a\<lparr>appDisk := snd ?r, appMapping := snd (mappingDelete sha p (appMapping a))\<rparr>"
    have w: "wipesOnly sha (cfgBackupRoots a) (appJobs a) (appDisk a) (snd ?r)"
      using Cons.prems True by (intro removeAll_wipesOnly) auto
    then have "safeStep sha a ?a1" "safeStep sha a ?a2" by (simp_all add: safeStep_def mappingDelete_le)
    moreover have "safeStep sha ?a2 (snd (wipeParents sha ps (wiped @ [p]) ?a2))"
      by (rule Cons.IH) (use Cons.prems in auto)
    ultimately show ?thesis using True by (auto simp: case_prod_beta Let_def intro: safeStep_trans)
  qed
qed

lemma orphanStep_safe:
  "\<forall>r\<in>set (cfgBackupRoots (snd na)). isAbs r \<Longrightarrow> safeStep sha (snd na) (snd (orphanStep sha keep m na))"
  using removeAll_wipesOnly [of "cfgBackupRoots (snd na)" "pathClean (mRepoPath m)" "appJobs (snd na)" sha]
  by (auto simp: orphanStep_def case_prod_beta Let_def safeStep_def pathClean_idem mappingDelete_le)

lemma tombStep_safe:
  "\<forall>r\<in>set (cfgBackupRoots (snd na)). isAbs r \<Longrightarrow> pathClean (rPath r) = rPath r \<Longrightarrow>
   safeStep sha (snd na) (snd (tombStep sha tombSet r na))"
  using removeAll_wipesOnly [of "cfgBackupRoots (snd na)" "rPath r" "appJobs (snd na)" sha]
  by (auto simp: tombStep_def case_prod_beta Let_def safeStep_def mappingDelete_le)

lemma fold_safe:
  assumes "\<And>x na. x \<in> set xs \<Longrightarrow> \<forall>r\<in>set (cfgBackupRoots (snd na)). isAbs r \<Longrightarrow> safeStep sha (snd na) (snd (f x na))"
    and "\<forall>r\<in>set (cfgBackupRoots (snd na)). isAbs r"
  shows "safeStep sha (snd na) (snd (fold f xs na))"
  using assms
proof (induction xs arbitrary: na)
  case Nil
  then show ?case by simp
next
  case (Cons x xs)
  have st: "safeStep sha (snd na) (snd (f x na))" using Cons.prems by simp
  then have "\<forall>r\<in>set (cfgBackupRoots (snd (f x na))). isAbs r" using Cons.prems(2) by (simp add: safeStep_def)
  then have "safeStep sha (snd (f x na)) (snd (fold f xs (f x na)))" using Cons by simp
  with st show ?case by (simp add: safeStep_trans)
qed

lemma indexOk_list: "indexOk sha ix \<Longrightarrow> r \<in> set (indexList ix) \<Longrightarrow> pathClean (rPath r) = rPath r"
  by (auto simp: indexOk_def reposOk_def)

lemma reconcileTombstones_safe:
  assumes "\<forall>r\<in>set (cfgBackupRoots a). isAbs r" "indexOk sha (appRepos a)"
  shows "safeStep sha a (snd (reconcileTombstones sha now answer a))"
proof -
  let ?a = "a\<lparr>appRepos := scan sha now (appDisk a) (appMapping a) (appRepos a)\<rparr>"
  have ok: "indexOk sha (appRepos ?a)" using assms(2) by (simp add: indexOk_scan)
  have "safeStep sha (snd (0 :: nat, ?a)) (snd (fold (tombStep sha ts) (indexList (appRepos ?a)) (0, ?a)))" for ts
    by (rule fold_safe) (use assms in \<open>auto intro!: tombStep_safe indexOk_list [OF ok] simp del: set_indexList\<close>)
  moreover have "safeStep sha a ?a" by (simp add: safeStep_def)
  ultimately show ?thesis
    by (auto simp: reconcileTombstones_def Let_def intro: safeStep_trans split: option.splits)
qed

lemma resolveParents_Some:
  assumes "resolveParents sha now clean a = Some (ps, via, a1)" "pathClean clean = clean" "indexOk sha (appRepos a)"
  shows "safeStep sha a a1" "appDisk a1 = appDisk a" "appMapping a1 = appMapping a" "\<forall>p\<in>set ps. pathClean p = p"
proof -
  let ?ix = "scan sha now (appDisk a) (appMapping a) (appRepos a)"
  have ok: "indexOk sha ?ix" using assms(3) by (rule indexOk_scan)
  show "safeStep sha a a1" "appDisk a1 = appDisk a" "appMapping a1 = appMapping a" "\<forall>p\<in>set ps. pathClean p = p"
    using assms(1,2) indexOk_list [OF ok]
    by (auto simp: resolveParents_def Let_def safeStep_def simp del: set_indexList split: statResult.splits)
qed

lemma handleDeleteRepo_safeStep:
  assumes "\<forall>r\<in>set (cfgBackupRoots a). isAbs r" "indexOk sha (appRepos a)"
  shows "safeStep sha a (snd (handleDeleteRepo sha now req a))"
proof (cases "\<exists>p ps via a1. req = Some p \<and> hasPrefix p ''/'' \<and> pathClean p = p \<and> pathInsideAny p (cfgBackupRoots a) \<and>
    resolveParents sha now p a = Some (ps, via, a1) \<and>
    \<not> list_ex (jobRunningOn (appJobs a1)) (repoIDFromPath sha p # map (repoIDFromPath sha) ps)")
  case True
  then obtain p ps via a1 where r: "req = Some p" "hasPrefix p ''/''" "pathClean p = p"
      "pathInsideAny p (cfgBackupRoots a)" "resolveParents sha now p a = Some (ps, via, a1)"
      "\<not> list_ex (jobRunningOn (appJobs a1)) (repoIDFromPath sha p # map (repoIDFromPath sha) ps)" by blast
  note res = resolveParents_Some [OF r(5,3) assms(2)]
  let ?w = "wipeParents sha ps [] a1"
  have "safeStep sha a1 (snd ?w)"
    by (rule wipeParents_safe) (use r(6) res assms(1) in \<open>auto simp: safeStep_def list_ex_iff\<close>)
  with res(1) have w: "safeStep sha a (snd ?w)" by (rule safeStep_trans)
  have "safeStep sha a2 (rescanAsync (a2\<lparr>appMapping := snd (mappingDelete sha p (appMapping a2))\<rparr>))" for a2
    by (simp add: safeStep_def rescanAsync_def mappingDelete_le)
  with w r show ?thesis
    by (auto simp: handleDeleteRepo_def Let_def list_ex_iff split: prod.splits option.splits intro: safeStep_trans)
next
  case False
  then show ?thesis
    using resolveParents_Some(1) [OF _ _ assms(2)]
    by (auto simp: handleDeleteRepo_def Let_def list_ex_iff split: prod.splits option.splits)
qed

lemma reconcileOrphans_safeStep:
  assumes "\<forall>r\<in>set (cfgBackupRoots a). isAbs r" "indexOk sha (appRepos a)"
  shows "safeStep sha a (snd (reconcileOrphans sha now answer tombAnswer a))"
proof (cases "\<exists>c cs. fetchCentralRepos (cfgNodeName a) answer = Some (c # cs)")
  case False
  then show ?thesis by (auto simp: reconcileOrphans_def neq_Nil_conv split: option.splits)
next
  case True
  then obtain cs where cs: "fetchCentralRepos (cfgNodeName a) answer = Some cs" "cs \<noteq> []" by auto
  let ?f = "orphanStep sha (map cID cs)"
  let ?o = "fold ?f (mappingList (appMapping a)) (0, a)"
  let ?t = "reconcileTombstones sha now tombAnswer (snd ?o)"
  have o: "safeStep sha (snd (0 :: nat, a)) (snd ?o)"
    by (rule fold_safe) (use assms in \<open>auto intro!: orphanStep_safe\<close>)
  have "appRepos (snd (fold ?f ms na)) = appRepos (snd na)" for ms na
  proof (induction ms arbitrary: na)
    case (Cons m ms)
    then show ?case by (simp add: orphanStep_def Let_def case_prod_beta)
  qed simp
  then have "safeStep sha (snd ?o) (snd ?t)"
    using o assms by (intro reconcileTombstones_safe) (auto simp: safeStep_def)
  with o have "safeStep sha a (snd ?t)" by (auto intro: safeStep_trans)
  then show ?thesis using cs by (auto simp: reconcileOrphans_def case_prod_beta Let_def safeStep_def)
qed

lemma orphanStep_keeps:
  assumes "mappingGet (appMapping (snd na)) i = Some m" "storeOk sha (appMapping (snd na))" "mUUID m = [] \<or> mUUID m \<in> set keep"
    "mUUID m' = mUUID m \<or> repoIDFromPath sha (mRepoPath m') \<noteq> i"
  shows "mappingGet (appMapping (snd (orphanStep sha keep m' na))) i = Some m"
    "storeOk sha (appMapping (snd (orphanStep sha keep m' na)))"
  using assms by (auto simp: orphanStep_def Let_def case_prod_beta mappingGet_delete storeOk_mappingDelete)

lemma fold_orphanStep_keeps:
  assumes "mappingGet (appMapping (snd na)) i = Some m" "storeOk sha (appMapping (snd na))" "mUUID m = [] \<or> mUUID m \<in> set keep"
    "\<forall>m'\<in>set ms. mUUID m' = mUUID m \<or> repoIDFromPath sha (mRepoPath m') \<noteq> i"
  shows "mappingGet (appMapping (snd (fold (orphanStep sha keep) ms na))) i = Some m"
    "storeOk sha (appMapping (snd (fold (orphanStep sha keep) ms na)))"
proof -
  have "mappingGet (appMapping (snd (fold (orphanStep sha keep) ms na))) i = Some m \<and> storeOk sha (appMapping (snd (fold (orphanStep sha keep) ms na)))"
    using assms
  proof (induction ms arbitrary: na)
    case (Cons m' ms)
    then show ?case using orphanStep_keeps [of na i m sha keep m'] by auto
  qed simp
  then show "mappingGet (appMapping (snd (fold (orphanStep sha keep) ms na))) i = Some m"
    "storeOk sha (appMapping (snd (fold (orphanStep sha keep) ms na)))" by simp_all
qed

text \<open>A disk on which files were only removed: what can still be read is what was there.\<close>

definition shrinks :: "disk \<Rightarrow> disk \<Rightarrow> bool" where
  "shrinks d d' \<longleftrightarrow> ioErr d' = ioErr d \<and> (\<forall>q. map_of (entries d') q \<in> {None, map_of (entries d) q})"

lemma map_of_filter_key: "map_of (filter (\<lambda>(q, _). P q) xs) k = (if P k then map_of xs k else None)"
  by (induction xs) auto

lemma shrinks_removeAll: "shrinks d (snd (removeAll p d))"
  by (simp add: shrinks_def removeAll_def map_of_filter_key)

lemma shrinks_trans: "shrinks d d1 \<Longrightarrow> shrinks d1 d2 \<Longrightarrow> shrinks d d2"
  unfolding shrinks_def by (metis insert_iff singletonD)

lemma shrinks_prefs: "shrinks d d' \<Longrightarrow> readPreferences d' p = Inr raws \<Longrightarrow> readPreferences d p = Inr raws"
proof -
  assume s: "shrinks d d'" and r: "readPreferences d' p = Inr raws"
  have e: "map_of (entries d') p = Some (FileNode (Some raws))" "p \<notin> set (ioErr d')"
    using r by (auto simp: readPreferences_def osStat_def split: option.splits if_splits fsNode.splits)
  then have "map_of (entries d) p = Some (FileNode (Some raws))" "p \<notin> set (ioErr d)" using s unfolding shrinks_def by (metis insert_iff option.distinct(1) singletonD, simp)
  then show ?thesis by (simp add: readPreferences_def osStat_def)
qed

lemma fold_orphanStep_shrinks:
  "appRepos (snd (fold (orphanStep sha keep) ms na)) = appRepos (snd na) \<and> shrinks (appDisk (snd na)) (appDisk (snd (fold (orphanStep sha keep) ms na)))"
proof (induction ms arbitrary: na)
  case Nil
  then show ?case by (simp add: shrinks_def)
next
  case (Cons m ms)
  have "appRepos (snd (orphanStep sha keep m na)) = appRepos (snd na) \<and> shrinks (appDisk (snd na)) (appDisk (snd (orphanStep sha keep m na)))"
    using shrinks_removeAll by (simp add: orphanStep_def Let_def case_prod_beta) (simp add: shrinks_def)
  then show ?case using Cons.IH [of "orphanStep sha keep m na"] shrinks_trans by auto
qed

text \<open>Where the repos of an index come from.\<close>

lemma fold_scanStep_source:
  "r \<in> snd ` set (fold (scanStep sha now d legacy) ms found) \<Longrightarrow>
     r \<in> snd ` set found \<or> (\<exists>m\<in>set ms. loadRepo sha now d legacy (pathClean (mRepoPath m)) = Inr r)"
proof (induction ms arbitrary: found)
  case (Cons m ms)
  have "x \<in> snd ` set found \<or> loadRepo sha now d legacy (pathClean (mRepoPath m)) = Inr x"
    if "x \<in> snd ` set (scanStep sha now d legacy m found)" for x
  proof (cases "loadRepo sha now d legacy (pathClean (mRepoPath m))")
    case (Inr repo)
    then show ?thesis using that set_update_subset [of "rID repo" repo found] by (auto simp: scanStep_def Let_def split: if_splits)
  qed (use that in \<open>auto simp: scanStep_def Let_def split: if_splits\<close>)
  moreover have "r \<in> snd ` set (scanStep sha now d legacy m found) \<or> (\<exists>m\<in>set ms. loadRepo sha now d legacy (pathClean (mRepoPath m)) = Inr r)"
    by (rule Cons.IH) (use Cons.prems in simp)
  ultimately show ?case by auto
qed simp

lemma loadRepo_source:
  "loadRepo sha now d legacy p = Inr r \<Longrightarrow>
     rPath r = p \<and> (\<exists>r0 raws. readPreferences d (pathJoin [p, ''.duplicacy'', ''preferences'']) = Inr (r0 # raws) \<and> rSnapshotID r = pSnapshotID r0)"
  by (auto simp: loadRepo_def Let_def split: sum.splits list.splits)

lemma fold_tombStep_keeps:
  assumes "mappingGet (appMapping (snd na)) i = Some m"
    "\<forall>r\<in>set rs. repoIDFromPath sha (rPath r) = i \<longrightarrow> rSnapshotID r = [] \<or> map_of tombSet (rSnapshotID r) = None"
  shows "mappingGet (appMapping (snd (fold (tombStep sha tombSet) rs na))) i = Some m"
  using assms
proof (induction rs arbitrary: na)
  case (Cons r rs)
  have "mappingGet (appMapping (snd (tombStep sha tombSet r na))) i = Some m"
    using Cons.prems by (auto simp: tombStep_def Let_def case_prod_beta mappingGet_delete)
  then show ?case using Cons by simp
qed simp

lemma reconcileTombstones_keeps:
  assumes keep: "mappingGet (appMapping a) i = Some m" "storeOk sha (appMapping a)" and ok: "indexOk sha (appRepos a)"
    and index: "\<And>ts t r. answer = CCOk ts \<Longrightarrow> t \<in> set ts \<Longrightarrow> tSnapshotID t \<noteq> [] \<Longrightarrow> indexGet (appRepos a) i = Some r \<Longrightarrow> rSnapshotID r \<noteq> tSnapshotID t"
    and disk: "\<And>ts t r0 raws. answer = CCOk ts \<Longrightarrow> t \<in> set ts \<Longrightarrow> tSnapshotID t \<noteq> [] \<Longrightarrow>
      readPreferences (appDisk a) (pathJoin [pathClean (mRepoPath m), ''.duplicacy'', ''preferences'']) = Inr (r0 # raws) \<Longrightarrow> pSnapshotID r0 \<noteq> tSnapshotID t"
  shows "mappingGet (appMapping (snd (reconcileTombstones sha now answer a))) i = Some m"
proof (cases answer)
  case (CCOk ts)
  let ?ix = "scan sha now (appDisk a) (appMapping a) (appRepos a)"
  have h: "rSnapshotID r = [] \<or> map_of (rev (map (\<lambda>t. (tSnapshotID t, tRepoPath t)) ts)) (rSnapshotID r) = None"
    if r: "r \<in> set (indexList ?ix)" "repoIDFromPath sha (rPath r) = i" for r
  proof (rule ccontr)
    assume "\<not> ?thesis"
    then obtain t where t: "t \<in> set ts" "tSnapshotID t = rSnapshotID r" "rSnapshotID r \<noteq> []"
      by (auto simp: map_of_eq_None_iff rev_map [symmetric] image_iff)
    have cases: "?ix = appRepos a \<or> ?ix = scanLocked sha now (appDisk a) (appMapping a) (appRepos a)" by (simp add: scan_def split: option.split)
    show False
    proof (cases "?ix = appRepos a")
      case True
      then obtain j where j: "(j, r) \<in> set (ixRepos (appRepos a))" using r(1) by auto
      then have "indexGet (appRepos a) i = Some r" using ok r(2) by (auto simp: indexOk_def reposOk_def indexGet_def)
      then show False using index [OF CCOk t(1)] t(2,3) by simp
    next
      case False
      then have "r \<in> snd ` set (fold (scanStep sha now (appDisk a) (legacyBackuprootMap (appRepos a))) (mappingList (appMapping a)) [])"
        using cases r(1) by (simp add: scanLocked_def)
      from fold_scanStep_source [OF this] obtain m' where m': "m' \<in> set (mappingList (appMapping a))" "loadRepo sha now (appDisk a) (legacyBackuprootMap (appRepos a)) (pathClean (mRepoPath m')) = Inr r"
        by auto
      note src = loadRepo_source [OF m'(2)]
      have "m' = m" using storeOk_path [OF keep(2), of m'] m'(1) r(2) src keep(1) by auto
      moreover obtain r0 raws where "readPreferences (appDisk a) (pathJoin [pathClean (mRepoPath m'), ''.duplicacy'', ''preferences'']) = Inr (r0 # raws)"
          "rSnapshotID r = pSnapshotID r0" using src by blast
      ultimately show False using disk [OF CCOk t(1), of r0 raws] t(2,3) by simp
    qed
  qed
  show ?thesis
  proof (cases "ts = []")
    case False
    have "mappingGet (appMapping (snd (0 :: nat, a\<lparr>appRepos := ?ix\<rparr>))) i = Some m" using keep(1) by simp
    from fold_tombStep_keeps [OF this] show ?thesis using h CCOk False
      by (simp add: reconcileTombstones_def fetchTombstones_def Let_def del: set_indexList)
  qed (use keep(1) CCOk in \<open>simp add: reconcileTombstones_def fetchTombstones_def\<close>)
qed (use keep(1) in \<open>simp_all add: reconcileTombstones_def fetchTombstones_def\<close>)

lemma mappingList_same_id:
  "storeOk sha s \<Longrightarrow> mappingGet s i = Some m \<Longrightarrow> m' \<in> set (mappingList s) \<Longrightarrow> repoIDFromPath sha (mRepoPath m') = i \<Longrightarrow> m' = m"
  using storeOk_path [of sha s m'] by auto

lemma refreshStep_grows:
  assumes "storeOk sha s"
  shows "storeOk sha (refreshStep sha now r s)" "mappingGet s \<subseteq>\<^sub>m mappingGet (refreshStep sha now r s)"
    "pathClean (cRepoPath r) \<noteq> ''.'' \<Longrightarrow> getByPath sha (refreshStep sha now r s) (cRepoPath r) \<noteq> None"
  using reg.look_put [OF assms, of now] reg.ok_put [OF assms, of now] assms
  by (auto simp: refreshStep_def Let_def getByPath_def map_le_def)

lemma fold_refreshStep_grows:
  assumes "storeOk sha s"
  shows "storeOk sha (fold (refreshStep sha now) rs s) \<and> mappingGet s \<subseteq>\<^sub>m mappingGet (fold (refreshStep sha now) rs s) \<and>
    (\<forall>r\<in>set rs. pathClean (cRepoPath r) \<noteq> ''.'' \<longrightarrow> getByPath sha (fold (refreshStep sha now) rs s) (cRepoPath r) \<noteq> None)"
  using assms
proof (induction rs arbitrary: s)
  case Nil
  then show ?case by simp
next
  case (Cons r rs)
  let ?s = "refreshStep sha now r s"
  note st = refreshStep_grows [OF Cons.prems, where now = now and r = r]
  note ih = Cons.IH [OF st(1)]
  have "getByPath sha (fold (refreshStep sha now) rs ?s) (cRepoPath r) \<noteq> None" if "pathClean (cRepoPath r) \<noteq> ''.''"
    using st(3) [OF that] ih by (auto simp: getByPath_def map_le_def dom_def)
  with ih st(2) show ?case by (auto intro: map_le_trans)
qed

lemmas lifecycle_defs = handleDeleteRepo_def resolveParents_def Let_def

section \<open>Properties\<close>

text \<open>C1. Deletion is confined. Whatever the request, the disk loses only entries that lay in the
  \<open>.duplicacy\<close> directory of a path inside BACKUP_ROOTS on which no job is running, nothing new
  appears, and the registry only loses entries.\<close>

theorem handleDeleteRepo_confined:
  assumes "\<forall>r\<in>set (cfgBackupRoots a). isAbs r" "indexOk sha (appRepos a)"
  shows "wipesOnly sha (cfgBackupRoots a) (appJobs a) (appDisk a) (appDisk (snd (handleDeleteRepo sha now req a))) \<and>
     mappingGet (appMapping (snd (handleDeleteRepo sha now req a))) \<subseteq>\<^sub>m mappingGet (appMapping a)"
  using handleDeleteRepo_safeStep [OF assms] by (simp add: safeStep_def)

definition exApp :: app where
  "exApp = \<lparr>cfgBackupRoots = [''/data''], cfgNodeName = ''n1'',
     appMapping = snd (upsert id 7 exMapping (newRepoMappingStore NoFile False)),
     appRepos = newRepoIndex [], appDisk = exDisk, appJobs = [], rescans = 0, fleetTriggers = 0\<rparr>"

lemma exApp_ok: "\<forall>r\<in>set (cfgBackupRoots exApp). isAbs r" "indexOk id (appRepos exApp)" "storeOk id (appMapping exApp)"
  by (simp_all add: exApp_def isAbs_def indexOk_def reposOk_def newRepoIndex_def storeOk_upsert storeOk_new)

theorem handleDeleteRepo_confined_witness:
  "wipesOnly id [''/data''] [] exDisk (appDisk (snd (handleDeleteRepo id 9 (Some ''/data/a'') exApp)))"
  using handleDeleteRepo_confined [OF exApp_ok(1,2), of 9 "Some ''/data/a''"] by (simp add: exApp_def)

text \<open>A delete whose literal target exists and can be removed succeeds: everything below
  \<open>.duplicacy\<close> is gone and the rest of the disk untouched, the registry entry of the path is gone
  and the other entries unchanged, and a rescan is requested.\<close>

theorem handleDeleteRepo_literal:
  assumes "isAbs p" "pathClean p = p" "pathInsideAny p (cfgBackupRoots a)" "osStat (appDisk a) (dupDir p) = StatOk n"
    "\<not> jobRunningOn (appJobs a) (repoIDFromPath sha p)" "\<not> fst (removeAll (dupDir p) (appDisk a))"
  shows "\<exists>a'. handleDeleteRepo sha now (Some p) a =
      (HttpOk \<lparr>drRemoved = True, drRepoPath = p, drWipedPaths = [p], drResolvedVia = ''literal''\<rparr>, a') \<and>
     entries (appDisk a') = filter (\<lambda>(q, _). \<not> pathWithin (dupDir p) q) (entries (appDisk a)) \<and>
     mappingGet (appMapping a') = (mappingGet (appMapping a))(repoIDFromPath sha p := None) \<and>
     rescans a' = rescans a + 1"
proof -
  have "\<not> rmBlocked (appDisk a) q" if "pathWithin (dupDir p) q" for q
    using assms(6) that by (auto simp: removeAll_def rmBlocked_def list_ex_iff dest: pathWithin_trans)
  then have "filter (\<lambda>(q, _). \<not> pathWithin (dupDir p) q \<or> rmBlocked (appDisk a) q) (entries (appDisk a))
     = filter (\<lambda>(q, _). \<not> pathWithin (dupDir p) q) (entries (appDisk a))"
    by (auto intro!: filter_cong)
  with assms show ?thesis
    by (simp add: lifecycle_defs isAbs_def case_prod_beta rescanAsync_def mappingGet_delete) (simp add: removeAll_def)
qed

theorem handleDeleteRepo_literal_witness:
  "\<exists>a' resp. handleDeleteRepo id 9 (Some ''/data/a'') exApp = (HttpOk resp, a') \<and> drRemoved resp \<and>
     entries (appDisk a') = [] \<and> mappingGet (appMapping a') (repoIDFromPath id ''/data/a'') = None"
proof -
  have c: "isAbs ''/data/a''" "pathClean ''/data/a'' = ''/data/a''" "pathInsideAny ''/data/a'' [''/data'']"
    "dupDir ''/data/a'' = ''/data/a/.duplicacy''"
    "pathWithin ''/data/a/.duplicacy'' ''/data/a/.duplicacy''" "pathWithin ''/data/a/.duplicacy'' ''/data/a/.duplicacy/preferences''"
    by code_simp+
  have "pathInsideAny ''/data/a'' (cfgBackupRoots exApp)" "osStat (appDisk exApp) (dupDir ''/data/a'') = StatOk DirNode"
    "\<not> jobRunningOn (appJobs exApp) (repoIDFromPath id ''/data/a'')" "\<not> fst (removeAll (dupDir ''/data/a'') (appDisk exApp))"
    by (simp_all add: exApp_def c osStat_def exDisk_def jobRunningOn_def removeAll_def del: pathInsideAny.simps)
  from handleDeleteRepo_literal [OF c(1,2) this, of 9] show ?thesis
    by (auto simp: exApp_def exDisk_def c)
qed

text \<open>A delete of a repo with a running job answers 409 and changes neither the disk nor the
  registry.\<close>

theorem handleDeleteRepo_conflict:
  assumes "isAbs p" "pathClean p = p" "pathInsideAny p (cfgBackupRoots a)" "osStat (appDisk a) (dupDir p) \<noteq> StatErr"
    "jobRunningOn (appJobs a) (repoIDFromPath sha p)"
  shows "\<exists>a'. handleDeleteRepo sha now (Some p) a = (HttpError 409, a') \<and> appDisk a' = appDisk a \<and> appMapping a' = appMapping a"
  using assms by (auto simp: lifecycle_defs isAbs_def split: statResult.splits)

definition exJob :: "JobState \<Rightarrow> jobPublic" where
  "exJob st = \<lparr>jID = ''j'', jRepoID = repoIDFromPath id ''/data/a'', jRepoPath = ''/data/a'', jAction = ActionBackup,
     jStorageName = [], jArgs = [], jState = st, jStartedAt = None, jCompletedAt = None, jExitCode = 0,
     jErrorMsg = [], jLineCount = 0, jProgress = None, jScheduleID = [], jTriggerKey = ''ui''\<rparr>"

theorem handleDeleteRepo_conflict_witness:
  "fst (handleDeleteRepo id 9 (Some ''/data/a'') (exApp\<lparr>appJobs := [exJob JobRunning]\<rparr>)) = HttpError 409"
proof -
  let ?a = "exApp\<lparr>appJobs := [exJob JobRunning]\<rparr>"
  have c: "isAbs ''/data/a''" "pathClean ''/data/a'' = ''/data/a''" "pathInsideAny ''/data/a'' [''/data'']"
    by code_simp+
  have "pathInsideAny ''/data/a'' (cfgBackupRoots ?a)" "osStat (appDisk ?a) (dupDir ''/data/a'') \<noteq> StatErr"
    "jobRunningOn (appJobs ?a) (repoIDFromPath id ''/data/a'')"
    by (simp_all add: exApp_def c osStat_def exDisk_def jobRunningOn_def exJob_def del: pathInsideAny.simps)
  from handleDeleteRepo_conflict [OF c(1,2) this, of 9] show ?thesis by auto
qed

text \<open>C2. A reconcile tick is confined in the same way, for both its passes: it removes only
  \<open>.duplicacy\<close> content of idle repos inside BACKUP_ROOTS.\<close>

theorem reconcileOrphans_confined:
  assumes "\<forall>r\<in>set (cfgBackupRoots a). isAbs r" "indexOk sha (appRepos a)"
  shows "wipesOnly sha (cfgBackupRoots a) (appJobs a) (appDisk a) (appDisk (snd (reconcileOrphans sha now answer tombAnswer a)))"
  using reconcileOrphans_safeStep [OF assms] by (simp add: safeStep_def)

theorem reconcileOrphans_confined_witness:
  "wipesOnly id [''/data''] [] exDisk
     (appDisk (snd (reconcileOrphans id 9 (CCOk [\<lparr>cID = ''u2'', cNode = ''n1'', cRepoPath = ''/data/b''\<rparr>]) CCNotFound exApp)))"
  using reconcileOrphans_confined [OF exApp_ok(1,2), of 9 "CCOk [\<lparr>cID = ''u2'', cNode = ''n1'', cRepoPath = ''/data/b''\<rparr>]" CCNotFound]
  by (simp add: exApp_def)

text \<open>No mass deletion: when the controller cannot be reached, answers an error, or lists no
  repo of this node, a reconcile tick changes nothing.\<close>

theorem reconcileOrphans_empty_central:
  assumes "\<forall>rs. answer = CCOk rs \<longrightarrow> (\<forall>r\<in>set rs. cNode r \<noteq> cfgNodeName a)"
  shows "snd (reconcileOrphans sha now answer tombAnswer a) = a"
  using assms by (auto simp: reconcileOrphans_def fetchCentralRepos_def filter_empty_conv split: ccAnswer.splits)

theorem reconcileOrphans_empty_central_witness:
  "snd (reconcileOrphans id 9 (CCOk [\<lparr>cID = ''u2'', cNode = ''other'', cRepoPath = ''/x''\<rparr>])
     (CCOk [\<lparr>tSnapshotID = ''a'', tRepoPath = ''/data/a''\<rparr>]) exApp) = exApp"
  by (rule reconcileOrphans_empty_central) (simp add: exApp_def)

text \<open>C26. A reconcile tick keeps the registry entry of every repo the controller still lists for this node, and of every entry
  without a controller id, whatever the tombstones are, as long as no tombstone names the snapshot id that the agent knows for this
  repo: the one in the preferences on disk or the one in its index. (A repo whose snapshot id is tombstoned is wiped in the second
  pass, listed or not.)\<close>

theorem reconcileOrphans_keeps_registered:
  assumes "storeOk sha (appMapping a)" "indexOk sha (appRepos a)" "mappingGet (appMapping a) i = Some m"
    "mUUID m = [] \<or> (\<exists>r\<in>set rs. cNode r = cfgNodeName a \<and> cID r = mUUID m)"
    "\<forall>ts. tombAnswer = CCOk ts \<longrightarrow> (\<forall>t\<in>set ts. tSnapshotID t \<noteq> [] \<longrightarrow>
       (\<forall>r. indexGet (appRepos a) i = Some r \<longrightarrow> rSnapshotID r \<noteq> tSnapshotID t) \<and>
       (\<forall>r0 raws. readPreferences (appDisk a) (pathJoin [pathClean (mRepoPath m), ''.duplicacy'', ''preferences'']) = Inr (r0 # raws) \<longrightarrow> pSnapshotID r0 \<noteq> tSnapshotID t))"
  shows "mappingGet (appMapping (snd (reconcileOrphans sha now (CCOk rs) tombAnswer a))) i = Some m"
proof -
  let ?cs = "filter (\<lambda>r. cNode r = cfgNodeName a) rs"
  let ?o = "snd (fold (orphanStep sha (map cID ?cs)) (mappingList (appMapping a)) (0, a))"
  have keep: "mappingGet (appMapping ?o) i = Some m" "storeOk sha (appMapping ?o)"
    by (rule fold_orphanStep_keeps; use assms in \<open>auto dest: mappingList_same_id intro: rev_image_eqI simp del: set_mappingList\<close>)+
  have o: "appRepos ?o = appRepos a" "shrinks (appDisk a) (appDisk ?o)" using fold_orphanStep_shrinks [of sha "map cID ?cs" "mappingList (appMapping a)" "(0, a)"] by simp_all
  have "mappingGet (appMapping (snd (reconcileTombstones sha now tombAnswer ?o))) i = Some m"
  proof (rule reconcileTombstones_keeps [OF keep])
    show "indexOk sha (appRepos ?o)" using assms(2) o(1) by simp
    fix ts t assume t: "tombAnswer = CCOk ts" "t \<in> set ts" "tSnapshotID t \<noteq> []"
    note tomb = assms(5) [rule_format, OF t]
    show "rSnapshotID r \<noteq> tSnapshotID t" if "indexGet (appRepos ?o) i = Some r" for r using tomb that unfolding o(1) by blast
    show "pSnapshotID r0 \<noteq> tSnapshotID t"
      if "readPreferences (appDisk ?o) (pathJoin [pathClean (mRepoPath m), ''.duplicacy'', ''preferences'']) = Inr (r0 # raws)" for r0 raws
      using tomb shrinks_prefs [OF o(2) that] by blast
  qed
  then show ?thesis
    using assms(3) by (simp add: reconcileOrphans_def fetchCentralRepos_def case_prod_beta)
qed

text \<open>Witness: a tick with a tombstone for another snapshot id.\<close>

theorem reconcileOrphans_keeps_registered_witness:
  "mappingGet (appMapping (snd (reconcileOrphans id 9 (CCOk [\<lparr>cID = ''u1'', cNode = ''n1'', cRepoPath = ''/data/a''\<rparr>]) (CCOk [\<lparr>tSnapshotID = ''z'', tRepoPath = ''/data/z''\<rparr>]) exApp)))
     (repoIDFromPath id ''/data/a'') = Some (exMapping\<lparr>mRegisteredAt := Some 7\<rparr>)"
proof (rule reconcileOrphans_keeps_registered [OF exApp_ok(3,2)])
  show "mappingGet (appMapping exApp) (repoIDFromPath id ''/data/a'') = Some (exMapping\<lparr>mRegisteredAt := Some 7\<rparr>)"
    by (simp add: exApp_def mappingGet_fun byID_upsert exMapping_def stamped_def newRepoMappingStore_def)
  show "\<forall>ts. CCOk [\<lparr>tSnapshotID = ''z'', tRepoPath = ''/data/z''\<rparr>] = CCOk ts \<longrightarrow> (\<forall>t\<in>set ts. tSnapshotID t \<noteq> [] \<longrightarrow>
      (\<forall>r. indexGet (appRepos exApp) (repoIDFromPath id ''/data/a'') = Some r \<longrightarrow> rSnapshotID r \<noteq> tSnapshotID t) \<and>
      (\<forall>r0 raws. readPreferences (appDisk exApp) (pathJoin [pathClean (mRepoPath (exMapping\<lparr>mRegisteredAt := Some 7\<rparr>)), ''.duplicacy'', ''preferences'']) = Inr (r0 # raws) \<longrightarrow>
         pSnapshotID r0 \<noteq> tSnapshotID t))"
  proof -
    have p: "pathJoin [pathClean (mRepoPath (exMapping\<lparr>mRegisteredAt := Some 7\<rparr>)), ''.duplicacy'', ''preferences''] = ''/data/a/.duplicacy/preferences''" by code_simp
    have "readPreferences exDisk ''/data/a/.duplicacy/preferences'' = Inr [exPref]" by (simp add: readPreferences_def osStat_def exDisk_def)
    moreover have "pSnapshotID exPref \<noteq> ''z''" by (simp add: exPref_def)
    moreover have "appDisk exApp = exDisk" "indexGet (appRepos exApp) k = None" for k by (simp_all add: exApp_def indexGet_def newRepoIndex_def)
    ultimately show ?thesis unfolding p by simp
  qed
  show "mUUID (exMapping\<lparr>mRegisteredAt := Some 7\<rparr>) = [] \<or>
      (\<exists>r\<in>set [\<lparr>cID = ''u1'', cNode = ''n1'', cRepoPath = ''/data/a''\<rparr>]. cNode r = cfgNodeName exApp \<and> cID r = mUUID (exMapping\<lparr>mRegisteredAt := Some 7\<rparr>))"
    by (simp add: exMapping_def exApp_def)
qed

text \<open>The recovery pass at start-up only adds: no registry entry changes or disappears, the
  disk is untouched, and every path the controller lists for this node is registered afterwards.\<close>

theorem refreshMappingFromController_adds:
  assumes "storeOk sha (appMapping a)"
  shows "let a' = refreshMappingFromController sha now answer a
     in storeOk sha (appMapping a') \<and> mappingGet (appMapping a) \<subseteq>\<^sub>m mappingGet (appMapping a') \<and> appDisk a' = appDisk a \<and>
        (\<forall>rs r. answer = CCOk rs \<longrightarrow> r \<in> set rs \<longrightarrow> cNode r = cfgNodeName a \<longrightarrow> pathClean (cRepoPath r) \<noteq> ''.'' \<longrightarrow>
           getByPath sha (appMapping a') (cRepoPath r) \<noteq> None)"
  using assms fold_refreshStep_grows [OF assms]
  by (auto simp: refreshMappingFromController_def fetchCentralRepos_def Let_def split: ccAnswer.splits)

theorem refreshMappingFromController_adds_witness:
  "getByPath id (appMapping (refreshMappingFromController id 9
     (CCOk [\<lparr>cID = ''u2'', cNode = ''n1'', cRepoPath = ''/data/b''\<rparr>]) exApp)) ''/data/b'' \<noteq> None"
proof -
  have "pathClean ''/data/b'' \<noteq> ''.''" by code_simp
  then show ?thesis
    using refreshMappingFromController_adds [OF exApp_ok(3), of 9 "CCOk [\<lparr>cID = ''u2'', cNode = ''n1'', cRepoPath = ''/data/b''\<rparr>]"]
    by (simp add: Let_def exApp_def)
qed

end
