(* ===== verification/Regex.thy ===== *)
theory Regex
  imports Prelude
begin

text \<open>
  The part of package \<open>regexp\<close> the parsers use. All expressions of the sources are sequences of
  pieces: literals, repetitions of a character class, optional groups, alternatives of literals and
  the assertions \<open>$\<close> and \<open>\b\<close>, with capture groups that do not nest. \<open>reMatch\<close> tries the choices
  in Go's leftmost-first order (greedy longest first, non-greedy shortest first) and returns the
  captured substrings; \<open>findSubmatch\<close> tries the start positions from left to right.
\<close>

datatype rePiece =
    Lit string
  | Rep bool nat "nat option" "char \<Rightarrow> bool"  \<comment> \<open>greedy, least, most, class\<close>
  | OptGroup "rePiece list"  \<comment> \<open>\<open>(?:...)?\<close>\<close>
  | AltLit "string list"
  | GroupOpen
  | GroupClose
  | EndOfText
  | WordBoundary

definition reDigit :: "char \<Rightarrow> bool" where "reDigit c = isDigit c"

definition reSpace :: "char \<Rightarrow> bool" where
  "reSpace c \<longleftrightarrow> c = CHR '' '' \<or> (of_char c :: nat) \<in> {9, 10, 12, 13}"

definition reNonSpace :: "char \<Rightarrow> bool" where "reNonSpace c \<longleftrightarrow> \<not> reSpace c"

definition reDot :: "char \<Rightarrow> bool" where "reDot c \<longleftrightarrow> (of_char c :: nat) \<noteq> 10"

definition reWord :: "char \<Rightarrow> bool" where
  "reWord c \<longleftrightarrow> isDigit c \<or> c = CHR ''_'' \<or> (let n = (of_char c :: nat) in (65 \<le> n \<and> n \<le> 90) \<or> (97 \<le> n \<and> n \<le> 122))"

definition wordAt :: "char option \<Rightarrow> bool" where
  "wordAt c = (case c of None \<Rightarrow> False | Some x \<Rightarrow> reWord x)"

fun firstSome :: "('a \<Rightarrow> 'b option) \<Rightarrow> 'a list \<Rightarrow> 'b option" where
  "firstSome f [] = None"
| "firstSome f (x # xs) = (case f x of None \<Rightarrow> firstSome f xs | Some y \<Rightarrow> Some y)"

definition lastOr :: "char option \<Rightarrow> string \<Rightarrow> char option" where
  "lastOr p s = (if s = [] then p else Some (last s))"

definition headOpt :: "string \<Rightarrow> char option" where
  "headOpt s = (case s of [] \<Rightarrow> None | c # _ \<Rightarrow> Some c)"

fun pieceSize :: "rePiece \<Rightarrow> nat" where
  "pieceSize (OptGroup qs) = Suc (sum_list (map pieceSize qs))"
| "pieceSize _ = 1"

lemma pieceSize_pos [simp]: "0 < pieceSize p"
  by (cases p) auto

text \<open>Arguments: the pieces left, the character before the current position, the rest of the text,
  the text at the opening of the current group, the captures so far.\<close>

function reMatch :: "rePiece list \<Rightarrow> char option \<Rightarrow> string \<Rightarrow> string \<Rightarrow> string list \<Rightarrow> string list option" where
  "reMatch [] pv s op caps = Some (rev caps)"
| "reMatch (Lit t # ps) pv s op caps =
     (if prefix t s then reMatch ps (lastOr pv t) (drop (length t) s) op caps else None)"
| "reMatch (Rep greedy lo hi P # ps) pv s op caps =
     (let run = length (takeWhile P s); n = (case hi of None \<Rightarrow> run | Some h \<Rightarrow> min h run);
          ks = (if greedy then rev [lo..<Suc n] else [lo..<Suc n])
      in firstSome (\<lambda>k. reMatch ps (lastOr pv (take k s)) (drop k s) op caps) ks)"
| "reMatch (OptGroup qs # ps) pv s op caps =
     (case reMatch (qs @ ps) pv s op caps of None \<Rightarrow> reMatch ps pv s op caps | Some r \<Rightarrow> Some r)"
| "reMatch (AltLit ts # ps) pv s op caps =
     firstSome (\<lambda>t. if prefix t s then reMatch ps (lastOr pv t) (drop (length t) s) op caps else None) ts"
| "reMatch (GroupOpen # ps) pv s op caps = reMatch ps pv s s caps"
| "reMatch (GroupClose # ps) pv s op caps = reMatch ps pv s op (take (length op - length s) op # caps)"
| "reMatch (EndOfText # ps) pv s op caps = (if s = [] then reMatch ps pv s op caps else None)"
| "reMatch (WordBoundary # ps) pv s op caps =
     (if wordAt pv \<noteq> wordAt (headOpt s) then reMatch ps pv s op caps else None)"
  by pat_completeness auto
termination
  by (relation "measure (\<lambda>(ps, _). sum_list (map pieceSize ps))") auto

text \<open>\<open>FindStringSubmatch\<close> without the whole match: the captures of the leftmost match. \<open>anchored\<close>
  is a leading \<open>^\<close>.\<close>

fun searchFrom :: "rePiece list \<Rightarrow> char option \<Rightarrow> string \<Rightarrow> string list option" where
  "searchFrom ps pv [] = reMatch ps pv [] [] []"
| "searchFrom ps pv (c # s) =
     (case reMatch ps pv (c # s) [] [] of Some r \<Rightarrow> Some r | None \<Rightarrow> searchFrom ps (Some c) s)"

definition findSubmatch :: "bool \<Rightarrow> rePiece list \<Rightarrow> string \<Rightarrow> string list option" where
  "findSubmatch anchored ps s = (if anchored then reMatch ps None s [] [] else searchFrom ps None s)"

definition matchString :: "bool \<Rightarrow> rePiece list \<Rightarrow> string \<Rightarrow> bool" where
  "matchString anchored ps s \<longleftrightarrow> findSubmatch anchored ps s \<noteq> None"

text \<open>Abbreviations for the pieces that recur.\<close>

abbreviation digits1 :: rePiece where "digits1 \<equiv> Rep True 1 None reDigit"
abbreviation nonSpace1 :: rePiece where "nonSpace1 \<equiv> Rep True 1 None reNonSpace"
abbreviation space1 :: rePiece where "space1 \<equiv> Rep True 1 None reSpace"
abbreviation space0 :: rePiece where "space0 \<equiv> Rep True 0 None reSpace"
abbreviation lazyDot1 :: rePiece where "lazyDot1 \<equiv> Rep False 1 None reDot"

section \<open>Facts\<close>

lemma firstSome_Some: "firstSome f xs = Some y \<Longrightarrow> \<exists>x\<in>set xs. f x = Some y"
  by (induction xs) (auto split: option.splits)

lemma firstSome_None: "firstSome f xs = None \<longleftrightarrow> (\<forall>x\<in>set xs. f x = None)"
  by (induction xs) (auto split: option.splits)

text \<open>The number of captures of a match is the number of closed groups when no group is optional.\<close>

fun groupCount :: "rePiece list \<Rightarrow> nat" where
  "groupCount [] = 0"
| "groupCount (GroupClose # ps) = Suc (groupCount ps)"
| "groupCount (_ # ps) = groupCount ps"

definition optFree :: "rePiece list \<Rightarrow> bool" where
  "optFree ps \<longleftrightarrow> list_all (\<lambda>p. case p of OptGroup qs \<Rightarrow> groupCount qs = 0 \<and> list_all (\<lambda>q. case q of OptGroup _ \<Rightarrow> False | _ \<Rightarrow> True) qs | _ \<Rightarrow> True) ps"

lemma groupCount_append: "groupCount (ps @ qs) = groupCount ps + groupCount qs"
  by (induction ps rule: groupCount.induct) auto

lemma reMatch_length:
  "reMatch ps pv s op caps = Some r \<Longrightarrow> optFree ps \<Longrightarrow> length r = length caps + groupCount ps"
proof (induction ps pv s op caps rule: reMatch.induct)
  case (4 qs ps pv s op caps)
  have "optFree (qs @ ps)" "groupCount qs = 0"
    using "4.prems"(2) by (auto simp: optFree_def list_all_iff split: rePiece.splits)
  with 4 show ?case
    by (auto simp: groupCount_append optFree_def split: option.splits)
next
  case (3 greedy lo hi P ps pv s op caps)
  have of: "optFree ps" using "3.prems" by (simp add: optFree_def)
  from "3.prems"(1) obtain k where "reMatch ps (lastOr pv (take k s)) (drop k s) op caps = Some r"
    by (auto simp: Let_def dest!: firstSome_Some)
  with 3 of show ?case by simp
next
  case (5 ts ps pv s op caps)
  have of: "optFree ps" using "5.prems" by (simp add: optFree_def)
  from "5.prems"(1) obtain t where "prefix t s" "reMatch ps (lastOr pv t) (drop (length t) s) op caps = Some r"
    by (auto dest!: firstSome_Some split: if_splits)
  with 5 of show ?case by simp
qed (auto simp: optFree_def split: if_splits)

lemma findSubmatch_length: "findSubmatch a ps s = Some r \<Longrightarrow> optFree ps \<Longrightarrow> length r = groupCount ps"
proof -
  have "searchFrom ps pv t = Some r \<Longrightarrow> optFree ps \<Longrightarrow> length r = groupCount ps" for pv t
    by (induction ps pv t rule: searchFrom.induct) (auto dest!: reMatch_length split: option.splits)
  then show "findSubmatch a ps s = Some r \<Longrightarrow> optFree ps \<Longrightarrow> length r = groupCount ps"
    by (auto simp: findSubmatch_def dest: reMatch_length split: if_splits)
qed

text \<open>Determinate steps: a greedy repetition takes the whole run of its class when the rest then
  matches.\<close>

lemma reMatch_LitI:
  "reMatch ps (lastOr pv t) s op caps = Some r \<Longrightarrow> reMatch (Lit t # ps) pv (t @ s) op caps = Some r"
  by simp

lemma reMatch_greedyI:
  assumes "list_all P x" "s = [] \<or> \<not> P (hd s)" "lo \<le> length x" "hi = None \<or> hi = Some (length x)"
    "reMatch ps (lastOr pv x) s op caps = Some r"
  shows "reMatch (Rep True lo hi P # ps) pv (x @ s) op caps = Some r"
proof -
  have "takeWhile P (x @ s) = x"
    using assms(1,2) by (cases s) (auto simp: takeWhile_append2 list_all_iff takeWhile_tail)
  then show ?thesis using assms(3-5) by (auto simp: Let_def)
qed

lemma reMatch_exactI:
  assumes "list_all P x" "length x = n" "reMatch ps (lastOr pv x) s op caps = Some r"
  shows "reMatch (Rep True n (Some n) P # ps) pv (x @ s) op caps = Some r"
proof -
  have "takeWhile P (x @ s) = x @ takeWhile P s" using assms(1) by (simp add: takeWhile_append2 list_all_iff)
  then have "min n (length (takeWhile P (x @ s))) = n" using assms(2) by simp
  moreover have "rev [n..<Suc n] = [n]" by simp
  ultimately show ?thesis using assms(2,3) by (simp add: Let_def)
qed

lemma reMatch_OptNoI:
  "reMatch (qs @ ps) pv s op caps = None \<Longrightarrow> reMatch ps pv s op caps = Some r \<Longrightarrow>
   reMatch (OptGroup qs # ps) pv s op caps = Some r"
  by simp

lemma reMatch_groupI:
  "reMatch ps pv s s caps = Some r \<Longrightarrow> reMatch (GroupOpen # ps) pv s op caps = Some r"
  "reMatch ps pv s (x @ s) (x # caps) = Some r \<Longrightarrow> reMatch (GroupClose # ps) pv s (x @ s) caps = Some r"
  by simp_all

lemma searchFrom_skip:
  "\<forall>i<length p. \<not> prefix t (drop i (p @ s)) \<Longrightarrow> \<forall>pv. searchFrom (Lit t # ps) pv s = Some r \<Longrightarrow>
   searchFrom (Lit t # ps) pv (p @ s) = Some r"
proof (induction p arbitrary: pv)
  case Nil
  then show ?case by simp
next
  case (Cons c p)
  have "\<not> prefix t (c # p @ s)" using Cons.prems(1) by (metis append_Cons drop0 length_greater_0_conv list.discI)
  moreover have "\<forall>i<length p. \<not> prefix t (drop i (p @ s))" using Cons.prems(1) by (metis append_Cons drop_Suc_Cons length_Cons not_less_eq)
  ultimately show ?case using Cons by simp
qed

lemma searchFrom_here: "reMatch ps pv s [] [] = Some r \<Longrightarrow> searchFrom ps pv s = Some r"
  by (cases s) simp_all

end
