(* ===== verification/Duplicacy.thy ===== *)
theory Duplicacy
  imports Repos Regex
begin

text \<open>
  duplicacy.go: the parser of \<open>duplicacy list\<close> output, the builders of CLI invocations, the
  child environment, and the scrubbing of the preferences file. \<open>autoThreads\<close> (fleet_ws.go)
  depends on the number of CPUs, which is an argument.
\<close>

section \<open>Listing output\<close>

definition snapshotLineRe :: "rePiece list" where
  "snapshotLineRe =
     [Lit ''Snapshot'', space1, GroupOpen, nonSpace1, GroupClose, space1, Lit ''revision'', space1,
      GroupOpen, digits1, GroupClose, space1, Lit ''created at'', space1,
      GroupOpen, Rep True 4 (Some 4) reDigit, Lit ''-'', Rep True 2 (Some 2) reDigit, Lit ''-'',
      Rep True 2 (Some 2) reDigit, space1, Rep True 2 (Some 2) reDigit, Lit '':'',
      Rep True 2 (Some 2) reDigit, OptGroup [Lit '':'', Rep True 2 (Some 2) reDigit], GroupClose]"

record Snapshot =
  snSnapshotID :: string
  snRevision :: int
  snCreatedAt :: go_time
  snRaw :: string

text \<open>\<open>time.Parse\<close> with the layouts "2006-01-02 15:04:05" and "2006-01-02 15:04" on texts of the
  shape the expression captures: the date, white space, and the time of day. The layouts ask for
  blanks between the two; every field is range-checked.\<close>

definition isLeap :: "int \<Rightarrow> bool" where
  "isLeap y \<longleftrightarrow> y mod 4 = 0 \<and> (y mod 100 \<noteq> 0 \<or> y mod 400 = 0)"

definition daysIn :: "int \<Rightarrow> int \<Rightarrow> int" where
  "daysIn m y =
     (if m = 2 then (if isLeap y then 29 else 28) else if m \<in> {4, 6, 9, 11} then 30 else 31)"

text \<open>Days from 1970-01-01, on the calendar that starts the year in March.\<close>

definition daysFromCivil :: "int \<Rightarrow> int \<Rightarrow> int \<Rightarrow> int" where
  "daysFromCivil y m d =
     (let y' = (if m \<le> 2 then y - 1 else y); era = y' div 400; yoe = y' - era * 400;
          mp = (m + 9) mod 12; doy = (153 * mp + 2) div 5 + d - 1;
          doe = yoe * 365 + yoe div 4 - yoe div 100 + doy
      in era * 146097 + doe - 719468)"

definition num2 :: "string \<Rightarrow> int" where "num2 s = int (digitsVal s)"

definition parseStamp :: "bool \<Rightarrow> string \<Rightarrow> go_time" where
  "parseStamp withSec s =
     (let y = num2 (take 4 s); mo = num2 (take 2 (drop 5 s)); d = num2 (take 2 (drop 8 s));
          r = drop 10 s; c = dropWhile (\<lambda>x. x = CHR '' '') r;
          h = num2 (take 2 c); mi = num2 (take 2 (drop 3 c));
          sec = (if withSec then num2 (take 2 (drop 6 c)) else 0)
      in if headOpt r \<noteq> Some CHR '' '' then None
         else if length c \<noteq> (if withSec then 8 else 5) then None
         else if \<not> list_all isDigit (take 2 c) then None
         else if mo < 1 \<or> 12 < mo \<or> d < 1 \<or> daysIn mo y < d \<or> 23 < h \<or> 59 < mi \<or> 59 < sec then None
         else Some ((daysFromCivil y mo d * 86400 + h * 3600 + mi * 60 + sec) * 1000000000))"

definition parseCreated :: "string \<Rightarrow> go_time" where
  "parseCreated s = (case parseStamp True s of Some t \<Rightarrow> Some t | None \<Rightarrow> parseStamp False s)"

definition parseListLine :: "string \<Rightarrow> Snapshot option" where
  "parseListLine line =
     (case findSubmatch False snapshotLineRe line of
        Some [m1, m2, m3] \<Rightarrow>
          let raw = (case strIndex line ''Snapshot'' of Some i \<Rightarrow> if i > 0 then drop i line else line | None \<Rightarrow> line)
          in Some \<lparr>snSnapshotID = m1, snRevision = fst (atoi m2), snCreatedAt = parseCreated m3, snRaw = trimSpace raw\<rparr>
      | _ \<Rightarrow> None)"

definition newline :: char where "newline = CHR 0x0A"

definition parseListOutput :: "string \<Rightarrow> Snapshot list" where
  "parseListOutput out = List.map_filter parseListLine (splitChar newline out)"

section \<open>Invocations\<close>

record cliInvocation =
  RepoRoot :: string
  Args :: "string list"
  EnvAdds :: "string list"

definition autoThreads :: "nat \<Rightarrow> int" where
  "autoThreads numCPU = (let n = int numCPU div 2 in if n < 1 then 1 else n)"

definition invocationForBackup :: "nat \<Rightarrow> Repo \<Rightarrow> string \<Rightarrow> string \<Rightarrow> int \<Rightarrow> cliInvocation" where
  "invocationForBackup numCPU repo storageName tag threads =
     (let a0 = [''backup'', ''-stats''];
          a1 = (if storageName \<noteq> [] then a0 @ [''-storage'', storageName] else a0);
          a2 = (if tag \<noteq> [] then a1 @ [''-t'', tag] else a1);
          th = (if threads \<le> 0 then autoThreads numCPU else threads);
          a3 = a2 @ [''-threads'', itoa th]
      in \<lparr>RepoRoot = rPath repo, Args = a3, EnvAdds = []\<rparr>)"

definition invocationForRestore :: "Repo \<Rightarrow> string \<Rightarrow> int \<Rightarrow> string list \<Rightarrow> bool \<Rightarrow> string \<Rightarrow> string \<Rightarrow> cliInvocation" where
  "invocationForRestore repo storageName revision paths overwrite rsaPrivKeyPath targetRoot =
     (let a0 = [''restore'', ''-r'', itoa revision];
          a1 = (if storageName \<noteq> [] then a0 @ [''-storage'', storageName] else a0);
          a2 = (if overwrite then a1 @ [''-overwrite''] else a1);
          a3 = (if rsaPrivKeyPath \<noteq> [] then a2 @ [''-key'', rsaPrivKeyPath] else a2);
          a4 = a3 @ paths;
          r = (if targetRoot \<noteq> [] then targetRoot else rPath repo)
      in \<lparr>RepoRoot = r, Args = a4, EnvAdds = []\<rparr>)"

definition invocationForCheck :: "Repo \<Rightarrow> string \<Rightarrow> string \<Rightarrow> bool \<Rightarrow> string \<Rightarrow> cliInvocation" where
  "invocationForCheck repo storageName revisions all snapshotID =
     (let a0 = [''check''];
          a1 = (if storageName \<noteq> [] then a0 @ [''-storage'', storageName] else a0);
          a2 = (if snapshotID \<noteq> [] then a1 @ [''-id'', snapshotID] else a1);
          a3 = (if revisions \<noteq> [] then a2 @ [''-r'', revisions] else a2);
          a4 = (if all then a3 @ [''-all''] else a3);
          a5 = a4 @ [''-tabular'']
      in \<lparr>RepoRoot = rPath repo, Args = a5, EnvAdds = []\<rparr>)"

record pruneOptions =
  poStorage :: string
  poKeepRules :: "string list"
  poExclusive :: bool
  poExhaustive :: bool
  poSnapshotID :: string
  poDryRun :: bool
  poThreads :: int
  poIgnore :: "string list"

definition invocationForPrune :: "Repo \<Rightarrow> pruneOptions \<Rightarrow> cliInvocation" where
  "invocationForPrune repo opts =
     (let a0 = [''prune''];
          a1 = (if poStorage opts \<noteq> [] then a0 @ [''-storage'', poStorage opts] else a0);
          a2 = (if poSnapshotID opts \<noteq> [] then a1 @ [''-id'', poSnapshotID opts] else a1);
          a3 = foldl (\<lambda>args k. args @ [''-keep'', k]) a2 (poKeepRules opts);
          a4 = foldl (\<lambda>args i. if i \<noteq> [] then args @ [''-ignore'', i] else args) a3 (poIgnore opts);
          a5 = (if poThreads opts > 1 then a4 @ [''-threads'', itoa (poThreads opts)] else a4);
          a6 = (if poExclusive opts then a5 @ [''-exclusive''] else a5);
          a7 = (if poExhaustive opts then a6 @ [''-exhaustive''] else a6);
          a8 = (if poDryRun opts then a7 @ [''-dry-run''] else a7)
      in \<lparr>RepoRoot = rPath repo, Args = a8, EnvAdds = []\<rparr>)"

definition invocationForCopy :: "nat \<Rightarrow> Repo \<Rightarrow> string \<Rightarrow> string \<Rightarrow> int \<Rightarrow> string \<Rightarrow> string \<Rightarrow> string \<Rightarrow> cliInvocation" where
  "invocationForCopy numCPU repo fromStorage toStorage threads snapshotID keyPath passphrase =
     (let a0 = [''copy''];
          a1 = (if fromStorage \<noteq> [] then a0 @ [''-from'', fromStorage] else a0);
          a2 = (if toStorage \<noteq> [] then a1 @ [''-to'', toStorage] else a1);
          a3 = (if snapshotID \<noteq> [] then a2 @ [''-id'', snapshotID] else a2);
          th = (if threads \<le> 0 then autoThreads numCPU else threads);
          a4 = a3 @ [''-threads'', itoa th];
          a5 = (if keyPath \<noteq> [] then
                  (if passphrase \<noteq> [] then a4 @ [''-key'', keyPath] @ [''-key-passphrase'', passphrase]
                   else a4 @ [''-key'', keyPath])
                else a4)
      in \<lparr>RepoRoot = rPath repo, Args = a5, EnvAdds = []\<rparr>)"

record chunkSizing =
  ckAvg :: string
  ckMin :: string
  ckMax :: string

definition cloudOptimizedChunks :: chunkSizing where
  "cloudOptimizedChunks = \<lparr>ckAvg = ''16M'', ckMin = ''4M'', ckMax = ''64M''\<rparr>"

definition invocationForInit :: "string \<Rightarrow> string \<Rightarrow> string \<Rightarrow> bool \<Rightarrow> string \<Rightarrow> chunkSizing \<Rightarrow> cliInvocation" where
  "invocationForInit repoRoot snapshotID storageURL encrypted rsaPubKeyPath chunks =
     (let a0 = [''init''];
          a1 = (if encrypted then a0 @ [''-encrypt''] else a0);
          a2 = (if rsaPubKeyPath \<noteq> [] then a1 @ [''-key'', rsaPubKeyPath] else a1);
          a3 = (if ckAvg chunks \<noteq> [] then a2 @ [''-c'', ckAvg chunks] else a2);
          a4 = (if ckMin chunks \<noteq> [] then a3 @ [''-min'', ckMin chunks] else a3);
          a5 = (if ckMax chunks \<noteq> [] then a4 @ [''-max'', ckMax chunks] else a4)
      in \<lparr>RepoRoot = repoRoot, Args = a5 @ [snapshotID, storageURL], EnvAdds = []\<rparr>)"

definition invocationForAdd :: "string \<Rightarrow> string \<Rightarrow> string \<Rightarrow> string \<Rightarrow> bool \<Rightarrow> string \<Rightarrow> string \<Rightarrow> bool \<Rightarrow> cliInvocation" where
  "invocationForAdd repoRoot storageName snapshotID storageURL encrypted rsaPubKeyPath copyFrom bitIdentical =
     (let a0 = [''add''];
          a1 = (if encrypted then a0 @ [''-encrypt''] else a0);
          a2 = (if rsaPubKeyPath \<noteq> [] then a1 @ [''-key'', rsaPubKeyPath] else a1);
          a3 = (if copyFrom \<noteq> [] then
                  (if bitIdentical then a2 @ [''-copy'', copyFrom] @ [''-bit-identical''] else a2 @ [''-copy'', copyFrom])
                else a2)
      in \<lparr>RepoRoot = repoRoot, Args = a3 @ [storageName, snapshotID, storageURL], EnvAdds = []\<rparr>)"

definition childBaseEnv :: "string list \<Rightarrow> string list" where
  "childBaseEnv env = filter (\<lambda>kv. \<not> hasPrefix kv ''GOMEMLIMIT='') env"

definition truncate :: "string \<Rightarrow> nat \<Rightarrow> string" where
  "truncate s n = (if length s \<le> n then s else take n s @ ''...'')"

section \<open>Scrubbing\<close>

definition scrubEntry :: "rawPreference \<Rightarrow> rawPreference" where
  "scrubEntry p = p\<lparr>pKeys := [], pDoNotSavePassword := True\<rparr>"

text \<open>The file is replaced by the rename, or left as it is when writing fails (\<open>fault\<close>).\<close>

definition scrubPreferences :: "bool \<Rightarrow> string \<Rightarrow> disk \<Rightarrow> bool \<times> disk" where
  "scrubPreferences fault repoRoot d =
     (let p = pathJoin [repoRoot, ''.duplicacy'', ''preferences'']
      in case readPreferences d p of
           Inl _ \<Rightarrow> (False, d)
         | Inr raws \<Rightarrow>
             if fault then (False, d)
             else (True, d\<lparr>entries := AList.update p (FileNode (Some (map scrubEntry raws))) (entries d)\<rparr>))"

section \<open>Facts\<close>

text \<open>How the CLI reads a prune command line: flags with a value take the next argument.\<close>

fun decodePrune :: "string list \<Rightarrow> pruneOptions \<Rightarrow> pruneOptions option" where
  "decodePrune [] opts = Some opts"
| "decodePrune (f # r) opts =
     (if f = ''-exclusive'' then decodePrune r (opts\<lparr>poExclusive := True\<rparr>)
      else if f = ''-exhaustive'' then decodePrune r (opts\<lparr>poExhaustive := True\<rparr>)
      else if f = ''-dry-run'' then decodePrune r (opts\<lparr>poDryRun := True\<rparr>)
      else case r of
        [] \<Rightarrow> None
      | v # r' \<Rightarrow>
          if f = ''-storage'' then decodePrune r' (opts\<lparr>poStorage := v\<rparr>)
          else if f = ''-id'' then decodePrune r' (opts\<lparr>poSnapshotID := v\<rparr>)
          else if f = ''-keep'' then decodePrune r' (opts\<lparr>poKeepRules := poKeepRules opts @ [v]\<rparr>)
          else if f = ''-ignore'' then decodePrune r' (opts\<lparr>poIgnore := poIgnore opts @ [v]\<rparr>)
          else if f = ''-threads'' then decodePrune r' (opts\<lparr>poThreads := fst (atoi v)\<rparr>)
          else None)"

definition noPruneOptions :: pruneOptions where
  "noPruneOptions = \<lparr>poStorage = [], poKeepRules = [], poExclusive = False, poExhaustive = False,
     poSnapshotID = [], poDryRun = False, poThreads = 0, poIgnore = []\<rparr>"

lemma foldl_keep: "foldl (\<lambda>args k. args @ [f, k]) a ks = a @ concat (map (\<lambda>k. [f, k]) ks)"
  by (induction ks arbitrary: a) auto

lemma foldl_ignore:
  "foldl (\<lambda>args i. if i \<noteq> [] then args @ [f, i] else args) a ks = a @ concat (map (\<lambda>k. [f, k]) (filter (\<lambda>i. i \<noteq> []) ks))"
  by (induction ks arbitrary: a) auto

lemma decode_keep:
  "decodePrune (concat (map (\<lambda>k. [''-keep'', k]) ks) @ r) opts = decodePrune r (opts\<lparr>poKeepRules := poKeepRules opts @ ks\<rparr>)"
  by (induction ks arbitrary: opts) auto

lemma decode_ignore:
  "decodePrune (concat (map (\<lambda>k. [''-ignore'', k]) ks) @ r) opts = decodePrune r (opts\<lparr>poIgnore := poIgnore opts @ ks\<rparr>)"
  by (induction ks arbitrary: opts) auto

lemma prune_args:
  "Args (invocationForPrune repo opts) = ''prune'' #
     (if poStorage opts \<noteq> [] then [''-storage'', poStorage opts] else []) @
     (if poSnapshotID opts \<noteq> [] then [''-id'', poSnapshotID opts] else []) @
     concat (map (\<lambda>k. [''-keep'', k]) (poKeepRules opts)) @
     concat (map (\<lambda>k. [''-ignore'', k]) (filter (\<lambda>i. i \<noteq> []) (poIgnore opts))) @
     (if poThreads opts > 1 then [''-threads'', itoa (poThreads opts)] else []) @
     (if poExclusive opts then [''-exclusive''] else []) @
     (if poExhaustive opts then [''-exhaustive''] else []) @
     (if poDryRun opts then [''-dry-run''] else [])"
  unfolding invocationForPrune_def Let_def foldl_keep foldl_ignore by simp

lemma atoi_itoa_pos: "1 < i \<Longrightarrow> i \<le> maxInt64 \<Longrightarrow> fst (atoi (itoa i)) = i"
  by (simp add: atoi_itoa minInt64_def)

lemma snapshotLine_submatch:
  assumes id: "sid \<noteq> []" "list_all reNonSpace sid"
    and n: "ds \<noteq> []" "list_all isDigit ds"
    and date: "list_all isDigit y" "length y = 4" "list_all isDigit mo" "length mo = 2" "list_all isDigit d" "length d = 2"
    and time: "list_all isDigit h" "length h = 2" "list_all isDigit mi" "length mi = 2"
    and rest: "rest = [] \<or> hd rest = CHR '' ''"
  shows "reMatch snapshotLineRe pv
     (''Snapshot '' @ sid @ '' revision '' @ ds @ '' created at '' @ y @ ''-'' @ mo @ ''-'' @ d @ '' '' @ h @ '':'' @ mi @ rest) [] []
     = Some [sid, ds, y @ ''-'' @ mo @ ''-'' @ d @ '' '' @ h @ '':'' @ mi]" (is "reMatch _ _ ?line _ _ = Some ?r")
proof -
  let ?date = "y @ ''-'' @ mo @ ''-'' @ d @ '' '' @ h @ '':'' @ mi"
  have sp: "list_all reSpace '' ''" "\<not> reSpace (CHR ''r'')" "\<not> reSpace (CHR ''c'')" by (simp_all add: reSpace_def)
  have nsp: "reNonSpace c \<Longrightarrow> \<not> reSpace c" "isDigit c \<Longrightarrow> \<not> reSpace c" for c
    by (auto simp: reNonSpace_def reSpace_def isDigit_def)
  have dg: "list_all reDigit x = list_all isDigit x" for x by (simp add: reDigit_def [abs_def])
  have ne: "y \<noteq> []" "h \<noteq> []" using date time by auto
  have hds: "\<not> reSpace (hd sid)" "\<not> reSpace (hd ds)" "\<not> reSpace (hd y)" "\<not> reSpace (hd h)"
    using id n date(1) time(1) ne nsp by (auto simp: list_all_iff)
  have fin: "reMatch [OptGroup [Lit '':'', Rep True 2 (Some 2) reDigit], GroupClose] pv rest (?date @ rest) [ds, sid] = Some ?r" for pv
  proof (rule reMatch_OptNoI)
    show "reMatch ([Lit '':'', Rep True 2 (Some 2) reDigit] @ [GroupClose]) pv rest (?date @ rest) [ds, sid] = None"
      using rest by (cases rest) auto
  qed (rule reMatch_groupI(2), simp)
  have line: "?line = ''Snapshot'' @ '' '' @ sid @ '' '' @ ''revision'' @ '' '' @ ds @ '' '' @ ''created at'' @ '' '' @ ?date @ rest"
    by simp
  show ?thesis
    unfolding line snapshotLineRe_def
    apply (rule reMatch_LitI)
    apply (rule reMatch_greedyI, rule sp(1), use id hds in simp, simp, simp)
    apply (rule reMatch_groupI(1))
    apply (rule reMatch_greedyI, rule id(2), simp add: reNonSpace_def reSpace_def, use id in \<open>simp add: Suc_le_eq\<close>, simp)
    apply (rule reMatch_groupI(2))
    apply (rule reMatch_greedyI, rule sp(1), use sp in simp, simp, simp)
    apply (rule reMatch_LitI)
    apply (rule reMatch_greedyI, rule sp(1), use n hds in simp, simp, simp)
    apply (rule reMatch_groupI(1))
    apply (rule reMatch_greedyI, use n dg in simp, simp add: reDigit_def isDigit_def, use n in \<open>simp add: Suc_le_eq\<close>, simp)
    apply (rule reMatch_groupI(2))
    apply (rule reMatch_greedyI, rule sp(1), use sp in simp, simp, simp)
    apply (rule reMatch_LitI)
    apply (rule reMatch_greedyI, rule sp(1), use ne hds in simp, simp, simp)
    apply (rule reMatch_groupI(1))
    unfolding append_assoc
    apply (rule reMatch_exactI, use date dg in simp, rule date)
    apply (rule reMatch_LitI)
    apply (rule reMatch_exactI, use date dg in simp, rule date)
    apply (rule reMatch_LitI)
    apply (rule reMatch_exactI, use date dg in simp, rule date)
    apply (rule reMatch_greedyI, rule sp(1), use ne hds in simp, simp, simp)
    apply (rule reMatch_exactI, use time dg in simp, rule time)
    apply (rule reMatch_LitI)
    apply (rule reMatch_exactI, use time dg in simp, rule time)
    using fin by simp
qed

lemma strIndex_Some_first: "strIndex s t = Some k \<Longrightarrow> i < k \<Longrightarrow> \<not> prefix t (drop i s)"
proof (induction s arbitrary: k i)
  case Nil
  then show ?case by (simp split: if_splits)
next
  case (Cons c s)
  then show ?case by (cases i) (auto split: if_splits)
qed

definition snapshotRow :: "string \<Rightarrow> int \<Rightarrow> string \<Rightarrow> string \<Rightarrow> string" where
  "snapshotRow sid n stamp rest = ''Snapshot '' @ sid @ '' revision '' @ itoa n @ '' created at '' @ stamp @ rest"

definition minuteStamp :: "string \<Rightarrow> string \<Rightarrow> string \<Rightarrow> string \<Rightarrow> string \<Rightarrow> string" where
  "minuteStamp y mo d h mi = y @ ''-'' @ mo @ ''-'' @ d @ '' '' @ h @ '':'' @ mi"

definition digitsN :: "nat \<Rightarrow> string \<Rightarrow> bool" where
  "digitsN n s \<longleftrightarrow> list_all isDigit s \<and> length s = n"

lemma parseListLine_match:
  assumes "findSubmatch False snapshotLineRe (p @ row) = Some [m1, m2, m3]" "strIndex (p @ row) ''Snapshot'' = Some (length p)"
  shows "parseListLine (p @ row) =
    Some \<lparr>snSnapshotID = m1, snRevision = fst (atoi m2), snCreatedAt = parseCreated m3, snRaw = trimSpace row\<rparr>"
  using assms by (simp add: parseListLine_def Let_def)

section \<open>Properties\<close>

text \<open>A revision row of \<open>duplicacy list\<close> is recovered whatever precedes it on the line: with
  any prefix that does not itself bring the word \<open>Snapshot\<close> (such as a passphrase prompt without a
  newline), and with or without a trailing fragment, the row's snapshot id, revision and date are
  returned and the prefix does not leak into the raw text.\<close>

theorem parseListLine_row:
  assumes "sid \<noteq> []" "list_all reNonSpace sid" "0 \<le> n" "n \<le> maxInt64"
    "digitsN 4 y" "digitsN 2 mo" "digitsN 2 d" "digitsN 2 h" "digitsN 2 mi" "rest = [] \<or> hd rest = CHR '' ''"
    "strIndex (p @ snapshotRow sid n (minuteStamp y mo d h mi) rest) ''Snapshot'' = Some (length p)"
  shows "parseListLine (p @ snapshotRow sid n (minuteStamp y mo d h mi) rest) =
     Some \<lparr>snSnapshotID = sid, snRevision = n, snCreatedAt = parseCreated (minuteStamp y mo d h mi),
       snRaw = trimSpace (snapshotRow sid n (minuteStamp y mo d h mi) rest)\<rparr>"
proof -
  let ?row = "snapshotRow sid n (minuteStamp y mo d h mi) rest"
  have ds: "itoa n \<noteq> []" "list_all isDigit (itoa n)" using assms(3) by (simp_all add: itoa_def natDigits_isDigit)
  have "reMatch snapshotLineRe pv ?row [] [] = Some [sid, itoa n, minuteStamp y mo d h mi]" for pv
    using snapshotLine_submatch [OF assms(1,2) ds, of y mo d h mi rest pv] assms(5-10)
    by (simp add: snapshotRow_def minuteStamp_def digitsN_def)
  then have here: "\<forall>pv. searchFrom snapshotLineRe pv ?row = Some [sid, itoa n, minuteStamp y mo d h mi]"
    by (simp add: searchFrom_here)
  have "searchFrom snapshotLineRe None (p @ ?row) = Some [sid, itoa n, minuteStamp y mo d h mi]"
    using searchFrom_skip here strIndex_Some_first [OF assms(11)] unfolding snapshotLineRe_def by blast
  then have "parseListLine (p @ ?row) = Some \<lparr>snSnapshotID = sid, snRevision = fst (atoi (itoa n)),
      snCreatedAt = parseCreated (minuteStamp y mo d h mi), snRaw = trimSpace ?row\<rparr>"
    by (intro parseListLine_match assms(11)) (simp add: findSubmatch_def)
  then show ?thesis using assms(3,4) by (simp add: atoi_itoa minInt64_def)
qed

theorem parseListLine_row_witness:
  "map_option snRevision (parseListLine (''Enter the passphrase for /dev/shm/k:'' @
     snapshotRow ''home'' 12 (minuteStamp ''2026'' ''06'' ''13'' ''21'' ''13'') '' -hash'')) = Some 12"
proof -
  have "strIndex (''Enter the passphrase for /dev/shm/k:'' @ snapshotRow ''home'' 12 (minuteStamp ''2026'' ''06'' ''13'' ''21'' ''13'') '' -hash'')
      ''Snapshot'' = Some (length ''Enter the passphrase for /dev/shm/k:'')" by code_simp
  then have "parseListLine (''Enter the passphrase for /dev/shm/k:'' @
       snapshotRow ''home'' 12 (minuteStamp ''2026'' ''06'' ''13'' ''21'' ''13'') '' -hash'') =
    Some \<lparr>snSnapshotID = ''home'', snRevision = 12, snCreatedAt = parseCreated (minuteStamp ''2026'' ''06'' ''13'' ''21'' ''13''),
       snRaw = trimSpace (snapshotRow ''home'' 12 (minuteStamp ''2026'' ''06'' ''13'' ''21'' ''13'') '' -hash'')\<rparr>"
    by (rule parseListLine_row [rotated 10])
      (simp_all add: digitsN_def isDigit_def reNonSpace_def reSpace_def maxInt64_def)
  then show ?thesis by simp
qed

text \<open>The prune command line means what was asked: read back the way the CLI reads flags, the
  arguments \<open>invocationForPrune\<close> builds give every option, in particular the storage, the snapshot id
  scope, every keep rule in order, and the dry-run flag.\<close>

theorem invocationForPrune_roundtrip:
  assumes "poThreads opts \<le> maxInt64"
  shows "decodePrune (tl (Args (invocationForPrune repo opts))) noPruneOptions =
     Some (opts\<lparr>poThreads := (if poThreads opts > 1 then poThreads opts else 0),
        poIgnore := filter (\<lambda>i. i \<noteq> []) (poIgnore opts)\<rparr>)"
  using assms by (cases opts) (simp add: prune_args noPruneOptions_def decode_keep decode_ignore atoi_itoa_pos)

theorem invocationForPrune_roundtrip_witness:
  "map_option poDryRun (decodePrune (tl (Args (invocationForPrune (exRepo ''/d'') (noPruneOptions\<lparr>poDryRun := True, poKeepRules := [''7:30'']\<rparr>))))
     noPruneOptions) = Some True"
  using invocationForPrune_roundtrip [of "noPruneOptions\<lparr>poDryRun := True, poKeepRules := [''7:30'']\<rparr>" "exRepo ''/d''"]
  by (simp add: noPruneOptions_def maxInt64_def)

text \<open>After a successful scrub the preferences file of the repo decodes to the same storages with
  no key material and password saving off; no other file changes.\<close>

theorem scrubPreferences_removes_keys:
  assumes "scrubPreferences fault repoRoot d = (True, d')"
  shows "let p = pathJoin [repoRoot, ''.duplicacy'', ''preferences'']
     in \<exists>raws. readPreferences d p = Inr raws \<and>
          readPreferences d' p = Inr (map (\<lambda>r. r\<lparr>pKeys := [], pDoNotSavePassword := True\<rparr>) raws) \<and>
          (\<forall>q. q \<noteq> p \<longrightarrow> osStat d' q = osStat d q)"
proof -
  let ?p = "pathJoin [repoRoot, ''.duplicacy'', ''preferences'']"
  obtain raws where r: "readPreferences d ?p = Inr raws"
      "d' = d\<lparr>entries := AList.update ?p (FileNode (Some (map scrubEntry raws))) (entries d)\<rparr>"
    using assms by (auto simp: scrubPreferences_def Let_def split: sum.splits if_splits)
  have io: "?p \<notin> set (ioErr d)" using r(1) by (auto simp: readPreferences_def osStat_def)
  have "osStat d' ?p = StatOk (FileNode (Some (map scrubEntry raws)))"
    using io by (simp add: r(2) osStat_def update_conv')
  then have "readPreferences d' ?p = Inr (map scrubEntry raws)" by (simp add: readPreferences_def)
  moreover have "\<forall>q. q \<noteq> ?p \<longrightarrow> osStat d' q = osStat d q" by (simp add: r(2) osStat_def update_conv')
  ultimately show ?thesis using r(1) by (auto simp: Let_def scrubEntry_def [abs_def])
qed

theorem scrubPreferences_removes_keys_witness:
  "\<exists>d'. scrubPreferences False ''/data/a'' exDisk = (True, d') \<and>
     (\<exists>raws. readPreferences d' (pathJoin [''/data/a'', ''.duplicacy'', ''preferences'']) = Inr raws)"
proof -
  have c: "pathJoin [''/data/a'', ''.duplicacy'', ''preferences''] = ''/data/a/.duplicacy/preferences''" by code_simp
  obtain d' where d': "scrubPreferences False ''/data/a'' exDisk = (True, d')"
    by (simp add: scrubPreferences_def c readPreferences_def osStat_def exDisk_def Let_def)
  show ?thesis using scrubPreferences_removes_keys [OF d'] d' by (auto simp: Let_def)
qed

end
