(* ===== verification/ListCache.thy ===== *)
theory ListCache
  imports Duplicacy
begin

text \<open>
  The persistent cache of file listings (snapshot_files_cache.go) and the warm sweep over it
  (snapshot_files_warm.go).

  The table \<open>snapshot_files_cache\<close> is the list of its rows in insertion order; its primary key is
  (snapshot id, revision, storage). The marker table \<open>snapshot_files_uncacheable\<close> is an association
  list keyed by (repo, storage, snapshot id, revision). SQL statements are modelled by their effect
  on a healthy database; byte counts are unbounded integers. The runs of the CLI that a sweep
  makes are arguments (\<open>sweepEnv\<close>).
\<close>

section \<open>Tables\<close>

record cacheRow =
  crRowid :: int
  crSnapshot :: string
  crRev :: int
  crStorage :: string
  crRepo :: string
  crGz :: string
  crRawBytes :: int
  crLastAccess :: int

definition gzBytes :: "cacheRow \<Rightarrow> int" where "gzBytes r = int (length (crGz r))"

definition rowKey :: "cacheRow \<Rightarrow> string \<times> int \<times> string" where
  "rowKey r = (crSnapshot r, crRev r, crStorage r)"

type_synonym markerKey = "string \<times> string \<times> string \<times> int"

datatype uncacheableReason = RowCap | SpoolCeiling | CapEvicted

record uncacheableMarker =
  umReason :: uncacheableReason
  umGzBytes :: int
  umCapBytes :: int

record snapshotFilesCacheStore =
  maxBytes :: int
  warmKeepN :: nat
  cacheRows :: "cacheRow list"
  markers :: "(markerKey \<times> uncacheableMarker) list"
  pendingRepos :: "string list"
  pendingMaxRowid :: int

definition newSnapshotFilesCacheStore :: "int \<Rightarrow> int \<Rightarrow> cacheRow list \<Rightarrow> (markerKey \<times> uncacheableMarker) list \<Rightarrow> snapshotFilesCacheStore" where
  "newSnapshotFilesCacheStore mx warm rows ms =
     \<lparr>maxBytes = mx, warmKeepN = (if warm < 0 then 0 else nat warm), cacheRows = rows, markers = ms,
      pendingRepos = [], pendingMaxRowid = 0\<rparr>"

definition totalBytes :: "cacheRow list \<Rightarrow> int" where
  "totalBytes rs = sum_list (map gzBytes rs)"

definition maxRowid :: "cacheRow list \<Rightarrow> int" where
  "maxRowid rs = fold (\<lambda>r m. max (crRowid r) m) rs 0"

section \<open>Sweep bookkeeping\<close>

definition sweepBegin :: "string list \<Rightarrow> snapshotFilesCacheStore \<Rightarrow> snapshotFilesCacheStore" where
  "sweepBegin repoIDs s = s\<lparr>pendingMaxRowid := maxRowid (cacheRows s), pendingRepos := repoIDs\<rparr>"

definition sweepRepoDone :: "string \<Rightarrow> snapshotFilesCacheStore \<Rightarrow> snapshotFilesCacheStore" where
  "sweepRepoDone repoID s = s\<lparr>pendingRepos := filter (\<lambda>r. r \<noteq> repoID) (pendingRepos s)\<rparr>"

definition sweepEnd :: "snapshotFilesCacheStore \<Rightarrow> snapshotFilesCacheStore" where
  "sweepEnd s = s\<lparr>pendingRepos := []\<rparr>"

definition pendingSnapshot :: "snapshotFilesCacheStore \<Rightarrow> string list \<times> int" where
  "pendingSnapshot s = (if pendingRepos s = [] then ([], 0) else (pendingRepos s, pendingMaxRowid s))"

section \<open>Markers\<close>

definition markUncacheable :: "string \<Rightarrow> string \<Rightarrow> string \<Rightarrow> int \<Rightarrow> uncacheableReason \<Rightarrow> int \<Rightarrow> int \<Rightarrow>
    snapshotFilesCacheStore \<Rightarrow> snapshotFilesCacheStore" where
  "markUncacheable repoID storage snapshotID rv reason gz capB s =
     s\<lparr>markers := AList.update (repoID, storage, snapshotID, rv)
         \<lparr>umReason = reason, umGzBytes = gz, umCapBytes = capB\<rparr> (markers s)\<rparr>"

definition uncacheableInfo :: "snapshotFilesCacheStore \<Rightarrow> markerKey \<Rightarrow> uncacheableMarker option" where
  "uncacheableInfo s k = map_of (markers s) k"

definition markCapEvicted :: "cacheRow list \<Rightarrow> snapshotFilesCacheStore \<Rightarrow> snapshotFilesCacheStore" where
  "markCapEvicted items s =
     fold (\<lambda>r. markUncacheable (crRepo r) (crStorage r) (crSnapshot r) (crRev r) CapEvicted (gzBytes r) (maxBytes s)) items s"

section \<open>Pinning\<close>

definition maxPinRelaxedKeep :: nat where "maxPinRelaxedKeep = 2"

definition pinStep :: "int list \<Rightarrow> nat \<Rightarrow> int \<Rightarrow> nat \<Rightarrow> int \<times> nat \<Rightarrow> int \<times> nat" where
  "pinStep perRank fl cap k rb =
     (let run = (if k \<le> length perRank then fst rb + perRank ! (k - 1) else fst rb)
      in (run, if fl \<le> k \<and> run \<le> cap then k else snd rb))"

definition pinPolicy :: "int list \<Rightarrow> nat \<Rightarrow> int \<Rightarrow> nat" where
  "pinPolicy perRank warmN cap =
     (if cap \<le> 0 then warmN
      else let fl = min maxPinRelaxedKeep warmN
           in snd (fold (pinStep perRank fl cap) [1..<Suc warmN] (0, fl)))"

text \<open>\<open>ROW_NUMBER() OVER (PARTITION BY snapshot_id, storage_name ORDER BY revision DESC)\<close>: the
  revisions of a partition are distinct by the primary key.\<close>

definition rankIn :: "cacheRow list \<Rightarrow> cacheRow \<Rightarrow> nat" where
  "rankIn rs r = Suc (length (filter (\<lambda>q. crSnapshot q = crSnapshot r \<and> crStorage q = crStorage r \<and> crRev q > crRev r) rs))"

definition perRankBytes :: "cacheRow list \<Rightarrow> nat \<Rightarrow> int list" where
  "perRankBytes rs n = map (\<lambda>i. totalBytes (filter (\<lambda>r. rankIn rs r = Suc i) rs)) [0..<n]"

definition effectivePinN :: "snapshotFilesCacheStore \<Rightarrow> nat" where
  "effectivePinN s =
     (if maxBytes s \<le> 0 \<or> warmKeepN s \<le> maxPinRelaxedKeep then warmKeepN s
      else pinPolicy (perRankBytes (cacheRows s) (warmKeepN s)) (warmKeepN s) (maxBytes s))"

section \<open>Rows\<close>

definition cacheHas :: "snapshotFilesCacheStore \<Rightarrow> string \<Rightarrow> int \<Rightarrow> string \<Rightarrow> bool" where
  "cacheHas s snap rv storage \<longleftrightarrow> list_ex (\<lambda>r. rowKey r = (snap, rv, storage)) (cacheRows s)"

definition cacheOpen :: "int \<Rightarrow> string \<Rightarrow> int \<Rightarrow> string \<Rightarrow> snapshotFilesCacheStore \<Rightarrow>
    (string \<times> int) option \<times> snapshotFilesCacheStore" where
  "cacheOpen now snap rv storage s =
     (case List.find (\<lambda>r. rowKey r = (snap, rv, storage)) (cacheRows s) of
        None \<Rightarrow> (None, s)
      | Some r \<Rightarrow>
          (Some (crGz r, crRawBytes r),
           s\<lparr>cacheRows := map (\<lambda>q. if rowKey q = (snap, rv, storage) then q\<lparr>crLastAccess := now\<rparr> else q) (cacheRows s)\<rparr>))"

definition cacheDrop :: "string \<Rightarrow> int \<Rightarrow> string \<Rightarrow> snapshotFilesCacheStore \<Rightarrow> snapshotFilesCacheStore" where
  "cacheDrop snap rv storage s = s\<lparr>cacheRows := filter (\<lambda>r. rowKey r \<noteq> (snap, rv, storage)) (cacheRows s)\<rparr>"

definition deleteByRowID :: "int list \<Rightarrow> snapshotFilesCacheStore \<Rightarrow> snapshotFilesCacheStore" where
  "deleteByRowID ids s = s\<lparr>cacheRows := filter (\<lambda>r. crRowid r \<notin> set ids) (cacheRows s)\<rparr>"

text \<open>The victim loop: skip protected rows, stop once enough is freed.\<close>

fun pickVictims :: "(cacheRow \<Rightarrow> bool) \<Rightarrow> int \<Rightarrow> cacheRow list \<Rightarrow> cacheRow list" where
  "pickVictims prot need [] = []"
| "pickVictims prot need (r # rs) =
     (if prot r then pickVictims prot need rs
      else if gzBytes r \<ge> need then [r]
      else r # pickVictims prot (need - gzBytes r) rs)"

definition protectedRow :: "string list \<Rightarrow> snapshotFilesCacheStore \<Rightarrow> cacheRow \<Rightarrow> bool" where
  "protectedRow exempt s r \<longleftrightarrow>
     crRepo r \<in> set exempt \<or> (crRepo r \<in> set (fst (pendingSnapshot s)) \<and> crRowid r \<le> snd (pendingSnapshot s))"

text \<open>\<open>ORDER BY rn DESC, last_access ASC\<close> over the rows of rank above the pin.\<close>

definition evictionOrder :: "nat \<Rightarrow> cacheRow list \<Rightarrow> cacheRow list" where
  "evictionOrder pinN rs =
     sort_key (\<lambda>r. - int (rankIn rs r)) (sort_key crLastAccess (filter (\<lambda>r. rankIn rs r > pinN) rs))"

definition victimsOf :: "string list \<Rightarrow> snapshotFilesCacheStore \<Rightarrow> cacheRow list" where
  "victimsOf exempt s =
     (if maxBytes s \<le> 0 \<or> totalBytes (cacheRows s) \<le> maxBytes s then []
      else pickVictims (protectedRow exempt s) (totalBytes (cacheRows s) - maxBytes s)
             (evictionOrder (effectivePinN s) (cacheRows s)))"

definition evictBySize :: "string list \<Rightarrow> snapshotFilesCacheStore \<Rightarrow> snapshotFilesCacheStore" where
  "evictBySize exempt s =
     (let vs = victimsOf exempt s
      in if vs = [] then s
         else markCapEvicted (filter (\<lambda>r. rankIn (cacheRows s) r \<le> warmKeepN s) vs) (deleteByRowID (map crRowid vs) s))"

definition putGzipped :: "int \<Rightarrow> string \<Rightarrow> int \<Rightarrow> string \<Rightarrow> string \<Rightarrow> string \<Rightarrow> int \<Rightarrow>
    snapshotFilesCacheStore \<Rightarrow> snapshotFilesCacheStore" where
  "putGzipped now snap rv storage repoID gz rawB s =
     (let fresh = \<lparr>crRowid = maxRowid (cacheRows s) + 1, crSnapshot = snap, crRev = rv, crStorage = storage,
            crRepo = repoID, crGz = gz, crRawBytes = rawB, crLastAccess = now\<rparr>;
          rows = (if cacheHas s snap rv storage
                  then map (\<lambda>q. if rowKey q = (snap, rv, storage) then fresh\<lparr>crRowid := crRowid q\<rparr> else q) (cacheRows s)
                  else cacheRows s @ [fresh])
      in evictBySize [] (s\<lparr>cacheRows := rows\<rparr>))"

section \<open>Reconcile\<close>

record sweepState =
  swSwept :: "(string \<times> string) list"
  swSweptStorage :: "string list"
  swFailed :: "string list"
  swKnown :: "string list"
  swKeep :: "string list"

definition newSweepState :: sweepState where
  "newSweepState = \<lparr>swSwept = [], swSweptStorage = [], swFailed = [], swKnown = [], swKeep = []\<rparr>"

definition judges :: "sweepState \<Rightarrow> string \<Rightarrow> string \<Rightarrow> bool" where
  "judges st repo storage \<longleftrightarrow>
     (if repo \<in> set (swFailed st) then False
      else if repo \<in> set (swKnown st) then (repo, storage) \<in> set (swSwept st)
      else storage \<in> set (swSweptStorage st))"

definition nulChar :: char where "nulChar = CHR 0x00"

definition storageSnapRevKey :: "string \<Rightarrow> string \<Rightarrow> int \<Rightarrow> string" where
  "storageSnapRevKey storage snap rv = storage @ [nulChar] @ snap @ [nulChar] @ itoa rv"

definition gone :: "sweepState \<Rightarrow> string \<Rightarrow> string \<Rightarrow> string \<Rightarrow> int \<Rightarrow> bool" where
  "gone st repo storage snap rv \<longleftrightarrow> judges st repo storage \<and> storageSnapRevKey storage snap rv \<notin> set (swKeep st)"

definition reconcileMarkers :: "sweepState \<Rightarrow> snapshotFilesCacheStore \<Rightarrow> snapshotFilesCacheStore" where
  "reconcileMarkers st s =
     (if swSweptStorage st = [] then s
      else s\<lparr>markers := filter (\<lambda>((repo, storage, snap, rv), _). \<not> gone st repo storage snap rv) (markers s)\<rparr>)"

definition reconcileAgainstKeep :: "sweepState \<Rightarrow> snapshotFilesCacheStore \<Rightarrow> nat \<times> snapshotFilesCacheStore" where
  "reconcileAgainstKeep st s =
     (let s1 = reconcileMarkers st s
      in if swSweptStorage st = [] then (0, s1)
         else let vs = filter (\<lambda>r. gone st (crRepo r) (crStorage r) (crSnapshot r) (crRev r)) (cacheRows s1)
              in (length vs, if vs = [] then s1 else deleteByRowID (map crRowid vs) s1))"

definition cacheStats :: "snapshotFilesCacheStore \<Rightarrow> nat \<times> int" where
  "cacheStats s = (length (cacheRows s), totalBytes (cacheRows s))"

section \<open>The warm sweep\<close>

text \<open>What the outside contributes to a sweep: whether secrets were vended for a repo, what the
  discovery listing of a storage returned, what running one \<open>list -files\<close> yields (the gzipped
  listing and its raw length on exit 0), where the context is cancelled, the clock, and the
  configuration.\<close>

datatype listRun = RunOk string int | RunCeiling | RunFailed

record sweepEnv =
  seVend :: "Repo \<Rightarrow> bool"
  seLive :: "Repo \<Rightarrow> string \<Rightarrow> Snapshot list option"
  seRun :: "Repo \<Rightarrow> string \<Rightarrow> string \<Rightarrow> int \<Rightarrow> listRun"
  seCancelled :: "Repo \<Rightarrow> string option \<Rightarrow> bool"
  seNow :: int
  seRowMax :: int
  seWarmN :: int

definition listSpoolFileMax :: int where "listSpoolFileMax = 2 ^ 31"

definition maxWarmListsPerSweep :: nat where "maxWarmListsPerSweep = 200"

definition storeListing :: "sweepEnv \<Rightarrow> string \<Rightarrow> int \<Rightarrow> string \<Rightarrow> string \<Rightarrow> string \<Rightarrow> int \<Rightarrow>
    snapshotFilesCacheStore \<Rightarrow> snapshotFilesCacheStore" where
  "storeListing e snap rv storage repoID gz rawB s =
     (if snap = [] then s
      else if seRowMax e > 0 \<and> int (length gz) > seRowMax e
        then markUncacheable repoID storage snap rv RowCap (int (length gz)) 0 s
      else putGzipped (seNow e) snap rv storage repoID gz rawB s)"

definition warmWanted :: "sweepEnv \<Rightarrow> snapshotFilesCacheStore \<Rightarrow> (string \<times> nat) list \<Rightarrow> Snapshot \<Rightarrow> string \<Rightarrow> string \<Rightarrow>
    bool \<times> (string \<times> nat) list" where
  "warmWanted e s ranks sn repoID storage =
     (let rank = (case map_of ranks (snSnapshotID sn) of None \<Rightarrow> 0 | Some n \<Rightarrow> n);
          ranks' = AList.update (snSnapshotID sn) (Suc rank) ranks
      in (if rank \<ge> effectivePinN s then False
          else if cacheHas s (snSnapshotID sn) (snRevision sn) storage then False
          else case uncacheableInfo s (repoID, storage, snSnapshotID sn, snRevision sn) of
                 None \<Rightarrow> True
               | Some m \<Rightarrow>
                   (case umReason m of
                      RowCap \<Rightarrow> umGzBytes m > 0 \<and> umGzBytes m \<le> seRowMax e
                    | CapEvicted \<Rightarrow>
                        if umCapBytes m \<noteq> maxBytes s then True
                        else snd (cacheStats s) + umGzBytes m \<le> maxBytes s
                    | SpoolCeiling \<Rightarrow> umCapBytes m \<noteq> listSpoolFileMax),
          ranks'))"

definition warmListArgs :: "string \<Rightarrow> string \<Rightarrow> string \<Rightarrow> string list" where
  "warmListArgs storage keyPath ownSnapshotID =
     (let a0 = [''list''];
          a1 = (if keyPath \<noteq> [] then a0 @ [''-key'', keyPath] else a0);
          a2 = (if storage = [] \<or> storage = ''default''
                then (if ownSnapshotID \<noteq> [] then a1 @ [''-id'', ownSnapshotID] else a1 @ [''-all''])
                else a1 @ [''-all''])
      in if storage \<noteq> [] \<and> storage \<noteq> ''default'' then a2 @ [''-storage'', storage] else a2)"

definition warmOneListing :: "sweepEnv \<Rightarrow> Repo \<Rightarrow> string \<Rightarrow> string \<Rightarrow> int \<Rightarrow> snapshotFilesCacheStore \<Rightarrow>
    bool \<times> snapshotFilesCacheStore" where
  "warmOneListing e repo storage snap rv s =
     (case seRun e repo storage snap rv of
        RunCeiling \<Rightarrow> (False, markUncacheable (rID repo) storage snap rv SpoolCeiling 0 listSpoolFileMax s)
      | RunFailed \<Rightarrow> (False, s)
      | RunOk gz rawB \<Rightarrow> (True, storeListing e snap rv storage (rID repo) gz rawB s))"

text \<open>The groups appear in the order of first occurrence, which is one of the orders of the map.\<close>

definition newestRevisionsPerSnapshot :: "Snapshot list \<Rightarrow> nat \<Rightarrow> Snapshot list" where
  "newestRevisionsPerSnapshot snaps keepN =
     concat (map (\<lambda>i. take keepN (sort_key (\<lambda>sn. - snRevision sn) (filter (\<lambda>sn. snSnapshotID sn = i) snaps)))
       (remdups (map snSnapshotID snaps)))"

record sweepAcc =
  acStore :: snapshotFilesCacheStore
  acState :: sweepState
  acWarmed :: nat
  acCapped :: bool

fun warmRevs :: "sweepEnv \<Rightarrow> Repo \<Rightarrow> string \<Rightarrow> Snapshot list \<Rightarrow> (string \<times> nat) list \<Rightarrow> sweepAcc \<Rightarrow> sweepAcc" where
  "warmRevs e repo storage [] ranks acc = acc"
| "warmRevs e repo storage (sn # sns) ranks acc =
     (if acWarmed acc \<ge> maxWarmListsPerSweep then acc\<lparr>acCapped := True\<rparr>
      else case warmWanted e (acStore acc) ranks sn (rID repo) storage of (want, ranks') \<Rightarrow>
        if \<not> want then warmRevs e repo storage sns ranks' acc
        else case warmOneListing e repo storage (snSnapshotID sn) (snRevision sn) (acStore acc) of (done, s') \<Rightarrow>
          warmRevs e repo storage sns ranks'
            (acc\<lparr>acStore := s', acWarmed := (if done then Suc (acWarmed acc) else acWarmed acc)\<rparr>))"

text \<open>The Boolean results tell whether the loop returned early on a cancelled context.\<close>

fun warmStorages :: "sweepEnv \<Rightarrow> Repo \<Rightarrow> Storage list \<Rightarrow> sweepAcc \<Rightarrow> bool \<times> sweepAcc" where
  "warmStorages e repo [] acc = (False, acc)"
| "warmStorages e repo (stg # stgs) acc =
     (let storage = (if sName stg = [] then ''default'' else sName stg); st = acState acc
      in if seCancelled e repo (Some storage) then (True, acc)
         else case seLive e repo storage of
           None \<Rightarrow> warmStorages e repo stgs (acc\<lparr>acState := st\<lparr>swFailed := rID repo # swFailed st\<rparr>\<rparr>)
         | Some live \<Rightarrow>
             let st' = st\<lparr>swSwept := (rID repo, storage) # swSwept st, swSweptStorage := storage # swSweptStorage st,
                   swKeep := map (\<lambda>sn. storageSnapRevKey storage (snSnapshotID sn) (snRevision sn)) live @ swKeep st\<rparr>
             in warmStorages e repo stgs
                  (warmRevs e repo storage (newestRevisionsPerSnapshot live (nat (seWarmN e))) [] (acc\<lparr>acState := st'\<rparr>)))"

fun warmRepos :: "sweepEnv \<Rightarrow> Repo list \<Rightarrow> sweepAcc \<Rightarrow> bool \<times> sweepAcc" where
  "warmRepos e [] acc = (False, acc)"
| "warmRepos e (repo # repos) acc =
     (if seCancelled e repo None then (True, acc)
      else let st = acState acc; acc1 = acc\<lparr>acState := st\<lparr>swKnown := rID repo # swKnown st\<rparr>\<rparr>
           in if \<not> seVend e repo
              then warmRepos e repos (acc1\<lparr>acState := (acState acc1)\<lparr>swFailed := rID repo # swFailed st\<rparr>\<rparr>)
              else case warmStorages e repo (rStorages repo) acc1 of (aborted, acc2) \<Rightarrow>
                if aborted then (True, acc2)
                else if rID repo \<in> set (swFailed (acState acc2)) then warmRepos e repos acc2
                else warmRepos e repos (acc2\<lparr>acStore := sweepRepoDone (rID repo) (acStore acc2)\<rparr>))"

definition warmListCacheSweep :: "sweepEnv \<Rightarrow> Repo list \<Rightarrow> snapshotFilesCacheStore \<Rightarrow> sweepState \<times> snapshotFilesCacheStore" where
  "warmListCacheSweep e repos s =
     (if seWarmN e \<le> 0 then (newSweepState, s)
      else case warmRepos e repos \<lparr>acStore = sweepBegin (map rID repos) s, acState = newSweepState, acWarmed = 0, acCapped = False\<rparr> of
        (aborted, acc) \<Rightarrow>
          let s1 = sweepEnd (acStore acc); st = acState acc
          in if aborted then (st, s1)
             else (st, evictBySize (swFailed st) (snd (reconcileAgainstKeep st s1))))"

section \<open>Facts: the pin policy\<close>

definition prefixBytes :: "int list \<Rightarrow> nat \<Rightarrow> int" where
  "prefixBytes perRank k = sum_list (take k perRank)"

lemma prefixBytes_Suc:
  "prefixBytes perRank (Suc k) = (if Suc k \<le> length perRank then prefixBytes perRank k + perRank ! k else prefixBytes perRank k)"
  by (simp add: prefixBytes_def take_Suc_conv_app_nth)

lemma pinStep_fold:
  assumes "fold (pinStep perRank fl cap) [1..<Suc n] (0, fl) = (run, best)"
  shows "run = prefixBytes perRank n \<and> (best = fl \<or> fl \<le> best \<and> best \<le> n \<and> prefixBytes perRank best \<le> cap) \<and>
     (\<forall>k. fl \<le> k \<longrightarrow> 1 \<le> k \<longrightarrow> k \<le> n \<longrightarrow> prefixBytes perRank k \<le> cap \<longrightarrow> k \<le> best)"
  using assms
proof (induction n arbitrary: run best)
  case 0
  then show ?case by (simp add: prefixBytes_def)
next
  case (Suc n)
  obtain run0 best0 where f: "fold (pinStep perRank fl cap) [1..<Suc n] (0, fl) = (run0, best0)"
    by (cases "fold (pinStep perRank fl cap) [1..<Suc n] (0, fl)")
  note ih = Suc.IH [OF f]
  have "(run, best) = pinStep perRank fl cap (Suc n) (run0, best0)" using Suc.prems f by simp
  then have r: "run = prefixBytes perRank (Suc n)" and b: "best = (if fl \<le> Suc n \<and> run \<le> cap then Suc n else best0)"
    using ih by (simp_all add: pinStep_def prefixBytes_Suc Let_def)
  show ?case using ih r b by (auto simp: le_Suc_eq)
qed

section \<open>Facts: eviction\<close>

definition cacheOk :: "snapshotFilesCacheStore \<Rightarrow> bool" where
  "cacheOk s \<longleftrightarrow> distinct (map crRowid (cacheRows s)) \<and> distinct (map rowKey (cacheRows s))"

lemma cacheOk_distinct: "cacheOk s \<Longrightarrow> distinct (cacheRows s)"
  by (auto simp: cacheOk_def distinct_map)

lemma cacheOk_filter: "cacheOk s \<Longrightarrow> cacheOk (s\<lparr>cacheRows := filter P (cacheRows s)\<rparr>)"
  by (auto simp: cacheOk_def distinct_map_filter)

lemma pickVictims_take: "\<exists>k. pickVictims prot need rs = take k (filter (\<lambda>r. \<not> prot r) rs)"
proof (induction rs arbitrary: need)
  case Nil
  then show ?case by simp
next
  case (Cons r rs)
  show ?case
  proof (cases "prot r \<or> gzBytes r \<ge> need")
    case True
    then show ?thesis using Cons.IH [of need] by (cases "prot r") (auto intro: exI [of _ 1])
  next
    case False
    from Cons.IH [of "need - gzBytes r"] obtain k where
      "pickVictims prot (need - gzBytes r) rs = take k (filter (\<lambda>r. \<not> prot r) rs)" by blast
    with False show ?thesis by (auto intro: exI [of _ "Suc k"])
  qed
qed

lemma pickVictims_enough:
  "totalBytes (pickVictims prot need rs) \<ge> need \<or> set (pickVictims prot need rs) = {r \<in> set rs. \<not> prot r}"
  by (induction rs arbitrary: need) (auto simp: totalBytes_def, force+)

lemma pickVictims_sub: "set (pickVictims prot need rs) \<subseteq> {r \<in> set rs. \<not> prot r}"
  using pickVictims_take [of prot need rs] by (auto dest!: in_set_takeD)

lemma set_evictionOrder [simp]: "set (evictionOrder n rs) = {r \<in> set rs. rankIn rs r > n}"
  by (auto simp: evictionOrder_def)

lemma distinct_evictionOrder: "distinct rs \<Longrightarrow> distinct (evictionOrder n rs)"
  by (simp add: evictionOrder_def)

lemma distinct_pickVictims: "distinct rs \<Longrightarrow> distinct (pickVictims prot need rs)"
  using pickVictims_take [of prot need rs] by (auto intro: distinct_take)

lemma victimsOf_sub:
  "set (victimsOf exempt s) \<subseteq> {r \<in> set (cacheRows s). rankIn (cacheRows s) r > effectivePinN s \<and> \<not> protectedRow exempt s r}"
  using pickVictims_sub [of "protectedRow exempt s" "totalBytes (cacheRows s) - maxBytes s"
    "evictionOrder (effectivePinN s) (cacheRows s)"] by (auto simp: victimsOf_def)

lemma markUncacheable_simps [simp]:
  "cacheRows (markUncacheable a b c d f g h s) = cacheRows s"
  "maxBytes (markUncacheable a b c d f g h s) = maxBytes s"
  "pendingRepos (markUncacheable a b c d f g h s) = pendingRepos s"
  "pendingMaxRowid (markUncacheable a b c d f g h s) = pendingMaxRowid s"
  "warmKeepN (markUncacheable a b c d f g h s) = warmKeepN s"
  by (simp_all add: markUncacheable_def)

lemma fold_markUncacheable [simp]:
  "cacheRows (fold (\<lambda>r. markUncacheable (crRepo r) (crStorage r) (crSnapshot r) (crRev r) f (gzBytes r) m) items s) = cacheRows s"
  "maxBytes (fold (\<lambda>r. markUncacheable (crRepo r) (crStorage r) (crSnapshot r) (crRev r) f (gzBytes r) m) items s) = maxBytes s"
  "pendingRepos (fold (\<lambda>r. markUncacheable (crRepo r) (crStorage r) (crSnapshot r) (crRev r) f (gzBytes r) m) items s) = pendingRepos s"
  "pendingMaxRowid (fold (\<lambda>r. markUncacheable (crRepo r) (crStorage r) (crSnapshot r) (crRev r) f (gzBytes r) m) items s) = pendingMaxRowid s"
  "warmKeepN (fold (\<lambda>r. markUncacheable (crRepo r) (crStorage r) (crSnapshot r) (crRev r) f (gzBytes r) m) items s) = warmKeepN s"
  by (induction items arbitrary: s) simp_all

lemma deleteByRowID_rows:
  assumes "cacheOk s" "set vs \<subseteq> set (cacheRows s)"
  shows "cacheRows (deleteByRowID (map crRowid vs) s) = filter (\<lambda>r. r \<notin> set vs) (cacheRows s)"
proof -
  have "crRowid r \<in> crRowid ` set vs \<longleftrightarrow> r \<in> set vs" if "r \<in> set (cacheRows s)" for r
    using assms that by (auto simp: cacheOk_def distinct_map inj_on_def)
  then show ?thesis by (auto simp: deleteByRowID_def intro!: filter_cong)
qed

lemma evictBySize_rows:
  assumes "cacheOk s"
  shows "cacheRows (evictBySize exempt s) = filter (\<lambda>r. r \<notin> set (victimsOf exempt s)) (cacheRows s)"
proof -
  have "set (victimsOf exempt s) \<subseteq> set (cacheRows s)" using victimsOf_sub by blast
  from deleteByRowID_rows [OF assms this] show ?thesis
    by (auto simp: evictBySize_def markCapEvicted_def Let_def)
qed

lemma evictBySize_simps [simp]:
  "maxBytes (evictBySize exempt s) = maxBytes s" "pendingRepos (evictBySize exempt s) = pendingRepos s"
  "pendingMaxRowid (evictBySize exempt s) = pendingMaxRowid s" "warmKeepN (evictBySize exempt s) = warmKeepN s"
  by (simp_all add: evictBySize_def markCapEvicted_def deleteByRowID_def Let_def)

lemma evictBySize_ok: "cacheOk s \<Longrightarrow> cacheOk (evictBySize exempt s)"
  by (simp add: cacheOk_def evictBySize_rows distinct_map_filter)

lemma totalBytes_filter:
  assumes "distinct rs" "distinct vs" "set vs \<subseteq> set rs"
  shows "totalBytes (filter (\<lambda>r. r \<notin> set vs) rs) = totalBytes rs - totalBytes vs"
proof -
  have "sum_list (map gzBytes rs) = sum gzBytes (set rs)" "sum_list (map gzBytes vs) = sum gzBytes (set vs)"
    "sum_list (map gzBytes (filter (\<lambda>r. r \<notin> set vs) rs)) = sum gzBytes (set rs - set vs)"
    using assms by (simp_all add: sum_list_distinct_conv_sum_set set_diff_eq)
  with assms show ?thesis by (simp add: totalBytes_def sum_diff)
qed

lemma victimsOf_enough:
  assumes "cacheOk s" "maxBytes s > 0"
  shows "totalBytes (cacheRows s) - totalBytes (victimsOf exempt s) \<le> maxBytes s \<or>
     set (victimsOf exempt s) = {r \<in> set (cacheRows s). rankIn (cacheRows s) r > effectivePinN s \<and> \<not> protectedRow exempt s r}"
  using pickVictims_enough [of "totalBytes (cacheRows s) - maxBytes s" "protectedRow exempt s" "evictionOrder (effectivePinN s) (cacheRows s)"] assms
  by (auto simp: victimsOf_def totalBytes_def)

lemma victims_oldest_first:
  assumes "r \<in> set (victimsOf exempt s)" "q \<in> set (cacheRows s)" "\<not> protectedRow exempt s q"
    "rankIn (cacheRows s) q > rankIn (cacheRows s) r"
  shows "q \<in> set (victimsOf exempt s)"
proof -
  let ?rk = "rankIn (cacheRows s)" and ?p = "protectedRow exempt s"
  let ?o = "evictionOrder (effectivePinN s) (cacheRows s)"
  let ?f = "filter (\<lambda>r. \<not> ?p r) ?o"
  obtain k where k: "victimsOf exempt s = take k ?f"
    using assms(1) pickVictims_take [of ?p "totalBytes (cacheRows s) - maxBytes s" ?o]
    by (auto simp: victimsOf_def split: if_splits)
  have "sorted (map (\<lambda>r. - int (?rk r)) ?o)" unfolding evictionOrder_def by (rule sorted_sort_key)
  then have srt: "sorted (map (\<lambda>r. - int (?rk r)) ?f)" by (rule sorted_filter)
  have "?rk r > effectivePinN s" using assms(1) victimsOf_sub by blast
  then have q: "q \<in> set ?f" using assms by auto
  show ?thesis
  proof (rule ccontr)
    assume nq: "q \<notin> set (victimsOf exempt s)"
    have "q \<in> set (take k ?f @ drop k ?f)" using q by simp
    with nq k have qd: "q \<in> set (drop k ?f)" by (metis Un_iff set_append)
    have "sorted (map (\<lambda>r. - int (?rk r)) (take k ?f) @ map (\<lambda>r. - int (?rk r)) (drop k ?f))"
      using srt by (metis append_take_drop_id map_append)
    then have "- int (?rk r) \<le> - int (?rk q)" using assms(1) k qd by (auto simp: sorted_append)
    with assms(4) show False by simp
  qed
qed

section \<open>Facts: reconcile and sweep\<close>

lemma reconcile_rows:
  assumes "cacheOk s" "swSweptStorage st \<noteq> []"
  shows "cacheRows (snd (reconcileAgainstKeep st s)) =
    filter (\<lambda>r. \<not> gone st (crRepo r) (crStorage r) (crSnapshot r) (crRev r)) (cacheRows s)"
proof -
  let ?g = "\<lambda>r. gone st (crRepo r) (crStorage r) (crSnapshot r) (crRev r)"
  let ?s1 = "reconcileMarkers st s"
  have rows: "cacheRows ?s1 = cacheRows s" by (simp add: reconcileMarkers_def)
  then have "cacheOk ?s1" using assms(1) by (simp add: cacheOk_def)
  from deleteByRowID_rows [OF this, of "filter ?g (cacheRows s)"]
  have "cacheRows (deleteByRowID (map crRowid (filter ?g (cacheRows s))) ?s1) = filter (\<lambda>r. \<not> ?g r) (cacheRows s)"
    by (auto simp: rows intro!: filter_cong)
  moreover have "filter ?g (cacheRows s) = [] \<Longrightarrow> filter (\<lambda>r. \<not> ?g r) (cacheRows s) = cacheRows s"
    by (auto simp: filter_empty_conv intro!: filter_True)
  ultimately show ?thesis using assms(2) by (simp add: reconcileAgainstKeep_def rows Let_def)
qed

lemma reconcile_simps [simp]:
  "maxBytes (snd (reconcileAgainstKeep st s)) = maxBytes s" "pendingRepos (snd (reconcileAgainstKeep st s)) = pendingRepos s"
  by (simp_all add: reconcileAgainstKeep_def reconcileMarkers_def deleteByRowID_def Let_def)

lemma reconcile_empty: "swSweptStorage st = [] \<Longrightarrow> cacheRows (snd (reconcileAgainstKeep st s)) = cacheRows s"
  by (simp add: reconcileAgainstKeep_def reconcileMarkers_def)

lemma reconcile_ok: "cacheOk s \<Longrightarrow> cacheOk (snd (reconcileAgainstKeep st s))"
  by (cases "swSweptStorage st = []")
    (simp_all add: cacheOk_def reconcile_empty reconcile_rows distinct_map_filter)

lemma reconcile_failed:
  "cacheOk s \<Longrightarrow> r \<in> set (cacheRows s) \<Longrightarrow> crRepo r \<in> set (swFailed st) \<Longrightarrow> r \<in> set (cacheRows (snd (reconcileAgainstKeep st s)))"
  by (cases "swSweptStorage st = []") (simp_all add: reconcile_empty reconcile_rows gone_def judges_def)

lemma maxRowid_ge: "r \<in> set rs \<Longrightarrow> crRowid r \<le> maxRowid rs"
proof -
  have "a \<le> fold (\<lambda>r m. max (crRowid r) m) rs a \<and> (\<forall>r\<in>set rs. crRowid r \<le> fold (\<lambda>r m. max (crRowid r) m) rs a)" for a rs
  proof (induction rs arbitrary: a)
    case (Cons q rs)
    from Cons [of "max (crRowid q) a"] show ?case by auto
  qed simp
  then show "r \<in> set rs \<Longrightarrow> crRowid r \<le> maxRowid rs" unfolding maxRowid_def by blast
qed

text \<open>The sweep invariant: every row a pending repo had when the sweep began is still there.\<close>

definition sweepInv :: "cacheRow list \<Rightarrow> snapshotFilesCacheStore \<Rightarrow> bool" where
  "sweepInv R0 s \<longleftrightarrow>
     cacheOk s \<and> (\<forall>r\<in>set R0. crRepo r \<in> set (pendingRepos s) \<longrightarrow> r \<in> set (cacheRows s) \<and> crRowid r \<le> pendingMaxRowid s)"

lemma sweepInv_evict: "sweepInv R0 s \<Longrightarrow> sweepInv R0 (evictBySize exempt s)"
proof -
  assume inv: "sweepInv R0 s"
  then have ok: "cacheOk s" by (simp add: sweepInv_def)
  have "r \<notin> set (victimsOf exempt s)" if "r \<in> set R0" "crRepo r \<in> set (pendingRepos s)" for r
  proof -
    have "protectedRow exempt s r"
      using inv that by (auto simp: sweepInv_def protectedRow_def pendingSnapshot_def)
    then show ?thesis using victimsOf_sub by blast
  qed
  with inv show ?thesis by (auto simp: sweepInv_def evictBySize_ok [OF ok] evictBySize_rows [OF ok])
qed

lemma putGzipped_simps [simp]:
  "pendingRepos (putGzipped now snap rv storage repoID gz rawB s) = pendingRepos s"
  by (simp add: putGzipped_def Let_def)

lemma sweepInv_put:
  assumes "sweepInv R0 s" "\<not> cacheHas s snap rv storage"
  shows "sweepInv R0 (putGzipped now snap rv storage repoID gz rawB s)"
proof -
  let ?f = "\<lparr>crRowid = maxRowid (cacheRows s) + 1, crSnapshot = snap, crRev = rv, crStorage = storage,
            crRepo = repoID, crGz = gz, crRawBytes = rawB, crLastAccess = now\<rparr>"
  have "crRowid ?f \<notin> crRowid ` set (cacheRows s)" using maxRowid_ge by fastforce
  moreover have "rowKey ?f \<notin> rowKey ` set (cacheRows s)"
    using assms(2) by (auto simp: cacheHas_def list_ex_iff rowKey_def)
  ultimately have "sweepInv R0 (s\<lparr>cacheRows := cacheRows s @ [?f]\<rparr>)"
    using assms(1) by (auto simp: sweepInv_def cacheOk_def)
  then have "sweepInv R0 (evictBySize [] (s\<lparr>cacheRows := cacheRows s @ [?f]\<rparr>))" by (rule sweepInv_evict)
  then show ?thesis using assms(2) by (simp add: putGzipped_def Let_def)
qed

lemma sweepInv_mark: "sweepInv R0 (markUncacheable a b c d f g h s) = sweepInv R0 s"
  by (simp add: sweepInv_def cacheOk_def)

lemma warmOneListing_inv:
  assumes "sweepInv R0 s" "\<not> cacheHas s snap rv storage"
  shows "sweepInv R0 (snd (warmOneListing e repo storage snap rv s))"
    "pendingRepos (snd (warmOneListing e repo storage snap rv s)) = pendingRepos s"
  using assms by (auto simp: warmOneListing_def storeListing_def sweepInv_mark sweepInv_put split: listRun.splits)

lemma warmWanted_not_cached:
  "fst (warmWanted e s ranks sn repoID storage) \<Longrightarrow> \<not> cacheHas s (snSnapshotID sn) (snRevision sn) storage"
  by (auto simp: warmWanted_def Let_def split: if_splits)

lemma warmRevs_inv:
  assumes "sweepInv R0 (acStore acc)"
  shows "sweepInv R0 (acStore (warmRevs e repo storage sns ranks acc)) \<and>
     pendingRepos (acStore (warmRevs e repo storage sns ranks acc)) = pendingRepos (acStore acc) \<and>
     acState (warmRevs e repo storage sns ranks acc) = acState acc"
  using assms
proof (induction sns arbitrary: ranks acc)
  case Nil
  then show ?case by simp
next
  case (Cons sn sns)
  obtain want ranks' where w: "warmWanted e (acStore acc) ranks sn (rID repo) storage = (want, ranks')"
    by (cases "warmWanted e (acStore acc) ranks sn (rID repo) storage")
  obtain ok s' where o: "warmOneListing e repo storage (snSnapshotID sn) (snRevision sn) (acStore acc) = (ok, s')"
    by (cases "warmOneListing e repo storage (snSnapshotID sn) (snRevision sn) (acStore acc)")
  have "sweepInv R0 s' \<and> pendingRepos s' = pendingRepos (acStore acc)" if want
    using warmOneListing_inv [OF Cons.prems, of "snSnapshotID sn" "snRevision sn" storage e repo] that
      warmWanted_not_cached [of e "acStore acc" ranks sn "rID repo" storage] by (simp add: w o)
  with Cons w o show ?case by auto
qed

lemma warmStorages_inv:
  assumes "sweepInv R0 (acStore acc)"
  shows "sweepInv R0 (acStore (snd (warmStorages e repo stgs acc))) \<and>
     pendingRepos (acStore (snd (warmStorages e repo stgs acc))) = pendingRepos (acStore acc) \<and>
     set (swFailed (acState (snd (warmStorages e repo stgs acc)))) \<subseteq> insert (rID repo) (set (swFailed (acState acc)))"
  using assms
proof (induction stgs arbitrary: acc)
  case Nil
  then show ?case by auto
next
  case (Cons stg stgs)
  let ?storage = "if sName stg = [] then ''default'' else sName stg"
  show ?case
  proof (cases "seLive e repo ?storage")
    case None
    have "sweepInv R0 (acStore (acc\<lparr>acState := (acState acc)\<lparr>swFailed := rID repo # swFailed (acState acc)\<rparr>\<rparr>))"
      using Cons.prems by simp
    from Cons.IH [OF this] Cons.prems None show ?thesis by (auto simp: Let_def)
  next
    case (Some live)
    let ?st = "(acState acc)\<lparr>swSwept := (rID repo, ?storage) # swSwept (acState acc), swSweptStorage := ?storage # swSweptStorage (acState acc),
        swKeep := map (\<lambda>sn. storageSnapRevKey ?storage (snSnapshotID sn) (snRevision sn)) live @ swKeep (acState acc)\<rparr>"
    let ?acc = "warmRevs e repo ?storage (newestRevisionsPerSnapshot live (nat (seWarmN e))) [] (acc\<lparr>acState := ?st\<rparr>)"
    have a: "sweepInv R0 (acStore ?acc) \<and> pendingRepos (acStore ?acc) = pendingRepos (acStore acc) \<and> acState ?acc = ?st"
      using warmRevs_inv [of R0 "acc\<lparr>acState := ?st\<rparr>"] Cons.prems by simp
    with Cons.IH [of ?acc] Cons.prems Some show ?thesis by (simp add: Let_def subset_insertI)
  qed
qed

lemma sweepInv_done: "sweepInv R0 s \<Longrightarrow> sweepInv R0 (sweepRepoDone repoID s)"
  by (auto simp: sweepInv_def sweepRepoDone_def cacheOk_def)

lemma insert_disjoint_sub: "A \<subseteq> insert x B \<Longrightarrow> x \<notin> C \<Longrightarrow> B \<inter> C = {} \<Longrightarrow> A \<inter> C = {}"
  by blast

lemma union_sub_remove: "A \<subseteq> P \<Longrightarrow> B \<subseteq> P \<Longrightarrow> x \<notin> A \<Longrightarrow> x \<notin> B \<Longrightarrow> A \<union> B \<subseteq> P - {x}"
  by blast

lemma warmRepos_inv:
  assumes "sweepInv R0 (acStore acc)" "distinct (map rID repos)"
    "set (swFailed (acState acc)) \<inter> set (map rID repos) = {}"
    "set (swFailed (acState acc)) \<union> set (map rID repos) \<subseteq> set (pendingRepos (acStore acc))"
  shows "sweepInv R0 (acStore (snd (warmRepos e repos acc))) \<and>
     set (swFailed (acState (snd (warmRepos e repos acc)))) \<subseteq> set (pendingRepos (acStore (snd (warmRepos e repos acc))))"
  using assms
proof (induction repos arbitrary: acc)
  case Nil
  then show ?case by simp
next
  case (Cons repo repos)
  let ?st = "acState acc"
  let ?acc1 = "acc\<lparr>acState := ?st\<lparr>swKnown := rID repo # swKnown ?st\<rparr>\<rparr>"
  let ?accF = "?acc1\<lparr>acState := (acState ?acc1)\<lparr>swFailed := rID repo # swFailed ?st\<rparr>\<rparr>"
  obtain ab acc2 where w: "warmStorages e repo (rStorages repo) ?acc1 = (ab, acc2)"
    by (cases "warmStorages e repo (rStorages repo) ?acc1")
  have w2: "sweepInv R0 (acStore acc2)" "pendingRepos (acStore acc2) = pendingRepos (acStore acc)"
      "set (swFailed (acState acc2)) \<subseteq> insert (rID repo) (set (swFailed ?st))"
    using warmStorages_inv [of R0 ?acc1 e repo "rStorages repo"] Cons.prems(1) by (auto simp: w)
  have F: "sweepInv R0 (acStore (snd (warmRepos e repos ?accF))) \<and>
     set (swFailed (acState (snd (warmRepos e repos ?accF)))) \<subseteq> set (pendingRepos (acStore (snd (warmRepos e repos ?accF))))"
    by (rule Cons.IH) (use Cons.prems in auto)
  have dj: "set (swFailed (acState acc2)) \<inter> rID ` set repos = {}"
  proof -
    have "rID repo \<notin> rID ` set repos" "set (swFailed ?st) \<inter> rID ` set repos = {}" using Cons.prems(2,3) by auto
    with w2(3) show ?thesis by (rule insert_disjoint_sub)
  qed
  have A: "sweepInv R0 (acStore (snd (warmRepos e repos acc2))) \<and>
     set (swFailed (acState (snd (warmRepos e repos acc2)))) \<subseteq> set (pendingRepos (acStore (snd (warmRepos e repos acc2))))"
    by (rule Cons.IH) (use Cons.prems w2 dj in auto)
  have ab: "set (swFailed (acState acc2)) \<subseteq> set (pendingRepos (acStore acc2))" using w2 Cons.prems(4) by auto
  let ?accD = "acc2\<lparr>acStore := sweepRepoDone (rID repo) (acStore acc2)\<rparr>"
  have D: "sweepInv R0 (acStore (snd (warmRepos e repos ?accD))) \<and>
     set (swFailed (acState (snd (warmRepos e repos ?accD)))) \<subseteq> set (pendingRepos (acStore (snd (warmRepos e repos ?accD))))"
    if nf: "rID repo \<notin> set (swFailed (acState acc2))"
  proof (rule Cons.IH)
    show "sweepInv R0 (acStore ?accD)" using w2(1) by (simp add: sweepInv_done)
    show "distinct (map rID repos)" using Cons.prems(2) by simp
    show "set (swFailed (acState ?accD)) \<inter> set (map rID repos) = {}" using dj by simp
    have "rID ` set repos \<subseteq> set (pendingRepos (acStore acc2))" "rID repo \<notin> rID ` set repos"
      using w2(2) Cons.prems(2,4) by auto
    from union_sub_remove [OF ab this(1) nf this(2)]
    show "set (swFailed (acState ?accD)) \<union> set (map rID repos) \<subseteq> set (pendingRepos (acStore ?accD))"
      by (simp add: sweepRepoDone_def set_diff_eq)
  qed
  show ?case using F A D ab w2(1) w Cons.prems by (auto simp: Let_def)
qed

lemma evict_exempt: "cacheOk s \<Longrightarrow> r \<in> set (cacheRows s) \<Longrightarrow> crRepo r \<in> set exempt \<Longrightarrow> r \<in> set (cacheRows (evictBySize exempt s))"
  using victimsOf_sub [of exempt s] by (auto simp: evictBySize_rows protectedRow_def)

text \<open>The cache as a keyed store, when no size cap is configured.\<close>

definition cacheLook :: "snapshotFilesCacheStore \<Rightarrow> string \<times> int \<times> string \<Rightarrow> (string \<times> int) option" where
  "cacheLook s k = map_option (\<lambda>r. (crGz r, crRawBytes r)) (List.find (\<lambda>r. rowKey r = k) (cacheRows s))"

definition putListing :: "(string \<times> int \<times> string) \<times> string \<times> string \<times> int \<Rightarrow> snapshotFilesCacheStore \<Rightarrow> snapshotFilesCacheStore" where
  "putListing = (\<lambda>((snap, rv, storage), repoID, gz, rawB). putGzipped 0 snap rv storage repoID gz rawB)"

lemma find_map_key:
  "(\<And>x. x \<in> set xs \<Longrightarrow> P (f x) = P x) \<Longrightarrow> List.find P (map f xs) = map_option f (List.find P xs)"
  by (induction xs) auto

lemma find_append: "List.find P (xs @ ys) = (case List.find P xs of None \<Rightarrow> List.find P ys | Some x \<Rightarrow> Some x)"
  by (induction xs) auto

lemma find_filter: "List.find P (filter Q xs) = List.find (\<lambda>x. Q x \<and> P x) xs"
  by (induction xs) auto

lemma cacheLook_put:
  assumes "maxBytes s \<le> 0"
  shows "cacheLook (putGzipped now snap rv storage repoID gz rawB s) = (cacheLook s)((snap, rv, storage) \<mapsto> (gz, rawB))"
proof
  fix k
  let ?k = "(snap, rv, storage)"
  have ev: "evictBySize [] t = t" if "maxBytes t \<le> 0" for t using that by (simp add: evictBySize_def victimsOf_def)
  show "cacheLook (putGzipped now snap rv storage repoID gz rawB s) k = ((cacheLook s)(?k \<mapsto> (gz, rawB))) k"
  proof (cases "cacheHas s snap rv storage")
    case False
    then have "List.find (\<lambda>r. rowKey r = ?k) (cacheRows s) = None"
      by (auto simp: cacheHas_def find_None_iff list_ex_iff)
    with False assms show ?thesis
      by (auto simp: putGzipped_def Let_def ev cacheLook_def find_append rowKey_def split: option.splits)
  next
    case True
    then obtain r where r: "List.find (\<lambda>r. rowKey r = ?k) (cacheRows s) = Some r"
      by (cases "List.find (\<lambda>r. rowKey r = ?k) (cacheRows s)") (auto simp: cacheHas_def find_None_iff list_ex_iff)
    let ?g = "\<lambda>q. if rowKey q = ?k then \<lparr>crRowid = maxRowid (cacheRows s) + 1, crSnapshot = snap, crRev = rv, crStorage = storage,
            crRepo = repoID, crGz = gz, crRawBytes = rawB, crLastAccess = now\<rparr>\<lparr>crRowid := crRowid q\<rparr> else q"
    have gk: "rowKey (?g q) = rowKey q" for q by (simp add: rowKey_def)
    have "List.find (\<lambda>r. rowKey r = k) (map ?g (cacheRows s)) = map_option ?g (List.find (\<lambda>r. rowKey r = k) (cacheRows s))"
      by (rule find_map_key) (simp only: gk)
    then have "cacheLook (putGzipped now snap rv storage repoID gz rawB s) k =
        map_option (\<lambda>r. (crGz (?g r), crRawBytes (?g r))) (List.find (\<lambda>r. rowKey r = k) (cacheRows s))"
      using True assms by (simp add: putGzipped_def Let_def ev cacheLook_def option.map_comp o_def)
    moreover have "rowKey q = k" if "List.find (\<lambda>r. rowKey r = k) (cacheRows s) = Some q" for q
      using that by (auto simp: find_Some_iff)
    ultimately show ?thesis
      using r by (cases "List.find (\<lambda>r. rowKey r = k) (cacheRows s)") (auto simp: cacheLook_def)
  qed
qed

interpretation listing: keyed_store cacheLook fst "\<lambda>l. snd (snd l)" putListing
    "\<lambda>(snap, rv, storage). cacheDrop snap rv storage" "\<lambda>s. maxBytes s \<le> 0"
proof unfold_locales
  fix s :: snapshotFilesCacheStore and l assume "maxBytes s \<le> 0"
  then show "cacheLook (putListing l s) = (cacheLook s)(fst l \<mapsto> snd (snd l))"
    by (auto simp: putListing_def cacheLook_put split: prod.splits)
next
  fix s :: snapshotFilesCacheStore and k
  show "cacheLook ((case k of (snap, rv, storage) \<Rightarrow> cacheDrop snap rv storage) s) = (cacheLook s)(k := None)"
    by (cases k) (auto simp: cacheLook_def cacheDrop_def find_filter fun_eq_iff find_None_iff intro!: arg_cong [of _ _ "map_option _"] find_cong)
qed (auto simp: putListing_def putGzipped_def cacheDrop_def Let_def split: prod.splits)

lemma cacheOpen_look: "fst (cacheOpen now snap rv storage s) = cacheLook s (snap, rv, storage)"
  by (auto simp: cacheOpen_def cacheLook_def split: option.splits)

section \<open>Properties\<close>

text \<open>With a size cap, \<open>pinPolicy\<close> is the largest number of ranks, between the floor
  (the smaller of two and the warm window) and the warm window, whose bytes fit the cap; when none
  fits it is the floor.\<close>

theorem pinPolicy_largest:
  assumes "0 < cap"
  shows "let fl = min 2 warmN; k = pinPolicy perRank warmN cap
     in fl \<le> k \<and> k \<le> warmN \<and> (k = fl \<or> prefixBytes perRank k \<le> cap) \<and>
        (\<forall>k'. fl \<le> k' \<longrightarrow> 1 \<le> k' \<longrightarrow> k' \<le> warmN \<longrightarrow> prefixBytes perRank k' \<le> cap \<longrightarrow> k' \<le> k)"
proof -
  let ?fl = "min 2 warmN"
  obtain run best where f: "fold (pinStep perRank ?fl cap) [1..<Suc warmN] (0, ?fl) = (run, best)"
    by (cases "fold (pinStep perRank ?fl cap) [1..<Suc warmN] (0, ?fl)")
  then have k: "pinPolicy perRank warmN cap = best"
    using assms by (simp add: pinPolicy_def maxPinRelaxedKeep_def Let_def)
  show ?thesis using pinStep_fold [OF f] by (auto simp: k Let_def)
qed

theorem pinPolicy_largest_witness: "pinPolicy [50, 50, 50] 3 100 = 2"
proof -
  have p: "prefixBytes [50, 50, 50] 3 = 150" "prefixBytes [50, 50, 50] 2 = 100"
    by (simp_all add: prefixBytes_def numeral_eq_Suc)
  from pinPolicy_largest [of 100 3 "[50, 50, 50]"]
  have "2 \<le> pinPolicy [50, 50, 50] 3 100" "pinPolicy [50, 50, 50] 3 100 \<le> 3"
    "pinPolicy [50, 50, 50] 3 100 \<noteq> 3" using p by (auto simp: Let_def)
  then show ?thesis by simp
qed

text \<open>Evicting a rank beyond the pin can raise the pin: the prefix sums up to the pin stay, but
  the deeper ones shrink, so the policy's answer is not stable under eviction.\<close>

theorem pinPolicy_rises_after_eviction:
  "pinPolicy [50, 50, 50] 3 100 = 2 \<and> pinPolicy [50, 50, 0] 3 100 = 3"
  by code_simp

text \<open>C23. Size eviction spares what it must: a row among the newest \<open>effectivePinN\<close> revisions of its
  snapshot and storage, a row of an exempt repo, and a row that a repo pending in the running sweep
  already had, all survive; no row is altered.\<close>

theorem evictBySize_spares:
  assumes "cacheOk s" "r \<in> set (cacheRows s)"
    "rankIn (cacheRows s) r \<le> effectivePinN s \<or> crRepo r \<in> set exempt \<or>
     (crRepo r \<in> set (pendingRepos s) \<and> crRowid r \<le> pendingMaxRowid s)"
  shows "r \<in> set (cacheRows (evictBySize exempt s)) \<and> set (cacheRows (evictBySize exempt s)) \<subseteq> set (cacheRows s)"
proof -
  have "protectedRow exempt s r \<or> rankIn (cacheRows s) r \<le> effectivePinN s"
    using assms(3) by (auto simp: protectedRow_def pendingSnapshot_def)
  then have "r \<notin> set (victimsOf exempt s)" using victimsOf_sub [of exempt s] by auto
  then show ?thesis using assms(2) by (simp add: evictBySize_rows [OF assms(1)])
qed

definition exRow :: "int \<Rightarrow> int \<Rightarrow> cacheRow" where
  "exRow i rv = \<lparr>crRowid = i, crSnapshot = ''a'', crRev = rv, crStorage = ''default'', crRepo = ''R'',
     crGz = ''xxxx'', crRawBytes = 9, crLastAccess = 0\<rparr>"

definition exCache :: snapshotFilesCacheStore where
  "exCache = newSnapshotFilesCacheStore 6 2 [exRow 1 7, exRow 2 8, exRow 3 9] []"

lemma exCache_ok: "cacheOk exCache"
  by (simp add: cacheOk_def exCache_def newSnapshotFilesCacheStore_def exRow_def rowKey_def)

theorem evictBySize_spares_witness: "exRow 3 9 \<in> set (cacheRows (evictBySize [] exCache))"
proof -
  have "exRow 3 9 \<in> set (cacheRows exCache)" "rankIn (cacheRows exCache) (exRow 3 9) \<le> effectivePinN exCache" by code_simp+
  then show ?thesis using evictBySize_spares [OF exCache_ok, of "exRow 3 9" "[]"] by simp
qed

text \<open>Size eviction does its work, oldest first: afterwards the cache is within the cap, or every
  row left was pinned or protected; and when a row was evicted, so was every unprotected row of a
  deeper rank.\<close>

theorem evictBySize_reaches_cap:
  assumes "cacheOk s" "0 < maxBytes s"
  shows "(totalBytes (cacheRows (evictBySize exempt s)) \<le> maxBytes s \<or>
      (\<forall>r\<in>set (cacheRows (evictBySize exempt s)). rankIn (cacheRows s) r \<le> effectivePinN s \<or> protectedRow exempt s r)) \<and>
     (\<forall>r\<in>set (cacheRows s) - set (cacheRows (evictBySize exempt s)). \<forall>q\<in>set (cacheRows s).
        rankIn (cacheRows s) q > rankIn (cacheRows s) r \<longrightarrow> \<not> protectedRow exempt s q \<longrightarrow>
        q \<notin> set (cacheRows (evictBySize exempt s)))"
proof
  let ?vs = "victimsOf exempt s"
  have rows: "cacheRows (evictBySize exempt s) = filter (\<lambda>r. r \<notin> set ?vs) (cacheRows s)"
    by (rule evictBySize_rows [OF assms(1)])
  have sub: "set ?vs \<subseteq> set (cacheRows s)" using victimsOf_sub by blast
  have "distinct (cacheRows s)" by (rule cacheOk_distinct [OF assms(1)])
  then have "distinct ?vs" by (simp add: victimsOf_def distinct_pickVictims distinct_evictionOrder)
  then have tot: "totalBytes (cacheRows (evictBySize exempt s)) = totalBytes (cacheRows s) - totalBytes ?vs"
    unfolding rows by (intro totalBytes_filter sub cacheOk_distinct assms(1))
  from victimsOf_enough [OF assms, of exempt]
  show "totalBytes (cacheRows (evictBySize exempt s)) \<le> maxBytes s \<or>
      (\<forall>r\<in>set (cacheRows (evictBySize exempt s)). rankIn (cacheRows s) r \<le> effectivePinN s \<or> protectedRow exempt s r)"
  proof
    assume "set ?vs = {r \<in> set (cacheRows s). rankIn (cacheRows s) r > effectivePinN s \<and> \<not> protectedRow exempt s r}"
    then have "rankIn (cacheRows s) r \<le> effectivePinN s \<or> protectedRow exempt s r"
      if "r \<in> set (cacheRows s)" "r \<notin> set ?vs" for r using that not_le by blast
    then show ?thesis by (simp add: rows)
  qed (simp add: tot)
  show "\<forall>r\<in>set (cacheRows s) - set (cacheRows (evictBySize exempt s)). \<forall>q\<in>set (cacheRows s).
        rankIn (cacheRows s) q > rankIn (cacheRows s) r \<longrightarrow> \<not> protectedRow exempt s q \<longrightarrow>
        q \<notin> set (cacheRows (evictBySize exempt s))"
    using victims_oldest_first [of _ exempt s] by (auto simp: rows)
qed

theorem evictBySize_reaches_cap_witness:
  "list_all (\<lambda>r. rankIn (cacheRows exCache) r \<le> effectivePinN exCache \<or> protectedRow [] exCache r) (cacheRows (evictBySize [] exCache))"
proof -
  have "0 < maxBytes exCache" "\<not> totalBytes (cacheRows (evictBySize [] exCache)) \<le> maxBytes exCache" by code_simp+
  then show ?thesis using evictBySize_reaches_cap [OF exCache_ok, of "[]"] by (simp add: list_all_iff)
qed

text \<open>C24. The end-of-sweep reconcile removes exactly the rows whose fate the sweep can judge and
  that it did not find alive. A repo that failed is never judged; a known repo only on the storages
  it listed.\<close>

theorem reconcileAgainstKeep_exact:
  assumes "cacheOk s" "swSweptStorage st \<noteq> []"
  shows "cacheRows (snd (reconcileAgainstKeep st s)) =
     filter (\<lambda>r. \<not> (crRepo r \<notin> set (swFailed st) \<and>
         (if crRepo r \<in> set (swKnown st) then (crRepo r, crStorage r) \<in> set (swSwept st) else crStorage r \<in> set (swSweptStorage st)) \<and>
         storageSnapRevKey (crStorage r) (crSnapshot r) (crRev r) \<notin> set (swKeep st))) (cacheRows s)"
  unfolding reconcile_rows [OF assms] by (auto simp: gone_def judges_def intro!: filter_cong)

theorem reconcileAgainstKeep_exact_witness:
  "cacheRows (snd (reconcileAgainstKeep (newSweepState\<lparr>swKnown := [''R''], swSwept := [(''R'', ''default'')],
     swSweptStorage := [''default''], swKeep := [storageSnapRevKey ''default'' ''a'' 8]\<rparr>) exCache)) = [exRow 2 8]"
proof -
  let ?st = "newSweepState\<lparr>swKnown := [''R''], swSwept := [(''R'', ''default'')],
     swSweptStorage := [''default''], swKeep := [storageSnapRevKey ''default'' ''a'' 8]\<rparr>"
  have ne: "swSweptStorage ?st \<noteq> []" by simp
  have k: "storageSnapRevKey ''default'' ''a'' 7 \<noteq> storageSnapRevKey ''default'' ''a'' 8"
    "storageSnapRevKey ''default'' ''a'' 9 \<noteq> storageSnapRevKey ''default'' ''a'' 8" by code_simp+
  show ?thesis
    unfolding reconcileAgainstKeep_exact [OF exCache_ok ne]
    using k by (simp add: exCache_def newSnapshotFilesCacheStore_def exRow_def newSweepState_def)
qed

text \<open>A sweep never loses a cached listing of a repo whose secrets could not be vended or whose
  listing failed: every row it had when the sweep began is there, unaltered, when it ends, whatever
  the other repos' listings, the evictions their insertions trigger, the reconcile and the final
  eviction do.\<close>

theorem warmListCacheSweep_spares_failed:
  assumes "cacheOk s" "distinct (map rID repos)" "warmListCacheSweep e repos s = (st, s')"
    "r \<in> set (cacheRows s)" "crRepo r \<in> set (swFailed st)"
  shows "r \<in> set (cacheRows s')"
proof (cases "seWarmN e \<le> 0")
  case True
  then show ?thesis using assms by (simp add: warmListCacheSweep_def newSweepState_def)
next
  case False
  let ?acc = "\<lparr>acStore = sweepBegin (map rID repos) s, acState = newSweepState, acWarmed = 0, acCapped = False\<rparr>"
  obtain ab acc where w: "warmRepos e repos ?acc = (ab, acc)" by (cases "warmRepos e repos ?acc")
  have "sweepInv (cacheRows s) (acStore ?acc)"
    using assms(1) maxRowid_ge by (auto simp: sweepInv_def cacheOk_def sweepBegin_def)
  then have inv: "sweepInv (cacheRows s) (acStore acc)" "set (swFailed (acState acc)) \<subseteq> set (pendingRepos (acStore acc))"
    using warmRepos_inv [of "cacheRows s" ?acc repos e, unfolded w snd_conv, OF _ assms(2)]
    by (simp_all add: newSweepState_def sweepBegin_def)
  have st: "st = acState acc" using assms(3) False w by (auto simp: warmListCacheSweep_def Let_def split: if_splits)
  let ?s1 = "sweepEnd (acStore acc)"
  have ok: "cacheOk ?s1" using inv(1) by (simp add: sweepInv_def sweepEnd_def cacheOk_def)
  have "r \<in> set (cacheRows (acStore acc))" using inv assms(4,5) st by (auto simp: sweepInv_def)
  then have r1: "r \<in> set (cacheRows ?s1)" by (simp add: sweepEnd_def)
  then have "r \<in> set (cacheRows (evictBySize (swFailed st) (snd (reconcileAgainstKeep st ?s1))))"
    using assms(5) by (intro evict_exempt reconcile_ok reconcile_failed ok)
  with r1 show ?thesis using assms(3) False w st by (auto simp: warmListCacheSweep_def Let_def split: if_splits)
qed

definition exSweepEnv :: sweepEnv where
  "exSweepEnv = \<lparr>seVend = (\<lambda>r. rPath r \<noteq> ''/d''), seLive = (\<lambda>_ _. Some []), seRun = (\<lambda>_ _ _ _. RunFailed),
     seCancelled = (\<lambda>_ _. False), seNow = 0, seRowMax = 0, seWarmN = 2\<rparr>"

theorem warmListCacheSweep_spares_failed_witness:
  "let s = exCache\<lparr>cacheRows := [exRow 1 7\<lparr>crRepo := rID (exRepo ''/d'')\<rparr>]\<rparr>
   in exRow 1 7\<lparr>crRepo := rID (exRepo ''/d'')\<rparr> \<in> set (cacheRows (snd (warmListCacheSweep exSweepEnv [exRepo ''/d''] s)))"
proof -
  let ?s = "exCache\<lparr>cacheRows := [exRow 1 7\<lparr>crRepo := rID (exRepo ''/d'')\<rparr>]\<rparr>"
  have ok: "cacheOk ?s" by (simp add: cacheOk_def)
  obtain st s' where w: "warmListCacheSweep exSweepEnv [exRepo ''/d''] ?s = (st, s')"
    by (cases "warmListCacheSweep exSweepEnv [exRepo ''/d''] ?s")
  have "swFailed st = [rID (exRepo ''/d'')]"
    using w by (auto simp: warmListCacheSweep_def exSweepEnv_def exRepo_def newSweepState_def Let_def split: if_splits)
  then show ?thesis
    using warmListCacheSweep_spares_failed [OF ok _ w, of "exRow 1 7\<lparr>crRepo := rID (exRepo ''/d'')\<rparr>"] w by simp
qed

text \<open>Without a size cap the cache is a map from (snapshot id, revision, storage) to listings: after
  a put every later open of the key returns the bytes and the raw length that were put, other keys
  are unaffected, and a drop of the key makes it a miss.\<close>

theorem putGzipped_open:
  assumes "maxBytes s \<le> 0"
  shows "let s' = putGzipped now snap rv storage repoID gz rawB s
     in fst (cacheOpen t snap rv storage s') = Some (gz, rawB) \<and>
        fst (cacheOpen t snap rv storage (cacheDrop snap rv storage s')) = None \<and>
        (\<forall>k. k \<noteq> (snap, rv, storage) \<longrightarrow> cacheLook s' k = cacheLook s k)"
proof -
  let ?s' = "putGzipped now snap rv storage repoID gz rawB s"
  have l: "cacheLook ?s' = (cacheLook s)((snap, rv, storage) \<mapsto> (gz, rawB))" by (rule cacheLook_put [OF assms])
  have "maxBytes ?s' \<le> 0" using assms by (simp add: putGzipped_def Let_def)
  from listing.look_del [OF this, of "(snap, rv, storage)"] l show ?thesis
    by (simp add: Let_def cacheOpen_look)
qed

theorem putGzipped_open_witness:
  "fst (cacheOpen 5 ''a'' 1 ''default'' (putGzipped 4 ''a'' 1 ''default'' ''R'' ''gz'' 9 (newSnapshotFilesCacheStore 0 5 [] []))) = Some (''gz'', 9)"
proof -
  have "maxBytes (newSnapshotFilesCacheStore 0 5 [] []) \<le> 0" by (simp add: newSnapshotFilesCacheStore_def)
  from putGzipped_open [OF this, of 4 "''a''" 1 "''default''" "''R''" "''gz''" 9 5] show ?thesis by (simp add: Let_def)
qed

end
