(* ===== verification/ListStream.thy ===== *)
theory ListStream
  imports ListCache
begin

text \<open>
  Streaming of listings (snapshot_files_stream.go): the ring that keeps the end of the output, the
  spool that holds the gzipped listing in memory and then in a file, and the gate that bounds
  concurrent listings.
\<close>

section \<open>Output tail\<close>

definition listTailBytes :: nat where "listTailBytes = 65536"

text \<open>The array \<open>buf\<close> has its size as length.\<close>

record tailRing =
  trBuf :: string
  trPos :: nat
  trFull :: bool

definition newTailRing :: tailRing where
  "newTailRing = \<lparr>trBuf = replicate listTailBytes (CHR 0x00), trPos = 0, trFull = False\<rparr>"

text \<open>\<open>copy(buf[i:], p)\<close>\<close>

definition copyAt :: "nat \<Rightarrow> string \<Rightarrow> string \<Rightarrow> string" where
  "copyAt i p buf = (let n = min (length buf - i) (length p) in take i buf @ take n p @ drop (i + n) buf)"

definition tailWrite :: "tailRing \<Rightarrow> string \<Rightarrow> tailRing" where
  "tailWrite r p =
     (let N = length (trBuf r)
      in if p = [] then r
         else if length p \<ge> N then r\<lparr>trBuf := copyAt 0 (drop (length p - N) p) (trBuf r), trPos := 0, trFull := True\<rparr>
         else let n = min (N - trPos r) (length p);
                  r1 = r\<lparr>trBuf := copyAt (trPos r) p (trBuf r)\<rparr>;
                  r2 = (if n < length p then r1\<lparr>trBuf := copyAt 0 (drop n p) (trBuf r1), trFull := True\<rparr> else r1);
                  r3 = r2\<lparr>trPos := (trPos r2 + length p) mod N\<rparr>
              in if trPos r3 = 0 then r3\<lparr>trFull := True\<rparr> else r3)"

definition tailString :: "tailRing \<Rightarrow> string" where
  "tailString r =
     (if \<not> trFull r then take (trPos r) (trBuf r) else drop (trPos r) (trBuf r) @ take (trPos r) (trBuf r))"

definition lastN :: "string \<Rightarrow> nat \<Rightarrow> string" where
  "lastN s n = (if length s \<le> n then s else ''...'' @ drop (length s - n) s)"

section \<open>Spool\<close>

text \<open>\<open>spFile\<close> is the content written to the spill file, buffered bytes included.\<close>

record listSpool =
  spMemMax :: int
  spFileMax :: int
  spMem :: string
  spFile :: "string option"
  spN :: int

datatype spoolErr = ErrSpoolFailed | ErrSpoolCeiling

definition newListSpool :: "int \<Rightarrow> listSpool" where
  "newListSpool memMax = \<lparr>spMemMax = memMax, spFileMax = listSpoolFileMax, spMem = [], spFile = None, spN = 0\<rparr>"

text \<open>The faults are whether creating the file with the first bytes fails and whether this write to
  it fails.\<close>

definition spoolSpill :: "bool \<Rightarrow> listSpool \<Rightarrow> spoolErr + listSpool" where
  "spoolSpill createFault s =
     (if createFault then Inl ErrSpoolFailed else Inr (s\<lparr>spFile := Some (spMem s), spMem := []\<rparr>))"

definition spoolAppend :: "bool \<Rightarrow> string \<Rightarrow> listSpool \<Rightarrow> spoolErr option \<times> listSpool" where
  "spoolAppend writeFault p s =
     (if spN s + int (length p) > spFileMax s then (Some ErrSpoolCeiling, s)
      else if writeFault then (Some ErrSpoolFailed, s)
      else (None, s\<lparr>spFile := map_option (\<lambda>f. f @ p) (spFile s), spN := spN s + int (length p)\<rparr>))"

definition spoolWrite :: "bool \<Rightarrow> bool \<Rightarrow> string \<Rightarrow> listSpool \<Rightarrow> spoolErr option \<times> listSpool" where
  "spoolWrite createFault writeFault p s =
     (if spFile s = None
      then if int (length (spMem s)) + int (length p) \<le> spMemMax s
           then (None, s\<lparr>spN := spN s + int (length p), spMem := spMem s @ p\<rparr>)
           else (case spoolSpill createFault s of
                   Inl e \<Rightarrow> (Some e, s)
                 | Inr s1 \<Rightarrow> spoolAppend writeFault p s1)
      else spoolAppend writeFault p s)"

definition spoolBytes :: "listSpool \<Rightarrow> string" where
  "spoolBytes s = (case spFile s of None \<Rightarrow> spMem s | Some f \<Rightarrow> take (nat (spN s)) f)"

definition spoolClose :: "listSpool \<Rightarrow> listSpool" where
  "spoolClose s = s\<lparr>spFile := None, spMem := []\<rparr>"

definition listSpoolMemMaxDefault :: int where "listSpoolMemMaxDefault = 32 * 2 ^ 20"

definition listSpoolMemMax :: "int \<Rightarrow> int" where
  "listSpoolMemMax rowMax = (if rowMax > 0 \<and> rowMax < listSpoolMemMaxDefault then rowMax else listSpoolMemMaxDefault)"

section \<open>Gate\<close>

text \<open>The channel \<open>sem\<close> is its capacity and the number of elements in it. A release may run more
  than once and takes one element out the first time only (\<open>sync.Once\<close>): a ticket tells whether it
  was used.\<close>

record listGate =
  gSlots :: nat
  gHeld :: nat

definition newListGate :: "int \<Rightarrow> listGate" where
  "newListGate slots = \<lparr>gSlots = (if slots < 1 then 1 else nat slots), gHeld = 0\<rparr>"

text \<open>What ends the wait of a caller that found the gate full.\<close>

datatype gateWait = SlotFreed | CtxDone | WaitExpired

datatype gateResult = GateAcquired | GateCtxErr | GateQueueTimeout | GateStillWaiting

definition gateRelease :: "bool \<Rightarrow> listGate \<Rightarrow> bool \<times> listGate" where
  "gateRelease ticket g = (if ticket then (False, g\<lparr>gHeld := gHeld g - 1\<rparr>) else (ticket, g))"

definition gateAcquire :: "bool \<Rightarrow> gateWait \<Rightarrow> listGate \<Rightarrow> gateResult \<times> listGate" where
  "gateAcquire bounded w g =
     (if gHeld g < gSlots g then (GateAcquired, g\<lparr>gHeld := Suc (gHeld g)\<rparr>)
      else case w of
             SlotFreed \<Rightarrow> (let g1 = snd (gateRelease True g) in (GateAcquired, g1\<lparr>gHeld := Suc (gHeld g1)\<rparr>))
           | CtxDone \<Rightarrow> (GateCtxErr, g)
           | WaitExpired \<Rightarrow> (if bounded then GateQueueTimeout else GateStillWaiting, g))"

section \<open>Facts\<close>

definition tailInv :: "nat \<Rightarrow> tailRing \<Rightarrow> bool" where
  "tailInv N r \<longleftrightarrow> length (trBuf r) = N \<and> trPos r < N"

lemma length_copyAt [simp]: "i \<le> length buf \<Longrightarrow> length (copyAt i p buf) = length buf"
  by (simp add: copyAt_def Let_def)

lemma tailInv_write: "tailInv N r \<Longrightarrow> tailInv N (tailWrite r p)"
  by (auto simp: tailInv_def tailWrite_def Let_def)

lemma tailWrite_long:
  "tailInv N r \<Longrightarrow> N \<le> length p \<Longrightarrow> tailString (tailWrite r p) = take_last N (tailString r @ p)"
  by (auto simp: tailInv_def tailWrite_def Let_def tailString_def copyAt_def take_last_append_long take_last_def)

lemma tailWrite_fits:
  assumes inv: "tailInv N r" and p: "p \<noteq> []" "length p < N" "length p \<le> N - trPos r"
  shows "tailString (tailWrite r p) = take_last N (tailString r @ p)"
proof -
  let ?b = "trBuf r" and ?i = "trPos r" and ?l = "length p"
  have c: "copyAt ?i p ?b = take ?i ?b @ p @ drop (?i + ?l) ?b"
    using p inv by (simp add: copyAt_def tailInv_def min_def Let_def)
  show ?thesis
  proof (cases "?i + ?l = N")
    case True
    then have "tailString (tailWrite r p) = take ?i ?b @ p"
      using inv p c by (auto simp: tailInv_def tailWrite_def tailString_def Let_def min_def)
    with True inv show ?thesis
      by (auto simp: tailInv_def tailString_def take_last_def min_def)
  next
    case False
    with p inv have lt: "?i + ?l < N" by (auto simp: tailInv_def)
    then have "tailString (tailWrite r p) = (if trFull r then drop (?i + ?l) ?b @ take ?i ?b @ p else take ?i ?b @ p)"
      using inv p c by (auto simp: tailInv_def tailWrite_def tailString_def Let_def min_def)
    with lt inv show ?thesis
      by (auto simp: tailInv_def tailString_def take_last_def min_def add.commute)
  qed
qed

lemma tailWrite_wraps:
  assumes inv: "tailInv N r" and p: "length p < N" "length p > N - trPos r"
  shows "tailString (tailWrite r p) = take_last N (tailString r @ p)"
proof -
  let ?b = "trBuf r" and ?i = "trPos r" and ?l = "length p"
  let ?n = "N - ?i" and ?m = "?i + ?l - N"
  have i: "?i < N" "length ?b = N" using inv by (auto simp: tailInv_def)
  have m: "(?i + ?l) mod N = ?m" "?m < ?i" "?l - ?n = ?m" "\<not> ?i + ?l \<le> N" using p i by (auto simp: mod_if)
  have c1: "copyAt ?i p ?b = take ?i ?b @ take ?n p" using p i by (simp add: copyAt_def min_def Let_def)
  have c2: "copyAt 0 (drop ?n p) (take ?i ?b @ take ?n p) = drop ?n p @ drop ?m (take ?i ?b @ take ?n p)"
    using p i m by (simp add: copyAt_def min_def Let_def)
  have "p \<noteq> []" using p by auto
  then have "tailString (tailWrite r p) = drop ?m (take ?i ?b) @ p"
    using i p m c1 c2 by (simp add: tailWrite_def tailString_def Let_def min_def)
  then show ?thesis using i p m by (auto simp: tailString_def take_last_def min_def drop_take)
qed

lemma tailString_write:
  assumes "tailInv N r"
  shows "tailString (tailWrite r p) = take_last N (tailString r @ p)"
proof (cases "p = []")
  case True
  have "length (tailString r) \<le> N" using assms by (auto simp: tailString_def tailInv_def)
  with True show ?thesis by (simp add: tailWrite_def)
next
  case False
  then show ?thesis
    using tailWrite_long [OF assms] tailWrite_fits [OF assms] tailWrite_wraps [OF assms] by (meson not_le)
qed

interpretation outTail: tail_buffer listTailBytes tailString tailWrite "tailInv listTailBytes"
  by unfold_locales (simp_all add: tailString_write tailInv_write)

definition spoolOk :: "listSpool \<Rightarrow> bool" where
  "spoolOk s \<longleftrightarrow>
     spN s = int (length (case spFile s of None \<Rightarrow> spMem s | Some f \<Rightarrow> f)) \<and>
     (spFile s \<noteq> None \<longrightarrow> spMem s = []) \<and>
     int (length (spMem s)) \<le> max 0 (spMemMax s) \<and> spN s \<le> max (max 0 (spMemMax s)) (spFileMax s)"

lemma spoolWrite_ok:
  assumes "spoolOk s" "spoolWrite cf wfault p s = (e, s')"
  shows "spoolOk s' \<and> spoolBytes s' = (if e = None then spoolBytes s @ p else spoolBytes s)"
  using assms
  by (auto simp: spoolWrite_def spoolAppend_def spoolSpill_def spoolOk_def spoolBytes_def split: if_splits option.splits)

text \<open>Sequences of acquisitions and releases never exceed the slots.\<close>

inductive gateStep :: "listGate \<Rightarrow> listGate \<Rightarrow> bool" where
  acq: "gateStep g (snd (gateAcquire b w g))"
| rel: "gHeld g > 0 \<Longrightarrow> gateStep g (snd (gateRelease t g))"

lemma gateStep_bound: "gateStep g g' \<Longrightarrow> 0 < gSlots g \<and> gHeld g \<le> gSlots g \<Longrightarrow> gHeld g' \<le> gSlots g' \<and> gSlots g' = gSlots g"
  by (induction rule: gateStep.induct) (auto simp: gateAcquire_def gateRelease_def Let_def split: gateWait.splits)

lemma gateSteps_bound: "gateStep\<^sup>*\<^sup>* g g' \<Longrightarrow> 0 < gSlots g \<and> gHeld g \<le> gSlots g \<Longrightarrow> gHeld g' \<le> gSlots g' \<and> gSlots g' = gSlots g"
  by (induction rule: rtranclp_induct) (auto dest: gateStep_bound)

section \<open>Properties\<close>

text \<open>Whatever chunks the process wrote, the error tail is the last 64 KiB of the output, in
  order: the ring with its wrap-around and its three write cases is a bounded tail buffer.\<close>

theorem tailRing_last_bytes:
  "tailString (foldl tailWrite newTailRing chunks) = take_last listTailBytes (concat chunks)"
proof -
  have "tailInv listTailBytes newTailRing" "tailString newTailRing = []"
    by (simp_all add: tailInv_def newTailRing_def listTailBytes_def tailString_def)
  then show ?thesis using outTail.view_pushes [of newTailRing chunks] by simp
qed

text \<open>The spool is an append-only byte log across the spill from memory to the file: a successful
  write appends exactly its bytes, a failed one changes no byte of the content, at most \<open>memMax\<close> bytes
  stay in memory, and the byte counter is the length of the content.\<close>

theorem spoolWrite_appends:
  assumes "spoolOk s" "spoolWrite createFault writeFault p s = (e, s')"
  shows "spoolOk s' \<and> spoolBytes s' = (if e = None then spoolBytes s @ p else spoolBytes s) \<and>
     spN s' = int (length (spoolBytes s')) \<and> int (length (spMem s')) \<le> max 0 (spMemMax s')"
proof -
  have w: "spoolOk s' \<and> spoolBytes s' = (if e = None then spoolBytes s @ p else spoolBytes s)"
    by (rule spoolWrite_ok [OF assms])
  then have "spN s' = int (length (spoolBytes s'))" by (auto simp: spoolOk_def spoolBytes_def split: option.splits)
  with w show ?thesis by (auto simp: spoolOk_def)
qed

theorem spoolWrite_appends_witness:
  "\<exists>s'. spoolWrite False False ''xyz'' (newListSpool 2) = (None, s') \<and> spoolBytes s' = ''xyz'' \<and> spFile s' = Some ''xyz''"
proof -
  have ok: "spoolOk (newListSpool 2)" by (simp add: spoolOk_def newListSpool_def)
  obtain s' where w: "spoolWrite False False ''xyz'' (newListSpool 2) = (None, s')" "spFile s' = Some ''xyz''"
    by (simp add: spoolWrite_def newListSpool_def spoolSpill_def spoolAppend_def listSpoolFileMax_def)
  from spoolWrite_appends [OF ok w(1)] have "spoolBytes s' = ''xyz''" by (simp add: newListSpool_def spoolBytes_def)
  with w show ?thesis by auto
qed

text \<open>The listing gate never admits more than its slots, whatever the order of acquisitions,
  waits, timeouts and releases.\<close>

theorem listGate_bounded:
  assumes "gateStep\<^sup>*\<^sup>* (newListGate slots) g"
  shows "gHeld g \<le> gSlots g \<and> int (gSlots g) = max 1 slots"
  using gateSteps_bound [OF assms] by (auto simp: newListGate_def)

theorem listGate_bounded_witness:
  "gHeld (snd (gateAcquire True WaitExpired (snd (gateAcquire True CtxDone (newListGate 1))))) \<le> 1"
proof -
  have "gateStep\<^sup>*\<^sup>* (newListGate 1) (snd (gateAcquire True WaitExpired (snd (gateAcquire True CtxDone (newListGate 1)))))"
    by (rule rtranclp.rtrancl_into_rtrancl [OF rtranclp.rtrancl_into_rtrancl [OF rtranclp.rtrancl_refl]]) (rule gateStep.acq)+
  from listGate_bounded [OF this] show ?thesis by simp
qed

end
