(* ===== verification/CheckTabular.thy ===== *)
theory CheckTabular
  imports Regex
begin

text \<open>
  The parser of the table that \<open>duplicacy check -tabular\<close> prints (check_tabular.go).
  \<open>strconv.ParseFloat\<close> is modelled on decimal notation, with rational results; the conversion of a
  product to \<open>int64\<close> truncates.
\<close>

section \<open>Package strconv: decimal numbers\<close>

definition isSign :: "char \<Rightarrow> bool" where "isSign c \<longleftrightarrow> c = CHR ''+'' \<or> c = CHR ''-''"

text \<open>Digits with at most one point; at least one digit.\<close>

definition parseDecimal :: "string \<Rightarrow> rat option" where
  "parseDecimal s =
     (let a = takeWhile isDigit s; r = dropWhile isDigit s;
          b = (case r of [] \<Rightarrow> [] | c # t \<Rightarrow> t)
      in if (r \<noteq> [] \<and> hd r \<noteq> CHR ''.'') \<or> \<not> list_all isDigit b \<or> a @ b = [] then None
         else Some (of_nat (digitsVal (a @ b)) / 10 ^ length b))"

definition parseExponent :: "string \<Rightarrow> int option" where
  "parseExponent s =
     (let d = (if s \<noteq> [] \<and> isSign (hd s) then tl s else s)
      in if d = [] \<or> \<not> list_all isDigit d then None
         else Some (if prefix ''-'' s then - int (digitsVal d) else int (digitsVal d)))"

definition scale10 :: "rat \<Rightarrow> int \<Rightarrow> rat" where
  "scale10 m e = (if e < 0 then m / 10 ^ nat (- e) else m * 10 ^ nat e)"

definition parseFloat :: "string \<Rightarrow> rat option" where
  "parseFloat s =
     (let body = (if s \<noteq> [] \<and> isSign (hd s) then tl s else s);
          isE = (\<lambda>c. c = CHR ''e'' \<or> c = CHR ''E'');
          m = takeWhile (\<lambda>c. \<not> isE c) body; r = dropWhile (\<lambda>c. \<not> isE c) body;
          v = (case parseDecimal m of
                 None \<Rightarrow> None
               | Some q \<Rightarrow> (if r = [] then Some q else map_option (scale10 q) (parseExponent (tl r))))
      in map_option (\<lambda>q. if prefix ''-'' s then - q else q) v)"

definition truncRat :: "rat \<Rightarrow> int" where
  "truncRat q = (if q < 0 then \<lceil>q\<rceil> else \<lfloor>q\<rfloor>)"

section \<open>The table\<close>

record snapshotStatRow =
  ssSnapshotID :: string
  ssRevision :: int
  ssFiles :: int
  ssBytes :: int
  ssBytesPretty :: string
  ssTotalChunks :: int
  ssTotalBytes :: int
  ssTotalBytesPretty :: string
  ssUniqChunks :: int
  ssUniqBytes :: int
  ssUniqBytesPretty :: string
  ssNewChunks :: int
  ssNewBytes :: int
  ssNewBytesPretty :: string

definition pipeChar :: char where "pipeChar = CHR ''|''"

definition checkTabularHeaderRe :: "rePiece list" where
  "checkTabularHeaderRe =
     [WordBoundary, Lit ''snap'', space0, Lit [pipeChar], space0, Lit ''rev'', space0, Lit [pipeChar],
      Rep True 0 None reDot, WordBoundary, Lit ''files'', space0, Lit [pipeChar], space0, Lit ''bytes'', space0, Lit [pipeChar]]"

definition splitTabularRow :: "string \<Rightarrow> string list" where
  "splitTabularRow line =
     (let out = map trimSpace (splitChar pipeChar line)
      in if out \<noteq> [] \<and> last out = [] then butlast out else out)"

definition parseIntCell :: "string \<Rightarrow> int" where
  "parseIntCell s = fst (atoi (trimSpace s))"

definition suffixMult :: "char \<Rightarrow> int option" where
  "suffixMult c =
     (if c = CHR ''K'' \<or> c = CHR ''k'' then Some (2 ^ 10)
      else if c = CHR ''M'' \<or> c = CHR ''m'' then Some (2 ^ 20)
      else if c = CHR ''G'' \<or> c = CHR ''g'' then Some (2 ^ 30)
      else if c = CHR ''T'' \<or> c = CHR ''t'' then Some (2 ^ 40)
      else if c = CHR ''P'' \<or> c = CHR ''p'' then Some (2 ^ 50)
      else None)"

definition parsePrettyBytes :: "string \<Rightarrow> int" where
  "parsePrettyBytes s0 =
     (let s1 = trimSpace s0
      in if s1 = [] \<or> s1 = ''-'' then 0
         else let s2 = filter (\<lambda>c. c \<noteq> CHR '','') s1;
                  (mult, s3) = (if s2 = [] then (1, s2)
                                else case suffixMult (last s2) of None \<Rightarrow> (1, s2) | Some m \<Rightarrow> (m, butlast s2))
              in case parseFloat s3 of Some v \<Rightarrow> truncRat (v * of_int mult) | None \<Rightarrow> 0)"

text \<open>\<open>feed\<close>: the parser state is whether the header was seen.\<close>

definition rowOfCells :: "string list \<Rightarrow> int \<Rightarrow> snapshotStatRow" where
  "rowOfCells cells rv =
     \<lparr>ssSnapshotID = cells ! 0, ssRevision = rv, ssFiles = parseIntCell (cells ! 3),
      ssBytes = parsePrettyBytes (cells ! 4), ssBytesPretty = cells ! 4,
      ssTotalChunks = parseIntCell (cells ! 5), ssTotalBytes = parsePrettyBytes (cells ! 6), ssTotalBytesPretty = cells ! 6,
      ssUniqChunks = parseIntCell (cells ! 7), ssUniqBytes = parsePrettyBytes (cells ! 8), ssUniqBytesPretty = cells ! 8,
      ssNewChunks = parseIntCell (cells ! 9), ssNewBytes = parsePrettyBytes (cells ! 10), ssNewBytesPretty = cells ! 10\<rparr>"

definition feed :: "bool \<Rightarrow> string \<Rightarrow> bool \<times> snapshotStatRow option" where
  "feed inTable line =
     (if matchString False checkTabularHeaderRe line then (True, None)
      else if \<not> inTable then (inTable, None)
      else if \<not> strContains line [pipeChar] then (False, None)
      else let cells = splitTabularRow line
           in if length cells \<noteq> 11 then (inTable, None)
              else if cells ! 1 = ''all'' \<or> cells ! 1 = [] then (inTable, None)
              else case atoi (cells ! 1) of
                     (rv, False) \<Rightarrow> (inTable, None)
                   | (rv, True) \<Rightarrow> (inTable, Some (rowOfCells cells rv)))"

section \<open>Facts\<close>

text \<open>A cell as the table writer prints it: blanks, the text, blanks.\<close>

definition trimmed :: "string \<Rightarrow> bool" where
  "trimmed s \<longleftrightarrow> s = [] \<or> (\<not> isSpace (hd s) \<and> \<not> isSpace (last s))"

lemma trimSpace_pad:
  assumes "list_all isSpace a" "trimmed w" "list_all isSpace b"
  shows "trimSpace (a @ w @ b) = w"
proof -
  have d1: "dropWhile isSpace (x @ y) = dropWhile isSpace y" if "list_all isSpace x" for x y :: string
    using that by (induction x) auto
  have d2: "dropWhile isSpace (y @ x) = y @ x" if "y \<noteq> []" "\<not> isSpace (hd y)" for x y :: string
    using that by (cases y) auto
  have b: "dropWhile isSpace (rev b) = []" "dropWhile isSpace b = []" using assms(3) by (auto simp: list_all_iff)
  show ?thesis
  proof (cases "w = []")
    case True
    have "dropWhile isSpace (a @ b) = []" using assms by (auto simp: list_all_iff)
    with True show ?thesis by (simp add: trimSpace_def trimLeftFunc_def trimRightFunc_def del: dropWhile_eq_Nil_conv)
  next
    case False
    then have l: "dropWhile isSpace (a @ w @ b) = w @ b"
      using assms(1,2) by (simp add: d1 trimmed_def d2)
    have r: "dropWhile isSpace (rev b @ rev w) = rev w"
      using d1 [of "rev b" "rev w"] d2 [of "rev w" "[]"] assms(2,3) False
      by (simp add: trimmed_def list_all_iff hd_rev)
    show ?thesis using l r by (simp add: trimSpace_def trimLeftFunc_def trimRightFunc_def)
  qed
qed

definition padded :: "(string \<times> string \<times> string) \<Rightarrow> string" where
  "padded = (\<lambda>(a, w, b). a @ w @ b)"

definition padOk :: "(string \<times> string \<times> string) \<Rightarrow> bool" where
  "padOk = (\<lambda>(a, w, b). list_all isSpace a \<and> trimmed w \<and> list_all isSpace b \<and> pipeChar \<notin> set w)"

lemma trimSpace_padded: "padOk c \<Longrightarrow> trimSpace (padded c) = fst (snd c)"
  by (auto simp: padOk_def padded_def trimSpace_pad)

lemma pipe_padded: "padOk c \<Longrightarrow> pipeChar \<notin> set (padded c)"
proof -
  have "\<not> isSpace pipeChar" by (simp add: isSpace_def pipeChar_def)
  then show "padOk c \<Longrightarrow> pipeChar \<notin> set (padded c)" by (auto simp: padOk_def padded_def list_all_iff)
qed

lemma splitTabularRow_padded:
  assumes "cs \<noteq> []" "\<forall>c\<in>set cs. padOk c"
  shows "splitTabularRow (joinChar pipeChar (map padded cs) @ [pipeChar]) = map (\<lambda>c. fst (snd c)) cs"
proof -
  have "splitChar pipeChar (joinChar pipeChar (map padded cs)) = map padded cs"
    using assms by (intro splitChar_joinChar) (auto dest: pipe_padded)
  moreover have "splitChar c (x @ [c]) = splitChar c x @ [[]]" for c :: char and x
    by (induction x) (auto split: list.splits)
  ultimately have "splitChar pipeChar (joinChar pipeChar (map padded cs) @ [pipeChar]) = map padded cs @ [[]]" by simp
  moreover have "trimSpace [] = []" by (simp add: trimSpace_def trimLeftFunc_def trimRightFunc_def)
  ultimately show ?thesis using assms(2) by (simp add: splitTabularRow_def Let_def trimSpace_padded)
qed

section \<open>Properties\<close>

text \<open>A per-revision row of the table is read back exactly, however its cells are padded: inside the
  table, eleven cells with an integer revision give one row with the cells' texts and the numbers they
  denote, and the parser stays in the table.\<close>

theorem feed_row:
  assumes "length cs = 11" "\<forall>c\<in>set cs. padOk c" "fst (snd (cs ! 1)) = itoa n" "minInt64 \<le> n" "n \<le> maxInt64"
    "\<not> matchString False checkTabularHeaderRe (joinChar pipeChar (map padded cs) @ [pipeChar])"
  shows "feed True (joinChar pipeChar (map padded cs) @ [pipeChar]) =
     (True, Some (rowOfCells (map (\<lambda>c. fst (snd c)) cs) n))"
proof -
  let ?l = "joinChar pipeChar (map padded cs) @ [pipeChar]"
  have ne: "cs \<noteq> []" using assms(1) by auto
  have "strContains ?l [pipeChar]" by (auto simp: strContains_iff)
  moreover have "splitTabularRow ?l = map (\<lambda>c. fst (snd c)) cs" by (rule splitTabularRow_padded [OF ne assms(2)])
  moreover have "itoa n \<noteq> ''all''"
  proof
    assume eq: "itoa n = ''all''"
    have "atoi ''all'' = (0, False)" by code_simp
    with eq atoi_itoa [OF assms(4,5)] show False by simp
  qed
  moreover have "itoa n \<noteq> []" by (simp add: itoa_def)
  ultimately show ?thesis using assms atoi_itoa [OF assms(4,5)] by (simp add: feed_def Let_def)
qed

theorem feed_row_witness:
  "\<exists>row. feed True '' home | 12 | @ 2026-05-01 02:00 | 3 | 1.5K | 7 | 2M | 1 | 10 | 0 | 0 |'' = (True, Some row) \<and>
     ssRevision row = 12 \<and> ssBytes row = 1536"
proof -
  let ?c = "\<lambda>w. ('' '', w, '' '')"
  let ?cs = "map ?c [''home'', ''12'', ''@ 2026-05-01 02:00'', ''3'', ''1.5K'', ''7'', ''2M'', ''1'', ''10'', ''0'', ''0'']"
  let ?l = "joinChar pipeChar (map padded ?cs) @ [pipeChar]"
  have l: "?l = '' home | 12 | @ 2026-05-01 02:00 | 3 | 1.5K | 7 | 2M | 1 | 10 | 0 | 0 |''" by code_simp
  have h: "\<not> matchString False checkTabularHeaderRe ?l" unfolding l by code_simp
  have i: "fst (snd (?cs ! 1)) = itoa 12" by code_simp
  have p: "\<forall>c\<in>set ?cs. padOk c" by code_simp
  have b: "parsePrettyBytes ''1.5K'' = 1536" by code_simp
  have "feed True ?l = (True, Some (rowOfCells (map (\<lambda>c. fst (snd c)) ?cs) 12))"
    by (rule feed_row [OF _ p i _ _ h]) (simp_all add: minInt64_def maxInt64_def)
  then show ?thesis unfolding l by (simp add: rowOfCells_def b)
qed

end
