(* ===== verification/JobParse.thy ===== *)
theory JobParse
  imports JobTypes CheckTabular
begin

text \<open>
  The \<open>Job\<close> record of jobs.go, its line ring and subscribers, and the parsers that turn the
  CLI's output lines into structured progress. A subscriber channel is the list of the lines buffered
  in it. \<open>now\<close> is the clock.
\<close>

section \<open>Job\<close>

record Job = jobPublic +
  jRing :: "string list"
  jSubscribers :: "(nat \<times> string list) list"
  jTabular :: "bool option"
  jTabularRows :: "snapshotStatRow list"

definition takeTabularRows :: "Job \<Rightarrow> snapshotStatRow list \<times> Job" where
  "takeTabularRows j = (jTabularRows j, j\<lparr>jTabularRows := [], jTabular := None\<rparr>)"

text \<open>Sending to a full channel drops its oldest line first.\<close>

definition sendLine :: "string \<Rightarrow> string list \<Rightarrow> string list" where
  "sendLine line c = (if length c < subscriberBuffer then c @ [line] else tl c @ [line])"

definition appendLine :: "string \<Rightarrow> Job \<Rightarrow> Job" where
  "appendLine line j =
     (let ring = jRing j @ [line];
          ring' = (if length ring > ringBufferSize then drop (length ring - ringBufferSize) ring else ring)
      in j\<lparr>jRing := ring', jLineCount := jLineCount j + 1,
           jSubscribers := map (\<lambda>(i, c). (i, sendLine line c)) (jSubscribers j)\<rparr>)"

definition subscribe :: "nat \<Rightarrow> Job \<Rightarrow> string list \<times> Job" where
  "subscribe ch j = (jRing j, j\<lparr>jSubscribers := (ch, []) # jSubscribers j\<rparr>)"

definition unsubscribe :: "nat \<Rightarrow> Job \<Rightarrow> Job" where
  "unsubscribe ch j = j\<lparr>jSubscribers := filter (\<lambda>(i, _). i \<noteq> ch) (jSubscribers j)\<rparr>"

section \<open>Expressions\<close>

definition pctClass :: "char \<Rightarrow> bool" where "pctClass c \<longleftrightarrow> reDigit c \<or> c = CHR ''.''"

definition pctTail :: "rePiece list" where
  "pctTail = [Lit '' '', GroupOpen, Rep True 1 None pctClass, GroupClose, Lit ''%'', EndOfText]"

definition progressLineRe :: "rePiece list" where
  "progressLineRe =
     [GroupOpen, AltLit [''Uploaded'', ''Downloaded''], GroupClose, Lit '' chunk '', GroupOpen, digits1, GroupClose,
      Lit '' size '', GroupOpen, digits1, GroupClose, Lit '', '', GroupOpen, nonSpace1, GroupClose, Lit '' '',
      GroupOpen, lazyDot1, GroupClose] @ pctTail"

definition copyProgressLineRe :: "rePiece list" where
  "copyProgressLineRe =
     [Lit ''Copied chunk '', GroupOpen, nonSpace1, GroupClose, Lit '' ('', GroupOpen, digits1, GroupClose, Lit ''/'',
      GroupOpen, digits1, GroupClose, Lit '') '', GroupOpen, nonSpace1, GroupClose, Lit '' '',
      GroupOpen, lazyDot1, GroupClose] @ pctTail"

definition checkRevisionsTotalRe :: "rePiece list" where
  "checkRevisionsTotalRe =
     [OptGroup [Lit ''INFO SNAPSHOT_CHECK ''], digits1, Lit '' snapshots and '', GroupOpen, digits1, GroupClose,
      Lit '' revisions'', EndOfText]"

definition checkRevisionDoneRe :: "rePiece list" where
  "checkRevisionDoneRe =
     [OptGroup [Lit ''INFO SNAPSHOT_CHECK ''], Lit ''All chunks referenced by snapshot '', nonSpace1,
      Lit '' at revision '', digits1, Lit '' exist'', EndOfText]"

definition checkPoolSizeRe :: "rePiece list" where
  "checkPoolSizeRe =
     [OptGroup [Lit ''INFO SNAPSHOT_CHECK ''], Lit ''Total chunk size is '', GroupOpen, nonSpace1, GroupClose,
      Lit '' in '', GroupOpen, digits1, GroupClose, Lit '' chunks'', EndOfText]"

definition pruneSnapshotRemovedRe :: "rePiece list" where
  "pruneSnapshotRemovedRe =
     [OptGroup [Lit ''INFO SNAPSHOT_DELETE ''], Lit ''The snapshot '', nonSpace1, Lit '' at revision '', digits1,
      Lit '' has been removed'', EndOfText]"

definition pruneChunkDeletedRe :: "rePiece list" where
  "pruneChunkDeletedRe =
     [OptGroup [Lit ''INFO CHUNK_DELETE ''], Lit ''The chunk '', nonSpace1, Lit '' has been permanently removed'', EndOfText]"

definition pruneFossilCollectedRe :: "rePiece list" where
  "pruneFossilCollectedRe =
     [OptGroup [Lit ''INFO FOSSIL_COLLECT ''], Lit ''Fossil collection '', digits1, Lit '' saved'', EndOfText]"

definition pruneWillDeleteSnapshotRe :: "rePiece list" where
  "pruneWillDeleteSnapshotRe =
     [OptGroup [Lit ''INFO SNAPSHOT_DELETE ''], Lit ''Deleting snapshot '', GroupOpen, nonSpace1, GroupClose,
      Lit '' at revision '', GroupOpen, digits1, GroupClose, EndOfText]"

definition pruneUnreferencedChunkRe :: "rePiece list" where
  "pruneUnreferencedChunkRe =
     [OptGroup [Lit ''INFO CHUNK_UNREFERENCED ''], Lit ''Found unreferenced chunk '', nonSpace1, EndOfText]"

definition statsAllChunksRe :: "rePiece list" where
  "statsAllChunksRe =
     [Lit ''All chunks: '', GroupOpen, digits1, GroupClose, Lit '' total, '', lazyDot1, Lit '' bytes; '',
      GroupOpen, digits1, GroupClose, Lit '' new, '', lazyDot1, Lit '' bytes, '', GroupOpen, nonSpace1, GroupClose,
      Lit '' bytes uploaded'']"

definition statsRunTimeRe :: "rePiece list" where
  "statsRunTimeRe = [Lit ''Total running time: '', GroupOpen, nonSpace1, GroupClose]"

definition errorLineRe :: "rePiece list" where
  "errorLineRe =
     [Lit ''ERROR '', GroupOpen, nonSpace1, GroupClose, Lit '' '', GroupOpen, Rep True 1 None reDot, GroupClose, EndOfText]"

section \<open>Parsers\<close>

text \<open>\<open>withProgress f now j\<close>: allocate \<open>Progress\<close> when it is nil, update it, stamp it.\<close>

definition withProgress :: "(JobProgress \<Rightarrow> JobProgress) \<Rightarrow> int \<Rightarrow> Job \<Rightarrow> Job" where
  "withProgress f now j =
     (let p = (case jProgress j of None \<Rightarrow> emptyProgress | Some p \<Rightarrow> p)
      in j\<lparr>jProgress := Some ((f p)\<lparr>UpdatedAt := Some now\<rparr>)\<rparr>)"

definition applyProgress :: "int \<Rightarrow> string \<Rightarrow> string \<Rightarrow> string \<Rightarrow> string \<Rightarrow> string \<Rightarrow> Job \<Rightarrow> bool \<times> Job" where
  "applyProgress now speed eta pctStr idxStr totalStr j =
     (case parseFloat pctStr of
        None \<Rightarrow> (False, j)
      | Some pct0 \<Rightarrow>
          let pct = (if pct0 > 100 then 100 else pct0)
          in (True, withProgress (\<lambda>p.
                let p1 = p\<lparr>Percent := pct, Speed := speed, ETA := eta, LastChunk := fst (atoi idxStr)\<rparr>
                in if totalStr \<noteq> [] \<and> snd (atoi totalStr) then p1\<lparr>TotalChunks := fst (atoi totalStr)\<rparr> else p1) now j))"

definition parseProgressLine :: "int \<Rightarrow> string \<Rightarrow> Job \<Rightarrow> bool \<times> Job" where
  "parseProgressLine now line j =
     (case findSubmatch True progressLineRe line of
        Some [m1, m2, m3, m4, m5, m6] \<Rightarrow> applyProgress now m4 m5 m6 m2 [] j
      | _ \<Rightarrow>
          (case findSubmatch True copyProgressLineRe line of
             Some [m1, m2, m3, m4, m5, m6] \<Rightarrow> applyProgress now m4 m5 m6 m2 m3 j
           | _ \<Rightarrow> (False, j)))"

definition checkTotalUpdate :: "int \<Rightarrow> JobProgress \<Rightarrow> JobProgress" where
  "checkTotalUpdate tot p =
     (let p1 = p\<lparr>CheckRevisionsTotal := tot\<rparr>
      in if tot > 0 then p1\<lparr>Percent := of_int (CheckRevisionsVerified p1) / of_int tot * 100\<rparr> else p1)"

definition checkDoneUpdate :: "JobProgress \<Rightarrow> JobProgress" where
  "checkDoneUpdate p =
     (let p1 = p\<lparr>CheckRevisionsVerified := CheckRevisionsVerified p + 1\<rparr>
      in if CheckRevisionsTotal p1 > 0
         then let pct = of_int (CheckRevisionsVerified p1) / of_int (CheckRevisionsTotal p1) * 100
              in p1\<lparr>Percent := (if pct > 100 then 100 else pct)\<rparr>
         else p1)"

definition parseCheckLine :: "int \<Rightarrow> string \<Rightarrow> Job \<Rightarrow> bool \<times> Job" where
  "parseCheckLine now line j =
     (case findSubmatch True checkRevisionsTotalRe line of
        Some [m1] \<Rightarrow>
          (case atoi m1 of
             (tot, False) \<Rightarrow> (False, j)
           | (tot, True) \<Rightarrow> (True, withProgress (checkTotalUpdate tot) now j))
      | _ \<Rightarrow>
          if matchString True checkRevisionDoneRe line then (True, withProgress checkDoneUpdate now j)
          else case findSubmatch True checkPoolSizeRe line of
                 Some [m1, m2] \<Rightarrow>
                   (True, withProgress (\<lambda>p. p\<lparr>CheckPoolBytesPretty := m1, CheckPoolBytes := parsePrettyBytes m1,
                            CheckPoolChunks := fst (atoi m2)\<rparr>) now j)
               | _ \<Rightarrow> (False, j))"

definition prunePreviewRevisionCap :: nat where "prunePreviewRevisionCap = 500"

definition parsePruneLine :: "int \<Rightarrow> string \<Rightarrow> Job \<Rightarrow> bool \<times> Job" where
  "parsePruneLine now line j =
     (case findSubmatch True pruneWillDeleteSnapshotRe line of
        Some [m1, m2] \<Rightarrow>
          (True, withProgress (\<lambda>p. if length (PrunePreviewRevisions p) < prunePreviewRevisionCap
              then p\<lparr>PrunePreviewRevisions := PrunePreviewRevisions p @ [m1 @ ''@'' @ m2]\<rparr> else p) now j)
      | _ \<Rightarrow>
          if matchString True pruneUnreferencedChunkRe line
          then (True, withProgress (\<lambda>p. p\<lparr>PrunePreviewChunks := PrunePreviewChunks p + 1\<rparr>) now j)
          else if matchString True pruneSnapshotRemovedRe line
          then (True, withProgress (\<lambda>p. p\<lparr>PruneSnapshotsRemoved := PruneSnapshotsRemoved p + 1\<rparr>) now j)
          else if matchString True pruneChunkDeletedRe line
          then (True, withProgress (\<lambda>p. p\<lparr>PruneChunksDeleted := PruneChunksDeleted p + 1\<rparr>) now j)
          else if matchString True pruneFossilCollectedRe line
          then (True, withProgress (\<lambda>p. p\<lparr>PruneFossilsProcessed := PruneFossilsProcessed p + 1\<rparr>) now j)
          else (False, j))"

definition parseStatsLine :: "int \<Rightarrow> string \<Rightarrow> Job \<Rightarrow> bool \<times> Job" where
  "parseStatsLine now line j =
     (case findSubmatch False statsAllChunksRe line of
        Some [m1, m2, m3] \<Rightarrow>
          (True, withProgress (\<lambda>p. p\<lparr>TotalChunks := fst (atoi m1), NewChunks := fst (atoi m2), BytesUploaded := m3\<rparr>) now j)
      | _ \<Rightarrow>
          (case findSubmatch False statsRunTimeRe line of
             Some [m1] \<Rightarrow> (True, withProgress (\<lambda>p. p\<lparr>Duration := m1\<rparr>) now j)
           | _ \<Rightarrow> (False, j)))"

definition parseErrorLine :: "string \<Rightarrow> Job \<Rightarrow> Job" where
  "parseErrorLine line j =
     (case findSubmatch True errorLineRe line of
        Some [m1, m2] \<Rightarrow> j\<lparr>jErrorMsg := m1 @ '': '' @ m2\<rparr>
      | _ \<Rightarrow> j)"

section \<open>Tailing\<close>

text \<open>One line of \<open>tail\<close>. The Boolean tells whether the progress hooks ran.\<close>

definition feedTabular :: "string \<Rightarrow> Job \<Rightarrow> Job" where
  "feedTabular line j =
     (let p = (case jTabular j of None \<Rightarrow> False | Some b \<Rightarrow> b);
          (p', row) = feed p line
      in j\<lparr>jTabular := Some p', jTabularRows := jTabularRows j @ (case row of None \<Rightarrow> [] | Some x \<Rightarrow> [x])\<rparr>)"

definition tailLine :: "int \<Rightarrow> string \<Rightarrow> Job \<Rightarrow> bool \<times> Job" where
  "tailLine now line j0 =
     (let j1 = appendLine line j0; act = jAction j1;
          (hit, j2) = (if act \<in> {ActionBackup, ActionRestore, ActionCopy} then parseProgressLine now line j1
                       else if act = ActionCheck
                         then (let (h, j) = parseCheckLine now line j1 in (h, feedTabular line j))
                       else if act = ActionPrune then parsePruneLine now line j1
                       else (False, j1));
          (hit2, j3) = (if act = ActionBackup then parseStatsLine now line j2 else (False, j2))
      in (hit \<or> hit2, parseErrorLine line j3))"

section \<open>Facts\<close>

definition ringOk :: "Job \<Rightarrow> bool" where "ringOk j \<longleftrightarrow> length (jRing j) \<le> ringBufferSize"

lemma appendLine_ring: "jRing (appendLine line j) = take_last ringBufferSize (jRing j @ [line])"
  by (simp add: appendLine_def take_last_def Let_def)

lemma appendLine_ok: "ringOk (appendLine line j)"
  by (simp add: ringOk_def appendLine_ring)

lemma fold_appendLine:
  "ringOk j \<Longrightarrow> jRing (fold appendLine ls j) = take_last ringBufferSize (jRing j @ ls) \<and> ringOk (fold appendLine ls j)"
proof (induction ls arbitrary: j)
  case Nil
  then show ?case by (simp add: ringOk_def)
next
  case (Cons l ls)
  have "jRing (fold appendLine ls (appendLine l j)) = take_last ringBufferSize (jRing (appendLine l j) @ ls)"
    using Cons.IH [OF appendLine_ok] by blast
  then show ?case using Cons.IH [OF appendLine_ok] by (simp add: appendLine_ring)
qed

interpretation jobRing: tail_buffer ringBufferSize jRing "\<lambda>j ls. fold appendLine ls j" ringOk
  by unfold_locales (simp_all add: fold_appendLine)

text \<open>What the parsers leave alone: the identity, the life-cycle fields, the ring and the subscribers.\<close>

definition sameJob :: "Job \<Rightarrow> Job \<Rightarrow> bool" where
  "sameJob j j' \<longleftrightarrow> jState j' = jState j \<and> jID j' = jID j \<and> jRepoID j' = jRepoID j \<and> jAction j' = jAction j \<and>
     jStartedAt j' = jStartedAt j \<and> jCompletedAt j' = jCompletedAt j \<and> jExitCode j' = jExitCode j"

lemma sameJob_refl [simp, intro]: "sameJob j j" by (simp add: sameJob_def)

lemma sameJob_trans: "sameJob a b \<Longrightarrow> sameJob b c \<Longrightarrow> sameJob a c" by (simp add: sameJob_def)

lemma sameJob_withProgress [simp]: "sameJob j (withProgress f now j)"
  by (simp add: sameJob_def withProgress_def Let_def)

lemma sameJob_parsers:
  "sameJob j (appendLine line j)" "sameJob j (snd (parseProgressLine now line j))" "sameJob j (snd (parseCheckLine now line j))"
  "sameJob j (snd (parsePruneLine now line j))" "sameJob j (snd (parseStatsLine now line j))" "sameJob j (parseErrorLine line j)"
  "sameJob j (feedTabular line j)"
  by (simp_all add: appendLine_def parseProgressLine_def applyProgress_def parseCheckLine_def parsePruneLine_def
      parseStatsLine_def parseErrorLine_def feedTabular_def sameJob_def [of j "j\<lparr>jErrorMsg := _\<rparr>"] Let_def
      split: option.splits list.splits prod.splits bool.splits)
    (simp_all add: sameJob_def)

lemma sameJob_tailLine: "sameJob j (snd (tailLine now line j))"
  unfolding tailLine_def Let_def
  by (auto split: prod.splits if_splits)
    (metis sameJob_parsers sameJob_trans snd_conv)+

lemma pctTail_sound:
  assumes "reMatch pctTail pv s op caps \<noteq> None"
  shows "\<exists>x. s = '' '' @ x @ ''%'' \<and> list_all pctClass x"
proof -
  obtain t where t: "s = '' '' @ t" using assms by (auto simp: pctTail_def prefix_def split: if_splits)
  let ?n = "length (takeWhile pctClass t)"
  from assms t obtain k where k: "k \<le> ?n" "prefix ''%'' (drop k t)" "drop (Suc k) t = []"
    by (auto simp: pctTail_def Let_def dest!: firstSome_Some split: if_splits) (metis less_imp_le)
  then have "t = take k t @ ''%''" by (metis append_take_drop_id drop_Suc tl_drop prefixE append_Cons append_Nil list.sel(3))
  moreover have "list_all pctClass (take k t)"
    using k(1) by (metis list_all_iff set_take_subset_set_take set_takeWhileD subset_code(1) takeWhile_eq_take)
  ultimately show ?thesis using t by auto
qed

lemma firstSome_skip: "\<forall>x\<in>set xs. f x = None \<Longrightarrow> firstSome f (xs @ ys) = firstSome f ys"
  by (induction xs) auto

lemma lazy_pct:
  assumes "eta \<noteq> []" "list_all reDot eta" "pct \<noteq> []" "list_all pctClass pct"
  shows "reMatch (lazyDot1 # GroupClose # pctTail) pv (eta @ '' '' @ pct @ ''%'') (eta @ '' '' @ pct @ ''%'') caps
     = Some (rev caps @ [eta, pct])"
proof -
  let ?t = "'' '' @ pct @ ''%''" and ?s = "eta @ '' '' @ pct @ ''%''"
  let ?f = "\<lambda>k. reMatch (GroupClose # pctTail) (lastOr pv (take k ?s)) (drop k ?s) ?s caps"
  have dot: "pctClass c \<Longrightarrow> reDot c" for c by (auto simp: pctClass_def reDigit_def isDigit_def reDot_def)
  have "list_all reDot ?s" using assms(2,4) dot by (auto simp: list_all_iff reDot_def)
  then have run: "length (takeWhile reDot ?s) = length ?s" by (metis list_all_iff takeWhile_eq_all_conv)
  have ks: "[1..<Suc (length ?s)] = [1..<length eta] @ length eta # [Suc (length eta)..<Suc (length ?s)]"
  proof -
    have l: "1 \<le> length eta" "length eta \<le> length ?s" using assms(1) by (simp_all add: Suc_le_eq)
    have "[1..<Suc (length ?s)] = [1..<length eta] @ [length eta..<Suc (length ?s)]"
      using upt_add_eq_append [OF l(1), of "Suc (length ?s) - length eta"] l(2) by (metis le_SucI le_add_diff_inverse)
    then show ?thesis using l by (simp only: upt_conv_Cons less_Suc_eq_le)
  qed
  have skip: "?f k = None" if k: "k \<in> set [1..<length eta]" for k
  proof (rule ccontr)
    assume "?f k \<noteq> None"
    then obtain x where x: "drop k ?s = '' '' @ x @ ''%''" "list_all pctClass x"
      using pctTail_sound by (metis reMatch.simps(7))
    obtain c e where ce: "drop k eta = c # e" using k by (cases "drop k eta") auto
    have "c # e @ '' '' @ pct @ ''%'' = '' '' @ x @ ''%''" using x(1) ce k by simp
    then have "e @ '' '' @ pct = x" by simp
    then have "CHR '' '' \<in> set x" by auto
    with x(2) show False by (auto simp: list_all_iff pctClass_def reDigit_def isDigit_def)
  qed
  have fin: "reMatch pctTail pv' ?t op caps' = Some (rev caps' @ [pct])" for pv' op caps'
    unfolding pctTail_def
    apply (rule reMatch_LitI)
    apply (rule reMatch_groupI(1))
    apply (rule reMatch_greedyI, rule assms(4), simp add: pctClass_def reDigit_def isDigit_def, use assms(3) in \<open>simp add: Suc_le_eq\<close>, simp)
    apply (rule reMatch_groupI(2))
    by simp
  have "?f (length eta) = Some (rev caps @ [eta, pct])" using fin [of _ ?s "eta # caps"] by simp
  then have "firstSome ?f [1..<Suc (length ?s)] = Some (rev caps @ [eta, pct])"
    unfolding ks using firstSome_skip [of "[1..<length eta]" ?f] skip by simp
  then show ?thesis using run by (simp add: Let_def)
qed

definition progressLine :: "string \<Rightarrow> int \<Rightarrow> int \<Rightarrow> string \<Rightarrow> string \<Rightarrow> string \<Rightarrow> string" where
  "progressLine verb idx sz speed eta pct =
     verb @ '' chunk '' @ itoa idx @ '' size '' @ itoa sz @ '', '' @ speed @ '' '' @ eta @ '' '' @ pct @ ''%''"

lemma progressLine_submatch:
  assumes "verb = ''Uploaded'' \<or> verb = ''Downloaded''" "0 \<le> idx" "0 \<le> sz"
    "speed \<noteq> []" "list_all reNonSpace speed" "eta \<noteq> []" "list_all reDot eta" "pct \<noteq> []" "list_all pctClass pct"
  shows "findSubmatch True progressLineRe (progressLine verb idx sz speed eta pct) = Some [verb, itoa idx, itoa sz, speed, eta, pct]"
proof -
  have dg: "list_all reDigit (itoa n)" "itoa n \<noteq> []" if "0 \<le> n" for n
    using that natDigits_isDigit by (simp_all add: itoa_def reDigit_def [abs_def])
  have alt: "reMatch (AltLit [''Uploaded'', ''Downloaded''] # ps) pv (verb @ s) op caps = reMatch ps (lastOr pv verb) s op caps"
    for ps pv s op caps using assms(1) by (auto split: option.splits)
  have ns: "\<not> reNonSpace (CHR '' '')" by (simp add: reNonSpace_def reSpace_def)
  show ?thesis
    unfolding findSubmatch_def progressLineRe_def progressLine_def if_True append_Cons append_Nil
    apply (rule reMatch_groupI(1))
    apply (subst alt)
    apply (rule reMatch_groupI(2))
    apply (rule reMatch_LitI [of _ _ "'' chunk ''", simplified append_Cons append_Nil])
    apply (rule reMatch_groupI(1))
    apply (rule reMatch_greedyI, use dg assms in simp, simp add: reDigit_def isDigit_def, use dg assms in \<open>simp add: Suc_le_eq\<close>, simp)
    apply (rule reMatch_groupI(2))
    apply (rule reMatch_LitI [of _ _ "'' size ''", simplified append_Cons append_Nil])
    apply (rule reMatch_groupI(1))
    apply (rule reMatch_greedyI, use dg assms in simp, simp add: reDigit_def isDigit_def, use dg assms in \<open>simp add: Suc_le_eq\<close>, simp)
    apply (rule reMatch_groupI(2))
    apply (rule reMatch_LitI [of _ _ "'', ''", simplified append_Cons append_Nil])
    apply (rule reMatch_groupI(1))
    apply (rule reMatch_greedyI, rule assms(5), use ns in simp, use assms in \<open>simp add: Suc_le_eq\<close>, simp)
    apply (rule reMatch_groupI(2))
    apply (rule reMatch_LitI [of _ _ "'' ''", simplified append_Cons append_Nil])
    apply (rule reMatch_groupI(1))
    using lazy_pct [OF assms(6-9)] by simp
qed

lemma parseDecimal_nonneg: "parseDecimal s = Some q \<Longrightarrow> 0 \<le> q"
  by (auto simp: parseDecimal_def Let_def split: if_splits)

lemma parseFloat_pct_nonneg: "list_all pctClass s \<Longrightarrow> parseFloat s = Some q \<Longrightarrow> 0 \<le> q"
proof -
  assume a: "list_all pctClass s" and p: "parseFloat s = Some q"
  have c: "pctClass x \<Longrightarrow> \<not> isSign x \<and> x \<noteq> CHR ''e'' \<and> x \<noteq> CHR ''E''" for x
    by (auto simp: pctClass_def reDigit_def isDigit_def isSign_def)
  have m: "\<not> prefix ''-'' s" "s = [] \<or> \<not> isSign (hd s)" using a c by (cases s; auto simp: isSign_def)+
  have td: "takeWhile (\<lambda>c. \<not> (c = CHR ''e'' \<or> c = CHR ''E'')) s = s" "dropWhile (\<lambda>c. \<not> (c = CHR ''e'' \<or> c = CHR ''E'')) s = []"
  proof -
    have "\<forall>x\<in>set s. \<not> (x = CHR ''e'' \<or> x = CHR ''E'')" using a c by (metis list_all_iff)
    then show "takeWhile (\<lambda>c. \<not> (c = CHR ''e'' \<or> c = CHR ''E'')) s = s" "dropWhile (\<lambda>c. \<not> (c = CHR ''e'' \<or> c = CHR ''E'')) s = []"
      by (simp_all add: takeWhile_eq_all_conv)
  qed
  have b: "(if s \<noteq> [] \<and> isSign (hd s) then tl s else s) = s" using m(2) by auto
  have "parseFloat s = parseDecimal s"
    unfolding parseFloat_def Let_def b td using m(1) by (simp split: option.split)
  with p have "parseDecimal s = Some q" by simp
  then show "0 \<le> q" by (rule parseDecimal_nonneg)
qed

definition newJob :: "string \<Rightarrow> string \<Rightarrow> string \<Rightarrow> JobAction \<Rightarrow> string \<Rightarrow> string list \<Rightarrow> string \<Rightarrow> string \<Rightarrow> Job" where
  "newJob i repoID repoPath act storage args scheduleID triggerKey =
     \<lparr>jID = i, jRepoID = repoID, jRepoPath = repoPath, jAction = act, jStorageName = storage, jArgs = args,
      jState = JobPending, jStartedAt = None, jCompletedAt = None, jExitCode = 0, jErrorMsg = [], jLineCount = 0,
      jProgress = None, jScheduleID = scheduleID, jTriggerKey = triggerKey,
      jRing = [], jSubscribers = [], jTabular = None, jTabularRows = []\<rparr>"

lemma jLineCount_fold: "jLineCount (fold appendLine ls j) = jLineCount j + length ls"
  by (induction ls arbitrary: j) (simp_all add: appendLine_def Let_def)

section \<open>Properties\<close>

text \<open>The log ring of a job holds the last 500 lines of its output, in order, and the line counter
  counts them all.\<close>

theorem appendLine_last_lines:
  "let j = fold appendLine ls (newJob i repoID repoPath act storage args sch trig)
   in jRing j = take_last 500 ls \<and> jLineCount j = length ls"
proof -
  let ?j = "newJob i repoID repoPath act storage args sch trig"
  have "ringOk ?j" by (simp add: ringOk_def newJob_def)
  from jobRing.view_push [OF this, of ls] show ?thesis
    by (simp add: Let_def jLineCount_fold) (simp add: newJob_def ringBufferSize_def)
qed

text \<open>A chunk progress line of a backup or restore is recognised with an estimate that may contain
  blanks: the job's progress then has exactly the line's percentage (at most 100), speed, estimate and
  chunk index.\<close>

theorem parseProgressLine_chunk:
  assumes "verb = ''Uploaded'' \<or> verb = ''Downloaded''" "0 \<le> idx" "idx \<le> maxInt64" "0 \<le> sz"
    "speed \<noteq> []" "list_all reNonSpace speed" "eta \<noteq> []" "list_all reDot eta"
    "pct \<noteq> []" "list_all pctClass pct" "parseFloat pct = Some q"
  shows "\<exists>j' p. parseProgressLine now (progressLine verb idx sz speed eta pct) j = (True, j') \<and> jProgress j' = Some p \<and>
     Percent p = min q 100 \<and> 0 \<le> Percent p \<and> Speed p = speed \<and> ETA p = eta \<and> LastChunk p = idx \<and> UpdatedAt p = Some now"
proof -
  have q: "0 \<le> q" by (rule parseFloat_pct_nonneg [OF assms(10,11)])
  have a: "fst (atoi (itoa idx)) = idx" using assms(2,3) by (simp add: atoi_itoa minInt64_def)
  show ?thesis
    using progressLine_submatch [OF assms(1,2,4-10)] q a assms(11)
    by (simp add: parseProgressLine_def applyProgress_def withProgress_def Let_def min_def)
qed

theorem parseProgressLine_chunk_witness:
  "\<exists>j' p. parseProgressLine 5 ''Uploaded chunk 12 size 4096, 7.69MB/s 0h 2m 30s 41.5%'' (newJob [] [] [] ActionBackup [] [] [] []) = (True, j') \<and>
     jProgress j' = Some p \<and> Percent p = 83 / 2 \<and> ETA p = ''0h 2m 30s''"
proof -
  have l: "progressLine ''Uploaded'' 12 4096 ''7.69MB/s'' ''0h 2m 30s'' ''41.5'' = ''Uploaded chunk 12 size 4096, 7.69MB/s 0h 2m 30s 41.5%''"
    by code_simp
  have f: "parseFloat ''41.5'' = Some (83 / 2)" by code_simp
  have "\<exists>j' p. parseProgressLine 5 (progressLine ''Uploaded'' 12 4096 ''7.69MB/s'' ''0h 2m 30s'' ''41.5'') (newJob [] [] [] ActionBackup [] [] [] []) = (True, j') \<and>
      jProgress j' = Some p \<and> Percent p = min (83 / 2) 100 \<and> 0 \<le> Percent p \<and> Speed p = ''7.69MB/s'' \<and> ETA p = ''0h 2m 30s'' \<and> LastChunk p = 12 \<and> UpdatedAt p = Some 5"
    by (rule parseProgressLine_chunk [OF _ _ _ _ _ _ _ _ _ _ f])
      (simp_all add: maxInt64_def reNonSpace_def reSpace_def reDot_def pctClass_def reDigit_def isDigit_def)
  then show ?thesis unfolding l by (auto simp: min_def)
qed

text \<open>The percentage of a check is capped at 100 when a revision completes but not when the total
  arrives: with more revisions already verified than the announced total it exceeds 100.\<close>

theorem check_percent_exceeds:
  "map_option Percent (jProgress (snd (parseCheckLine 2 ''1 snapshots and 1 revisions''
     (snd (parseCheckLine 1 ''All chunks referenced by snapshot a at revision 2 exist''
       (snd (parseCheckLine 0 ''All chunks referenced by snapshot a at revision 1 exist''
         (newJob [] [] [] ActionCheck [] [] [] [])))))))) = Some 200"
  by code_simp

text \<open>A dry run never looks as if it removed anything: a line that announces a deletion or an
  unreferenced chunk leaves the counters of removed snapshots, deleted chunks and fossils unchanged.\<close>

theorem parsePruneLine_preview:
  assumes "findSubmatch True pruneWillDeleteSnapshotRe line \<noteq> None \<or> matchString True pruneUnreferencedChunkRe line"
  shows "let p = case_option emptyProgress id (jProgress j); j' = snd (parsePruneLine now line j)
     in fst (parsePruneLine now line j) \<and>
        (\<exists>p'. jProgress j' = Some p' \<and> PruneSnapshotsRemoved p' = PruneSnapshotsRemoved p \<and>
           PruneChunksDeleted p' = PruneChunksDeleted p \<and> PruneFossilsProcessed p' = PruneFossilsProcessed p)"
proof -
  have o: "optFree pruneWillDeleteSnapshotRe" "groupCount pruneWillDeleteSnapshotRe = 2"
    by (simp_all add: pruneWillDeleteSnapshotRe_def optFree_def)
  show ?thesis
  proof (cases "findSubmatch True pruneWillDeleteSnapshotRe line")
    case None
    with assms have "matchString True pruneUnreferencedChunkRe line" by simp
    with None show ?thesis
      by (cases "jProgress j") (simp_all add: parsePruneLine_def withProgress_def Let_def)
  next
    case (Some r)
    then have "length r = 2" using findSubmatch_length o by metis
    then obtain m1 m2 where "r = [m1, m2]" by (auto simp: length_Suc_conv numeral_2_eq_2)
    with Some show ?thesis
      by (cases "jProgress j") (simp_all add: parsePruneLine_def withProgress_def Let_def)
  qed
qed

theorem parsePruneLine_preview_witness:
  "\<exists>p'. jProgress (snd (parsePruneLine 1 ''Deleting snapshot pi at revision 42'' (newJob [] [] [] ActionPrune [] [] [] []))) = Some p' \<and>
     PruneSnapshotsRemoved p' = 0"
proof -
  have "findSubmatch True pruneWillDeleteSnapshotRe ''Deleting snapshot pi at revision 42'' \<noteq> None" by code_simp
  then show ?thesis
    using parsePruneLine_preview [of "''Deleting snapshot pi at revision 42''" "newJob [] [] [] ActionPrune [] [] [] []" 1]
    by (auto simp: Let_def newJob_def emptyProgress_def)
qed

end
