(* ===== verification/Jobs.thy ===== *)
theory Jobs
  imports JobParse "HOL-Library.AList"
begin

text \<open>
  The job registry of jobs.go as a state machine. \<open>rgHeap\<close> holds every job object ever created
  with the control point of the goroutine that drives it; \<open>rgJobs\<close> and \<open>rgTerminal\<close> are the
  registry's map (its key set) and ring; the semaphores are channels given by capacity (\<open>None\<close> for a nil
  channel, unbounded) and fill. A label is one atomic action of one goroutine: the code between two
  points where another goroutine can observe or change the job. The functions that perform the actions
  follow \<open>start\<close>, \<open>spawnGated\<close>, \<open>finalizeUnstarted\<close>, \<open>spawn\<close>, \<open>tail\<close>, \<open>markTerminated\<close>, \<open>cancel\<close>
  and \<open>acquireMaint\<close>; \<open>regExec\<close> is \<open>None\<close> where an action is not possible, and \<open>reachable\<close> is
  the set of states of all interleavings.
\<close>

section \<open>State\<close>

datatype semKind = SemCopy | SemMaint

text \<open>Control points: waiting in the select of \<open>spawnGated\<close>; before \<open>cmd.Start\<close>; the process is
  started and the state not yet set; the process is running; \<open>cmd.Wait\<close> returned and the terminal state
  is set; done; given up on a pipe error.\<close>

datatype jobPhase = Queued | Spawning | Started | Live | Exited | Ended | Stuck

record jobObj =
  oJob :: Job
  oSem :: "semKind option"
  oPhase :: jobPhase
  oCtx :: bool  \<comment> \<open>the job's context is cancelled\<close>
  oCleanups :: nat  \<comment> \<open>calls of the cleanup function\<close>
  oEvents :: "JobEvent list"  \<comment> \<open>events emitted for this job\<close>

record jobRegistry =
  rgHeap :: "(string \<times> jobObj) list"
  rgJobs :: "string list"
  rgTerminal :: "string list"
  rgCopyCap :: "nat option"
  rgMaintCap :: "nat option"
  rgCopyHeld :: nat
  rgMaintHeld :: nat
  rgWarm :: nat  \<comment> \<open>maintenance slots held by the cache warmer\<close>

definition newJobRegistry :: "int \<Rightarrow> int \<Rightarrow> jobRegistry" where
  "newJobRegistry maxConcurrentCopies maxConcurrentMaint =
     \<lparr>rgHeap = [], rgJobs = [], rgTerminal = [],
      rgCopyCap = (if maxConcurrentCopies > 0 then Some (nat maxConcurrentCopies) else None),
      rgMaintCap = (if maxConcurrentMaint > 0 then Some (nat maxConcurrentMaint) else None),
      rgCopyHeld = 0, rgMaintHeld = 0, rgWarm = 0\<rparr>"

section \<open>Operations\<close>

definition semFor :: "jobRegistry \<Rightarrow> JobAction \<Rightarrow> semKind option" where
  "semFor r act =
     (if act = ActionCopy then (if rgCopyCap r = None then None else Some SemCopy)
      else if act = ActionCheck \<or> act = ActionPrune then (if rgMaintCap r = None then None else Some SemMaint)
      else None)"

definition semFree :: "semKind \<Rightarrow> jobRegistry \<Rightarrow> bool" where
  "semFree k r =
     (case k of
        SemCopy \<Rightarrow> (case rgCopyCap r of None \<Rightarrow> False | Some c \<Rightarrow> rgCopyHeld r < c)
      | SemMaint \<Rightarrow> (case rgMaintCap r of None \<Rightarrow> False | Some c \<Rightarrow> rgMaintHeld r < c))"

definition semTake :: "semKind \<Rightarrow> jobRegistry \<Rightarrow> jobRegistry" where
  "semTake k r = (case k of SemCopy \<Rightarrow> r\<lparr>rgCopyHeld := Suc (rgCopyHeld r)\<rparr> | SemMaint \<Rightarrow> r\<lparr>rgMaintHeld := Suc (rgMaintHeld r)\<rparr>)"

definition release :: "semKind option \<Rightarrow> jobRegistry \<Rightarrow> jobRegistry" where
  "release k r =
     (case k of
        None \<Rightarrow> r
      | Some SemCopy \<Rightarrow> r\<lparr>rgCopyHeld := rgCopyHeld r - 1\<rparr>
      | Some SemMaint \<Rightarrow> r\<lparr>rgMaintHeld := rgMaintHeld r - 1\<rparr>)"

definition setObj :: "string \<Rightarrow> jobObj \<Rightarrow> jobRegistry \<Rightarrow> jobRegistry" where
  "setObj i ob r = r\<lparr>rgHeap := AList.update i ob (rgHeap r)\<rparr>"

definition markTerminated :: "string \<Rightarrow> jobRegistry \<Rightarrow> jobRegistry" where
  "markTerminated i r =
     (let t = rgTerminal r @ [i]; n = length t - recentJobsRetained
      in r\<lparr>rgTerminal := drop n t, rgJobs := filter (\<lambda>x. x \<notin> set (take n t)) (rgJobs r)\<rparr>)"

definition startJob :: "string \<Rightarrow> string \<Rightarrow> string \<Rightarrow> JobAction \<Rightarrow> string \<Rightarrow> string list \<Rightarrow> string \<Rightarrow> string \<Rightarrow> jobRegistry \<Rightarrow> jobRegistry" where
  "startJob i repoID repoPath act storage args sch trig r =
     (let k = semFor r act;
          ob = \<lparr>oJob = newJob i repoID repoPath act storage args sch trig, oSem = k,
                oPhase = (if k = None then Spawning else Queued), oCtx = False, oCleanups = 0, oEvents = []\<rparr>
      in (setObj i ob r)\<lparr>rgJobs := i # rgJobs r\<rparr>)"

definition takeSlot :: "string \<Rightarrow> jobObj \<Rightarrow> jobRegistry \<Rightarrow> jobRegistry" where
  "takeSlot i ob r =
     (case oSem ob of None \<Rightarrow> r | Some k \<Rightarrow> semTake k (setObj i (ob\<lparr>oPhase := Spawning\<rparr>) r))"

definition unstartedObj :: "int \<Rightarrow> jobObj \<Rightarrow> jobObj" where
  "unstartedObj now ob =
     (let j = oJob ob;
          j' = j\<lparr>jState := JobCancelled, jErrorMsg := (if jErrorMsg j = [] then ''cancelled before start'' else jErrorMsg j),
                 jCompletedAt := Some now, jSubscribers := []\<rparr>
      in ob\<lparr>oJob := j', oPhase := Ended, oCtx := True, oCleanups := Suc (oCleanups ob), oEvents := oEvents ob @ [EventCancelled]\<rparr>)"

definition finalizeUnstarted :: "int \<Rightarrow> string \<Rightarrow> jobObj \<Rightarrow> jobRegistry \<Rightarrow> jobRegistry" where
  "finalizeUnstarted now i ob r = markTerminated i (setObj i (unstartedObj now ob) r)"

definition spawnPipeError :: "string \<Rightarrow> jobObj \<Rightarrow> jobRegistry \<Rightarrow> jobRegistry" where
  "spawnPipeError i ob r = release (oSem ob) (setObj i (ob\<lparr>oPhase := Stuck, oCtx := True\<rparr>) r)"

definition startErrorObj :: "int \<Rightarrow> string \<Rightarrow> jobObj \<Rightarrow> jobObj" where
  "startErrorObj now err ob =
     ob\<lparr>oJob := (oJob ob)\<lparr>jState := JobFailed, jErrorMsg := err, jCompletedAt := Some now\<rparr>, oPhase := Ended, oCtx := True,
        oCleanups := Suc (oCleanups ob), oEvents := oEvents ob @ [EventFailed]\<rparr>"

definition spawnStartError :: "int \<Rightarrow> string \<Rightarrow> string \<Rightarrow> jobObj \<Rightarrow> jobRegistry \<Rightarrow> jobRegistry" where
  "spawnStartError now err i ob r =
     release (oSem ob) (markTerminated i (setObj i (startErrorObj now err ob) r))"

definition runningObj :: "int \<Rightarrow> jobObj \<Rightarrow> jobObj" where
  "runningObj now ob =
     ob\<lparr>oJob := (oJob ob)\<lparr>jState := JobRunning, jStartedAt := Some now\<rparr>, oPhase := Live, oEvents := oEvents ob @ [EventStarted]\<rparr>"

definition spawnSetRunning :: "int \<Rightarrow> string \<Rightarrow> jobObj \<Rightarrow> jobRegistry \<Rightarrow> jobRegistry" where
  "spawnSetRunning now i ob r = setObj i (runningObj now ob) r"

text \<open>The result of \<open>cmd.Wait\<close>: \<open>None\<close> on exit 0, otherwise the error text and the exit code when
  the error has one.\<close>

definition waitResult :: "int \<Rightarrow> (string \<times> int option) option \<Rightarrow> Job \<Rightarrow> Job" where
  "waitResult now err j =
     (let j0 = j\<lparr>jCompletedAt := Some now, jSubscribers := []\<rparr>
      in case err of
           None \<Rightarrow> j0\<lparr>jState := JobCompleted, jExitCode := 0\<rparr>
         | Some (msg, code) \<Rightarrow>
             let j1 = (if jState j0 \<noteq> JobCancelled
                       then j0\<lparr>jState := JobFailed, jErrorMsg := (if jErrorMsg j0 = [] then msg else jErrorMsg j0)\<rparr>
                       else j0\<lparr>jErrorMsg := (if jErrorMsg j0 = [] then ''cancelled by user'' else jErrorMsg j0)\<rparr>)
             in (case code of None \<Rightarrow> j1 | Some c \<Rightarrow> j1\<lparr>jExitCode := c\<rparr>))"

definition spawnExit :: "int \<Rightarrow> (string \<times> int option) option \<Rightarrow> string \<Rightarrow> jobObj \<Rightarrow> jobRegistry \<Rightarrow> jobRegistry" where
  "spawnExit now err i ob r = setObj i (ob\<lparr>oJob := waitResult now err (oJob ob), oPhase := Exited\<rparr>) r"

definition terminalEvent :: "JobState \<Rightarrow> JobEvent" where
  "terminalEvent st =
     (case st of JobCompleted \<Rightarrow> EventCompleted | JobCancelled \<Rightarrow> EventCancelled | _ \<Rightarrow> EventFailed)"

definition finishedObj :: "jobObj \<Rightarrow> jobObj" where
  "finishedObj ob =
     ob\<lparr>oPhase := Ended, oCleanups := Suc (oCleanups ob), oEvents := oEvents ob @ [terminalEvent (jState (oJob ob))]\<rparr>"

definition spawnFinish :: "string \<Rightarrow> jobObj \<Rightarrow> jobRegistry \<Rightarrow> jobRegistry" where
  "spawnFinish i ob r = release (oSem ob) (markTerminated i (setObj i (finishedObj ob) r))"

definition cancelledObj :: "jobObj \<Rightarrow> jobObj" where
  "cancelledObj ob = ob\<lparr>oJob := (oJob ob)\<lparr>jState := JobCancelled\<rparr>, oCtx := True\<rparr>"

definition cancelJob :: "string \<Rightarrow> jobRegistry \<Rightarrow> bool \<times> jobRegistry" where
  "cancelJob i r =
     (if i \<notin> set (rgJobs r) then (False, r)
      else case map_of (rgHeap r) i of
        None \<Rightarrow> (False, r)
      | Some ob \<Rightarrow>
          if jState (oJob ob) \<noteq> JobRunning \<and> jState (oJob ob) \<noteq> JobPending then (False, r)
          else (True, setObj i (cancelledObj ob) r))"

definition countActive :: "JobAction list \<Rightarrow> jobRegistry \<Rightarrow> nat" where
  "countActive acts r =
     length (filter (\<lambda>(i, ob). i \<in> set (rgJobs r) \<and> jAction (oJob ob) \<in> set acts \<and> jState (oJob ob) \<in> {JobRunning, JobPending}) (rgHeap r))"

definition registryList :: "jobRegistry \<Rightarrow> Job list" where
  "registryList r = map (\<lambda>(i, ob). oJob ob) (filter (\<lambda>(i, ob). i \<in> set (rgJobs r)) (rgHeap r))"

section \<open>Interleaving\<close>

datatype regLabel =
    LStart string string string JobAction string "string list" string string
  | LSlot string
  | LQueueCancel string
  | LPipeError string
  | LStartError string string
  | LStartOk string
  | LRunning string
  | LLine string string
  | LExit string "(string \<times> int option) option"
  | LFinish string
  | LCancel string
  | LCtxDone string
  | LMaintAcquire
  | LMaintRelease

definition atPhase :: "jobPhase list \<Rightarrow> string \<Rightarrow> jobRegistry \<Rightarrow> jobObj option" where
  "atPhase phs i r = (case map_of (rgHeap r) i of None \<Rightarrow> None | Some ob \<Rightarrow> if oPhase ob \<in> set phs then Some ob else None)"

text \<open>\<open>cmd.Start\<close> fails when the context is already cancelled, so a start succeeds only otherwise. Lines
  arrive from a running process and may still be delivered after \<open>cmd.Wait\<close> returned. \<open>LCtxDone\<close> is
  the end of the parent context that the scheduler passes to \<open>start\<close>.\<close>

fun regExec :: "int \<Rightarrow> regLabel \<Rightarrow> jobRegistry \<Rightarrow> jobRegistry option" where
  "regExec now (LStart i repoID repoPath act storage args sch trig) r =
     (if i \<in> fst ` set (rgHeap r) then None else Some (startJob i repoID repoPath act storage args sch trig r))"
| "regExec now (LSlot i) r =
     (case atPhase [Queued] i r of
        None \<Rightarrow> None
      | Some ob \<Rightarrow> (case oSem ob of None \<Rightarrow> None | Some k \<Rightarrow> if semFree k r then Some (takeSlot i ob r) else None))"
| "regExec now (LQueueCancel i) r =
     (case atPhase [Queued] i r of None \<Rightarrow> None | Some ob \<Rightarrow> if oCtx ob then Some (finalizeUnstarted now i ob r) else None)"
| "regExec now (LPipeError i) r =
     (case atPhase [Spawning] i r of None \<Rightarrow> None | Some ob \<Rightarrow> Some (spawnPipeError i ob r))"
| "regExec now (LStartError i err) r =
     (case atPhase [Spawning] i r of None \<Rightarrow> None | Some ob \<Rightarrow> Some (spawnStartError now err i ob r))"
| "regExec now (LStartOk i) r =
     (case atPhase [Spawning] i r of None \<Rightarrow> None | Some ob \<Rightarrow> if oCtx ob then None else Some (setObj i (ob\<lparr>oPhase := Started\<rparr>) r))"
| "regExec now (LRunning i) r =
     (case atPhase [Started] i r of None \<Rightarrow> None | Some ob \<Rightarrow> Some (spawnSetRunning now i ob r))"
| "regExec now (LLine i line) r =
     (case atPhase [Live, Exited, Ended] i r of
        None \<Rightarrow> None
      | Some ob \<Rightarrow> if jStartedAt (oJob ob) = None then None
                   else Some (setObj i (ob\<lparr>oJob := snd (tailLine now line (oJob ob))\<rparr>) r))"
| "regExec now (LExit i err) r =
     (case atPhase [Live] i r of None \<Rightarrow> None | Some ob \<Rightarrow> Some (spawnExit now err i ob r))"
| "regExec now (LFinish i) r =
     (case atPhase [Exited] i r of None \<Rightarrow> None | Some ob \<Rightarrow> Some (spawnFinish i ob r))"
| "regExec now (LCancel i) r = Some (snd (cancelJob i r))"
| "regExec now (LCtxDone i) r =
     (case map_of (rgHeap r) i of None \<Rightarrow> None | Some ob \<Rightarrow> Some (setObj i (ob\<lparr>oCtx := True\<rparr>) r))"
| "regExec now LMaintAcquire r =
     (if semFree SemMaint r then Some ((semTake SemMaint r)\<lparr>rgWarm := Suc (rgWarm r)\<rparr>) else None)"
| "regExec now LMaintRelease r =
     (if rgWarm r = 0 then None else Some ((release (Some SemMaint) r)\<lparr>rgWarm := rgWarm r - 1\<rparr>))"

inductive reachable :: "int \<Rightarrow> int \<Rightarrow> jobRegistry \<Rightarrow> bool" for copies maint where
  init: "reachable copies maint (newJobRegistry copies maint)"
| step: "reachable copies maint r \<Longrightarrow> regExec now l r = Some r' \<Longrightarrow> reachable copies maint r'"

section \<open>Invariant\<close>

definition holds :: "semKind \<Rightarrow> jobObj \<Rightarrow> bool" where
  "holds k ob \<longleftrightarrow> oSem ob = Some k \<and> oPhase ob \<in> {Spawning, Started, Live, Exited}"

definition objOk :: "jobObj \<Rightarrow> bool" where
  "objOk ob =
     (let st = jState (oJob ob)
      in case oPhase ob of
        Queued \<Rightarrow> st \<in> {JobPending, JobCancelled} \<and> (st = JobCancelled \<longrightarrow> oCtx ob) \<and> oCleanups ob = 0 \<and> oEvents ob = [] \<and>
           oSem ob \<noteq> None \<and> jStartedAt (oJob ob) = None
      | Spawning \<Rightarrow> st \<in> {JobPending, JobCancelled} \<and> (st = JobCancelled \<longrightarrow> oCtx ob) \<and> oCleanups ob = 0 \<and> oEvents ob = [] \<and>
           jStartedAt (oJob ob) = None
      | Started \<Rightarrow> st \<in> {JobPending, JobCancelled} \<and> oCleanups ob = 0 \<and> oEvents ob = []
      | Live \<Rightarrow> st \<in> {JobRunning, JobCancelled} \<and> oCleanups ob = 0 \<and> oEvents ob = [EventStarted]
      | Exited \<Rightarrow> terminal st \<and> oCleanups ob = 0 \<and> oEvents ob = [EventStarted]
      | Ended \<Rightarrow> terminal st \<and> oCleanups ob = 1 \<and> (oEvents ob = [terminalEvent st] \<or> oEvents ob = [EventStarted, terminalEvent st])
      | Stuck \<Rightarrow> st \<in> {JobPending, JobCancelled} \<and> oCleanups ob = 0 \<and> oEvents ob = [] \<and> oCtx ob)"

definition countObj :: "(jobObj \<Rightarrow> bool) \<Rightarrow> (string \<times> jobObj) list \<Rightarrow> nat" where
  "countObj P h = length (filter (\<lambda>x. P (snd x)) h)"

definition heapInv :: "jobRegistry \<Rightarrow> bool" where
  "heapInv r \<longleftrightarrow>
     distinct (map fst (rgHeap r)) \<and>
     (\<forall>i ob. map_of (rgHeap r) i = Some ob \<longrightarrow> objOk ob \<and> oSem ob = semFor r (jAction (oJob ob)))"

definition mapInv :: "jobRegistry \<Rightarrow> bool" where
  "mapInv r \<longleftrightarrow>
     distinct (rgJobs r) \<and> distinct (rgTerminal r) \<and> length (rgTerminal r) \<le> recentJobsRetained \<and>
     set (rgTerminal r) \<subseteq> set (rgJobs r) \<and> set (rgJobs r) \<subseteq> fst ` set (rgHeap r) \<and>
     (\<forall>i ob. map_of (rgHeap r) i = Some ob \<longrightarrow>
        (oPhase ob \<noteq> Ended \<longrightarrow> i \<in> set (rgJobs r) \<and> i \<notin> set (rgTerminal r)) \<and>
        (oPhase ob = Ended \<longrightarrow> i \<in> set (rgJobs r) \<longrightarrow> i \<in> set (rgTerminal r)))"

definition semInv :: "jobRegistry \<Rightarrow> bool" where
  "semInv r \<longleftrightarrow>
     rgCopyHeld r = countObj (holds SemCopy) (rgHeap r) \<and> rgMaintHeld r = countObj (holds SemMaint) (rgHeap r) + rgWarm r \<and>
     (\<forall>c. rgCopyCap r = Some c \<longrightarrow> rgCopyHeld r \<le> c) \<and> (\<forall>c. rgMaintCap r = Some c \<longrightarrow> rgMaintHeld r \<le> c)"

lemma countObj_update:
  "distinct (map fst h) \<Longrightarrow> map_of h i = Some ob \<Longrightarrow>
   countObj P (AList.update i ob' h) + of_bool (P ob) = countObj P h + of_bool (P ob')"
proof (induction h)
  case (Cons x h)
  then show ?case by (cases x) (auto simp: countObj_def)
qed simp

lemma countObj_new:
  "i \<notin> fst ` set h \<Longrightarrow> countObj P (AList.update i ob h) = countObj P h + of_bool (P ob)"
  by (induction h) (auto simp: countObj_def)

lemma countObj_pos: "map_of h i = Some ob \<Longrightarrow> P ob \<Longrightarrow> 0 < countObj P h"
  by (induction h) (auto simp: countObj_def split: if_splits)

text \<open>Every action but a start and the warmer's replaces one object; what it does to the map, the ring
  and the semaphores depends on the object's phases before and after only.\<close>

definition replaces :: "string \<Rightarrow> jobObj \<Rightarrow> jobObj \<Rightarrow> jobRegistry \<Rightarrow> jobRegistry \<Rightarrow> bool" where
  "replaces i ob ob' r r' \<longleftrightarrow>
     map_of (rgHeap r) i = Some ob \<and> rgHeap r' = AList.update i ob' (rgHeap r) \<and>
     rgCopyCap r' = rgCopyCap r \<and> rgMaintCap r' = rgMaintCap r \<and> rgWarm r' = rgWarm r \<and>
     oSem ob' = oSem ob \<and> jAction (oJob ob') = jAction (oJob ob) \<and> objOk ob' \<and>
     (oPhase ob = Ended \<longrightarrow> oPhase ob' = Ended) \<and>
     (let t = markTerminated i r; fin = oPhase ob \<noteq> Ended \<and> oPhase ob' = Ended
      in rgJobs r' = rgJobs (if fin then t else r) \<and> rgTerminal r' = rgTerminal (if fin then t else r)) \<and>
     rgCopyHeld r' + of_bool (holds SemCopy ob) = rgCopyHeld r + of_bool (holds SemCopy ob') \<and>
     rgMaintHeld r' + of_bool (holds SemMaint ob) = rgMaintHeld r + of_bool (holds SemMaint ob') \<and>
     (holds SemCopy ob' \<longrightarrow> holds SemCopy ob \<or> semFree SemCopy r) \<and>
     (holds SemMaint ob' \<longrightarrow> holds SemMaint ob \<or> semFree SemMaint r)"

lemma markTerminated_simps [simp]:
  "rgHeap (markTerminated i r) = rgHeap r" "rgCopyCap (markTerminated i r) = rgCopyCap r"
  "rgMaintCap (markTerminated i r) = rgMaintCap r" "rgWarm (markTerminated i r) = rgWarm r"
  "rgCopyHeld (markTerminated i r) = rgCopyHeld r" "rgMaintHeld (markTerminated i r) = rgMaintHeld r"
  by (simp_all add: markTerminated_def Let_def)

lemma setObj_simps [simp]:
  "rgHeap (setObj i ob r) = AList.update i ob (rgHeap r)" "rgCopyCap (setObj i ob r) = rgCopyCap r"
  "rgMaintCap (setObj i ob r) = rgMaintCap r" "rgWarm (setObj i ob r) = rgWarm r" "rgJobs (setObj i ob r) = rgJobs r"
  "rgTerminal (setObj i ob r) = rgTerminal r" "rgCopyHeld (setObj i ob r) = rgCopyHeld r" "rgMaintHeld (setObj i ob r) = rgMaintHeld r"
  by (simp_all add: setObj_def)

lemma markTerminated_setObj [simp]:
  "rgJobs (markTerminated i (setObj i' ob r)) = rgJobs (markTerminated i r)"
  "rgTerminal (markTerminated i (setObj i' ob r)) = rgTerminal (markTerminated i r)"
  by (simp_all add: markTerminated_def Let_def)

lemma release_simps [simp]:
  "rgHeap (release k r) = rgHeap r" "rgCopyCap (release k r) = rgCopyCap r" "rgMaintCap (release k r) = rgMaintCap r"
  "rgWarm (release k r) = rgWarm r" "rgJobs (release k r) = rgJobs r" "rgTerminal (release k r) = rgTerminal r"
  "rgCopyHeld (release k r) = rgCopyHeld r - of_bool (k = Some SemCopy)"
  "rgMaintHeld (release k r) = rgMaintHeld r - of_bool (k = Some SemMaint)"
  by (auto simp: release_def split: option.splits semKind.splits)

lemma semTake_simps [simp]:
  "rgHeap (semTake k r) = rgHeap r" "rgCopyCap (semTake k r) = rgCopyCap r" "rgMaintCap (semTake k r) = rgMaintCap r"
  "rgWarm (semTake k r) = rgWarm r" "rgJobs (semTake k r) = rgJobs r" "rgTerminal (semTake k r) = rgTerminal r"
  "rgCopyHeld (semTake k r) = rgCopyHeld r + of_bool (k = SemCopy)"
  "rgMaintHeld (semTake k r) = rgMaintHeld r + of_bool (k = SemMaint)"
  by (auto simp: semTake_def split: semKind.splits)

lemma atPhase_Some: "atPhase phs i r = Some ob \<longleftrightarrow> map_of (rgHeap r) i = Some ob \<and> oPhase ob \<in> set phs"
  by (auto simp: atPhase_def split: option.splits)

lemma waitResult_state: "terminal (jState (waitResult now err j))" "jAction (waitResult now err j) = jAction j"
  by (auto simp: waitResult_def Let_def split: option.splits)

definition heldPos :: "jobRegistry \<Rightarrow> bool" where
  "heldPos r \<longleftrightarrow> (\<forall>i ob. map_of (rgHeap r) i = Some ob \<longrightarrow>
     (holds SemCopy ob \<longrightarrow> 0 < rgCopyHeld r) \<and> (holds SemMaint ob \<longrightarrow> 0 < rgMaintHeld r))"

lemma semInv_heldPos: "semInv r \<Longrightarrow> heldPos r"
  by (auto simp: semInv_def heldPos_def countObj_pos add_pos_nonneg)

lemma regExec_replaces:
  assumes "regExec now l r = Some r'" "heapInv r" "heldPos r"
    "\<not> (\<exists>i a b c d e f g. l = LStart i a b c d e f g)" "l \<noteq> LMaintAcquire" "l \<noteq> LMaintRelease"
  shows "r' = r \<or> (\<exists>i ob ob'. replaces i ob ob' r r')"
proof (cases l)
  case (LSlot i)
  with assms(1) obtain ob k where o: "map_of (rgHeap r) i = Some ob" "oPhase ob = Queued" "oSem ob = Some k" "semFree k r"
      "r' = takeSlot i ob r" by (auto simp: atPhase_Some split: option.splits if_splits)
  then have "objOk ob" using assms(2) by (simp add: heapInv_def)
  with o have "replaces i ob (ob\<lparr>oPhase := Spawning\<rparr>) r r'"
    by (auto simp: replaces_def takeSlot_def objOk_def holds_def Let_def; cases k; simp)
  then show ?thesis by blast
next
  case (LQueueCancel i)
  with assms(1) obtain ob where o: "map_of (rgHeap r) i = Some ob" "oPhase ob = Queued" "r' = finalizeUnstarted now i ob r"
    by (auto simp: atPhase_Some split: option.splits if_splits)
  then have "objOk ob" using assms(2) by (simp add: heapInv_def)
  with o assms(3) have "replaces i ob (unstartedObj now ob) r r'"
    by (auto simp: replaces_def objOk_def holds_def heldPos_def Let_def finalizeUnstarted_def unstartedObj_def terminalEvent_def)
  then show ?thesis by blast
next
  case (LPipeError i)
  with assms(1) obtain ob where o: "map_of (rgHeap r) i = Some ob" "oPhase ob = Spawning" "r' = spawnPipeError i ob r"
    by (auto simp: atPhase_Some split: option.splits if_splits)
  then have "objOk ob" using assms(2) by (simp add: heapInv_def)
  with o assms(3) have "replaces i ob (ob\<lparr>oPhase := Stuck, oCtx := True\<rparr>) r r'"
    by (auto simp: replaces_def objOk_def holds_def heldPos_def Let_def spawnPipeError_def)
  then show ?thesis by blast
next
  case (LStartError i err)
  with assms(1) obtain ob where o: "map_of (rgHeap r) i = Some ob" "oPhase ob = Spawning" "r' = spawnStartError now err i ob r"
    by (auto simp: atPhase_Some split: option.splits if_splits)
  then have "objOk ob" using assms(2) by (simp add: heapInv_def)
  with o assms(3) have "replaces i ob (startErrorObj now err ob) r r'"
    by (auto simp: replaces_def objOk_def holds_def heldPos_def Let_def spawnStartError_def startErrorObj_def terminalEvent_def)
  then show ?thesis by blast
next
  case (LStartOk i)
  with assms(1) obtain ob where o: "map_of (rgHeap r) i = Some ob" "oPhase ob = Spawning" "r' = setObj i (ob\<lparr>oPhase := Started\<rparr>) r"
    by (auto simp: atPhase_Some split: option.splits if_splits)
  then have "objOk ob" using assms(2) by (simp add: heapInv_def)
  with o assms(3) have "replaces i ob (ob\<lparr>oPhase := Started\<rparr>) r r'"
    by (auto simp: replaces_def objOk_def holds_def heldPos_def Let_def )
  then show ?thesis by blast
next
  case (LRunning i)
  with assms(1) obtain ob where o: "map_of (rgHeap r) i = Some ob" "oPhase ob = Started" "r' = spawnSetRunning now i ob r"
    by (auto simp: atPhase_Some split: option.splits if_splits)
  then have "objOk ob" using assms(2) by (simp add: heapInv_def)
  with o assms(3) have "replaces i ob (runningObj now ob) r r'"
    by (auto simp: replaces_def objOk_def holds_def heldPos_def Let_def spawnSetRunning_def runningObj_def)
  then show ?thesis by blast
next
  case (LLine i line)
  with assms(1) obtain ob where o: "map_of (rgHeap r) i = Some ob" "oPhase ob \<in> {Live, Exited, Ended}"
      "r' = setObj i (ob\<lparr>oJob := snd (tailLine now line (oJob ob))\<rparr>) r"
    by (auto simp: atPhase_Some split: option.splits if_splits)
  have "sameJob (oJob ob) (snd (tailLine now line (oJob ob)))" by (rule sameJob_tailLine)
  moreover have "objOk ob" using o assms(2) by (simp add: heapInv_def)
  ultimately have "replaces i ob (ob\<lparr>oJob := snd (tailLine now line (oJob ob))\<rparr>) r r'"
    using o by (auto simp: replaces_def objOk_def holds_def sameJob_def Let_def)
  then show ?thesis by blast
next
  case (LExit i err)
  with assms(1) obtain ob where o: "map_of (rgHeap r) i = Some ob" "oPhase ob = Live" "r' = spawnExit now err i ob r"
    by (auto simp: atPhase_Some split: option.splits if_splits)
  then have "objOk ob" using assms(2) by (simp add: heapInv_def)
  with o assms(3) have "replaces i ob (ob\<lparr>oJob := waitResult now err (oJob ob), oPhase := Exited\<rparr>) r r'"
    by (auto simp: replaces_def objOk_def holds_def heldPos_def Let_def spawnExit_def waitResult_state)
  then show ?thesis by blast
next
  case (LFinish i)
  with assms(1) obtain ob where o: "map_of (rgHeap r) i = Some ob" "oPhase ob = Exited" "r' = spawnFinish i ob r"
    by (auto simp: atPhase_Some split: option.splits if_splits)
  then have "objOk ob" using assms(2) by (simp add: heapInv_def)
  with o assms(3) have "replaces i ob (finishedObj ob) r r'"
    by (auto simp: replaces_def objOk_def holds_def heldPos_def Let_def spawnFinish_def finishedObj_def)
  then show ?thesis by blast
next
  case (LCancel i)
  show ?thesis
  proof (cases "fst (cancelJob i r)")
    case False
    with LCancel assms(1) show ?thesis by (auto simp: cancelJob_def split: option.splits if_splits)
  next
    case True
    with LCancel assms(1) obtain ob where o: "map_of (rgHeap r) i = Some ob" "jState (oJob ob) \<in> {JobRunning, JobPending}"
        "r' = setObj i (cancelledObj ob) r"
      by (auto simp: cancelJob_def split: option.splits if_splits)
    then have "objOk ob" using assms(2) by (simp add: heapInv_def)
    with o have "replaces i ob (cancelledObj ob) r r'"
      by (auto simp: replaces_def objOk_def holds_def cancelledObj_def Let_def split: jobPhase.splits)
    then show ?thesis by blast
  qed
next
  case (LCtxDone i)
  with assms(1) obtain ob where o: "map_of (rgHeap r) i = Some ob" "r' = setObj i (ob\<lparr>oCtx := True\<rparr>) r"
    by (auto split: option.splits)
  then have "objOk ob" using assms(2) by (simp add: heapInv_def)
  with o have "replaces i ob (ob\<lparr>oCtx := True\<rparr>) r r'"
    by (auto simp: replaces_def objOk_def holds_def Let_def split: jobPhase.splits)
  then show ?thesis by blast
qed (use assms in auto)

definition regInv :: "jobRegistry \<Rightarrow> bool" where
  "regInv r \<longleftrightarrow> heapInv r \<and> mapInv r \<and> semInv r"

lemma semFor_caps: "rgCopyCap r' = rgCopyCap r \<Longrightarrow> rgMaintCap r' = rgMaintCap r \<Longrightarrow> semFor r' = semFor r"
  by (rule ext) (simp only: semFor_def)

lemma heapInv_replaces: "heapInv r \<Longrightarrow> replaces i ob ob' r r' \<Longrightarrow> heapInv r'"
  using semFor_caps [of r' r] by (auto simp: heapInv_def replaces_def distinct_update update_conv' split: if_splits)

lemma evict_sets:
  assumes "insert i T = A \<union> D" "A \<inter> D = {}" "i \<in> D" "A \<subseteq> T" "T \<subseteq> J" "i \<in> J"
  shows "\<forall>k. k \<noteq> i \<longrightarrow> k \<in> J \<longrightarrow> k \<notin> T \<longrightarrow> k \<in> J \<and> k \<notin> A" "\<forall>k\<in>T. k \<in> J \<and> k \<notin> A \<longrightarrow> k \<in> D"
    "D \<subseteq> {x \<in> J. x \<notin> A}" "D \<subseteq> insert i T" "{x \<in> J. x \<notin> A} \<subseteq> J"
proof -
  have TD: "D \<subseteq> insert i T" "\<And>k. k \<in> T \<Longrightarrow> k \<in> A \<or> k \<in> D" using assms(1) by blast+
  show "D \<subseteq> insert i T" by (rule TD)
  show "\<forall>k. k \<noteq> i \<longrightarrow> k \<in> J \<longrightarrow> k \<notin> T \<longrightarrow> k \<in> J \<and> k \<notin> A" using assms(4) by blast
  show "\<forall>k\<in>T. k \<in> J \<and> k \<notin> A \<longrightarrow> k \<in> D" using TD(2) by blast
  show "D \<subseteq> {x \<in> J. x \<notin> A}" using TD(1) assms(2,5,6) by blast
qed blast

lemma markTerminated_map:
  assumes "mapInv r" "map_of (rgHeap r) i = Some ob" "oPhase ob \<noteq> Ended"
  shows "let t = markTerminated i r
    in distinct (rgJobs t) \<and> distinct (rgTerminal t) \<and> length (rgTerminal t) \<le> recentJobsRetained \<and>
       set (rgTerminal t) \<subseteq> set (rgJobs t) \<and> set (rgJobs t) \<subseteq> set (rgJobs r) \<and> i \<in> set (rgTerminal t) \<and>
       (\<forall>k. k \<noteq> i \<longrightarrow> k \<in> set (rgJobs r) \<longrightarrow> k \<notin> set (rgTerminal r) \<longrightarrow> k \<in> set (rgJobs t)) \<and>
       (\<forall>k\<in>set (rgTerminal r). k \<in> set (rgJobs t) \<longrightarrow> k \<in> set (rgTerminal t)) \<and> set (rgTerminal t) \<subseteq> insert i (set (rgTerminal r))"
proof -
  let ?t = "rgTerminal r @ [i]" and ?n = "length (rgTerminal r @ [i]) - recentJobsRetained"
  have i: "i \<notin> set (rgTerminal r)" "i \<in> set (rgJobs r)" using assms by (auto simp: mapInv_def)
  have d: "distinct ?t" using assms(1) i by (simp add: mapInv_def)
  have n: "?n \<le> length (rgTerminal r)" using assms(1) by (simp add: mapInv_def recentJobsRetained_def)
  have split: "set ?t = set (take ?n ?t) \<union> set (drop ?n ?t)" by (metis append_take_drop_id set_append)
  have disj: "set (take ?n ?t) \<inter> set (drop ?n ?t) = {}" by (rule set_take_disj_set_drop_if_distinct [OF d order_refl])
  have it: "i \<in> set (drop ?n ?t)" using n by simp
  have tk: "set (take ?n ?t) \<subseteq> set (rgTerminal r)" using n by (simp add: set_take_subset)
  have t: "rgTerminal (markTerminated i r) = drop ?n ?t" "rgJobs (markTerminated i r) = filter (\<lambda>x. x \<notin> set (take ?n ?t)) (rgJobs r)"
    by (simp_all add: markTerminated_def Let_def del: drop_append take_append)
  have sub: "set (rgTerminal r) \<subseteq> set (rgJobs r)" "distinct (rgJobs r)" using assms(1) by (simp_all add: mapInv_def)
  have st: "set ?t = insert i (set (rgTerminal r))" by simp
  have dd: "distinct (drop ?n ?t)" using d by (rule distinct_drop)
  have len: "length (drop ?n ?t) \<le> recentJobsRetained" by (simp del: drop_append)
  define A where "A = take ?n ?t"
  define D where "D = drop ?n ?t"
  note facts = sub i split [folded A_def D_def, unfolded st] disj [folded A_def D_def] it [folded D_def] tk [folded A_def]
    dd [folded D_def] len [folded D_def]
  have g: "\<forall>k. k \<noteq> i \<longrightarrow> k \<in> set (rgJobs r) \<longrightarrow> k \<notin> set (rgTerminal r) \<longrightarrow> k \<in> set (rgJobs r) \<and> k \<notin> set A"
      "\<forall>k\<in>set (rgTerminal r). k \<in> set (rgJobs r) \<and> k \<notin> set A \<longrightarrow> k \<in> set D"
      "set D \<subseteq> {x \<in> set (rgJobs r). x \<notin> set A}" "set D \<subseteq> insert i (set (rgTerminal r))"
      "{x \<in> set (rgJobs r). x \<notin> set A} \<subseteq> set (rgJobs r)"
    by (rule evict_sets [OF facts(5) facts(6) facts(7) facts(8) facts(1) facts(4)])+
  show ?thesis
    unfolding Let_def t [folded A_def D_def] set_filter mem_Collect_eq
    using g facts(2,7,9,10) by (intro conjI distinct_filter) assumption+
qed

lemma mapInv_replaces:
  assumes inv: "mapInv r" and rep: "replaces i ob ob' r r'"
  shows "mapInv r'"
proof (cases "oPhase ob \<noteq> Ended \<and> oPhase ob' = Ended")
  case False
  have heap: "map_of (rgHeap r) i = Some ob" "map_of (rgHeap r') = (map_of (rgHeap r))(i \<mapsto> ob')"
      "rgJobs r' = rgJobs r" "rgTerminal r' = rgTerminal r" "oPhase ob = Ended \<longleftrightarrow> oPhase ob' = Ended"
      "fst ` set (rgHeap r') = insert i (fst ` set (rgHeap r))"
    using rep False by (auto simp: replaces_def update_conv' dom_update Let_def)
  then show ?thesis using inv by (auto simp: mapInv_def split: if_splits)
next
  case True
  have heap: "map_of (rgHeap r) i = Some ob" "map_of (rgHeap r') = (map_of (rgHeap r))(i \<mapsto> ob')"
      "rgJobs r' = rgJobs (markTerminated i r)" "rgTerminal r' = rgTerminal (markTerminated i r)"
      "fst ` set (rgHeap r') = insert i (fst ` set (rgHeap r))"
    using rep True by (auto simp: replaces_def update_conv' dom_update Let_def)
  note t = markTerminated_map [OF inv heap(1), unfolded Let_def]
  have old: "map_of (rgHeap r) k = Some x \<Longrightarrow> (oPhase x \<noteq> Ended \<longrightarrow> k \<in> set (rgJobs r) \<and> k \<notin> set (rgTerminal r)) \<and>
      (oPhase x = Ended \<longrightarrow> k \<in> set (rgJobs r) \<longrightarrow> k \<in> set (rgTerminal r))" for k x
    using inv by (simp add: mapInv_def)
  have "set (rgJobs r) \<subseteq> fst ` set (rgHeap r)" using inv by (simp add: mapInv_def)
  then show ?thesis
    using t True old heap(2-5) unfolding mapInv_def by (auto split: if_splits)
qed

lemma semInv_replaces:
  assumes "semInv r" "distinct (map fst (rgHeap r))" "replaces i ob ob' r r'"
  shows "semInv r'"
proof -
  have h: "map_of (rgHeap r) i = Some ob" "rgHeap r' = AList.update i ob' (rgHeap r)"
    using assms(3) by (simp_all add: replaces_def)
  have c: "countObj P (rgHeap r') + of_bool (P ob) = countObj P (rgHeap r) + of_bool (P ob')" for P
    unfolding h(2) by (rule countObj_update [OF assms(2) h(1)])
  have "rgCopyHeld r' = countObj (holds SemCopy) (rgHeap r')" "rgMaintHeld r' = countObj (holds SemMaint) (rgHeap r') + rgWarm r'"
    using assms(1,3) c [of "holds SemCopy"] c [of "holds SemMaint"] by (auto simp: semInv_def replaces_def)
  moreover have "rgCopyHeld r' \<le> c" if "rgCopyCap r' = Some c" for c
  proof -
    have "rgCopyCap r = Some c" "rgCopyHeld r \<le> c" using assms(1,3) that by (auto simp: semInv_def replaces_def)
    moreover have "rgCopyHeld r' + of_bool (holds SemCopy ob) = rgCopyHeld r + of_bool (holds SemCopy ob')"
      "holds SemCopy ob' \<Longrightarrow> holds SemCopy ob \<or> semFree SemCopy r" using assms(3) by (simp_all add: replaces_def)
    ultimately show ?thesis by (cases "holds SemCopy ob"; cases "holds SemCopy ob'") (auto simp: semFree_def)
  qed
  moreover have "rgMaintHeld r' \<le> c" if "rgMaintCap r' = Some c" for c
  proof -
    have "rgMaintCap r = Some c" "rgMaintHeld r \<le> c" using assms(1,3) that by (auto simp: semInv_def replaces_def)
    moreover have "rgMaintHeld r' + of_bool (holds SemMaint ob) = rgMaintHeld r + of_bool (holds SemMaint ob')"
      "holds SemMaint ob' \<Longrightarrow> holds SemMaint ob \<or> semFree SemMaint r" using assms(3) by (simp_all add: replaces_def)
    ultimately show ?thesis by (cases "holds SemMaint ob"; cases "holds SemMaint ob'") (auto simp: semFree_def)
  qed
  ultimately show ?thesis by (simp add: semInv_def)
qed

lemma regInv_start:
  assumes "regInv r" "i \<notin> fst ` set (rgHeap r)"
  shows "regInv (startJob i a b act d e f g r)"
proof -
  let ?r' = "startJob i a b act d e f g r"
  obtain ob where ob: "rgHeap ?r' = AList.update i ob (rgHeap r)" "rgJobs ?r' = i # rgJobs r" "rgTerminal ?r' = rgTerminal r"
      "rgCopyCap ?r' = rgCopyCap r" "rgMaintCap ?r' = rgMaintCap r" "rgCopyHeld ?r' = rgCopyHeld r" "rgMaintHeld ?r' = rgMaintHeld r"
      "rgWarm ?r' = rgWarm r" "objOk ob" "oSem ob = semFor r (jAction (oJob ob))" "oPhase ob \<noteq> Ended" "\<not> holds k ob" for k
  proof
    let ?ob = "\<lparr>oJob = newJob i a b act d e f g, oSem = semFor r act,
                oPhase = (if semFor r act = None then Spawning else Queued), oCtx = False, oCleanups = 0, oEvents = []\<rparr>"
    show "objOk ?ob" "oSem ?ob = semFor r (jAction (oJob ?ob))" "oPhase ?ob \<noteq> Ended" "\<not> holds k ?ob" for k
      by (auto simp: objOk_def newJob_def holds_def)
  qed (simp_all add: startJob_def Let_def)
  have h: "heapInv ?r'" using assms(1) ob semFor_caps [of ?r' r]
    by (auto simp: regInv_def heapInv_def distinct_update update_conv' split: if_splits)
  have new: "map_of (rgHeap r) i = None" using assms(2) by (simp add: map_of_eq_None_iff)
  have "set (rgJobs r) \<subseteq> fst ` set (rgHeap r)" "set (rgTerminal r) \<subseteq> set (rgJobs r)"
    using assms(1) by (auto simp: regInv_def mapInv_def)
  then have ij: "i \<notin> set (rgJobs r)" "i \<notin> set (rgTerminal r)" using assms(2) by auto
  have m: "mapInv ?r'"
    using assms(1) ob ij by (auto simp: regInv_def mapInv_def update_conv' dom_update split: if_splits)
  have "countObj (holds k) (rgHeap ?r') = countObj (holds k) (rgHeap r)" for k
    using ob(1,12) countObj_new [OF assms(2)] by simp
  moreover have "semInv r" using assms(1) by (simp add: regInv_def)
  ultimately have "semInv ?r'" unfolding semInv_def ob(4-8) by metis
  with h m show ?thesis by (simp add: regInv_def)
qed

lemma startJob_caps:
  "rgCopyCap (startJob i a b c d e f g r) = rgCopyCap r" "rgMaintCap (startJob i a b c d e f g r) = rgMaintCap r"
  by (simp_all add: startJob_def Let_def)

lemma regInv_exec: "regInv r \<Longrightarrow> regExec now l r = Some r' \<Longrightarrow> regInv r' \<and> rgCopyCap r' = rgCopyCap r \<and> rgMaintCap r' = rgMaintCap r"
proof -
  assume inv: "regInv r" and ex: "regExec now l r = Some r'"
  consider (start) i a b c d e f g where "l = LStart i a b c d e f g" | (acq) "l = LMaintAcquire" | (rel) "l = LMaintRelease"
    | (other) "\<not> (\<exists>i a b c d e f g. l = LStart i a b c d e f g)" "l \<noteq> LMaintAcquire" "l \<noteq> LMaintRelease" by blast
  then show "regInv r' \<and> rgCopyCap r' = rgCopyCap r \<and> rgMaintCap r' = rgMaintCap r"
  proof cases
    case start
    then have "r' = startJob i a b c d e f g r" "i \<notin> fst ` set (rgHeap r)" using ex by (auto split: if_splits)
    then show ?thesis using regInv_start [OF inv] by (simp add: startJob_caps)
  next
    case acq
    then show ?thesis using inv ex semFor_caps [of r' r]
      by (auto simp: regInv_def heapInv_def mapInv_def semInv_def semFree_def split: if_splits option.splits)
  next
    case rel
    then show ?thesis using inv ex semFor_caps [of r' r]
      by (auto simp: regInv_def heapInv_def mapInv_def semInv_def split: if_splits)
  next
    case other
    have "heldPos r" "heapInv r" using inv semInv_heldPos by (auto simp: regInv_def)
    with regExec_replaces [OF ex] other consider "r' = r" | i ob ob' where "replaces i ob ob' r r'" by blast
    then show ?thesis
    proof cases
      case 2
      have parts: "heapInv r" "mapInv r" "semInv r" "distinct (map fst (rgHeap r))"
        using inv by (simp_all add: regInv_def heapInv_def)
      have "rgCopyCap r' = rgCopyCap r" "rgMaintCap r' = rgMaintCap r" using 2 by (simp_all add: replaces_def)
      then show ?thesis
        using heapInv_replaces [OF parts(1) 2] mapInv_replaces [OF parts(2) 2] semInv_replaces [OF parts(3,4) 2]
        by (simp add: regInv_def)
    qed (use inv in simp)
  qed
qed

lemma regInv_new: "regInv (newJobRegistry c m)"
  by (simp add: regInv_def heapInv_def mapInv_def semInv_def newJobRegistry_def countObj_def)

lemma reachable_inv:
  "reachable c m r \<Longrightarrow> regInv r \<and> rgCopyCap r = rgCopyCap (newJobRegistry c m) \<and> rgMaintCap r = rgMaintCap (newJobRegistry c m)"
  by (induction rule: reachable.induct) (auto simp: regInv_new dest: regInv_exec)

end
