(* ===== verification/JobRuns.thy ===== *)
theory JobRuns
  imports Jobs
begin

text \<open>
  What the interleavings of the job registry guarantee: the concurrency caps, the retention of jobs,
  one terminal event and one cleanup per finished job, cancellation, and that the registry can always
  drain. \<open>regRun\<close> executes a list of timed actions.
\<close>

fun regRun :: "(int \<times> regLabel) list \<Rightarrow> jobRegistry \<Rightarrow> jobRegistry option" where
  "regRun [] r = Some r"
| "regRun ((now, l) # ls) r = (case regExec now l r of None \<Rightarrow> None | Some r' \<Rightarrow> regRun ls r')"

lemma reachable_run: "reachable c m r \<Longrightarrow> regRun ls r = Some r' \<Longrightarrow> reachable c m r'"
  by (induction ls r rule: regRun.induct) (auto split: option.splits dest: reachable.step)

lemma reachable_start: "regRun ls (newJobRegistry c m) = Some r \<Longrightarrow> reachable c m r"
  using reachable_run reachable.init by blast

lemma regRun_append: "regRun (xs @ ys) r = (case regRun xs r of None \<Rightarrow> None | Some r' \<Rightarrow> regRun ys r')"
  by (induction xs r rule: regRun.induct) (auto split: option.splits)

lemma reachable_obj:
  assumes "reachable c m r" "map_of (rgHeap r) i = Some ob"
  shows "objOk ob" "oSem ob = semFor r (jAction (oJob ob))"
  using reachable_inv [OF assms(1)] assms(2) by (auto simp: regInv_def heapInv_def)

text \<open>Processes of the given actions that are started and not yet waited for.\<close>

definition liveProcs :: "JobAction list \<Rightarrow> jobRegistry \<Rightarrow> nat" where
  "liveProcs acts r = countObj (\<lambda>ob. jAction (oJob ob) \<in> set acts \<and> oPhase ob \<in> {Started, Live}) (rgHeap r)"

lemma countObj_mono:
  "(\<And>i ob. (i, ob) \<in> set h \<Longrightarrow> P ob \<Longrightarrow> Q ob) \<Longrightarrow> countObj P h \<le> countObj Q h"
proof (induction h)
  case (Cons x h)
  then have "countObj P h \<le> countObj Q h" by auto
  then show ?case using Cons.prems [of "fst x" "snd x"] by (auto simp: countObj_def)
qed (simp add: countObj_def)

lemma liveProcs_holds:
  assumes "reachable c m r" "\<And>a. a \<in> set acts \<Longrightarrow> semFor r a = Some k"
  shows "liveProcs acts r \<le> countObj (holds k) (rgHeap r)"
  unfolding liveProcs_def
proof (rule countObj_mono)
  fix i ob assume ob: "(i, ob) \<in> set (rgHeap r)" and p: "jAction (oJob ob) \<in> set acts \<and> oPhase ob \<in> {Started, Live}"
  have "distinct (map fst (rgHeap r))" using reachable_inv [OF assms(1)] by (simp add: regInv_def heapInv_def)
  then have "map_of (rgHeap r) i = Some ob" using ob by simp
  then show "holds k ob" using reachable_obj(2) [OF assms(1)] p assms(2) by (auto simp: holds_def)
qed

text \<open>C10. In every reachable state of the registry no more than \<open>maxConcurrentCopies\<close> copy processes
  run, and the running check and prune processes together with the cache warmer's slots are no more than
  \<open>maxConcurrentMaint\<close>, whatever the interleaving of starts, cancels, failures and exits.\<close>

theorem live_processes_bounded:
  assumes "reachable copies maint r" "0 < copies" "0 < maint"
  shows "int (liveProcs [ActionCopy] r) \<le> copies \<and> int (liveProcs [ActionCheck, ActionPrune] r) + int (rgWarm r) \<le> maint"
proof -
  have inv: "semInv r" "rgCopyCap r = Some (nat copies)" "rgMaintCap r = Some (nat maint)"
    using reachable_inv [OF assms(1)] assms(2,3) by (simp_all add: regInv_def newJobRegistry_def)
  have "liveProcs [ActionCopy] r \<le> countObj (holds SemCopy) (rgHeap r)"
    by (rule liveProcs_holds [OF assms(1)]) (simp add: semFor_def inv)
  moreover have "liveProcs [ActionCheck, ActionPrune] r \<le> countObj (holds SemMaint) (rgHeap r)"
    by (rule liveProcs_holds [OF assms(1)]) (auto simp: semFor_def inv ActionCheck_def ActionPrune_def ActionCopy_def)
  ultimately show ?thesis using inv assms(2,3) by (auto simp: semInv_def)
qed

definition exTrace :: "(int \<times> regLabel) list" where
  "exTrace =
     [(1, LStart ''a'' ''r'' ''/p'' ActionCopy ''nas'' [''copy''] [] ''manual''), (2, LSlot ''a''),
      (3, LStart ''b'' ''r'' ''/p'' ActionCopy ''s3'' [''copy''] [] ''manual''), (4, LStartOk ''a''), (5, LRunning ''a'')]"

definition exReg :: jobRegistry where
  "exReg = (case regRun exTrace (newJobRegistry 1 1) of None \<Rightarrow> newJobRegistry 1 1 | Some r \<Rightarrow> r)"

lemma exReg_run: "regRun exTrace (newJobRegistry 1 1) = Some exReg"
proof -
  have "regRun exTrace (newJobRegistry 1 1) \<noteq> None" by code_simp
  then show ?thesis by (auto simp: exReg_def)
qed

lemma exReg_reachable: "reachable 1 1 exReg"
  by (rule reachable_start [OF exReg_run])

text \<open>Witness: one copy running and one queued.\<close>

theorem live_processes_bounded_witness:
  "reachable 1 1 exReg \<and> liveProcs [ActionCopy] exReg = 1 \<and> int (liveProcs [ActionCopy] exReg) \<le> 1 \<and>
   int (liveProcs [ActionCheck, ActionPrune] exReg) + int (rgWarm exReg) \<le> 1"
proof -
  have "liveProcs [ActionCopy] exReg = 1" by code_simp
  then show ?thesis using exReg_reachable live_processes_bounded [of 1 1 exReg] by simp
qed

section \<open>Retention\<close>

definition activeJobs :: "jobRegistry \<Rightarrow> nat" where
  "activeJobs r = countObj (\<lambda>ob. oPhase ob \<noteq> Ended) (rgHeap r)"

lemma activeJobs_card:
  "distinct (map fst h) \<Longrightarrow> card {i. \<exists>ob. map_of h i = Some ob \<and> P ob} = countObj P h"
proof (induction h)
  case (Cons x h)
  obtain i0 ob0 where x: "x = (i0, ob0)" by (cases x)
  have new: "map_of h i0 = None" using Cons.prems x by (simp add: map_of_eq_None_iff)
  have fin: "finite {i. \<exists>ob. map_of h i = Some ob \<and> P ob}"
    by (rule finite_subset [of _ "dom (map_of h)"]) (auto simp: finite_dom_map_of)
  have "{i. \<exists>ob. map_of (x # h) i = Some ob \<and> P ob} =
      (if P ob0 then insert i0 else (\<lambda>A. A)) {i. \<exists>ob. map_of h i = Some ob \<and> P ob}"
    using new by (auto simp: x)
  moreover have "i0 \<notin> {i. \<exists>ob. map_of h i = Some ob \<and> P ob}" using new by simp
  ultimately show ?case using Cons fin by (simp add: x countObj_def del: map_of_eq_Some_iff)
qed (simp add: countObj_def)

lemma reachable_registered:
  assumes "reachable c m r"
  shows "set (rgJobs r) = {i. \<exists>ob. map_of (rgHeap r) i = Some ob \<and> oPhase ob \<noteq> Ended} \<union> set (rgTerminal r)"
proof -
  have inv: "mapInv r" using reachable_inv [OF assms] by (simp add: regInv_def)
  have "i \<in> set (rgJobs r) \<Longrightarrow> \<exists>ob. map_of (rgHeap r) i = Some ob" for i
    using inv by (auto simp: mapInv_def map_of_eq_None_iff split: option.splits) (metis map_of_eq_None_iff option.exhaust subsetD)
  then show ?thesis using inv unfolding mapInv_def by blast
qed

text \<open>C21. The registry keeps a bounded number of jobs and never forgets an unfinished one: in every
  reachable state the terminal ring has at most 50 ids, each of a registered finished job; every job that
  is not finished is registered; and the map holds at most 50 jobs more than the unfinished ones.\<close>

theorem registry_retention:
  assumes "reachable copies maint r"
  shows "length (rgTerminal r) \<le> recentJobsRetained \<and> set (rgTerminal r) \<subseteq> set (rgJobs r) \<and>
    (\<forall>i ob. map_of (rgHeap r) i = Some ob \<longrightarrow> oPhase ob \<noteq> Ended \<longrightarrow> i \<in> set (rgJobs r)) \<and>
    length (rgJobs r) \<le> activeJobs r + recentJobsRetained"
proof -
  have inv: "mapInv r" "heapInv r" using reachable_inv [OF assms] by (simp_all add: regInv_def)
  have "length (rgJobs r) = card (set (rgJobs r))" using inv by (simp add: mapInv_def distinct_card)
  also have "\<dots> \<le> card {i. \<exists>ob. map_of (rgHeap r) i = Some ob \<and> oPhase ob \<noteq> Ended} + card (set (rgTerminal r))"
    unfolding reachable_registered [OF assms] by (rule card_Un_le)
  also have "\<dots> \<le> activeJobs r + recentJobsRetained"
    using inv activeJobs_card [of "rgHeap r"] by (simp add: activeJobs_def heapInv_def mapInv_def distinct_card)
  finally show ?thesis using inv by (auto simp: mapInv_def)
qed

text \<open>Witness.\<close>

theorem registry_retention_witness:
  "length (rgJobs exReg) = 2 \<and> length (rgJobs exReg) \<le> activeJobs exReg + recentJobsRetained \<and> activeJobs exReg = 2"
proof -
  have "length (rgJobs exReg) = 2" "activeJobs exReg = 2" by code_simp+
  then show ?thesis using registry_retention [OF exReg_reachable] by simp
qed

section \<open>Terminal events\<close>

definition isTerminalEvent :: "JobEvent \<Rightarrow> bool" where
  "isTerminalEvent e = (e \<in> {EventCompleted, EventFailed, EventCancelled})"

text \<open>C11. A finished job has run its cleanup exactly once and emitted exactly one terminal event, as its
  last event and the one its final state calls for; a job that is not finished has done neither.\<close>

theorem job_finalised_once:
  assumes "reachable copies maint r" "map_of (rgHeap r) i = Some ob"
  shows "if oPhase ob = Ended
    then oCleanups ob = 1 \<and> terminal (jState (oJob ob)) \<and> filter isTerminalEvent (oEvents ob) = [terminalEvent (jState (oJob ob))] \<and>
         last (oEvents ob) = terminalEvent (jState (oJob ob))
    else oCleanups ob = 0 \<and> filter isTerminalEvent (oEvents ob) = []"
proof -
  have e: "isTerminalEvent (terminalEvent st)" "\<not> isTerminalEvent EventStarted" for st
    by (auto simp: isTerminalEvent_def terminalEvent_def split: JobState.splits)
  have ok: "objOk ob" by (rule reachable_obj(1) [OF assms])
  then show ?thesis
    by (cases "oPhase ob") (auto simp: objOk_def Let_def e)
qed

definition exDone :: jobRegistry where
  "exDone = (case regRun (exTrace @ [(6, LExit ''a'' None), (7, LFinish ''a'')]) (newJobRegistry 1 1) of None \<Rightarrow> newJobRegistry 1 1 | Some r \<Rightarrow> r)"

lemma exDone_reachable: "reachable 1 1 exDone"
proof -
  have "regRun (exTrace @ [(6, LExit ''a'' None), (7, LFinish ''a'')]) (newJobRegistry 1 1) \<noteq> None" by code_simp
  then have "regRun (exTrace @ [(6, LExit ''a'' None), (7, LFinish ''a'')]) (newJobRegistry 1 1) = Some exDone"
    by (auto simp: exDone_def)
  then show ?thesis by (rule reachable_start)
qed

text \<open>Witness.\<close>

theorem job_finalised_once_witness:
  "\<exists>ob. map_of (rgHeap exDone) ''a'' = Some ob \<and> oPhase ob = Ended \<and> oCleanups ob = 1 \<and> terminalEvent (jState (oJob ob)) = EventCompleted \<and>
     filter isTerminalEvent (oEvents ob) = [EventCompleted]"
proof -
  have "map_option (\<lambda>ob. (oPhase ob, terminalEvent (jState (oJob ob)))) (map_of (rgHeap exDone) ''a'') = Some (Ended, EventCompleted)"
    by code_simp
  then show ?thesis using job_finalised_once [OF exDone_reachable, of "''a''"] by auto
qed

section \<open>Draining\<close>

fun phaseRank :: "jobPhase \<Rightarrow> nat" where
  "phaseRank Queued = 5"
| "phaseRank Spawning = 4"
| "phaseRank Started = 3"
| "phaseRank Live = 2"
| "phaseRank Exited = 1"
| "phaseRank Ended = 0"
| "phaseRank Stuck = 0"

definition regRank :: "jobRegistry \<Rightarrow> nat" where
  "regRank r = sum_list (map (\<lambda>x. phaseRank (oPhase (snd x))) (rgHeap r)) + rgWarm r"

text \<open>The steps by which the jobs that exist go on, and by which the warmer gives its slots back: no new job, no cancellation, no pipe error.\<close>

definition ownStep :: "regLabel \<Rightarrow> bool" where
  "ownStep l = (case l of LSlot _ \<Rightarrow> True | LQueueCancel _ \<Rightarrow> True | LStartError _ _ \<Rightarrow> True | LStartOk _ \<Rightarrow> True | LRunning _ \<Rightarrow> True
     | LExit _ _ \<Rightarrow> True | LFinish _ \<Rightarrow> True | LMaintRelease \<Rightarrow> True | _ \<Rightarrow> False)"

lemma sum_rank_update:
  "distinct (map fst h) \<Longrightarrow> map_of h i = Some ob \<Longrightarrow>
   sum_list (map (\<lambda>x. f (snd x)) (AList.update i ob' h)) + f ob = sum_list (map (\<lambda>x. f (snd x)) h) + (f ob' :: nat)"
proof (induction h)
  case (Cons x h)
  then show ?case by (cases x) auto
qed simp

lemma regRank_less:
  assumes "distinct (map fst (rgHeap r))" "map_of (rgHeap r) i = Some ob" "rgHeap r' = AList.update i ob' (rgHeap r)"
    "rgWarm r' = rgWarm r" "phaseRank (oPhase ob') < phaseRank (oPhase ob)"
  shows "regRank r' < regRank r"
  using sum_rank_update [OF assms(1,2), of "\<lambda>ob. phaseRank (oPhase ob)" ob'] assms(3-5) by (simp add: regRank_def)

lemma ownStep_moves:
  assumes "regExec now l r = Some r'" "ownStep l"
  shows "(rgHeap r' = rgHeap r \<and> rgWarm r' < rgWarm r) \<or>
    (rgWarm r' = rgWarm r \<and> (\<exists>i ob ob'. map_of (rgHeap r) i = Some ob \<and> rgHeap r' = AList.update i ob' (rgHeap r) \<and>
       phaseRank (oPhase ob') < phaseRank (oPhase ob) \<and> oPhase ob' \<noteq> Stuck))"
proof (cases l)
  case LMaintRelease
  then show ?thesis using assms(1) by (auto split: if_splits)
qed (use assms in \<open>fastforce simp: ownStep_def atPhase_def takeSlot_def finalizeUnstarted_def unstartedObj_def spawnStartError_def startErrorObj_def
      spawnSetRunning_def runningObj_def spawnExit_def spawnFinish_def finishedObj_def Let_def split: option.splits if_splits\<close>)+

lemma ownStep_less:
  assumes "regExec now l r = Some r'" "ownStep l" "distinct (map fst (rgHeap r))"
  shows "regRank r' < regRank r"
  using ownStep_moves [OF assms(1,2)] regRank_less [OF assms(3)] by (auto simp: regRank_def)

lemma ownStep_keeps:
  assumes "regExec now l r = Some r'" "ownStep l" "map_of (rgHeap r) i = Some ob"
  shows "\<exists>ob'. map_of (rgHeap r') i = Some ob' \<and> (if oPhase ob = Stuck then ob' = ob else oPhase ob' \<noteq> Stuck)"
  using ownStep_moves [OF assms(1,2)] assms(3) by (cases "oPhase ob = Stuck") (auto simp: update_conv')

lemma holder_advances:
  assumes "map_of (rgHeap r) i = Some ob" "oPhase ob \<in> {Spawning, Started, Live, Exited}"
  shows "\<exists>l. ownStep l \<and> regExec 0 l r \<noteq> None"
proof -
  consider "oPhase ob = Spawning" | "oPhase ob = Started" | "oPhase ob = Live" | "oPhase ob = Exited" using assms(2) by blast
  then show ?thesis
  proof cases
    case 1
    then show ?thesis using assms(1) by (intro exI [of _ "LStartError i []"]) (simp add: atPhase_def ownStep_def)
  next
    case 2
    then show ?thesis using assms(1) by (intro exI [of _ "LRunning i"]) (simp add: atPhase_def ownStep_def)
  next
    case 3
    then show ?thesis using assms(1) by (intro exI [of _ "LExit i None"]) (simp add: atPhase_def ownStep_def)
  next
    case 4
    then show ?thesis using assms(1) by (intro exI [of _ "LFinish i"]) (simp add: atPhase_def ownStep_def)
  qed
qed

lemma countObj_none: "(\<And>i ob. map_of h i = Some ob \<Longrightarrow> \<not> P ob) \<Longrightarrow> distinct (map fst h) \<Longrightarrow> countObj P h = 0"
  by (auto simp: countObj_def filter_empty_conv)

lemma cap_positive:
  assumes "reachable c m r" shows "rgCopyCap r = Some k \<Longrightarrow> 0 < k" "rgMaintCap r = Some k \<Longrightarrow> 0 < k"
  using reachable_inv [OF assms] by (auto simp: newJobRegistry_def split: if_splits)

lemma none_holding:
  assumes "reachable c m r" "\<And>j x. map_of (rgHeap r) j = Some x \<Longrightarrow> oPhase x \<notin> {Spawning, Started, Live, Exited}" "rgWarm r = 0"
  shows "rgCopyHeld r = 0" "rgMaintHeld r = 0"
proof -
  have inv: "semInv r" "distinct (map fst (rgHeap r))" using reachable_inv [OF assms(1)] by (simp_all add: regInv_def heapInv_def)
  have "countObj (holds k) (rgHeap r) = 0" for k
    by (rule countObj_none [OF _ inv(2)]) (use assms(2) in \<open>auto simp: holds_def\<close>)
  then show "rgCopyHeld r = 0" "rgMaintHeld r = 0" using inv(1) assms(3) by (simp_all add: semInv_def)
qed

lemma stalled_ended:
  assumes "reachable c m r" "\<forall>now l. ownStep l \<longrightarrow> regExec now l r = None"
  shows "map_of (rgHeap r) i = Some ob \<Longrightarrow> oPhase ob \<in> {Ended, Stuck}" "rgCopyHeld r = 0" "rgMaintHeld r = 0"
proof -
  have none: "oPhase x \<notin> {Spawning, Started, Live, Exited}" if "map_of (rgHeap r) j = Some x" for j x
  proof
    assume "oPhase x \<in> {Spawning, Started, Live, Exited}"
    then show False using holder_advances [OF that] assms(2) by metis
  qed
  have "ownStep LMaintRelease" by (simp add: ownStep_def)
  then have "regExec 0 LMaintRelease r = None" using assms(2) by blast
  then have warm: "rgWarm r = 0" by (simp split: if_splits)
  show held: "rgCopyHeld r = 0" "rgMaintHeld r = 0" by (rule none_holding [OF assms(1) none warm], assumption)+
  show "oPhase ob \<in> {Ended, Stuck}" if ob: "map_of (rgHeap r) i = Some ob"
  proof (rule ccontr)
    assume "oPhase ob \<notin> {Ended, Stuck}"
    then have q: "oPhase ob = Queued" using none [OF ob] by (cases "oPhase ob") auto
    obtain k where k: "oSem ob = Some k" using reachable_obj(1) [OF assms(1) ob] q by (auto simp: objOk_def Let_def)
    with reachable_obj(2) [OF assms(1) ob] have "semFree k r"
      using held cap_positive [OF assms(1)] by (auto simp: semFor_def semFree_def split: if_splits)
    then have "regExec 0 (LSlot i) r \<noteq> None" using k ob q by (simp add: atPhase_def)
    moreover have "ownStep (LSlot i)" by (simp add: ownStep_def)
    ultimately show False using assms(2) by metis
  qed
qed

lemma ownRun_bounded:
  "reachable c m r \<Longrightarrow> regRun ls r = Some r' \<Longrightarrow> list_all (\<lambda>x. ownStep (snd x)) ls \<Longrightarrow>
   length ls + regRank r' \<le> regRank r \<and> (\<forall>i ob. map_of (rgHeap r) i = Some ob \<longrightarrow>
     (\<exists>ob'. map_of (rgHeap r') i = Some ob' \<and> (if oPhase ob = Stuck then ob' = ob else oPhase ob' \<noteq> Stuck)))"
proof (induction ls r rule: regRun.induct)
  case (2 now l ls r)
  then obtain r1 where r1: "regExec now l r = Some r1" "regRun ls r1 = Some r'" by (auto split: option.splits)
  have reach: "reachable c m r1" by (rule reachable.step [OF "2.prems"(1) r1(1)])
  have own: "ownStep l" "list_all (\<lambda>x. ownStep (snd x)) ls" using "2.prems"(3) by simp_all
  note ih = "2.IH" [OF r1(1) reach r1(2) own(2)]
  have "distinct (map fst (rgHeap r))" using reachable_inv [OF "2.prems"(1)] by (simp add: regInv_def heapInv_def)
  then have "length ((now, l) # ls) + regRank r' \<le> regRank r" using ih ownStep_less [OF r1(1) own(1)] by simp
  moreover have "\<exists>ob'. map_of (rgHeap r') i = Some ob' \<and> (if oPhase ob = Stuck then ob' = ob else oPhase ob' \<noteq> Stuck)"
    if "map_of (rgHeap r) i = Some ob" for i ob
    using ownStep_keeps [OF r1(1) own(1) that] ih by (metis (no_types, lifting))
  ultimately show ?case by blast
qed auto

lemma ownRun_exists:
  "reachable c m r \<Longrightarrow> \<exists>ls r'. list_all (\<lambda>x. ownStep (snd x)) ls \<and> regRun ls r = Some r' \<and> (\<forall>now l. ownStep l \<longrightarrow> regExec now l r' = None)"
proof (induction "regRank r" arbitrary: r rule: less_induct)
  case less
  show ?case
  proof (cases "\<forall>now l. ownStep l \<longrightarrow> regExec now l r = None")
    case True
    then show ?thesis by (intro exI [of _ "[]"] exI [of _ r]) simp
  next
    case False
    then obtain now l r1 where l: "ownStep l" "regExec now l r = Some r1" by auto
    have "distinct (map fst (rgHeap r))" using reachable_inv [OF less.prems] by (simp add: regInv_def heapInv_def)
    then obtain ls r' where "list_all (\<lambda>x. ownStep (snd x)) ls" "regRun ls r1 = Some r'" "\<forall>now l. ownStep l \<longrightarrow> regExec now l r' = None"
      using less.hyps [OF ownStep_less [OF l(2,1)] reachable.step [OF less.prems l(2)]] by blast
    then show ?thesis using l by (intro exI [of _ "(now, l) # ls"] exI [of _ r']) simp
  qed
qed

text \<open>C12. The registry drains, in whatever order things happen. Once no new job comes, no job is cancelled and no further pipe fails, the jobs can go on in at most
  \<open>regRank\<close> steps of their own (take a slot, start or fail to, exit, finish), and whenever none of them can take
  a step any more, no slot is held and every job has ended with one cleanup, except for the jobs that a
  pipe error hit before: those stay as they are, for ever (C39). So no queued job waits for a slot that nobody will give back. Such
  a run exists from every reachable state. (A process is taken to exit, successfully or not.)\<close>

theorem registry_drains:
  assumes "reachable copies maint r"
  shows "(\<exists>ls r'. list_all (\<lambda>x. ownStep (snd x)) ls \<and> regRun ls r = Some r' \<and> (\<forall>now l. ownStep l \<longrightarrow> regExec now l r' = None)) \<and>
    (\<forall>ls r'. list_all (\<lambda>x. ownStep (snd x)) ls \<longrightarrow> regRun ls r = Some r' \<longrightarrow> length ls \<le> regRank r \<and>
       ((\<forall>now l. ownStep l \<longrightarrow> regExec now l r' = None) \<longrightarrow> rgCopyHeld r' = 0 \<and> rgMaintHeld r' = 0 \<and>
          (\<forall>i ob. map_of (rgHeap r) i = Some ob \<longrightarrow> (\<exists>ob'. map_of (rgHeap r') i = Some ob' \<and>
             (if oPhase ob = Stuck then ob' = ob else oPhase ob' = Ended \<and> terminal (jState (oJob ob')) \<and> oCleanups ob' = 1)))))"
proof (intro conjI allI impI ownRun_exists [OF assms])
  fix ls r' assume run: "list_all (\<lambda>x. ownStep (snd x)) ls" "regRun ls r = Some r'"
  note b = ownRun_bounded [OF assms run(2,1)]
  have reach: "reachable copies maint r'" by (rule reachable_run [OF assms run(2)])
  show "length ls \<le> regRank r" using b by simp
  assume stop: "\<forall>now l. ownStep l \<longrightarrow> regExec now l r' = None"
  show "rgCopyHeld r' = 0" "rgMaintHeld r' = 0" using stalled_ended [OF reach stop] by simp_all
  fix i ob assume "map_of (rgHeap r) i = Some ob"
  then obtain ob' where ob': "map_of (rgHeap r') i = Some ob'" "if oPhase ob = Stuck then ob' = ob else oPhase ob' \<noteq> Stuck" using b by blast
  have "objOk ob'" by (rule reachable_obj(1) [OF reach ob'(1)])
  then show "\<exists>ob'. map_of (rgHeap r') i = Some ob' \<and>
      (if oPhase ob = Stuck then ob' = ob else oPhase ob' = Ended \<and> terminal (jState (oJob ob')) \<and> oCleanups ob' = 1)"
    using ob' stalled_ended(1) [OF reach stop ob'(1)] by (auto simp: objOk_def Let_def split: if_splits)
qed

text \<open>Witness: a copy running and a copy queued behind it; one way in which both end.\<close>

theorem registry_drains_witness:
  "\<exists>r'. regRun [(7, LExit ''a'' None), (8, LFinish ''a''), (9, LSlot ''b''), (10, LStartError ''b'' ''no such file'')] exReg = Some r' \<and> 4 \<le> regRank exReg \<and>
     (\<exists>ls r'. list_all (\<lambda>x. ownStep (snd x)) ls \<and> regRun ls exReg = Some r' \<and> rgCopyHeld r' = 0 \<and>
        (\<exists>ob. map_of (rgHeap r') ''b'' = Some ob \<and> oPhase ob = Ended))"
proof -
  let ?ls = "[(7, LExit ''a'' None), (8, LFinish ''a''), (9, LSlot ''b''), (10, LStartError ''b'' ''no such file'')]"
  have "regRun ?ls exReg \<noteq> None" by code_simp
  then obtain r1 where run: "regRun ?ls exReg = Some r1" by blast
  have own: "list_all (\<lambda>x. ownStep (snd x)) ?ls" by (simp add: ownStep_def)
  note th = registry_drains [OF exReg_reachable]
  have n: "4 \<le> regRank exReg" using th run own by fastforce
  obtain ls r' where ls: "list_all (\<lambda>x. ownStep (snd x)) ls" "regRun ls exReg = Some r'" "\<forall>now l. ownStep l \<longrightarrow> regExec now l r' = None"
    using conjunct1 [OF th] by blast
  have "map_option oPhase (map_of (rgHeap exReg) ''b'') = Some Queued" by code_simp
  then obtain ob where ob: "map_of (rgHeap exReg) ''b'' = Some ob" "oPhase ob \<noteq> Stuck" by auto
  then have "rgCopyHeld r' = 0 \<and> (\<exists>ob. map_of (rgHeap r') ''b'' = Some ob \<and> oPhase ob = Ended)"
    using conjunct2 [OF th] ls by (metis (no_types, lifting))
  then show ?thesis using run n ls by blast
qed

section \<open>Cancellation\<close>

lemma reachable_member:
  "reachable c m r \<Longrightarrow> map_of (rgHeap r) i = Some ob \<Longrightarrow> oPhase ob \<noteq> Ended \<Longrightarrow> i \<in> set (rgJobs r)"
  using reachable_registered by blast

lemma cancelJob_active:
  assumes "i \<in> set (rgJobs r)" "map_of (rgHeap r) i = Some ob" "jState (oJob ob) \<in> {JobRunning, JobPending}"
  shows "cancelJob i r = (True, setObj i (cancelledObj ob) r)"
  using assms by (auto simp: cancelJob_def)

lemma atPhase_setObj [simp]:
  "atPhase phs i (setObj i ob r) = (if oPhase ob \<in> set phs then Some ob else None)"
  by (simp add: atPhase_def update_conv')

text \<open>C29. Cancelling a running job, whose process then exits with an error: the job ends as
  \<open>JobCancelled\<close>, not as failed, with the captured error text or ``cancelled by user'', the exit code of
  the process, and the single terminal event \<open>EventCancelled\<close>.\<close>

theorem cancel_running_job:
  assumes "reachable copies maint r" "map_of (rgHeap r) i = Some ob" "oPhase ob = Live" "jState (oJob ob) = JobRunning"
  shows "\<exists>r' ob'. regRun [(t1, LCancel i), (t2, LExit i (Some (msg, Some code))), (t3, LFinish i)] r = Some r' \<and>
    map_of (rgHeap r') i = Some ob' \<and> jState (oJob ob') = JobCancelled \<and> jExitCode (oJob ob') = code \<and>
    jErrorMsg (oJob ob') = (if jErrorMsg (oJob ob) = [] then ''cancelled by user'' else jErrorMsg (oJob ob)) \<and>
    jCompletedAt (oJob ob') = Some t2 \<and> oEvents ob' = [EventStarted, EventCancelled]"
proof -
  have i: "i \<in> set (rgJobs r)" using reachable_member assms(1-3) by simp
  have ev: "oEvents ob = [EventStarted]" using reachable_obj(1) [OF assms(1,2)] assms(3) by (simp add: objOk_def Let_def)
  let ?ob = "cancelledObj ob" and ?w = "waitResult t2 (Some (msg, Some code))"
  have "regExec t1 (LCancel i) r = Some (setObj i ?ob r)" by (simp add: cancelJob_active [OF i assms(2)] assms(4))
  moreover have "regExec t2 (LExit i (Some (msg, Some code))) (setObj i ?ob r) =
      Some (setObj i (?ob\<lparr>oJob := ?w (oJob ?ob), oPhase := Exited\<rparr>) (setObj i ?ob r))"
    by (simp add: spawnExit_def cancelledObj_def assms(3))
  ultimately show ?thesis
    by (simp add: update_conv' spawnFinish_def finishedObj_def waitResult_def cancelledObj_def terminalEvent_def Let_def ev)
qed

text \<open>Witness.\<close>

theorem cancel_running_job_witness:
  "\<exists>r' ob'. regRun [(6, LCancel ''a''), (7, LExit ''a'' (Some (''signal: killed'', Some (- 1)))), (8, LFinish ''a'')] exReg = Some r' \<and>
     map_of (rgHeap r') ''a'' = Some ob' \<and> jState (oJob ob') = JobCancelled \<and> oEvents ob' = [EventStarted, EventCancelled]"
proof -
  have "map_option (\<lambda>ob. (oPhase ob, jState (oJob ob))) (map_of (rgHeap exReg) ''a'') = Some (Live, JobRunning)" by code_simp
  then show ?thesis
    using cancel_running_job [OF exReg_reachable, of "''a''" _ 6 7 "''signal: killed''" "- 1" 8] by auto
qed

text \<open>Cancelling a queued job, when its goroutine then sees the cancelled context: the job ends as
  \<open>JobCancelled\<close> with the message ``cancelled before start'', never having started a process or taken a
  slot, after one \<open>EventCancelled\<close> and one cleanup.\<close>

theorem cancel_queued_job:
  assumes "reachable copies maint r" "map_of (rgHeap r) i = Some ob" "oPhase ob = Queued" "jState (oJob ob) = JobPending"
    "jErrorMsg (oJob ob) = []"
  shows "\<exists>r' ob'. regRun [(t1, LCancel i), (t2, LQueueCancel i)] r = Some r' \<and>
    map_of (rgHeap r') i = Some ob' \<and> jState (oJob ob') = JobCancelled \<and> jErrorMsg (oJob ob') = ''cancelled before start'' \<and>
    jStartedAt (oJob ob') = None \<and> oEvents ob' = [EventCancelled] \<and> oCleanups ob' = 1 \<and>
    rgCopyHeld r' = rgCopyHeld r \<and> rgMaintHeld r' = rgMaintHeld r"
proof -
  have i: "i \<in> set (rgJobs r)" using reachable_member assms(1-3) by simp
  have ev: "oEvents ob = []" "oCleanups ob = 0" "jStartedAt (oJob ob) = None"
    using reachable_obj(1) [OF assms(1,2)] assms(3) by (simp_all add: objOk_def Let_def)
  have "regExec t1 (LCancel i) r = Some (setObj i (cancelledObj ob) r)" by (simp add: cancelJob_active [OF i assms(2)] assms(4))
  then show ?thesis
    by (simp add: update_conv' finalizeUnstarted_def unstartedObj_def cancelledObj_def Let_def ev assms(3,5))
qed

text \<open>Witness.\<close>

theorem cancel_queued_job_witness:
  "\<exists>r' ob'. regRun [(6, LCancel ''b''), (7, LQueueCancel ''b'')] exReg = Some r' \<and>
     map_of (rgHeap r') ''b'' = Some ob' \<and> jState (oJob ob') = JobCancelled \<and> oEvents ob' = [EventCancelled]"
proof -
  have "map_option (\<lambda>ob. (oPhase ob, jState (oJob ob), jErrorMsg (oJob ob))) (map_of (rgHeap exReg) ''b'') = Some (Queued, JobPending, [])"
    by code_simp
  then show ?thesis using cancel_queued_job [OF exReg_reachable, of "''b''" _ 6 7] by auto
qed

section \<open>Races the registry leaves open\<close>

definition jobView :: "string \<Rightarrow> jobRegistry \<Rightarrow> (JobState \<times> jobPhase \<times> bool \<times> nat \<times> JobEvent list) option" where
  "jobView i r = map_option (\<lambda>ob. (jState (oJob ob), oPhase ob, oCtx ob, oCleanups ob, oEvents ob)) (map_of (rgHeap r) i)"

text \<open>A job cancelled while it is queued does not always end as cancelled: when a slot is free the
  select may take it, \<open>cmd.Start\<close> then fails on the cancelled context, and the job is recorded as
  \<open>JobFailed\<close> with \<open>EventFailed\<close>.\<close>

theorem queued_cancel_may_fail:
  "map_option (jobView ''a'')
     (regRun [(1, LStart ''a'' ''r'' ''/p'' ActionCopy ''nas'' [''copy''] [] ''manual''), (2, LCancel ''a''), (3, LSlot ''a''),
              (4, LStartError ''a'' ''context canceled'')] (newJobRegistry 1 1)) =
   Some (Some (JobFailed, Ended, True, 1, [EventFailed]))"
  by code_simp

text \<open>A cancel that arrives between \<open>cmd.Start\<close> and the assignment of \<open>JobRunning\<close> is lost: the
  handler answered success, the context is cancelled, and the job is shown as running; when the killed
  process exits with an error it is recorded as failed.\<close>

theorem cancel_during_start_is_lost:
  "map_option (jobView ''a'')
     (regRun [(1, LStart ''a'' ''r'' ''/p'' ActionBackup ''nas'' [''backup''] [] ''manual''), (2, LStartOk ''a''), (3, LCancel ''a''),
              (4, LRunning ''a'')] (newJobRegistry 1 1)) =
   Some (Some (JobRunning, Live, True, 0, [EventStarted])) \<and>
   map_option (jobView ''a'')
     (regRun [(1, LStart ''a'' ''r'' ''/p'' ActionBackup ''nas'' [''backup''] [] ''manual''), (2, LStartOk ''a''), (3, LCancel ''a''),
              (4, LRunning ''a''), (5, LExit ''a'' (Some (''signal: killed'', Some (- 1)))), (6, LFinish ''a'')] (newJobRegistry 1 1)) =
   Some (Some (JobFailed, Ended, True, 1, [EventStarted, EventFailed]))"
  by code_simp

lemma regExec_stuck:
  assumes "regExec now l r = Some r'" "map_of (rgHeap r) i = Some ob" "oPhase ob = Stuck"
  shows "\<exists>ob'. map_of (rgHeap r') i = Some ob' \<and> oPhase ob' = Stuck"
proof (cases l)
  case (LStart i0 a b c d e f g)
  then have "i0 \<notin> fst ` set (rgHeap r)" "r' = startJob i0 a b c d e f g r" using assms(1) by (auto split: if_splits)
  moreover from this have "i \<noteq> i0" using map_of_SomeD [OF assms(2)] by force
  ultimately show ?thesis using assms(2,3) by (simp add: startJob_def Let_def update_conv' del: map_of_eq_Some_iff)
qed (use assms in \<open>auto simp: update_conv' atPhase_def takeSlot_def finalizeUnstarted_def spawnPipeError_def
      spawnStartError_def spawnSetRunning_def spawnExit_def spawnFinish_def cancelJob_def cancelledObj_def Let_def
      split: option.splits if_splits simp del: map_of_eq_Some_iff\<close>)

text \<open>C39. A job whose stdout or stderr pipe could not be created is never finalised: whatever happens
  later it is not terminal, it stays in the registry, its cleanup has not run and no event was emitted.\<close>

theorem pipe_error_never_finalised:
  assumes "reachable copies maint r" "map_of (rgHeap r) i = Some ob" "oPhase ob = Spawning"
    "regRun ((t, LPipeError i) # ls) r = Some r'"
  shows "\<exists>ob'. map_of (rgHeap r') i = Some ob' \<and> oPhase ob' = Stuck \<and> jState (oJob ob') \<in> {JobPending, JobCancelled} \<and>
    i \<in> set (rgJobs r') \<and> i \<notin> set (rgTerminal r') \<and> oCleanups ob' = 0 \<and> oEvents ob' = []"
proof -
  have keep: "regRun ks r1 = Some r2 \<Longrightarrow> reachable copies maint r1 \<Longrightarrow> map_of (rgHeap r1) i = Some x \<Longrightarrow> oPhase x = Stuck \<Longrightarrow>
      \<exists>ob'. map_of (rgHeap r2) i = Some ob' \<and> oPhase ob' = Stuck" for ks r1 r2 x
  proof (induction ks r1 arbitrary: x rule: regRun.induct)
    case (2 now l ls r)
    then obtain r1 where r1: "regExec now l r = Some r1" "regRun ls r1 = Some r2" by (auto split: option.splits)
    obtain y where "map_of (rgHeap r1) i = Some y" "oPhase y = Stuck"
      using regExec_stuck [OF r1(1) "2.prems"(3,4)] by blast
    then show ?case using "2.IH" [OF r1(1) r1(2)] reachable.step [OF "2.prems"(2) r1(1)] by blast
  qed simp
  let ?r1 = "spawnPipeError i ob r"
  have r1: "regExec t (LPipeError i) r = Some ?r1" using assms(2,3) by (simp add: atPhase_def)
  then have run: "regRun ls ?r1 = Some r'" using assms(4) by simp
  have reach: "reachable copies maint ?r1" by (rule reachable.step [OF assms(1) r1])
  obtain ob' where ob': "map_of (rgHeap r') i = Some ob'" "oPhase ob' = Stuck"
    using keep [OF run reach] by (auto simp: spawnPipeError_def update_conv')
  have fin: "reachable copies maint r'" by (rule reachable_run [OF reach run])
  have "objOk ob'" by (rule reachable_obj(1) [OF fin ob'(1)])
  moreover have "mapInv r'" using reachable_inv [OF fin] by (simp add: regInv_def)
  ultimately show ?thesis using ob' by (auto simp: objOk_def Let_def mapInv_def)
qed

text \<open>Witness: the third trace step of a backup.\<close>

theorem pipe_error_never_finalised_witness:
  "\<exists>r' ob'. regRun [(2, LPipeError ''a''), (3, LCancel ''a'')] (startJob ''a'' ''r'' ''/p'' ActionBackup ''nas'' [] [] [] (newJobRegistry 1 1)) = Some r' \<and>
     map_of (rgHeap r') ''a'' = Some ob' \<and> ''a'' \<in> set (rgJobs r') \<and> oCleanups ob' = 0"
proof -
  let ?r = "startJob ''a'' ''r'' ''/p'' ActionBackup ''nas'' [] [] [] (newJobRegistry 1 1)"
  have reach: "reachable 1 1 ?r"
    by (rule reachable.step [OF reachable.init, of 1 "LStart ''a'' ''r'' ''/p'' ActionBackup ''nas'' [] [] []"]) (simp add: newJobRegistry_def)
  have ph: "map_option oPhase (map_of (rgHeap ?r) ''a'') = Some Spawning"
    "regRun [(2, LPipeError ''a''), (3, LCancel ''a'')] ?r \<noteq> None" by code_simp+
  then show ?thesis using pipe_error_never_finalised [OF reach, of "''a''" _ 2 "[(3, LCancel ''a'')]"] by fastforce
qed

end
