(* ===== verification/StorageUrl.thy ===== *)
theory StorageUrl
  imports Repos Regex
begin

text \<open>
  Storage URLs: the region guard (s3region.go), the shape validators run on every vended credential
  (storage_url_validator.go), the placeholder templates expanded at init (template.go) and the destination
  identity of a URL (destination.go). An error is a value of \<open>urlError\<close>, one constructor per message of
  the code. \<open>urlParse\<close> is \<open>url.Parse\<close> of net/url on a URL with the scheme \<open>sftp\<close>: the user name (when
  there is one) and the host, or no value where it returns an error.
\<close>

section \<open>net/url\<close>

definition isAlnum :: "char \<Rightarrow> bool" where
  "isAlnum c \<longleftrightarrow> isDigit c \<or> (65 \<le> (of_char c :: nat) \<and> (of_char c :: nat) \<le> 90) \<or> (97 \<le> (of_char c :: nat) \<and> (of_char c :: nat) \<le> 122)"

definition isHex :: "char \<Rightarrow> bool" where
  "isHex c \<longleftrightarrow> isDigit c \<or> c \<in> set ''abcdefABCDEF''"

text \<open>A \<open>%\<close> must start a two-digit escape.\<close>

fun escapesOk :: "string \<Rightarrow> bool" where
  "escapesOk [] = True"
| "escapesOk (c # s) = (if c = CHR ''%'' then (case s of a # b # _ \<Rightarrow> isHex a \<and> isHex b | _ \<Rightarrow> False) \<and> escapesOk s else escapesOk s)"

text \<open>In a host only \<open>%25\<close> and the escapes of non-ASCII bytes are allowed.\<close>

fun hostEscapesOk :: "string \<Rightarrow> bool" where
  "hostEscapesOk [] = True"
| "hostEscapesOk (c # s) =
     (if c = CHR ''%'' then (case s of a # b # _ \<Rightarrow> isHex a \<and> isHex b \<and> (a \<in> set ''89abcdefABCDEF'' \<or> [a, b] = ''25'') | _ \<Rightarrow> False) \<and> hostEscapesOk s
      else hostEscapesOk s)"

definition hexVal :: "char \<Rightarrow> nat" where
  "hexVal c = (let n = of_char c in if n < 58 then n - 48 else if n < 71 then n - 55 else n - 87)"

fun unescape :: "string \<Rightarrow> string" where
  "unescape [] = []"
| "unescape (c # s) =
     (if c = CHR ''%'' then (case s of a # b # t \<Rightarrow> char_of (16 * hexVal a + hexVal b) # unescape t | _ \<Rightarrow> []) else c # unescape s)"

definition ctlByte :: "char \<Rightarrow> bool" where
  "ctlByte c \<longleftrightarrow> (of_char c :: nat) < 32 \<or> (of_char c :: nat) = 127"

definition hostByteOk :: "char \<Rightarrow> bool" where
  "hostByteOk c \<longleftrightarrow> isAlnum c \<or> c \<in> set ''-_.~!$&()*+,;=:[]<>%'' \<or> of_char c \<in> {34, 39 :: nat} \<or> 128 \<le> (of_char c :: nat)"

definition userByteOk :: "char \<Rightarrow> bool" where
  "userByteOk c \<longleftrightarrow> isAlnum c \<or> c \<in> set ''-._:~!$&()*+,;=%@'' \<or> of_char c = (39 :: nat)"

definition cutLast :: "char \<Rightarrow> string \<Rightarrow> (string \<times> string) option" where
  "cutLast c s = (case cutChar c (rev s) of None \<Rightarrow> None | Some (a, b) \<Rightarrow> Some (rev b, rev a))"

definition upTo :: "char \<Rightarrow> string \<Rightarrow> string" where
  "upTo c s = takeWhile (\<lambda>x. x \<noteq> c) s"

definition validOptionalPort :: "string \<Rightarrow> bool" where
  "validOptionalPort p \<longleftrightarrow> p = [] \<or> (hd p = CHR '':'' \<and> list_all isDigit (tl p))"

definition parseHostOk :: "string \<Rightarrow> bool" where
  "parseHostOk h \<longleftrightarrow>
     list_all hostByteOk h \<and> hostEscapesOk h \<and>
     (if prefix ''['' h
      then (case cutLast CHR '']'' h of None \<Rightarrow> False | Some (_, p) \<Rightarrow> validOptionalPort p)
      else (case cutLast CHR '':'' h of None \<Rightarrow> True | Some (_, p) \<Rightarrow> list_all isDigit p))"

definition urlParse :: "string \<Rightarrow> (string option \<times> string) option" where
  "urlParse raw =
     (if list_ex ctlByte raw then None
      else
        let u = upTo CHR ''#'' raw; frag = drop (Suc (length u)) raw;
            rest = drop (length ''sftp://'') (upTo CHR ''?'' u);
            authority = upTo CHR ''/'' rest; path = drop (length authority) rest
        in if \<not> escapesOk frag \<or> \<not> escapesOk path then None
           else case cutLast CHR ''@'' authority of
             None \<Rightarrow> if parseHostOk authority then Some (None, unescape authority) else None
           | Some (userinfo, host) \<Rightarrow>
               if parseHostOk host \<and> list_all userByteOk userinfo \<and> escapesOk userinfo
               then Some (Some (unescape (upTo CHR '':'' userinfo)), unescape host) else None)"

section \<open>The region guard\<close>

definition s3URLMissingRegion :: "string \<Rightarrow> string \<Rightarrow> bool" where
  "s3URLMissingRegion storageType rawURL =
     (if storageType \<noteq> ''s3'' \<and> storageType \<noteq> ''s3c'' then False
      else case strIndex rawURL ''://'' of
        None \<Rightarrow> False
      | Some i \<Rightarrow>
          let authority = upTo CHR ''/'' (drop (i + 3) rawURL)
          in if CHR ''{'' \<in> set authority then False
             else
               let (region, endpoint) = (case cutChar CHR ''@'' authority of None \<Rightarrow> ([], authority) | Some (r, e) \<Rightarrow> (r, e))
               in if region \<noteq> [] then False
                  else toLower endpoint \<notin> {'''', ''amazon'', ''amazon.com''})"

section \<open>The vend-time validators\<close>

datatype urlError =
    SFTPMissingScheme | SFTPParse | SFTPMissingUser | SFTPMissingHost | SFTPMissingPath | SFTPSingleSlash
  | S3MissingScheme | S3CustomEndpoint string | S3EmptyRegion | S3StorjRegion string | S3MissingBucket
  | B2MissingScheme | B2MissingBucket
  | GCSMissingScheme | GCSMissingBucket
  | AzureMissingScheme
  | LocalMissingPath | LocalNotAbs | LocalStat | LocalNotDir | LocalNotWritable

definition validateSFTPURL :: "string \<Rightarrow> urlError option" where
  "validateSFTPURL raw =
     (if \<not> prefix ''sftp://'' raw then Some SFTPMissingScheme
      else case urlParse raw of
        None \<Rightarrow> Some SFTPParse
      | Some (user, host) \<Rightarrow>
          if user = None \<or> user = Some [] then Some SFTPMissingUser
          else if host = [] then Some SFTPMissingHost
          else case cutChar CHR ''/'' (drop (length ''sftp://'') raw) of
            None \<Rightarrow> Some SFTPMissingPath
          | Some (_, p) \<Rightarrow> if prefix ''//'' (CHR ''/'' # p) then None else Some SFTPSingleSlash)"

definition storjRegions :: "string list" where
  "storjRegions = [''US1'', ''EU1'', ''AP1'']"

definition isAWSHost :: "string \<Rightarrow> bool" where
  "isAWSHost h0 = (let h = toLower h0 in suffix ''amazonaws.com'' h \<or> h = ''amazon.com'' \<or> h = ''amazon'' \<or> h = '''' \<or> h = ''s3.amazonaws.com'')"

definition validateS3URL :: "string \<Rightarrow> urlError option" where
  "validateS3URL raw =
     (if \<not> prefix ''s3://'' raw then Some S3MissingScheme
      else
        let rest = drop (length ''s3://'') raw
        in case cutChar CHR ''@'' rest of
             None \<Rightarrow> (let host = upTo CHR ''/'' rest in if isAWSHost host then None else Some (S3CustomEndpoint host))
           | Some (region, bp) \<Rightarrow>
               let endpoint = upTo CHR ''/'' bp
               in if region = [] then Some S3EmptyRegion
                  else if strContains endpoint ''storjshare.io'' \<and> region \<notin> set storjRegions then Some (S3StorjRegion region)
                  else if CHR ''{'' \<notin> set raw \<and> (case cutChar CHR ''/'' bp of None \<Rightarrow> True | Some (_, t) \<Rightarrow> t = []) then Some S3MissingBucket
                  else None)"

definition validateB2URL :: "string \<Rightarrow> urlError option" where
  "validateB2URL raw =
     (if \<not> prefix ''b2://'' raw then Some B2MissingScheme
      else let body = drop (length ''b2://'') raw in if body = [] \<or> prefix ''/'' body then Some B2MissingBucket else None)"

definition validateGCSURL :: "string \<Rightarrow> urlError option" where
  "validateGCSURL raw =
     (if \<not> prefix ''gcs://'' raw then Some GCSMissingScheme
      else if drop (length ''gcs://'') raw = [] then Some GCSMissingBucket else None)"

definition validateAzureURL :: "string \<Rightarrow> urlError option" where
  "validateAzureURL raw = (if \<not> prefix ''azure://'' raw then Some AzureMissingScheme else None)"

text \<open>The write probe creates and removes a file; a failing removal leaves it.\<close>

definition validateLocalURL :: "string \<Rightarrow> disk \<Rightarrow> urlError option \<times> disk" where
  "validateLocalURL raw d =
     (let path = trimPrefix raw ''local://''; probe = path @ ''/.duplicacy-agent-rw-probe''
      in if path = [] then (Some LocalMissingPath, d)
         else if \<not> prefix ''/'' path then (Some LocalNotAbs, d)
         else case osStat d path of
           StatNotExist \<Rightarrow> (Some LocalStat, d)
         | StatErr \<Rightarrow> (Some LocalStat, d)
         | StatOk (FileNode _) \<Rightarrow> (Some LocalNotDir, d)
         | StatOk DirNode \<Rightarrow>
             if probe \<in> set (ioErr d) \<or> map_of (entries d) probe = Some DirNode then (Some LocalNotWritable, d)
             else if probe \<in> set (rmErr d) then (None, d\<lparr>entries := AList.update probe (FileNode None) (entries d)\<rparr>)
             else (None, d\<lparr>entries := AList.delete probe (entries d)\<rparr>))"

definition ValidateStorageURL :: "string \<Rightarrow> string \<Rightarrow> disk \<Rightarrow> urlError option \<times> disk" where
  "ValidateStorageURL storageType rawURL d =
     (if CHR ''{'' \<in> set rawURL \<or> CHR ''}'' \<in> set rawURL
      then (if storageType = ''s3'' \<or> storageType = ''s3c'' then validateS3URL rawURL else None, d)
      else if storageType = ''sftp'' then (validateSFTPURL rawURL, d)
      else if storageType = ''s3'' then (validateS3URL rawURL, d)
      else if storageType = ''b2'' then (validateB2URL rawURL, d)
      else if storageType = ''gcs'' then (validateGCSURL rawURL, d)
      else if storageType = ''azure'' then (validateAzureURL rawURL, d)
      else if storageType = ''local'' then validateLocalURL rawURL d
      else (None, d))"

section \<open>Templates\<close>

record tplCtx =
  tServer :: string
  tServerType :: string
  tSite :: string
  tHome :: string
  tRemoteHome :: string
  tRepoID :: string

definition siteIDToRemoteHome :: "string \<Rightarrow> string \<Rightarrow> string" where
  "siteIDToRemoteHome site remoteSite = (if remoteSite \<noteq> [] then remoteSite @ ''home'' else [])"

definition serverTypeFromNode :: "string \<Rightarrow> string" where
  "serverTypeFromNode node = (let stripped = trimRightFunc node isDigit in if stripped = [] then node else stripped)"

definition baseTplCtx :: "string \<Rightarrow> string \<Rightarrow> string \<Rightarrow> tplCtx" where
  "baseTplCtx NodeName SiteID RemoteSite =
     \<lparr>tServer = NodeName, tServerType = serverTypeFromNode NodeName, tSite = SiteID, tHome = SiteID @ ''home'',
      tRemoteHome = siteIDToRemoteHome SiteID RemoteSite, tRepoID = []\<rparr>"

definition placeholders :: "string \<Rightarrow> tplCtx \<Rightarrow> (string \<times> string) list" where
  "placeholders server ctx =
     [(''{server}'', server), (''{server_type}'', tServerType ctx), (''{site}'', tSite ctx), (''{home}'', tHome ctx),
      (''{remote_home}'', tRemoteHome ctx), (''{repo_id}'', tRepoID ctx)]"

text \<open>\<open>strings.NewReplacer(...).Replace\<close> for non-empty old strings: at each position the first old string that
  occurs there is replaced, and the scan goes on behind it.\<close>

function replacer :: "(string \<times> string) list \<Rightarrow> string \<Rightarrow> string" where
  "replacer ps [] = []"
| "replacer ps (c # s) =
     (case find (\<lambda>(old, _). old \<noteq> [] \<and> prefix old (c # s)) ps of
        None \<Rightarrow> c # replacer ps s
      | Some (old, new) \<Rightarrow> new @ replacer ps (drop (length old - 1) s))"
  by pat_completeness auto
termination by (relation "measure (\<lambda>(ps, s). length s)") auto

definition phStart :: "char \<Rightarrow> bool" where
  "phStart c \<longleftrightarrow> (97 \<le> (of_char c :: nat) \<and> (of_char c :: nat) \<le> 122) \<or> c = CHR ''_''"

definition phChar :: "char \<Rightarrow> bool" where
  "phChar c \<longleftrightarrow> phStart c \<or> isDigit c"

text \<open>\<open>unknownPlaceholderRe.FindString\<close>: the first match of \<open>\{[a-z_][a-z0-9_]*\}\<close>, empty when there is none.\<close>

definition placeholderAt :: "string \<Rightarrow> string option" where
  "placeholderAt s =
     (case s of
        b # c # t \<Rightarrow> if b = CHR ''{'' \<and> phStart c \<and> prefix ''}'' (dropWhile phChar t) then Some (b # c # takeWhile phChar t @ ''}'') else None
      | _ \<Rightarrow> None)"

fun findPlaceholder :: "string \<Rightarrow> string" where
  "findPlaceholder [] = []"
| "findPlaceholder (c # s) = (case placeholderAt (c # s) of Some m \<Rightarrow> m | None \<Rightarrow> findPlaceholder s)"

definition systemRoots :: "string list" where
  "systemRoots = [''/mnt/'', ''/home/'', ''/var/'', ''/opt/'', ''/srv/'', ''/data/'', ''/backup/'']"

definition normalizeSFTPAbsolutePath :: "string \<Rightarrow> string" where
  "normalizeSFTPAbsolutePath u =
     (if \<not> prefix ''sftp://'' u then u
      else
        let rest = drop (length ''sftp://'') u; authority = upTo CHR ''/'' rest; path = drop (length authority) rest
        in if path = [] then u
           else if prefix ''//'' path then u
           else if list_ex (\<lambda>rt. prefix rt path \<or> path = trimSuffix rt ''/'') systemRoots then ''sftp://'' @ authority @ ''/'' @ path
           else u)"

datatype tplError = RemoteHomeUnset | UnknownPlaceholder string

definition expandStorageURL :: "string \<Rightarrow> tplCtx \<Rightarrow> string \<Rightarrow> tplError + string" where
  "expandStorageURL tpl ctx serverOverride =
     (let server = (if serverOverride \<noteq> [] then serverOverride else tServer ctx)
      in if strContains tpl ''{remote_home}'' \<and> tRemoteHome ctx = [] then Inl RemoteHomeUnset
         else
           let out = replacer (placeholders server ctx) tpl; m = findPlaceholder out
           in if m \<noteq> [] then Inl (UnknownPlaceholder m) else Inr (normalizeSFTPAbsolutePath out))"

section \<open>Destinations\<close>

definition splitScheme :: "string \<Rightarrow> (string \<times> string) option" where
  "splitScheme s = (case strIndex s ''://'' of None \<Rightarrow> None | Some i \<Rightarrow> Some (take i s, drop (i + 3) s))"

definition extractHost :: "string \<Rightarrow> string" where
  "extractHost rest0 =
     (case urlParse (''sftp://'' @ rest0) of
        Some (_, host) \<Rightarrow>
          if host \<noteq> [] then upTo CHR '':'' host
          else (let rest = (case cutChar CHR ''@'' rest0 of None \<Rightarrow> rest0 | Some (_, t) \<Rightarrow> t) in takeWhile (\<lambda>c. c \<noteq> CHR ''/'' \<and> c \<noteq> CHR '':'') rest)
      | None \<Rightarrow> (let rest = (case cutChar CHR ''@'' rest0 of None \<Rightarrow> rest0 | Some (_, t) \<Rightarrow> t) in takeWhile (\<lambda>c. c \<noteq> CHR ''/'' \<and> c \<noteq> CHR '':'') rest))"

definition extractFirstSegment :: "string \<Rightarrow> string" where
  "extractFirstSegment s = upTo CHR ''/'' s"

definition extractHostAndFirstPath :: "string \<Rightarrow> string \<times> string" where
  "extractHostAndFirstPath rest =
     (case cutChar CHR ''/'' rest of
        None \<Rightarrow> (extractHost rest, [])
      | Some (h, t) \<Rightarrow> (extractHost h, extractFirstSegment (dropWhile (\<lambda>c. c = CHR ''/'') t)))"

definition shortSiteName :: "string \<Rightarrow> string" where
  "shortSiteName domain0 =
     (let domain = trimRightFunc (dropWhile (\<lambda>c. c = CHR ''.'') domain0) (\<lambda>c. c = CHR ''.'')
      in case cutChar CHR ''.'' domain of Some (a, _) \<Rightarrow> if a \<noteq> [] then a else domain | None \<Rightarrow> domain)"

definition pathDir :: "string \<Rightarrow> string" where
  "pathDir p = pathClean (rev (dropWhile (\<lambda>c. c \<noteq> CHR ''/'') (rev p)))"

definition DestinationKey :: "string \<Rightarrow> string \<times> string" where
  "DestinationKey raw =
     (let storageURL = trimSpace raw; unknown = (''unknown://'' @ storageURL, ''Unknown'')
      in if storageURL = [] then (''unknown://'', ''Unknown'')
         else if prefix ''/'' storageURL then (let dir = pathDir storageURL in (''local://'' @ dir, ''Local ('' @ dir @ '')''))
         else case splitScheme storageURL of
           None \<Rightarrow> unknown
         | Some (scheme, rest) \<Rightarrow>
             let sl = toLower scheme
             in if sl = ''sftp'' \<or> sl = ''ftp'' then
                  (let host = extractHost rest; k = scheme @ ''://'' @ host
                   in if host = [] then unknown
                      else if prefix ''nas.'' host then (k, ''NAS ('' @ shortSiteName (trimPrefix host ''nas.'') @ '')'')
                      else (k, toUpper scheme @ '' ('' @ host @ '')''))
                else if sl = ''s3'' then
                  (let (host, bucket) = extractHostAndFirstPath rest; k = scheme @ ''://'' @ host @ ''/'' @ bucket
                   in if host = [] \<or> bucket = [] then unknown
                      else if strContains host ''storj'' then (k, ''Storj ('' @ bucket @ '')'')
                      else (k, ''S3 ('' @ bucket @ '')''))
                else if sl = ''b2'' then
                  (let bucket = extractFirstSegment rest
                   in if bucket = [] then unknown else (scheme @ ''://'' @ bucket, ''B2 ('' @ bucket @ '')''))
                else if sl = ''gcs'' then
                  (let bucket = extractFirstSegment rest
                   in if bucket = [] then unknown else (scheme @ ''://'' @ bucket, ''GCS ('' @ bucket @ '')''))
                else if sl = ''azure'' then
                  (let (account, container) = extractHostAndFirstPath rest; k = scheme @ ''://'' @ account @ ''/'' @ container
                   in if account = [] \<or> container = [] then unknown else (k, ''Azure ('' @ container @ '')''))
                else if sl = ''wasabi'' then
                  (let bucket = extractFirstSegment rest
                   in if bucket = [] then unknown else (scheme @ ''://'' @ bucket, ''Wasabi ('' @ bucket @ '')''))
                else
                  (let seg = extractFirstSegment rest; label = toUpper scheme
                   in (scheme @ ''://'' @ rest, if seg \<noteq> [] then label @ '' ('' @ seg @ '')'' else label)))"

section \<open>Facts\<close>

lemma cutChar_split:
  "cutChar c s = (if c \<in> set s then Some (upTo c s, drop (Suc (length (upTo c s))) s) else None)"
  by (induction s) (auto simp: upTo_def split: option.splits)

lemma upTo_append: "c \<notin> set a \<Longrightarrow> upTo c (a @ b) = a @ upTo c b"
  by (induction a) (auto simp: upTo_def)

lemma upTo_none: "c \<notin> set a \<Longrightarrow> upTo c a = a"
  by (auto simp: upTo_def takeWhile_eq_all_conv)

lemma upTo_mem: "c \<notin> set (upTo c s)"
  by (auto simp: upTo_def dest: set_takeWhileD)

lemma upTo_upTo: "c \<in> set (upTo d s) \<Longrightarrow> upTo c (upTo d s) = upTo c s"
  by (induction s) (auto simp: upTo_def split: if_splits)

lemma upTo_upTo_subset: "set (upTo d s) \<subseteq> set s"
  by (auto simp: upTo_def dest: set_takeWhileD)

text \<open>The vend-time validator implies the init-time region guard when the URL has its \<open>@\<close> in the authority:
  an accepted S3 URL of that form is never one the guard rejects for a missing region.\<close>

theorem validateS3URL_region:
  assumes "ValidateStorageURL ''s3'' raw d = (None, d')" "CHR ''@'' \<in> set (upTo CHR ''/'' (drop 5 raw))"
  shows "\<not> s3URLMissingRegion ''s3'' raw"
proof -
  let ?rest = "drop 5 raw"
  have v: "validateS3URL raw = None" using assms(1) by (auto simp: ValidateStorageURL_def split: if_splits)
  then have pre: "prefix ''s3://'' raw" by (auto simp: validateS3URL_def split: if_splits)
  then obtain t where raw: "raw = ''s3://'' @ t" by (auto simp: prefix_def)
  have i: "strIndex raw ''://'' = Some 2" by (simp add: raw)
  have at: "CHR ''@'' \<in> set ?rest" using assms(2) upTo_upTo_subset by blast
  have "upTo CHR ''@'' ?rest \<noteq> []" using v at by (auto simp: raw validateS3URL_def cutChar_split Let_def split: if_splits)
  then show ?thesis
    using i assms(2) by (auto simp: raw s3URLMissingRegion_def cutChar_split upTo_upTo Let_def)
qed

text \<open>Witness.\<close>

theorem validateS3URL_region_witness:
  "ValidateStorageURL ''s3'' ''s3://US1@gateway.storjshare.io/bucket/path'' \<lparr>entries = [], ioErr = [], rmErr = []\<rparr> =
     (None, \<lparr>entries = [], ioErr = [], rmErr = []\<rparr>) \<and>
   \<not> s3URLMissingRegion ''s3'' ''s3://US1@gateway.storjshare.io/bucket/path''"
proof -
  have v: "ValidateStorageURL ''s3'' ''s3://US1@gateway.storjshare.io/bucket/path'' \<lparr>entries = [], ioErr = [], rmErr = []\<rparr> =
     (None, \<lparr>entries = [], ioErr = [], rmErr = []\<rparr>)" by code_simp
  have "CHR ''@'' \<in> set (upTo CHR ''/'' (drop 5 ''s3://US1@gateway.storjshare.io/bucket/path''))" by code_simp
  with validateS3URL_region [OF v] v show ?thesis by blast
qed

text \<open>Without that condition the two guards disagree: an \<open>@\<close> in the bucket path satisfies the vend-time
  validator of a custom endpoint without a region, and a regional AWS host name is accepted by the validator and
  rejected by the init-time guard.\<close>

theorem region_guards_disagree:
  "validateS3URL ''s3://gateway.storjshare.io/my@bucket/x'' = None \<and> s3URLMissingRegion ''s3'' ''s3://gateway.storjshare.io/my@bucket/x'' \<and>
   validateS3URL ''s3://s3.amazonaws.com/bucket/path'' = None \<and> s3URLMissingRegion ''s3'' ''s3://s3.amazonaws.com/bucket/path''"
  by code_simp

text \<open>The storage type \<open>s3c\<close>, which the region guard supports, is handled inconsistently by the validator: a
  templated \<open>s3c://\<close> URL is always refused, for the scheme, and one without placeholders is not checked at all.\<close>

theorem s3c_validation:
  assumes "prefix ''s3c://'' raw"
  shows "ValidateStorageURL ''s3c'' raw d =
    (if CHR ''{'' \<in> set raw \<or> CHR ''}'' \<in> set raw then Some S3MissingScheme else None, d)"
  using assms by (auto simp: ValidateStorageURL_def validateS3URL_def prefix_def)

text \<open>Witness.\<close>

theorem s3c_validation_witness:
  "ValidateStorageURL ''s3c'' ''s3c://@gw.example.com/{home}'' \<lparr>entries = [], ioErr = [], rmErr = []\<rparr> =
     (Some S3MissingScheme, \<lparr>entries = [], ioErr = [], rmErr = []\<rparr>)"
proof -
  have "prefix ''s3c://'' ''s3c://@gw.example.com/{home}''" by simp
  from s3c_validation [OF this] show ?thesis by simp
qed

section \<open>Template expansion\<close>

text \<open>A template as a list of segments: literal text without a brace, or a placeholder.\<close>

datatype tplSeg = Lit string | Ph string

fun segText :: "tplSeg \<Rightarrow> string" where
  "segText (Lit s) = s"
| "segText (Ph p) = p"

fun segValue :: "(string \<times> string) list \<Rightarrow> tplSeg \<Rightarrow> string" where
  "segValue ps (Lit s) = s"
| "segValue ps (Ph p) = (case map_of ps p of None \<Rightarrow> [] | Some v \<Rightarrow> v)"

fun segOk :: "(string \<times> string) list \<Rightarrow> tplSeg \<Rightarrow> bool" where
  "segOk ps (Lit s) = (CHR ''{'' \<notin> set s)"
| "segOk ps (Ph p) = (p \<in> fst ` set ps)"

text \<open>Keys that start with a brace and end at their first closing brace.\<close>

definition braced :: "(string \<times> string) list \<Rightarrow> bool" where
  "braced ps \<longleftrightarrow> distinct (map fst ps) \<and>
     (\<forall>(k, v) \<in> set ps. \<exists>n. k = CHR ''{'' # n @ ''}'' \<and> CHR ''}'' \<notin> set n \<and> CHR ''{'' \<notin> set n)"

lemma braced_placeholders: "braced (placeholders server ctx)"
  unfolding braced_def placeholders_def
  by (auto intro!: exI [of _ "''server''"] exI [of _ "''server_type''"] exI [of _ "''site''"]
      exI [of _ "''home''"] exI [of _ "''remote_home''"] exI [of _ "''repo_id''"])

lemma braced_key:
  assumes "braced ps" "(k, v) \<in> set ps"
  shows "\<exists>n. k = CHR ''{'' # n @ ''}'' \<and> CHR ''}'' \<notin> set n \<and> CHR ''{'' \<notin> set n"
  using assms by (auto simp: braced_def)

lemma braced_prefix_unique:
  assumes "braced ps" "(k, v) \<in> set ps" "(k', v') \<in> set ps" "prefix k' (k @ s)"
  shows "k' = k"
proof -
  obtain n m where n: "k = CHR ''{'' # n @ ''}''" "CHR ''}'' \<notin> set n" and m: "k' = CHR ''{'' # m @ ''}''" "CHR ''}'' \<notin> set m"
    using braced_key assms(1-3) by meson
  obtain t where "n @ CHR ''}'' # s = m @ CHR ''}'' # t" using assms(4) n m by (auto simp: prefix_def)
  then have "takeWhile (\<lambda>c. c \<noteq> CHR ''}'') (n @ CHR ''}'' # s) = takeWhile (\<lambda>c. c \<noteq> CHR ''}'') (m @ CHR ''}'' # t)" by simp
  moreover have "takeWhile (\<lambda>c. c \<noteq> CHR ''}'') (x @ CHR ''}'' # y) = x" if "CHR ''}'' \<notin> set x" for x y
    using that by (induction x) auto
  ultimately show ?thesis using n m by simp
qed

lemma replacer_lit:
  assumes "braced ps" "CHR ''{'' \<notin> set a"
  shows "replacer ps (a @ s) = a @ replacer ps s"
  using assms(2)
proof (induction a)
  case (Cons c a)
  have "find (\<lambda>(old, _). old \<noteq> [] \<and> prefix old (c # a @ s)) ps = None"
    using Cons.prems braced_key [OF assms(1)] by (fastforce simp: find_None_iff)
  then show ?case using Cons by simp
qed simp

lemma replacer_ph:
  assumes "braced ps" "(k, v) \<in> set ps"
  shows "replacer ps (k @ s) = v @ replacer ps s"
proof -
  obtain n where k: "k = CHR ''{'' # n @ ''}''" using braced_key [OF assms] by blast
  have "find (\<lambda>(old, _). old \<noteq> [] \<and> prefix old (k @ s)) ps \<noteq> None"
  proof
    assume "find (\<lambda>(old, _). old \<noteq> [] \<and> prefix old (k @ s)) ps = None"
    then have "\<forall>x\<in>set ps. \<not> (fst x \<noteq> [] \<and> prefix (fst x) (k @ s))" by (auto simp: find_None_iff)
    with assms(2) k show False by fastforce
  qed
  then obtain k' v' where f: "find (\<lambda>(old, _). old \<noteq> [] \<and> prefix old (k @ s)) ps = Some (k', v')" by auto
  then have "(k', v') \<in> set ps" "prefix k' (k @ s)" by (auto simp: find_Some_iff dest: nth_mem)
  moreover from this have "k' = k" using braced_prefix_unique [OF assms] by blast
  moreover have "distinct (map fst ps)" using assms(1) by (simp add: braced_def)
  ultimately have "k' = k" "v' = v" using eq_key_imp_eq_value [of ps k v v'] assms(2) by simp_all
  then show ?thesis using f by (simp add: k)
qed

lemma replacer_segs:
  "braced ps \<Longrightarrow> list_all (segOk ps) segs \<Longrightarrow> replacer ps (concat (map segText segs) @ s) = concat (map (segValue ps) segs) @ replacer ps s"
proof (induction segs)
  case (Cons g segs)
  show ?case
  proof (cases g)
    case (Lit a)
    then show ?thesis using Cons by (simp add: replacer_lit)
  next
    case (Ph p)
    then obtain v where v: "(p, v) \<in> set ps" using Cons.prems by auto
    then have "map_of ps p = Some v" using Cons.prems by (simp add: braced_def)
    then show ?thesis using Cons Ph v by (simp add: replacer_ph)
  qed
qed simp

lemma placeholderAt_other: "CHR ''{'' \<noteq> c \<Longrightarrow> placeholderAt (c # s) = None"
  by (cases s) (auto simp: placeholderAt_def)

lemma findPlaceholder_nobrace: "CHR ''{'' \<notin> set a \<Longrightarrow> findPlaceholder (a @ s) = findPlaceholder s"
  by (induction a) (simp_all add: placeholderAt_other)

lemma findPlaceholder_none: "CHR ''{'' \<notin> set a \<Longrightarrow> findPlaceholder a = []"
  using findPlaceholder_nobrace [of a "[]"] by simp

text \<open>Template expansion replaces exactly the supported placeholders: a template made of literal text and
  supported placeholders expands to the text with each placeholder's value, \<open>server_override\<close> winning over the
  node's name, in the SFTP normal form; values are not expanded again. The only condition is that
  \<open>REMOTE_SITE\<close> is set where \<open>{remote_home}\<close> is used.\<close>

theorem expandStorageURL_segments:
  assumes ps_def: "ps = placeholders (if ov \<noteq> [] then ov else tServer ctx) ctx"
    and "list_all (segOk ps) segs" "\<forall>p \<in> set ps. CHR ''{'' \<notin> set (snd p)"
    "strContains (concat (map segText segs)) ''{remote_home}'' \<longrightarrow> tRemoteHome ctx \<noteq> []"
  shows "expandStorageURL (concat (map segText segs)) ctx ov = Inr (normalizeSFTPAbsolutePath (concat (map (segValue ps) segs)))"
proof -
  have br: "braced ps" unfolding ps_def by (rule braced_placeholders)
  have out: "replacer ps (concat (map segText segs)) = concat (map (segValue ps) segs)"
    using replacer_segs [OF br assms(2), of "[]"] by simp
  have "CHR ''{'' \<notin> set (segValue ps g)" if "g \<in> set segs" for g
  proof (cases g)
    case (Lit a)
    then show ?thesis using assms(2) that by (auto simp: list_all_iff)
  next
    case (Ph p)
    then show ?thesis using assms(3) by (cases "map_of ps p") (fastforce dest: map_of_SomeD)+
  qed
  then have "findPlaceholder (concat (map (segValue ps) segs)) = []" by (intro findPlaceholder_none) auto
  then show ?thesis using assms(4) out by (auto simp: expandStorageURL_def ps_def Let_def)
qed

definition exCtx :: tplCtx where
  "exCtx = (baseTplCtx ''nuc01'' ''site-a'' ''site-b'')\<lparr>tRepoID := ''nuc01-data''\<rparr>"

text \<open>Witness.\<close>

theorem expandStorageURL_segments_witness:
  "expandStorageURL ''sftp://b@nas:22/mnt/{remote_home}/{server_type}'' exCtx [] = Inr ''sftp://b@nas:22//mnt/site-bhome/nuc''"
proof -
  let ?segs = "[Lit ''sftp://b@nas:22/mnt/'', Ph ''{remote_home}'', Lit ''/'', Ph ''{server_type}'']"
  let ?ps = "placeholders (tServer exCtx) exCtx"
  have e: "concat (map segText ?segs) = ''sftp://b@nas:22/mnt/{remote_home}/{server_type}''" by simp
  have ok: "list_all (segOk ?ps) ?segs" by (simp add: placeholders_def)
  have vals: "\<forall>p \<in> set ?ps. CHR ''{'' \<notin> set (snd p)" by code_simp
  have rh: "tRemoteHome exCtx \<noteq> []" by code_simp
  have out: "normalizeSFTPAbsolutePath (concat (map (segValue ?ps) ?segs)) = ''sftp://b@nas:22//mnt/site-bhome/nuc''" by code_simp
  show ?thesis
    using expandStorageURL_segments [of ?ps "[]" exCtx ?segs] ok vals rh by (simp only: e out if_False not_not refl simp_thms if_True)
qed

text \<open>An unsupported placeholder never reaches the storage backend: when a template has, after supported
  segments, a name in braces that is none of the supported ones, the expansion is refused and names it.\<close>

theorem expandStorageURL_unknown:
  assumes ps_def: "ps = placeholders (if ov \<noteq> [] then ov else tServer ctx) ctx"
    and "list_all (segOk ps) segs" "\<forall>p \<in> set ps. CHR ''{'' \<notin> set (snd p)"
    and name: "phStart c" "list_all phChar n" "''{'' @ c # n @ ''}'' \<notin> fst ` set ps"
    and rh: "tRemoteHome ctx \<noteq> []"
  shows "expandStorageURL (concat (map segText segs) @ ''{'' @ c # n @ ''}'' @ t) ctx ov = Inl (UnknownPlaceholder (''{'' @ c # n @ ''}''))"
proof -
  let ?bad = "''{'' @ c # n @ ''}''"
  have br: "braced ps" unfolding ps_def by (rule braced_placeholders)
  have nb: "x \<noteq> CHR ''{'' \<and> x \<noteq> CHR ''}''" if "phChar x" for x using that by (auto simp: phChar_def phStart_def isDigit_def)
  have nbr: "CHR ''{'' \<notin> set (c # n @ ''}'')" "CHR ''}'' \<notin> set (c # n)"
    using nb name(1,2) by (auto simp: list_all_iff phChar_def)
  have "find (\<lambda>(old, _). old \<noteq> [] \<and> prefix old (?bad @ t)) ps = None"
  proof (rule ccontr)
    assume "find (\<lambda>(old, _). old \<noteq> [] \<and> prefix old (?bad @ t)) ps \<noteq> None"
    then obtain k v where "find (\<lambda>(old, _). old \<noteq> [] \<and> prefix old (?bad @ t)) ps = Some (k, v)" by auto
    then have kv: "(k, v) \<in> set ps" "prefix k (?bad @ t)" by (auto simp: find_Some_iff dest: nth_mem)
    have "braced [(?bad, []), (k, v)]" using braced_key [OF br kv(1)] nbr kv(1) name(3)
      by (auto simp: braced_def intro!: exI [of _ "c # n"] image_eqI)
    then have "k = ?bad" using kv(2) braced_prefix_unique [of "[(?bad, []), (k, v)]" ?bad "[]" k v t] by simp
    then show False using kv(1) name(3) by force
  qed
  then have "replacer ps (?bad @ t) = CHR ''{'' # replacer ps ((c # n @ ''}'') @ t)" by simp
  then have rbad: "replacer ps (?bad @ t) = ?bad @ replacer ps t" using replacer_lit [OF br nbr(1)] by simp
  have vals: "CHR ''{'' \<notin> set (segValue ps g)" if "g \<in> set segs" for g
    using assms(2,3) that by (cases g; cases "map_of ps (segText g)") (fastforce simp: list_all_iff dest: map_of_SomeD)+
  have out: "replacer ps (concat (map segText segs) @ ?bad @ t) = concat (map (segValue ps) segs) @ ?bad @ replacer ps t"
    unfolding replacer_segs [OF br assms(2)] rbad ..
  have "placeholderAt (?bad @ replacer ps t) = Some ?bad"
    using name(1,2) nb by (auto simp: placeholderAt_def list_all_iff takeWhile_append2 dropWhile_append2)
  then have "findPlaceholder (?bad @ replacer ps t) = ?bad" by simp
  then have "findPlaceholder (concat (map (segValue ps) segs) @ ?bad @ replacer ps t) = ?bad"
    using vals by (subst findPlaceholder_nobrace) auto
  then have "expandStorageURL (concat (map segText segs) @ ?bad @ t) ctx ov = Inl (UnknownPlaceholder ?bad)"
    using rh out by (simp only: expandStorageURL_def ps_def Let_def) auto
  then show ?thesis by simp
qed

text \<open>Witness.\<close>

theorem expandStorageURL_unknown_witness:
  "expandStorageURL ''b2://bucket/{site}/{srvr}/x'' exCtx [] = Inl (UnknownPlaceholder ''{srvr}'')"
proof -
  let ?segs = "[Lit ''b2://bucket/'', Ph ''{site}'', Lit ''/'']" and ?ps = "placeholders (tServer exCtx) exCtx"
  have ok: "list_all (segOk ?ps) ?segs" by (simp add: placeholders_def)
  have vals: "\<forall>p \<in> set ?ps. CHR ''{'' \<notin> set (snd p)" by code_simp
  have n: "phStart (CHR ''s'')" "list_all phChar ''rvr''" "''{'' @ CHR ''s'' # ''rvr'' @ ''}'' \<notin> fst ` set ?ps" "tRemoteHome exCtx \<noteq> []"
    by code_simp+
  show ?thesis using expandStorageURL_unknown [of ?ps "[]" exCtx ?segs "CHR ''s''" "''rvr''" "''/x''"] ok vals n by simp
qed

lemma upTo_slash: "CHR ''/'' \<notin> set a \<Longrightarrow> s = [] \<or> prefix ''/'' s \<Longrightarrow> upTo CHR ''/'' (a @ s) = a"
  using upTo_append [of "CHR ''/''" a s] by (auto simp: prefix_def) (simp_all add: upTo_def)

lemma normalize_eq:
  assumes "CHR ''/'' \<notin> set a" "s = [] \<or> prefix ''/'' s"
  shows "normalizeSFTPAbsolutePath (''sftp://'' @ a @ s) =
    (if s \<noteq> [] \<and> \<not> prefix ''//'' s \<and> list_ex (\<lambda>rt. prefix rt s \<or> s = trimSuffix rt ''/'') systemRoots
     then ''sftp://'' @ a @ ''/'' @ s else ''sftp://'' @ a @ s)"
  using upTo_slash [OF assms] by (simp add: normalizeSFTPAbsolutePath_def Let_def)

lemma slash_split: "\<exists>a s. t = a @ s \<and> CHR ''/'' \<notin> set a \<and> (s = [] \<or> prefix ''/'' s)"
proof -
  have "t = takeWhile (\<lambda>c. c \<noteq> CHR ''/'') t @ dropWhile (\<lambda>c. c \<noteq> CHR ''/'') t" by simp
  moreover have "CHR ''/'' \<notin> set (takeWhile (\<lambda>c. c \<noteq> CHR ''/'') t)" by (auto dest: set_takeWhileD)
  moreover have "dropWhile (\<lambda>c. c \<noteq> CHR ''/'') t = [] \<or> prefix ''/'' (dropWhile (\<lambda>c. c \<noteq> CHR ''/'') t)"
    by (induction t) auto
  ultimately show ?thesis by blast
qed

text \<open>The SFTP normal form is idempotent, and every SFTP URL in it whose path starts with one of the system
  roots has the double slash that the vend-time validator asks for.\<close>

theorem normalizeSFTPAbsolutePath_normal:
  "normalizeSFTPAbsolutePath (normalizeSFTPAbsolutePath u) = normalizeSFTPAbsolutePath u \<and>
   (\<forall>a rt p. rt \<in> set systemRoots \<longrightarrow> CHR ''/'' \<notin> set a \<longrightarrow>
      normalizeSFTPAbsolutePath (''sftp://'' @ a @ rt @ p) = ''sftp://'' @ a @ ''/'' @ rt @ p)"
proof
  show "normalizeSFTPAbsolutePath (normalizeSFTPAbsolutePath u) = normalizeSFTPAbsolutePath u"
  proof (cases "prefix ''sftp://'' u")
    case True
    then obtain t where t: "u = ''sftp://'' @ t" by (auto simp: prefix_def)
    obtain a s where a: "t = a @ s" "CHR ''/'' \<notin> set a" "s = [] \<or> prefix ''/'' s" using slash_split by blast
    show ?thesis using normalize_eq [OF a(2,3)] normalize_eq [OF a(2), of "''/'' @ s"] a(3) unfolding t a(1) by auto
  qed (simp add: normalizeSFTPAbsolutePath_def)
  have roots: "\<forall>rt \<in> set systemRoots. prefix ''/'' rt \<and> \<not> prefix ''/'' (drop 1 rt) \<and> 1 < length rt" by code_simp
  have "normalizeSFTPAbsolutePath (''sftp://'' @ a @ rt @ p) = ''sftp://'' @ a @ ''/'' @ rt @ p"
    if rt: "rt \<in> set systemRoots" "CHR ''/'' \<notin> set a" for a rt p
  proof -
    obtain x y where r: "rt = CHR ''/'' # x # y" "x \<noteq> CHR ''/''"
      using bspec [OF roots rt(1)] by (cases rt; cases "tl rt") auto
    have "list_ex (\<lambda>q. prefix q (rt @ p) \<or> rt @ p = trimSuffix q ''/'') systemRoots" unfolding list_ex_iff using rt(1) by (intro bexI [of _ rt]) simp
    then show ?thesis using normalize_eq [OF rt(2), of "rt @ p"] r by simp
  qed
  then show "\<forall>a rt p. rt \<in> set systemRoots \<longrightarrow> CHR ''/'' \<notin> set a \<longrightarrow>
      normalizeSFTPAbsolutePath (''sftp://'' @ a @ rt @ p) = ''sftp://'' @ a @ ''/'' @ rt @ p" by blast
qed

text \<open>Witness.\<close>

theorem normalizeSFTPAbsolutePath_normal_witness:
  "normalizeSFTPAbsolutePath ''sftp://u@h:22/mnt/x'' = ''sftp://u@h:22//mnt/x''"
proof -
  have "normalizeSFTPAbsolutePath (''sftp://'' @ ''u@h:22'' @ ''/mnt/'' @ ''x'') = ''sftp://'' @ ''u@h:22'' @ ''/'' @ ''/mnt/'' @ ''x''"
    by (rule normalizeSFTPAbsolutePath_normal [THEN conjunct2, rule_format]) (simp_all add: systemRoots_def)
  then show ?thesis by simp
qed

section \<open>Destination identity\<close>

definition plainByte :: "char \<Rightarrow> bool" where
  "plainByte c \<longleftrightarrow> isAlnum c \<or> c \<in> set ''-._''"

lemma plainByte_cases:
  assumes "plainByte c"
  shows "hostByteOk c" "userByteOk c" "\<not> ctlByte c" "\<not> isSpace c" "c \<notin> set ''#?/:@%[{}''"
  using assms by (auto simp: plainByte_def isAlnum_def isDigit_def hostByteOk_def userByteOk_def ctlByte_def isSpace_def)

lemma escapes_plain: "CHR ''%'' \<notin> set s \<Longrightarrow> escapesOk s \<and> hostEscapesOk s \<and> unescape s = s"
  by (induction s) auto

lemma trimSpace_id: "list_all (\<lambda>c. \<not> isSpace c) s \<Longrightarrow> trimSpace s = s"
  by (simp add: trimSpace_def trimLeftFunc_def trimRightFunc_def list_all_iff dropWhile_eq_self_iff)
    (metis dropWhile_eq_self_iff hd_in_set rev_rev_ident set_rev)

lemma cutLast_append: "c \<notin> set b \<Longrightarrow> cutLast c (a @ c # b) = Some (a, b)"
proof -
  assume "c \<notin> set b"
  then have "upTo c (rev b @ c # rev a) = rev b" by (simp add: upTo_append) (simp add: upTo_def)
  then show ?thesis by (simp add: cutLast_def cutChar_split)
qed

lemma cutLast_none: "c \<notin> set s \<Longrightarrow> cutLast c s = None"
  by (simp add: cutLast_def cutChar_split)

lemma urlParse_plain:
  assumes "list_all plainByte user" "list_all plainByte host" "host \<noteq> []" "list_all isDigit port"
    "list_all (\<lambda>c. plainByte c \<or> c = CHR ''/'') path" "path = [] \<or> prefix ''/'' path"
    and e: "e = [] \<or> e = CHR '':'' # port"
  shows "urlParse (''sftp://'' @ user @ ''@'' @ host @ e @ path) = Some (Some user, host @ e)"
proof -
  let ?auth = "user @ ''@'' @ host @ e" and ?raw = "''sftp://'' @ user @ ''@'' @ host @ e @ path"
  have dig: "plainByte c" if "isDigit c" for c using that by (simp add: plainByte_def isAlnum_def)
  have pl: "\<And>c. c \<in> set user \<union> set host \<union> set port \<Longrightarrow> plainByte c" "\<And>c. c \<in> set path \<Longrightarrow> plainByte c \<or> c = CHR ''/''"
    using assms dig by (auto simp: list_all_iff)
  have "\<forall>c\<in>set ''#?/:@%[{}''. c \<notin> set user \<and> c \<notin> set host \<and> c \<notin> set port \<and> (c \<noteq> CHR ''/'' \<longrightarrow> c \<notin> set path)"
    using pl plainByte_cases(5) by blast
  note mem = this [simplified]
  have lit: "list_all (\<lambda>c. \<not> ctlByte c) ''sftp://''" "\<not> ctlByte (CHR ''@'')" "\<not> ctlByte (CHR '':'')" "\<not> ctlByte (CHR ''/'')"
    by code_simp+
  have noctl: "list_all (\<lambda>c. \<not> ctlByte c) w" if "list_all plainByte w \<or> list_all (\<lambda>c. plainByte c \<or> c = CHR ''/'') w" for w
    using that lit(4) plainByte_cases(3) unfolding list_all_iff by blast
  have "list_all (\<lambda>c. \<not> ctlByte c) user" "list_all (\<lambda>c. \<not> ctlByte c) host" "list_all (\<lambda>c. \<not> ctlByte c) path"
    "list_all (\<lambda>c. \<not> ctlByte c) port"
    using noctl assms(1,2,5) pl(1) by (blast, blast, blast, auto simp: list_all_iff plainByte_cases(3))
  then have "list_all (\<lambda>c. \<not> ctlByte c) ?raw" using lit e by auto
  then have ctl: "\<not> list_ex ctlByte ?raw" unfolding list_ex_iff list_all_iff by blast
  have noh: "CHR ''#'' \<notin> set ?raw" "CHR ''?'' \<notin> set ?raw" using mem e by auto
  have auth: "upTo CHR ''/'' (?auth @ path) = ?auth" using mem e by (intro upTo_slash) (auto simp: assms(6))
  have at: "cutLast CHR ''@'' ?auth = Some (user, host @ e)" using mem e cutLast_append [of "CHR ''@''" "host @ e" user] by auto
  have pct: "CHR ''%'' \<notin> set path" "CHR ''%'' \<notin> set user" "CHR ''%'' \<notin> set (host @ e)" using mem e by auto
  have hostp: "cutLast CHR '':'' (host @ e) = (if e = [] then None else Some (host, port))"
    using e mem cutLast_append [of "CHR '':''" port host] by (auto simp: cutLast_none)
  have colon: "hostByteOk (CHR '':'')" by code_simp
  have "\<not> prefix ''['' (host @ e)" using mem assms(3) by (cases host) auto
  moreover have "list_all hostByteOk (host @ e)" using pl(1) plainByte_cases(1) colon e by (auto simp: list_all_iff)
  ultimately have ph: "parseHostOk (host @ e)"
    using pct(3) hostp assms(4) by (simp add: parseHostOk_def escapes_plain split: if_splits)
  have us: "list_all userByteOk user" "upTo CHR '':'' user = user" using pl plainByte_cases(2) mem by (auto simp: list_all_iff upTo_none)
  show ?thesis
    using ctl noh auth at pct ph us by (simp add: urlParse_def upTo_none escapes_plain Let_def)
qed

text \<open>The destination key of an SFTP storage is the host alone: user, port and path of the URL do not
  change it, so repos on one server aggregate under one key.\<close>

theorem DestinationKey_sftp:
  assumes "list_all plainByte user" "list_all plainByte host" "host \<noteq> []" "list_all isDigit port"
    "list_all (\<lambda>c. plainByte c \<or> c = CHR ''/'') path"
  shows "fst (DestinationKey (''sftp://'' @ user @ ''@'' @ host @ '':'' @ port @ ''/'' @ path)) = ''sftp://'' @ host"
proof -
  let ?rest = "user @ ''@'' @ host @ '':'' @ port @ ''/'' @ path"
  have lit: "list_all (\<lambda>c. \<not> isSpace c) ''sftp://''" "\<not> isSpace (CHR ''@'')" "\<not> isSpace (CHR '':'')" "\<not> isSpace (CHR ''/'')"
    by code_simp+
  have dig: "isDigit c \<Longrightarrow> \<not> isSpace c" for c by (auto simp: isDigit_def isSpace_def)
  have "list_all (\<lambda>c. \<not> isSpace c) (''sftp://'' @ ?rest)"
    unfolding list_all_append using lit dig assms plainByte_cases(4) by (auto simp: list_all_iff)
  then have trim: "trimSpace (''sftp://'' @ ?rest) = ''sftp://'' @ ?rest" by (rule trimSpace_id)
  have sch: "splitScheme (''sftp://'' @ ?rest) = Some (''sftp'', ?rest)" by (simp add: splitScheme_def)
  have "CHR '':'' \<notin> set host" using assms(2) plainByte_cases(5) by (fastforce simp: list_all_iff)
  then have up: "upTo CHR '':'' (host @ CHR '':'' # port) = host" by (simp add: upTo_append) (simp add: upTo_def)
  have "urlParse (''sftp://'' @ user @ ''@'' @ host @ (CHR '':'' # port) @ (CHR ''/'' # path)) = Some (Some user, host @ CHR '':'' # port)"
    by (rule urlParse_plain [OF assms(1-4)]) (use assms(5) in auto)
  then have h: "extractHost ?rest = host" using up by (simp add: extractHost_def)
  have low: "toLower ''sftp'' = ''sftp''" by code_simp
  show ?thesis using assms(3) unfolding DestinationKey_def trim Let_def sch by (simp add: h [simplified] low)
qed

text \<open>Witness.\<close>

theorem DestinationKey_sftp_witness:
  "fst (DestinationKey ''sftp://backup@nas.example.com:22//mnt/repoA'') = ''sftp://nas.example.com''"
proof -
  have "list_all plainByte ''backup''" "list_all plainByte ''nas.example.com''" "list_all isDigit ''22''"
    "list_all (\<lambda>c. plainByte c \<or> c = CHR ''/'') ''/mnt/repoA''" by code_simp+
  from DestinationKey_sftp [OF this(1,2) _ this(3,4)] show ?thesis by simp
qed

end
