(* ===== verification/Secrets.thy ===== *)
theory Secrets
  imports StorageUrl
begin

text \<open>
  Credentials: what a bundle becomes in the environment of one CLI run (secrets.go), the cache of vended
  bundles (secrets.go), the vending call with its retries (network.go) and \<open>prepareEnvForRepo\<close>, which puts
  them together (secrets_runtime.go).

  \<open>shmState\<close> is the directory /dev/shm: its files, and the outcomes of the next calls of \<open>writeShmTmp\<close>.
  \<open>os.CreateTemp\<close> picks a name that no file has; here it is the one with the least unused number. Removing a
  file from the tmpfs is taken to succeed. The conversion of an RSA key (crypto/x509, encoding/pem) is the
  argument \<open>pkcs1\<close>. What the controller answers to the n-th attempt is an argument, and so is whether the
  context ended before that attempt. \<open>ensureHostKey\<close>, which only logs on failure, is left out.
\<close>

section \<open>Temporary files\<close>

datatype shmOutcome = ShmOk | CreateFails | ChmodFails | WriteFails | CloseFails

record shmState =
  shmFiles :: "(string \<times> string) list"
  shmOutcomes :: "shmOutcome list"

definition shmCandidate :: "string \<Rightarrow> nat \<Rightarrow> string" where
  "shmCandidate pre n = ''/dev/shm/'' @ pre @ natDigits n"

definition shmName :: "string \<Rightarrow> shmState \<Rightarrow> string" where
  "shmName pre st =
     (case find (\<lambda>n. shmCandidate pre n \<notin> fst ` set (shmFiles st)) [0..<Suc (length (shmFiles st))] of
        None \<Rightarrow> [] | Some n \<Rightarrow> shmCandidate pre n)"

definition shmRemove :: "string \<Rightarrow> shmState \<Rightarrow> shmState" where
  "shmRemove p st = st\<lparr>shmFiles := filter (\<lambda>f. fst f \<noteq> p) (shmFiles st)\<rparr>"

definition writeShmTmp :: "string \<Rightarrow> string \<Rightarrow> shmState \<Rightarrow> string option \<times> shmState" where
  "writeShmTmp pre dat st =
     (let st1 = st\<lparr>shmOutcomes := tl (shmOutcomes st)\<rparr>; name = shmName pre st;
          created = st1\<lparr>shmFiles := shmFiles st @ [(name, [])]\<rparr>;
          written = st1\<lparr>shmFiles := shmFiles st @ [(name, dat)]\<rparr>
      in case shmOutcomes st of
           CreateFails # _ \<Rightarrow> (None, st1)
         | ChmodFails # _ \<Rightarrow> (None, shmRemove name created)
         | WriteFails # _ \<Rightarrow> (None, shmRemove name created)
         | CloseFails # _ \<Rightarrow> (None, shmRemove name written)
         | _ \<Rightarrow> (Some name, written))"

definition cleanupTmpfiles :: "string list \<Rightarrow> shmState \<Rightarrow> shmState" where
  "cleanupTmpfiles paths st = fold shmRemove paths st"

section \<open>From a bundle to the environment\<close>

record SecretsBundle =
  sbStorageURL :: string
  sbStorageType :: string
  sbEncryptionPassword :: string
  sbBackend :: "(string \<times> string) list"
  sbUpdatedAt :: go_time

record buildEnvResult =
  beEnv :: "string list"
  beTmpfiles :: "string list"
  beKnown :: "string list"  \<comment> \<open>the local map \<open>known\<close>\<close>
  beRSAPubPath :: string
  beRSAPrivPath :: string

datatype envError =
    NoEncryptionPassword | MissingBackend string | Materialize string | UnknownStorageType string | UnrecognisedKey string

definition envPrefix :: "string \<Rightarrow> bool \<Rightarrow> string" where
  "envPrefix storageAlias isPrimary =
     (if \<not> isPrimary \<and> storageAlias \<noteq> [] \<and> \<not> equalFold storageAlias ''default''
      then ''DUPLICACY_'' @ toUpper storageAlias @ ''_'' else ''DUPLICACY_'')"

definition addEnv :: "string \<Rightarrow> string \<Rightarrow> string \<Rightarrow> string \<Rightarrow> buildEnvResult \<Rightarrow> buildEnvResult" where
  "addEnv pre name val k r = r\<lparr>beEnv := beEnv r @ [pre @ name @ ''='' @ val], beKnown := beKnown r @ [k]\<rparr>"

text \<open>An optional key with a non-empty value.\<close>

definition addOptional :: "string \<Rightarrow> string \<Rightarrow> string \<Rightarrow> SecretsBundle \<Rightarrow> buildEnvResult \<Rightarrow> buildEnvResult" where
  "addOptional pre name k b r =
     (case map_of (sbBackend b) k of Some v \<Rightarrow> if v \<noteq> [] then addEnv pre name v k r else r | None \<Rightarrow> r)"

text \<open>A key that must be present.\<close>

definition addRequired :: "string \<Rightarrow> string \<Rightarrow> string \<Rightarrow> SecretsBundle \<Rightarrow> buildEnvResult \<Rightarrow> envError + buildEnvResult" where
  "addRequired pre name k b r =
     (case map_of (sbBackend b) k of Some v \<Rightarrow> Inr (addEnv pre name v k r) | None \<Rightarrow> Inl (MissingBackend k))"

definition addFile :: "string \<Rightarrow> string \<Rightarrow> string \<Rightarrow> string \<Rightarrow> string \<Rightarrow> buildEnvResult \<Rightarrow> shmState \<Rightarrow> (envError + buildEnvResult) \<times> shmState" where
  "addFile pre name tmpPre k val r st =
     (case writeShmTmp tmpPre val st of
        (None, st') \<Rightarrow> (Inl (Materialize k), st')
      | (Some tmp, st') \<Rightarrow> (Inr ((addEnv pre name tmp k r)\<lparr>beTmpfiles := beTmpfiles r @ [tmp]\<rparr>), st'))"

definition valueOf :: "SecretsBundle \<Rightarrow> string \<Rightarrow> string" where
  "valueOf b k = (case map_of (sbBackend b) k of None \<Rightarrow> [] | Some v \<Rightarrow> v)"

text \<open>The cases of the switch over the storage type.\<close>

definition b2Env :: "string \<Rightarrow> SecretsBundle \<Rightarrow> buildEnvResult \<Rightarrow> envError + buildEnvResult" where
  "b2Env pre b r =
     (case addRequired pre ''B2_ID'' ''b2_id'' b r of Inl e \<Rightarrow> Inl e | Inr r1 \<Rightarrow> addRequired pre ''B2_KEY'' ''b2_key'' b r1)"

definition s3Env :: "string \<Rightarrow> SecretsBundle \<Rightarrow> buildEnvResult \<Rightarrow> envError + buildEnvResult" where
  "s3Env pre b r =
     (case addRequired pre ''S3_ID'' ''s3_id'' b r of
        Inl e \<Rightarrow> Inl e
      | Inr r1 \<Rightarrow> (case addRequired pre ''S3_SECRET'' ''s3_secret'' b r1 of
                    Inl e \<Rightarrow> Inl e | Inr r2 \<Rightarrow> Inr (addOptional pre ''S3_TOKEN'' ''s3_token'' b r2)))"

definition sftpKeyEnv :: "string \<Rightarrow> SecretsBundle \<Rightarrow> buildEnvResult \<Rightarrow> shmState \<Rightarrow> (envError + buildEnvResult) \<times> shmState" where
  "sftpKeyEnv pre b r st =
     (if valueOf b ''ssh_key'' = [] then (Inr r, st)
      else case addFile pre ''SSH_KEY_FILE'' ''duplicacy-sshkey-'' ''ssh_key'' (valueOf b ''ssh_key'') r st of
        (Inl e, st') \<Rightarrow> (Inl e, st')
      | (Inr r', st') \<Rightarrow> (Inr (addOptional pre ''SSH_KEY_PASSPHRASE'' ''ssh_key_passphrase'' b r'), st'))"

definition sftpEnv :: "string \<Rightarrow> SecretsBundle \<Rightarrow> buildEnvResult \<Rightarrow> shmState \<Rightarrow> (envError + buildEnvResult) \<times> shmState" where
  "sftpEnv pre b r st =
     (if valueOf b ''ssh_key'' = [] \<and> valueOf b ''ssh_password'' = [] then (Inl (MissingBackend ''ssh_key''), st)
      else case sftpKeyEnv pre b r st of
        (Inl e, st') \<Rightarrow> (Inl e, st')
      | (Inr r', st') \<Rightarrow> (Inr (addOptional pre ''SSH_PASSWORD'' ''ssh_password'' b r'), st'))"

definition gcsEnv :: "string \<Rightarrow> SecretsBundle \<Rightarrow> buildEnvResult \<Rightarrow> shmState \<Rightarrow> (envError + buildEnvResult) \<times> shmState" where
  "gcsEnv pre b r st =
     (if valueOf b ''gcs_service_account_json'' = [] then (Inl (MissingBackend ''gcs_service_account_json''), st)
      else addFile pre ''GCS_TOKEN_FILE'' ''duplicacy-gcskey-'' ''gcs_service_account_json'' (valueOf b ''gcs_service_account_json'') r st)"

definition azureEnv :: "string \<Rightarrow> SecretsBundle \<Rightarrow> buildEnvResult \<Rightarrow> envError + buildEnvResult" where
  "azureEnv pre b r =
     (let r1 = addOptional pre ''AZURE_ACCOUNT'' ''azure_account'' b r
      in if valueOf b ''azure_key'' \<noteq> [] then Inr (addOptional pre ''AZURE_KEY'' ''azure_key'' b r1) else Inl (MissingBackend ''azure_key''))"

definition backendEnv :: "string \<Rightarrow> string \<Rightarrow> SecretsBundle \<Rightarrow> buildEnvResult \<Rightarrow> shmState \<Rightarrow> (envError + buildEnvResult) \<times> shmState" where
  "backendEnv pre storageType b r st =
     (if storageType = ''b2'' then (b2Env pre b r, st)
      else if storageType = ''s3'' then (s3Env pre b r, st)
      else if storageType = ''sftp'' then sftpEnv pre b r st
      else if storageType = ''gcs'' then gcsEnv pre b r st
      else if storageType = ''azure'' then (azureEnv pre b r, st)
      else if storageType = ''local'' then (Inr r, st)
      else (Inl (UnknownStorageType storageType), st))"

text \<open>One RSA key: materialised when present, the files so far removed when that fails.\<close>

definition rsaFile :: "string \<Rightarrow> string \<Rightarrow> (string \<Rightarrow> string) \<Rightarrow> string \<Rightarrow> (string \<Rightarrow> buildEnvResult \<Rightarrow> buildEnvResult) \<Rightarrow> buildEnvResult \<Rightarrow> shmState \<Rightarrow>
    (envError + buildEnvResult) \<times> shmState" where
  "rsaFile tmpPre k conv val setPath r st =
     (if val = [] then (Inr r, st)
      else case writeShmTmp tmpPre (conv val) st of
        (None, st') \<Rightarrow> (Inl (Materialize k), cleanupTmpfiles (beTmpfiles r) st')
      | (Some tmp, st') \<Rightarrow> (Inr (setPath tmp (r\<lparr>beTmpfiles := beTmpfiles r @ [tmp], beKnown := beKnown r @ [k]\<rparr>)), st'))"

definition buildEnv :: "(string \<Rightarrow> string) \<Rightarrow> string \<Rightarrow> string \<Rightarrow> bool \<Rightarrow> SecretsBundle \<Rightarrow> shmState \<Rightarrow> (envError + buildEnvResult) \<times> shmState" where
  "buildEnv pkcs1 storageType storageAlias isPrimary b st =
     (if sbEncryptionPassword b = [] then (Inl NoEncryptionPassword, st)
      else
        let pre = envPrefix storageAlias isPrimary;
            r0 = \<lparr>beEnv = [pre @ ''PASSWORD'' @ ''='' @ sbEncryptionPassword b], beTmpfiles = [], beKnown = [], beRSAPubPath = [], beRSAPrivPath = []\<rparr>
        in case backendEnv pre storageType b r0 st of
             (Inl e, st1) \<Rightarrow> (Inl e, st1)
           | (Inr r1, st1) \<Rightarrow>
               (case rsaFile ''duplicacy-rsa-pub-'' ''rsa_public_key'' (\<lambda>x. x) (valueOf b ''rsa_public_key'') (\<lambda>p r. r\<lparr>beRSAPubPath := p\<rparr>) r1 st1 of
                  (Inl e, st2) \<Rightarrow> (Inl e, st2)
                | (Inr r2, st2) \<Rightarrow>
                    (case rsaFile ''duplicacy-rsa-priv-'' ''rsa_private_key'' pkcs1 (valueOf b ''rsa_private_key'')
                            (\<lambda>p r. r\<lparr>beRSAPrivPath := p\<rparr>) r2 st2 of
                       (Inl e, st3) \<Rightarrow> (Inl e, st3)
                     | (Inr r3, st3) \<Rightarrow>
                         let r4 = addOptional '''' ''DUPLICACY_RSA_PASSPHRASE'' ''rsa_passphrase'' b r3
                         in (case find (\<lambda>k. k \<notin> set (beKnown r4)) (map fst (sbBackend b)) of
                               Some k \<Rightarrow> (Inl (UnrecognisedKey k), cleanupTmpfiles (beTmpfiles r4) st3)
                             | None \<Rightarrow> (Inr r4, st3)))))"

section \<open>The cache of bundles\<close>

type_synonym secretCache = "(string \<times> SecretsBundle \<times> int) list"

definition secretCacheTTL :: int where "secretCacheTTL = 60 * 1000000000"

definition cacheGet :: "int \<Rightarrow> string \<Rightarrow> secretCache \<Rightarrow> SecretsBundle option" where
  "cacheGet now cid c =
     (case map_of c cid of None \<Rightarrow> None | Some (b, cachedAt) \<Rightarrow> if now - cachedAt > secretCacheTTL then None else Some b)"

definition timeAfter :: "go_time \<Rightarrow> go_time \<Rightarrow> bool" where
  "timeAfter x y = (case x of None \<Rightarrow> False | Some a \<Rightarrow> (case y of None \<Rightarrow> True | Some b \<Rightarrow> a > b))"

definition cachePut :: "int \<Rightarrow> string \<Rightarrow> SecretsBundle \<Rightarrow> secretCache \<Rightarrow> secretCache" where
  "cachePut now cid b c =
     (case map_of c cid of
        Some (ex, _) \<Rightarrow> if sbUpdatedAt b \<noteq> None \<and> timeAfter (sbUpdatedAt ex) (sbUpdatedAt b) then c else AList.update cid (b, now) c
      | None \<Rightarrow> AList.update cid (b, now) c)"

definition invalidate :: "string \<Rightarrow> secretCache \<Rightarrow> secretCache" where
  "invalidate cid c = AList.delete cid c"

definition invalidateAll :: "secretCache \<Rightarrow> secretCache" where
  "invalidateAll c = []"

section \<open>Vending\<close>

text \<open>The outcome of one HTTP exchange: the request could not be built, the call failed, a status other than
  200, or the decoded body (\<open>None\<close> when it is not such a document).\<close>

datatype vendReply = VendBuildErr | VendNetErr | VendStatus int | VendBody "SecretsBundle option"

datatype vendError =
    VendBuild | VendNet | VendRejected | VendForbidden | VendNotFound | VendTransient int | VendOther int
  | VendDecode | VendNoPassword | VendNoType | VendBadURL urlError | VendNoClient | VendNoURL | VendCtxDone | VendExhausted vendError

text \<open>The flag of an error says that it is transient.\<close>

definition fetchSecretsOnce :: "vendReply \<Rightarrow> disk \<Rightarrow> ((bool \<times> vendError) + SecretsBundle) \<times> disk" where
  "fetchSecretsOnce reply d =
     (case reply of
        VendBuildErr \<Rightarrow> (Inl (False, VendBuild), d)
      | VendNetErr \<Rightarrow> (Inl (True, VendNet), d)
      | VendStatus s \<Rightarrow>
          (Inl (if s = 401 then (False, VendRejected) else if s = 403 then (False, VendForbidden) else if s = 404 then (False, VendNotFound)
                else if s \<in> {503, 502, 504, 500} then (True, VendTransient s) else (False, VendOther s)), d)
      | VendBody None \<Rightarrow> (Inl (False, VendDecode), d)
      | VendBody (Some b) \<Rightarrow>
          if sbEncryptionPassword b = [] then (Inl (False, VendNoPassword), d)
          else if sbStorageType b = [] then (Inl (False, VendNoType), d)
          else (case ValidateStorageURL (sbStorageType b) (sbStorageURL b) d of
                  (Some e, d') \<Rightarrow> (Inl (False, VendBadURL e), d')
                | (None, d') \<Rightarrow> (Inr b, d')))"

definition maxAttempts :: nat where "maxAttempts = 4"

fun vendLoop :: "(nat \<Rightarrow> vendReply) \<Rightarrow> (nat \<Rightarrow> bool) \<Rightarrow> nat \<Rightarrow> nat \<Rightarrow> vendError \<Rightarrow> disk \<Rightarrow> (vendError + SecretsBundle) \<times> disk" where
  "vendLoop replies ctxDone attempt 0 lastErr d = (Inl (VendExhausted lastErr), d)"
| "vendLoop replies ctxDone attempt (Suc n) lastErr d =
     (if attempt > 0 \<and> ctxDone attempt then (Inl VendCtxDone, d)
      else case fetchSecretsOnce (replies attempt) d of
        (Inr b, d') \<Rightarrow> (Inr b, d')
      | (Inl (False, e), d') \<Rightarrow> (Inl e, d')
      | (Inl (True, e), d') \<Rightarrow> vendLoop replies ctxDone (Suc attempt) n e d')"

definition fetchSecrets :: "bool \<Rightarrow> string \<Rightarrow> (nat \<Rightarrow> vendReply) \<Rightarrow> (nat \<Rightarrow> bool) \<Rightarrow> disk \<Rightarrow> (vendError + SecretsBundle) \<times> disk" where
  "fetchSecrets hasClient controlCenterURL replies ctxDone d =
     (if \<not> hasClient then (Inl VendNoClient, d)
      else if controlCenterURL = [] then (Inl VendNoURL, d)
      else vendLoop replies ctxDone 0 maxAttempts VendNet d)"

section \<open>Preparing a run\<close>

record secretsState =
  ssCache :: secretCache
  ssShm :: shmState
  ssDisk :: disk

record vendEnv =
  veNow :: int
  veClient :: bool
  veURL :: string
  veReply :: "string \<Rightarrow> nat \<Rightarrow> vendReply"
  veCtxDone :: "string \<Rightarrow> nat \<Rightarrow> bool"

definition resolveCredential :: "vendEnv \<Rightarrow> string \<Rightarrow> secretsState \<Rightarrow> (vendError + SecretsBundle) \<times> secretsState" where
  "resolveCredential v cid st =
     (case cacheGet (veNow v) cid (ssCache st) of
        Some b \<Rightarrow> (Inr b, st)
      | None \<Rightarrow>
          (case fetchSecrets (veClient v) (veURL v) (veReply v cid) (veCtxDone v cid) (ssDisk st) of
             (Inl e, d') \<Rightarrow> (Inl e, st\<lparr>ssDisk := d'\<rparr>)
           | (Inr b, d') \<Rightarrow> (Inr b, st\<lparr>ssDisk := d', ssCache := cachePut (veNow v) cid b (ssCache st)\<rparr>)))"

datatype prepError = NoMapping | NoStorages | VendFailed string vendError | BuildFailed string envError

text \<open>The accumulators of the loop: environment, temporary files, RSA key paths by alias, errors.\<close>

record prepAcc =
  paEnv :: "string list"
  paTmp :: "string list"
  paRsa :: "(string \<times> string) list"
  paErrs :: "prepError list"

definition prepStep :: "(string \<Rightarrow> string) \<Rightarrow> vendEnv \<Rightarrow> RepoStorageMapping \<Rightarrow> prepAcc \<times> secretsState \<Rightarrow> prepAcc \<times> secretsState" where
  "prepStep pkcs1 v s = (\<lambda>(acc, st).
     case resolveCredential v (smCredentialID s) st of
       (Inl e, st1) \<Rightarrow> (acc\<lparr>paErrs := paErrs acc @ [VendFailed (smStorageAlias s) e]\<rparr>, st1)
     | (Inr b, st1) \<Rightarrow>
         let typ = (if sbStorageType b \<noteq> [] \<and> sbStorageType b \<noteq> smStorageType s then sbStorageType b else smStorageType s)
         in (case buildEnv pkcs1 typ (smStorageAlias s) (smIsPrimary s) b (ssShm st1) of
               (Inl e, m) \<Rightarrow> (acc\<lparr>paErrs := paErrs acc @ [BuildFailed (smStorageAlias s) e]\<rparr>, st1\<lparr>ssShm := m\<rparr>)
             | (Inr r, m) \<Rightarrow>
                 (acc\<lparr>paEnv := paEnv acc @ beEnv r, paTmp := paTmp acc @ beTmpfiles r,
                      paRsa := (if beRSAPrivPath r \<noteq> [] then AList.update (smStorageAlias s) (beRSAPrivPath r) (paRsa acc) else paRsa acc)\<rparr>,
                  st1\<lparr>ssShm := m\<rparr>)))"

text \<open>The result is the environment, the RSA key paths and the files the cleanup closure unlinks.\<close>

definition prepareEnvForRepo ::
    "(string \<Rightarrow> string) \<Rightarrow> (string \<Rightarrow> string) \<Rightarrow> vendEnv \<Rightarrow> repoMappingStore \<Rightarrow> string \<Rightarrow> secretsState \<Rightarrow>
     (prepError list + string list \<times> (string \<times> string) list \<times> string list) \<times> secretsState" where
  "prepareEnvForRepo sha pkcs1 v ms repoPath st =
     (case getByPath sha ms repoPath of
        None \<Rightarrow> (Inl [NoMapping], st)
      | Some mp \<Rightarrow>
          if mStorages mp = [] then (Inl [NoStorages], st)
          else
            let (acc, st') = fold (prepStep pkcs1 v) (mStorages mp) (\<lparr>paEnv = [], paTmp = [], paRsa = [], paErrs = []\<rparr>, st)
            in if paErrs acc \<noteq> [] then (Inl (paErrs acc), st'\<lparr>ssShm := cleanupTmpfiles (paTmp acc) (ssShm st')\<rparr>)
               else (Inr (paEnv acc, paRsa acc, paTmp acc), st'))"

section \<open>No secret outlives its run\<close>

lemma shmCandidate_inj: "inj (shmCandidate pre)"
  by (rule injI) (metis shmCandidate_def append_same_eq same_append_eq digitsVal_natDigits)

lemma shmName_fresh: "shmName pre st \<notin> fst ` set (shmFiles st)"
proof -
  let ?K = "fst ` set (shmFiles st)" and ?I = "[0..<Suc (length (shmFiles st))]"
  have "\<exists>n\<in>set ?I. shmCandidate pre n \<notin> ?K"
  proof (rule ccontr)
    assume "\<not> ?thesis"
    then have sub: "shmCandidate pre ` set ?I \<subseteq> ?K" by blast
    have "card (shmCandidate pre ` set ?I) = card (set ?I)" by (rule card_image) (rule inj_on_subset [OF shmCandidate_inj subset_UNIV])
    then have "Suc (length (shmFiles st)) \<le> card ?K" using card_mono [OF _ sub] by simp
    also have "\<dots> \<le> length (shmFiles st)" by (metis card_length length_map list.set_map)
    finally show False by simp
  qed
  then obtain n where "find (\<lambda>n. shmCandidate pre n \<notin> ?K) ?I = Some n"
    using find_None_iff [of "\<lambda>n. shmCandidate pre n \<notin> ?K" ?I] by (metis option.exhaust)
  moreover from this have "shmCandidate pre n \<notin> ?K" by (auto simp: find_Some_iff)
  ultimately show ?thesis by (simp add: shmName_def)
qed

lemma filter_keys_id: "set ks \<inter> fst ` set xs = {} \<Longrightarrow> filter (\<lambda>f. fst f \<notin> set ks) xs = xs"
  by (induction xs) auto

lemma filter_keys_none: "fst ` set xs \<subseteq> set ks \<Longrightarrow> filter (\<lambda>f. fst f \<notin> set ks) xs = []"
  by (induction xs) auto

lemma writeShmTmp_None: "writeShmTmp pre dat st = (None, st') \<Longrightarrow> shmFiles st' = shmFiles st"
  using filter_keys_id [of "[shmName pre st]" "shmFiles st"] shmName_fresh [of pre st]
  by (auto simp: writeShmTmp_def shmRemove_def Let_def split: list.splits shmOutcome.splits)

lemma writeShmTmp_Some:
  "writeShmTmp pre dat st = (Some n, st') \<Longrightarrow> shmFiles st' = shmFiles st @ [(n, dat)] \<and> n \<notin> fst ` set (shmFiles st)"
  using shmName_fresh [of pre st]
  by (auto simp: writeShmTmp_def Let_def split: list.splits shmOutcome.splits)

text \<open>The files \<open>tmp\<close>, and no other, were created between two states.\<close>

definition grows :: "shmState \<Rightarrow> string list \<Rightarrow> shmState \<Rightarrow> bool" where
  "grows st tmp st' \<longleftrightarrow>
     (\<exists>ns. shmFiles st' = shmFiles st @ ns \<and> map fst ns = tmp \<and> distinct tmp \<and> set tmp \<inter> fst ` set (shmFiles st) = {})"

lemma grows_refl: "shmFiles st' = shmFiles st \<Longrightarrow> grows st [] st'"
  by (simp add: grows_def)

lemma grows_same: "grows st tmp st' \<Longrightarrow> shmFiles st'' = shmFiles st' \<Longrightarrow> grows st tmp st''"
  by (simp add: grows_def)

lemma grows_trans:
  assumes "grows a t b" "grows b u c"
  shows "grows a (t @ u) c"
proof -
  obtain ns ms where f: "shmFiles b = shmFiles a @ ns" "shmFiles c = shmFiles b @ ms" "map fst ns = t" "map fst ms = u"
      "distinct t" "distinct u" "set t \<inter> fst ` set (shmFiles a) = {}" "set u \<inter> fst ` set (shmFiles b) = {}"
    using assms by (auto simp: grows_def)
  then have "set u \<inter> set t = {}" by (auto simp flip: f(3))
  then show ?thesis using f unfolding grows_def by (intro exI [of _ "ns @ ms"]) auto
qed

lemma grows_write: "grows st tmp st1 \<Longrightarrow> writeShmTmp pre dat st1 = (Some n, st') \<Longrightarrow> grows st (tmp @ [n]) st'"
  by (rule grows_trans) (auto simp: grows_def dest: writeShmTmp_Some)

lemma shmFiles_cleanup: "shmFiles (cleanupTmpfiles ps st) = filter (\<lambda>f. fst f \<notin> set ps) (shmFiles st)"
  by (induction ps arbitrary: st) (auto simp: cleanupTmpfiles_def shmRemove_def intro: filter_cong)

lemma grows_cleanup: "grows st tmp st' \<Longrightarrow> shmFiles (cleanupTmpfiles tmp st') = shmFiles st"
proof -
  assume "grows st tmp st'"
  then obtain ns where ns: "shmFiles st' = shmFiles st @ ns" "map fst ns = tmp" "set tmp \<inter> fst ` set (shmFiles st) = {}"
    by (auto simp: grows_def)
  have "filter (\<lambda>f. fst f \<notin> set tmp) ns = []" by (rule filter_keys_none) (simp flip: ns(2))
  then show ?thesis using filter_keys_id [OF ns(3)] by (simp add: shmFiles_cleanup ns(1))
qed

definition shmRes :: "shmState \<Rightarrow> (envError + buildEnvResult) \<times> shmState \<Rightarrow> bool" where
  "shmRes st x = (case x of (Inl e, st') \<Rightarrow> shmFiles st' = shmFiles st | (Inr r, st') \<Rightarrow> grows st (beTmpfiles r) st')"

lemma tmp_addEnv [simp]: "beTmpfiles (addEnv pre n v k r) = beTmpfiles r"
  by (simp add: addEnv_def)

lemma tmp_addOptional [simp]: "beTmpfiles (addOptional pre n k b r) = beTmpfiles r"
  by (simp add: addOptional_def split: option.splits)

lemma tmp_addRequired: "addRequired pre n k b r = Inr r' \<Longrightarrow> beTmpfiles r' = beTmpfiles r"
  by (auto simp: addRequired_def split: option.splits)

lemma shmRes_addFile: "beTmpfiles r = [] \<Longrightarrow> shmRes st (addFile pre n tp k v r st)"
  by (auto simp: addFile_def shmRes_def split: prod.splits option.splits dest!: writeShmTmp_None grows_write [OF grows_refl, OF refl])

lemma tmp_pureEnvs:
  "b2Env pre b r = Inr r' \<Longrightarrow> beTmpfiles r' = beTmpfiles r" "s3Env pre b r = Inr r' \<Longrightarrow> beTmpfiles r' = beTmpfiles r"
  "azureEnv pre b r = Inr r' \<Longrightarrow> beTmpfiles r' = beTmpfiles r"
  by (auto simp: b2Env_def s3Env_def azureEnv_def Let_def dest!: tmp_addRequired split: sum.splits if_splits)

lemma shmRes_pure: "(\<And>r'. x = Inr r' \<Longrightarrow> beTmpfiles r' = []) \<Longrightarrow> shmRes st (x, st)"
  by (cases x) (auto simp: shmRes_def grows_refl)

lemma shmRes_map:
  "shmRes st x \<Longrightarrow> (\<And>r. beTmpfiles (f r) = beTmpfiles r) \<Longrightarrow> shmRes st (case x of (Inl e, st') \<Rightarrow> (Inl e, st') | (Inr r, st') \<Rightarrow> (Inr (f r), st'))"
  by (auto simp: shmRes_def split: prod.splits sum.splits)

lemma shmRes_sftpEnv: "beTmpfiles r = [] \<Longrightarrow> shmRes st (sftpEnv pre b r st)"
proof -
  assume r: "beTmpfiles r = []"
  have "shmRes st (sftpKeyEnv pre b r st)"
    unfolding sftpKeyEnv_def using shmRes_addFile [OF r] by (auto intro!: shmRes_map shmRes_pure simp: r)
  then show ?thesis unfolding sftpEnv_def by (auto intro!: shmRes_map shmRes_pure)
qed

lemma shmRes_backendEnv:
  assumes r: "beTmpfiles r = []"
  shows "shmRes st (backendEnv pre t b r st)"
proof -
  have "shmRes st (b2Env pre b r, st)" "shmRes st (s3Env pre b r, st)" "shmRes st (azureEnv pre b r, st)"
    by (rule shmRes_pure; simp add: tmp_pureEnvs r)+
  moreover have "shmRes st (Inr r, st)" "shmRes st (Inl e, st)" for e by (rule shmRes_pure; simp add: r)+
  moreover have "shmRes st (gcsEnv pre b r st)"
    unfolding gcsEnv_def using shmRes_addFile [OF r] \<open>\<And>e. shmRes st (Inl e, st)\<close> by (simp split: if_split)
  ultimately show ?thesis using shmRes_sftpEnv [OF r] by (simp add: backendEnv_def)
qed

lemma shmRes_rsaFile:
  assumes "grows st0 (beTmpfiles r) st" "\<And>p x. beTmpfiles (setPath p x) = beTmpfiles x"
  shows "shmRes st0 (rsaFile tp k conv v setPath r st)"
proof (cases "writeShmTmp tp (conv v) st")
  case (Pair o' st')
  then show ?thesis
    using assms grows_write [OF assms(1)] writeShmTmp_None [of tp "conv v" st st'] grows_cleanup [OF grows_same [OF assms(1)]]
    by (cases o') (auto simp: rsaFile_def shmRes_def)
qed

lemma shmRes_buildEnv: "shmRes st (buildEnv pkcs1 t a pr b st)"
proof -
  note split = sum.splits prod.splits option.splits
  let ?pre = "envPrefix a pr"
  let ?r0 = "\<lparr>beEnv = [?pre @ ''PASSWORD'' @ ''='' @ sbEncryptionPassword b], beTmpfiles = [], beKnown = [], beRSAPubPath = [], beRSAPrivPath = []\<rparr>"
  let ?pub = "\<lambda>r st. rsaFile ''duplicacy-rsa-pub-'' ''rsa_public_key'' (\<lambda>x. x) (valueOf b ''rsa_public_key'') (\<lambda>p r. r\<lparr>beRSAPubPath := p\<rparr>) r st"
  let ?priv = "\<lambda>r st. rsaFile ''duplicacy-rsa-priv-'' ''rsa_private_key'' pkcs1 (valueOf b ''rsa_private_key'') (\<lambda>p r. r\<lparr>beRSAPrivPath := p\<rparr>) r st"
  have be: "shmRes st (backendEnv ?pre t b ?r0 st)" by (rule shmRes_backendEnv) simp
  have pub: "shmRes st (?pub r st1)" if "grows st (beTmpfiles r) st1" for r st1 by (rule shmRes_rsaFile [OF that]) simp
  have priv: "shmRes st (?priv r st1)" if "grows st (beTmpfiles r) st1" for r st1 by (rule shmRes_rsaFile [OF that]) simp
  show ?thesis
  proof (cases "sbEncryptionPassword b = []")
    case False
    obtain x1 st1 where 1: "backendEnv ?pre t b ?r0 st = (x1, st1)" by fastforce
    show ?thesis
    proof (cases x1)
      case (Inr r1)
      then have g1: "grows st (beTmpfiles r1) st1" using be 1 by (simp add: shmRes_def)
      obtain x2 st2 where 2: "?pub r1 st1 = (x2, st2)" by fastforce
      show ?thesis
      proof (cases x2)
        case i2: (Inr r2)
        then have g2: "grows st (beTmpfiles r2) st2" using pub [OF g1] 2 by (simp add: shmRes_def)
        obtain x3 st3 where 3: "?priv r2 st2 = (x3, st3)" by fastforce
        show ?thesis using priv [OF g2] False 1 2 3 Inr i2 grows_cleanup
          by (cases x3) (auto simp: buildEnv_def shmRes_def Let_def split: option.splits)
      qed (use pub [OF g1] False 1 2 Inr in \<open>simp add: buildEnv_def shmRes_def Let_def\<close>)
    qed (use be False 1 in \<open>simp add: buildEnv_def shmRes_def Let_def\<close>)
  qed (simp add: buildEnv_def shmRes_def)
qed

lemma ssShm_resolve: "resolveCredential v cid st = (x, st') \<Longrightarrow> ssShm st' = ssShm st"
  by (auto simp: resolveCredential_def split: option.splits prod.splits sum.splits)

lemma prepStep_grows:
  assumes "prepStep pkcs1 v s (acc, st) = (acc', st')" "grows m (paTmp acc) (ssShm st)"
  shows "grows m (paTmp acc') (ssShm st')"
proof -
  obtain x st1 where r: "resolveCredential v (smCredentialID s) st = (x, st1)" by fastforce
  then have m: "ssShm st1 = ssShm st" by (rule ssShm_resolve)
  show ?thesis
  proof (cases x)
    case (Inr b)
    let ?t = "if sbStorageType b \<noteq> [] \<and> sbStorageType b \<noteq> smStorageType s then sbStorageType b else smStorageType s"
    obtain y m' where b: "buildEnv pkcs1 ?t (smStorageAlias s) (smIsPrimary s) b (ssShm st) = (y, m')" by fastforce
    have "shmRes (ssShm st) (y, m')" using shmRes_buildEnv [of "ssShm st"] b by metis
    then show ?thesis using assms r b Inr m grows_trans [OF assms(2)] grows_same [OF assms(2)]
      by (cases y) (auto simp: prepStep_def shmRes_def Let_def)
  qed (use assms r m in \<open>auto simp: prepStep_def\<close>)
qed

lemma fold_prepStep_grows:
  "fold (prepStep pkcs1 v) ss (acc, st) = (acc', st') \<Longrightarrow> grows m (paTmp acc) (ssShm st) \<Longrightarrow> grows m (paTmp acc') (ssShm st')"
proof (induction ss arbitrary: acc st)
  case (Cons s ss)
  obtain a1 s1 where "prepStep pkcs1 v s (acc, st) = (a1, s1)" by fastforce
  with Cons show ?case using prepStep_grows by fastforce
qed simp

lemma prepareEnv_shm:
  assumes "prepareEnvForRepo sha pkcs1 v ms repoPath st = (res, st')"
  shows "case res of Inl errs \<Rightarrow> shmFiles (ssShm st') = shmFiles (ssShm st) | Inr (env, rsa, tmp) \<Rightarrow> grows (ssShm st) tmp (ssShm st')"
proof (cases "getByPath sha ms repoPath")
  case (Some mp)
  let ?acc = "\<lparr>paEnv = [], paTmp = [], paRsa = [], paErrs = []\<rparr>"
  obtain acc st1 where f: "fold (prepStep pkcs1 v) (mStorages mp) (?acc, st) = (acc, st1)" by fastforce
  have "grows (ssShm st) (paTmp acc) (ssShm st1)" by (rule fold_prepStep_grows [OF f]) (simp add: grows_refl)
  then show ?thesis using assms Some f grows_cleanup
    by (auto simp: prepareEnvForRepo_def Let_def split: if_splits)
qed (use assms in \<open>auto simp: prepareEnvForRepo_def\<close>)

text \<open>C16. No key file outlives its run: when \<open>prepareEnvForRepo\<close> fails, whatever failed and wherever,
  /dev/shm holds exactly the files it held before; when it succeeds, running the cleanup it returned leaves
  exactly those files.\<close>

theorem prepareEnvForRepo_no_leak:
  assumes "prepareEnvForRepo sha pkcs1 v ms repoPath st = (res, st')"
  shows "case res of
      Inl errs \<Rightarrow> shmFiles (ssShm st') = shmFiles (ssShm st)
    | Inr (env, rsa, tmp) \<Rightarrow> shmFiles (cleanupTmpfiles tmp (ssShm st')) = shmFiles (ssShm st)"
  using prepareEnv_shm [OF assms] grows_cleanup by (auto split: sum.splits)

definition exShm :: shmState where
  "exShm = \<lparr>shmFiles = [(''/dev/shm/other'', ''x'')], shmOutcomes = []\<rparr>"

definition exBundle :: SecretsBundle where
  "exBundle = \<lparr>sbStorageURL = ''sftp://u@nas:22//mnt/x'', sbStorageType = ''sftp'', sbEncryptionPassword = ''pw'',
     sbBackend = [(''ssh_key'', ''PEM''), (''rsa_private_key'', ''KEY'')], sbUpdatedAt = Some 5\<rparr>"

definition exSha :: "string \<Rightarrow> string" where "exSha p = p"

definition exStorage :: "string \<Rightarrow> bool \<Rightarrow> RepoStorageMapping" where
  "exStorage alias pr = \<lparr>smStorageAlias = alias, smCredentialID = alias, smStorageType = ''sftp'', smIsPrimary = pr\<rparr>"

definition exStore :: repoMappingStore where
  "exStore = snd (upsert exSha 1 \<lparr>mRepoPath = ''/r'', mRepoID = ''r'', mUUID = ''u'', mStorages = [exStorage ''default'' True, exStorage ''b2'' False],
     mRegisteredAt = Some 1\<rparr> (newRepoMappingStore NoFile False))"

text \<open>The first credential is vended at the second attempt; the second one too, or is forbidden.\<close>

definition exVend :: "bool \<Rightarrow> vendEnv" where
  "exVend ok = \<lparr>veNow = 100, veClient = True, veURL = ''https://cc'',
     veReply = (\<lambda>cid n. if cid = ''b2'' \<and> \<not> ok then VendStatus 403 else if n = 0 then VendStatus 503 else VendBody (Some exBundle)),
     veCtxDone = (\<lambda>_ _. False)\<rparr>"

definition exSecrets :: secretsState where
  "exSecrets = \<lparr>ssCache = [], ssShm = exShm, ssDisk = \<lparr>entries = [], ioErr = [], rmErr = []\<rparr>\<rparr>"

text \<open>Witness: both storages vended, and the second one refused.\<close>

theorem prepareEnvForRepo_no_leak_witness:
  "(\<exists>env rsa tmp st'. prepareEnvForRepo exSha (\<lambda>x. x) (exVend True) exStore ''/r'' exSecrets = (Inr (env, rsa, tmp), st') \<and>
      length (shmFiles (ssShm st')) = 5 \<and> shmFiles (cleanupTmpfiles tmp (ssShm st')) = shmFiles exShm) \<and>
   (\<exists>errs st'. prepareEnvForRepo exSha (\<lambda>x. x) (exVend False) exStore ''/r'' exSecrets = (Inl errs, st') \<and>
      shmFiles (ssShm st') = shmFiles exShm)"
proof -
  have ok: "map_sum (\<lambda>_. ()) (\<lambda>_. ()) (fst (prepareEnvForRepo exSha (\<lambda>x. x) (exVend True) exStore ''/r'' exSecrets)) = Inr ()"
      "length (shmFiles (ssShm (snd (prepareEnvForRepo exSha (\<lambda>x. x) (exVend True) exStore ''/r'' exSecrets)))) = 5"
    and ko: "map_sum (\<lambda>_. ()) (\<lambda>_. ()) (fst (prepareEnvForRepo exSha (\<lambda>x. x) (exVend False) exStore ''/r'' exSecrets)) = Inl ()"
    by code_simp+
  have sh: "ssShm exSecrets = exShm" by (simp add: exSecrets_def)
  obtain x1 s1 x2 s2 where e: "prepareEnvForRepo exSha (\<lambda>x. x) (exVend True) exStore ''/r'' exSecrets = (x1, s1)"
    "prepareEnvForRepo exSha (\<lambda>x. x) (exVend False) exStore ''/r'' exSecrets = (x2, s2)" by fastforce
  show ?thesis
    using ok ko prepareEnvForRepo_no_leak [OF e(1)] prepareEnvForRepo_no_leak [OF e(2)]
    unfolding e sh by (cases x1; cases x2) auto
qed

section \<open>Every storage gets its password\<close>

text \<open>How the value of a backend key is to reach the CLI, by the storage type: in a variable under the prefix of the alias, in a variable without
  prefix, in a file of /dev/shm that such a prefixed variable names, or in the file of the RSA public or private key.\<close>

datatype route = Var string | Global string | FileVar string | PubFile | PrivFile

definition routeOf :: "string \<Rightarrow> string \<Rightarrow> route option" where
  "routeOf t k =
     (if k = ''rsa_public_key'' then Some PubFile
      else if k = ''rsa_private_key'' then Some PrivFile
      else if k = ''rsa_passphrase'' then Some (Global ''DUPLICACY_RSA_PASSPHRASE'')
      else map_of
        (if t = ''b2'' then [(''b2_id'', Var ''B2_ID''), (''b2_key'', Var ''B2_KEY'')]
         else if t = ''s3'' then [(''s3_id'', Var ''S3_ID''), (''s3_secret'', Var ''S3_SECRET''), (''s3_token'', Var ''S3_TOKEN'')]
         else if t = ''sftp'' then
           [(''ssh_key'', FileVar ''SSH_KEY_FILE''), (''ssh_key_passphrase'', Var ''SSH_KEY_PASSPHRASE''), (''ssh_password'', Var ''SSH_PASSWORD'')]
         else if t = ''gcs'' then [(''gcs_service_account_json'', FileVar ''GCS_TOKEN_FILE'')]
         else if t = ''azure'' then [(''azure_account'', Var ''AZURE_ACCOUNT''), (''azure_key'', Var ''AZURE_KEY'')]
         else []) k)"

text \<open>What every step of \<open>buildEnv\<close> keeps, the result of a successful run has.\<close>

locale env_invariant =
  fixes P :: "buildEnvResult \<Rightarrow> shmState \<Rightarrow> bool" and pkcs1 :: "string \<Rightarrow> string" and b :: SecretsBundle and t pre :: string
  assumes add: "P r m \<Longrightarrow> map_of (sbBackend b) k = Some v \<Longrightarrow> routeOf t k = Some (Var n) \<Longrightarrow> P (addEnv pre n v k r) m"
    and global: "P r m \<Longrightarrow> map_of (sbBackend b) k = Some v \<Longrightarrow> routeOf t k = Some (Global n) \<Longrightarrow> P (addEnv [] n v k r) m"
    and wfile: "P r m \<Longrightarrow> map_of (sbBackend b) k = Some v \<Longrightarrow> routeOf t k = Some (FileVar n) \<Longrightarrow> writeShmTmp tp v m = (Some p, m') \<Longrightarrow>
      P ((addEnv pre n p k r)\<lparr>beTmpfiles := beTmpfiles r @ [p]\<rparr>) m'"
    and rsaPub: "P r m \<Longrightarrow> map_of (sbBackend b) k = Some v \<Longrightarrow> routeOf t k = Some PubFile \<Longrightarrow> writeShmTmp tp v m = (Some p, m') \<Longrightarrow>
      P (r\<lparr>beTmpfiles := beTmpfiles r @ [p], beKnown := beKnown r @ [k], beRSAPubPath := p\<rparr>) m'"
    and rsaPriv: "P r m \<Longrightarrow> map_of (sbBackend b) k = Some v \<Longrightarrow> routeOf t k = Some PrivFile \<Longrightarrow> writeShmTmp tp (pkcs1 v) m = (Some p, m') \<Longrightarrow>
      P (r\<lparr>beTmpfiles := beTmpfiles r @ [p], beKnown := beKnown r @ [k], beRSAPrivPath := p\<rparr>) m'"
begin

lemma valueOf_Some: "valueOf b k \<noteq> [] \<Longrightarrow> map_of (sbBackend b) k = Some (valueOf b k)"
  by (simp add: valueOf_def split: option.splits)

lemma optional: "P r m \<Longrightarrow> routeOf t k = Some (Var n) \<Longrightarrow> P (addOptional pre n k b r) m"
  by (auto simp: addOptional_def intro: add split: option.splits)

lemma required: "P r m \<Longrightarrow> routeOf t k = Some (Var n) \<Longrightarrow> addRequired pre n k b r = Inr r' \<Longrightarrow> P r' m"
  by (auto simp: addRequired_def intro: add split: option.splits)

lemma addfile: "P r m \<Longrightarrow> routeOf t k = Some (FileVar n) \<Longrightarrow> valueOf b k \<noteq> [] \<Longrightarrow> addFile pre n tp k (valueOf b k) r m = (Inr r', m') \<Longrightarrow> P r' m'"
  by (auto simp: addFile_def intro: wfile valueOf_Some split: option.splits prod.splits)

lemma b2: "t = ''b2'' \<Longrightarrow> P r m \<Longrightarrow> b2Env pre b r = Inr r' \<Longrightarrow> P r' m"
  by (auto simp: b2Env_def routeOf_def elim!: required [rotated 2] split: sum.splits)

lemma s3: "t = ''s3'' \<Longrightarrow> P r m \<Longrightarrow> s3Env pre b r = Inr r' \<Longrightarrow> P r' m"
  by (auto simp: s3Env_def routeOf_def intro!: optional elim!: required [rotated 2] split: sum.splits)

lemma azure: "t = ''azure'' \<Longrightarrow> P r m \<Longrightarrow> azureEnv pre b r = Inr r' \<Longrightarrow> P r' m"
  by (auto simp: azureEnv_def Let_def routeOf_def intro!: optional split: if_splits)

lemma sftp_key: "t = ''sftp'' \<Longrightarrow> P r m \<Longrightarrow> sftpKeyEnv pre b r m = (Inr r', m') \<Longrightarrow> P r' m'"
  by (auto simp: sftpKeyEnv_def routeOf_def intro!: optional elim!: addfile [rotated 3] split: sum.splits if_splits prod.splits)

lemma sftp: "t = ''sftp'' \<Longrightarrow> P r m \<Longrightarrow> sftpEnv pre b r m = (Inr r', m') \<Longrightarrow> P r' m'"
  by (auto simp: sftpEnv_def routeOf_def intro!: optional elim!: sftp_key [rotated 2] split: sum.splits if_splits prod.splits)

lemma gcs: "t = ''gcs'' \<Longrightarrow> P r m \<Longrightarrow> gcsEnv pre b r m = (Inr r', m') \<Longrightarrow> P r' m'"
  by (auto simp: gcsEnv_def routeOf_def elim!: addfile [rotated 3] split: if_splits)

lemma backend: "P r m \<Longrightarrow> backendEnv pre t b r m = (Inr r', m') \<Longrightarrow> P r' m'"
  unfolding backendEnv_def by (auto intro: b2 s3 azure sftp gcs split: if_splits)

lemma rsafile:
  assumes "P r m" "rsaFile tp k conv (valueOf b k) sp r m = (Inr r', m')"
    "\<And>p. map_of (sbBackend b) k = Some (valueOf b k) \<Longrightarrow> writeShmTmp tp (conv (valueOf b k)) m = (Some p, m') \<Longrightarrow>
       P (sp p (r\<lparr>beTmpfiles := beTmpfiles r @ [p], beKnown := beKnown r @ [k]\<rparr>)) m'"
  shows "P r' m'"
proof (cases "valueOf b k = []")
  case False
  then show ?thesis using assms valueOf_Some by (auto simp: rsaFile_def split: prod.splits option.splits)
qed (use assms(1,2) in \<open>simp add: rsaFile_def\<close>)

lemma built:
  assumes "buildEnv pkcs1 t a pr b m = (Inr r, m')" "pre = envPrefix a pr"
    "P \<lparr>beEnv = [pre @ ''PASSWORD'' @ ''='' @ sbEncryptionPassword b], beTmpfiles = [], beKnown = [], beRSAPubPath = [], beRSAPrivPath = []\<rparr> m"
  shows "P r m' \<and> set (map fst (sbBackend b)) \<subseteq> set (beKnown r) \<and> sbEncryptionPassword b \<noteq> []"
proof -
  let ?r0 = "\<lparr>beEnv = [pre @ ''PASSWORD'' @ ''='' @ sbEncryptionPassword b], beTmpfiles = [], beKnown = [], beRSAPubPath = [], beRSAPrivPath = []\<rparr>"
  let ?pub = "rsaFile ''duplicacy-rsa-pub-'' ''rsa_public_key'' (\<lambda>x. x) (valueOf b ''rsa_public_key'') (\<lambda>p r. r\<lparr>beRSAPubPath := p\<rparr>)"
  let ?priv = "rsaFile ''duplicacy-rsa-priv-'' ''rsa_private_key'' pkcs1 (valueOf b ''rsa_private_key'') (\<lambda>p r. r\<lparr>beRSAPrivPath := p\<rparr>)"
  have pw: "sbEncryptionPassword b \<noteq> []" using assms(1) by (auto simp: buildEnv_def)
  obtain x1 m1 where 1: "backendEnv pre t b ?r0 m = (x1, m1)" by fastforce
  then obtain r1 where r1: "x1 = Inr r1" using assms(1,2) pw by (cases x1) (auto simp: buildEnv_def Let_def)
  obtain x2 m2 where 2: "?pub r1 m1 = (x2, m2)" by fastforce
  then obtain r2 where r2: "x2 = Inr r2" using assms(1,2) pw 1 r1 by (cases x2) (auto simp: buildEnv_def Let_def)
  obtain x3 m3 where 3: "?priv r2 m2 = (x3, m3)" by fastforce
  then obtain r3 where r3: "x3 = Inr r3" using assms(1,2) pw 1 2 r1 r2 by (cases x3) (auto simp: buildEnv_def Let_def)
  have rt: "routeOf t ''rsa_public_key'' = Some PubFile" "routeOf t ''rsa_private_key'' = Some PrivFile"
    "routeOf t ''rsa_passphrase'' = Some (Global ''DUPLICACY_RSA_PASSPHRASE'')" by (simp_all add: routeOf_def)
  have p1: "P r1 m1" by (rule backend [OF assms(3) 1 [unfolded r1]])
  have p2: "P r2 m2" by (rule rsafile [OF p1 2 [unfolded r2]]) (use rsaPub [OF p1 _ rt(1)] in simp)
  have p3: "P r3 m3" by (rule rsafile [OF p2 3 [unfolded r3]]) (use rsaPriv [OF p2 _ rt(2)] in simp)
  have p4: "P (addOptional [] ''DUPLICACY_RSA_PASSPHRASE'' ''rsa_passphrase'' b r3) m3"
    using p3 global [OF p3 _ rt(3)] by (simp add: addOptional_def split: option.split)
  have fin: "r = addOptional '''' ''DUPLICACY_RSA_PASSPHRASE'' ''rsa_passphrase'' b r3" "m' = m3"
      "find (\<lambda>k. k \<notin> set (beKnown r)) (map fst (sbBackend b)) = None"
    using assms(1,2) pw 1 2 3 r1 r2 r3 by (auto simp: buildEnv_def Let_def split: option.splits)
  from fin(3) have "set (map fst (sbBackend b)) \<subseteq> set (beKnown r)" by (auto simp: find_None_iff)
  then show ?thesis using p4 fin pw by simp
qed

end

interpretation envLine: env_invariant "\<lambda>r m. l \<in> set (beEnv r)" pkcs1 b t pre for l pkcs1 b t pre
  by unfold_locales (simp_all add: addEnv_def)

lemma buildEnv_password:
  assumes "buildEnv pkcs1 t a pr b st = (Inr r, st')"
  shows "envPrefix a pr @ ''PASSWORD='' @ sbEncryptionPassword b \<in> set (beEnv r) \<and> sbEncryptionPassword b \<noteq> []"
  using envLine.built [OF assms refl, of "envPrefix a pr @ ''PASSWORD'' @ ''='' @ sbEncryptionPassword b"] by simp

lemma prepStep_password:
  assumes "prepStep pkcs1 v s (acc, st) = (acc', st')"
  shows "set (paEnv acc) \<subseteq> set (paEnv acc') \<and> (paErrs acc' = [] \<longrightarrow> paErrs acc = [] \<and>
    (\<exists>pw. pw \<noteq> [] \<and> envPrefix (smStorageAlias s) (smIsPrimary s) @ ''PASSWORD='' @ pw \<in> set (paEnv acc')))"
proof -
  obtain x st1 where r: "resolveCredential v (smCredentialID s) st = (x, st1)" by fastforce
  show ?thesis
  proof (cases x)
    case (Inr b)
    let ?t = "if sbStorageType b \<noteq> [] \<and> sbStorageType b \<noteq> smStorageType s then sbStorageType b else smStorageType s"
    obtain y m where y: "buildEnv pkcs1 ?t (smStorageAlias s) (smIsPrimary s) b (ssShm st1) = (y, m)" by fastforce
    show ?thesis
    proof (cases y)
      case i: (Inr q)
      have "envPrefix (smStorageAlias s) (smIsPrimary s) @ ''PASSWORD='' @ sbEncryptionPassword b \<in> set (beEnv q)" "sbEncryptionPassword b \<noteq> []"
        using buildEnv_password [OF y [unfolded i]] by auto
      moreover have "paEnv acc' = paEnv acc @ beEnv q" "paErrs acc' = paErrs acc" using assms r Inr y i by (auto simp: prepStep_def Let_def)
      ultimately show ?thesis by (metis Un_iff Un_upper1 set_append)
    qed (use assms r Inr y in \<open>auto simp: prepStep_def Let_def\<close>)
  qed (use assms r in \<open>auto simp: prepStep_def\<close>)
qed

lemma fold_prepStep_password:
  "fold (prepStep pkcs1 v) ss (acc, st) = (acc', st') \<Longrightarrow>
   set (paEnv acc) \<subseteq> set (paEnv acc') \<and> (paErrs acc' = [] \<longrightarrow> paErrs acc = [] \<and>
     (\<forall>s\<in>set ss. \<exists>pw. pw \<noteq> [] \<and> envPrefix (smStorageAlias s) (smIsPrimary s) @ ''PASSWORD='' @ pw \<in> set (paEnv acc')))"
proof (induction ss arbitrary: acc st)
  case (Cons s ss)
  obtain a1 s1 where 1: "prepStep pkcs1 v s (acc, st) = (a1, s1)" by fastforce
  have "fold (prepStep pkcs1 v) ss (a1, s1) = (acc', st')" using Cons.prems 1 by simp
  from Cons.IH [OF this] prepStep_password [OF 1] show ?case by (auto dest: subsetD)
qed simp

text \<open>A run is never started with a credential missing: when \<open>prepareEnvForRepo\<close> succeeds the repo has
  a mapping with storages and the environment carries a non-empty encryption password for every one of
  them, under the prefix of its alias.\<close>

theorem prepareEnvForRepo_all_storages:
  assumes "prepareEnvForRepo sha pkcs1 v ms repoPath st = (Inr (env, rsa, tmp), st')"
  shows "\<exists>mp. getByPath sha ms repoPath = Some mp \<and> mStorages mp \<noteq> [] \<and>
    (\<forall>s\<in>set (mStorages mp). \<exists>pw. pw \<noteq> [] \<and> envPrefix (smStorageAlias s) (smIsPrimary s) @ ''PASSWORD='' @ pw \<in> set env)"
proof -
  obtain mp where mp: "getByPath sha ms repoPath = Some mp" "mStorages mp \<noteq> []"
    using assms by (auto simp: prepareEnvForRepo_def split: option.splits if_splits)
  obtain acc st1 where f: "fold (prepStep pkcs1 v) (mStorages mp) (\<lparr>paEnv = [], paTmp = [], paRsa = [], paErrs = []\<rparr>, st) = (acc, st1)"
    by fastforce
  have "paErrs acc = []" "env = paEnv acc" using assms mp f by (auto simp: prepareEnvForRepo_def split: if_splits)
  then show ?thesis using fold_prepStep_password [OF f] mp by blast
qed

text \<open>Witness.\<close>

theorem prepareEnvForRepo_all_storages_witness:
  "\<exists>env. map_sum (\<lambda>_. ()) fst (fst (prepareEnvForRepo exSha (\<lambda>x. x) (exVend True) exStore ''/r'' exSecrets)) = Inr env \<and>
     (\<exists>pw. pw \<noteq> [] \<and> ''DUPLICACY_B2_PASSWORD='' @ pw \<in> set env)"
proof -
  have ok: "map_sum (\<lambda>_. ()) (\<lambda>_. ()) (fst (prepareEnvForRepo exSha (\<lambda>x. x) (exVend True) exStore ''/r'' exSecrets)) = Inr ()"
    and mp: "map_option mStorages (getByPath exSha exStore ''/r'') = Some [exStorage ''default'' True, exStorage ''b2'' False]"
    and pre: "envPrefix ''b2'' False = ''DUPLICACY_B2_''" by code_simp+
  obtain x1 s1 where e: "prepareEnvForRepo exSha (\<lambda>x. x) (exVend True) exStore ''/r'' exSecrets = (x1, s1)" by fastforce
  with ok obtain env rsa tmp where x1: "x1 = Inr (env, rsa, tmp)" by (cases x1) auto
  show ?thesis
    using prepareEnvForRepo_all_storages [OF e [unfolded x1]] mp pre unfolding e x1 by (auto simp: exStorage_def)
qed

section \<open>Every backend key reaches the CLI\<close>

text \<open>The line of the environment by which a key arrives, and how each key does.\<close>

definition lineOf :: "string \<Rightarrow> string \<Rightarrow> string \<Rightarrow> string \<Rightarrow> buildEnvResult \<Rightarrow> shmState \<Rightarrow> string \<Rightarrow> bool" where
  "lineOf pre t k v r m l \<longleftrightarrow>
     (case routeOf t k of
        Some (Var n) \<Rightarrow> l = pre @ n @ ''='' @ v
      | Some (Global n) \<Rightarrow> l = n @ ''='' @ v
      | Some (FileVar n) \<Rightarrow> \<exists>p\<in>set (beTmpfiles r). l = pre @ n @ ''='' @ p \<and> map_of (shmFiles m) p = Some v
      | _ \<Rightarrow> False)"

definition reaches :: "(string \<Rightarrow> string) \<Rightarrow> string \<Rightarrow> string \<Rightarrow> string \<Rightarrow> string \<Rightarrow> buildEnvResult \<Rightarrow> shmState \<Rightarrow> bool" where
  "reaches pkcs1 pre t k v r m \<longleftrightarrow>
     (case routeOf t k of
        None \<Rightarrow> False
      | Some PubFile \<Rightarrow> beRSAPubPath r \<in> set (beTmpfiles r) \<and> map_of (shmFiles m) (beRSAPubPath r) = Some v
      | Some PrivFile \<Rightarrow> beRSAPrivPath r \<in> set (beTmpfiles r) \<and> map_of (shmFiles m) (beRSAPrivPath r) = Some (pkcs1 v)
      | _ \<Rightarrow> \<exists>l\<in>set (beEnv r). lineOf pre t k v r m l)"

lemma write_lookup:
  "writeShmTmp tp d m = (Some p, m') \<Longrightarrow>
   map_of (shmFiles m') p = Some d \<and> (\<forall>q x. map_of (shmFiles m) q = Some x \<longrightarrow> map_of (shmFiles m') q = Some x)"
proof -
  assume "writeShmTmp tp d m = (Some p, m')"
  from writeShmTmp_Some [OF this] have f: "shmFiles m' = shmFiles m @ [(p, d)]" "map_of (shmFiles m) p = None"
    by (auto simp: map_of_eq_None_iff)
  then show ?thesis by (auto simp: map_add_def)
qed

lemma lineOf_mono:
  assumes "lineOf pre t k v r m l" "set (beTmpfiles r) \<subseteq> set (beTmpfiles r')" "\<And>p x. map_of (shmFiles m) p = Some x \<Longrightarrow> map_of (shmFiles m') p = Some x"
  shows "lineOf pre t k v r' m' l"
  using assms unfolding lineOf_def by (auto split: option.splits route.splits)

lemma reaches_mono:
  assumes "reaches pkcs1 pre t k v r m" "set (beEnv r) \<subseteq> set (beEnv r')" "set (beTmpfiles r) \<subseteq> set (beTmpfiles r')"
    "\<And>p x. map_of (shmFiles m) p = Some x \<Longrightarrow> map_of (shmFiles m') p = Some x"
    "routeOf t k = Some PubFile \<Longrightarrow> beRSAPubPath r' = beRSAPubPath r" "routeOf t k = Some PrivFile \<Longrightarrow> beRSAPrivPath r' = beRSAPrivPath r"
  shows "reaches pkcs1 pre t k v r' m'"
proof -
  have l: "\<exists>l\<in>set (beEnv r'). lineOf pre t k v r' m' l" if "\<exists>l\<in>set (beEnv r). lineOf pre t k v r m l"
    using that lineOf_mono [OF _ assms(3,4), of pre t k v] assms(2) by blast
  show ?thesis using assms(1,3,4,5,6) l unfolding reaches_def by (auto split: option.splits route.splits)
qed

lemma routeOf_rsa: "routeOf t k = Some PubFile \<Longrightarrow> k = ''rsa_public_key''" "routeOf t k = Some PrivFile \<Longrightarrow> k = ''rsa_private_key''"
  by (auto simp: routeOf_def split: if_splits)

text \<open>What holds after every step: the known keys have arrived, and no line is there but for a key.\<close>

definition routed :: "(string \<Rightarrow> string) \<Rightarrow> SecretsBundle \<Rightarrow> string \<Rightarrow> string \<Rightarrow> buildEnvResult \<Rightarrow> shmState \<Rightarrow> bool" where
  "routed pkcs1 b t pre r m \<longleftrightarrow>
     (\<forall>k\<in>set (beKnown r). \<forall>v. map_of (sbBackend b) k = Some v \<longrightarrow> reaches pkcs1 pre t k v r m) \<and>
     (\<forall>l\<in>set (beEnv r). l = pre @ ''PASSWORD='' @ sbEncryptionPassword b \<or> (\<exists>k v. map_of (sbBackend b) k = Some v \<and> lineOf pre t k v r m l))"

lemma routed_step:
  assumes "routed pkcs1 b t pre r m" "map_of (sbBackend b) k = Some v" "reaches pkcs1 pre t k v r' m'"
    "set (beKnown r') = insert k (set (beKnown r))" "set (beEnv r) \<subseteq> set (beEnv r')" "set (beTmpfiles r) \<subseteq> set (beTmpfiles r')"
    "\<And>p x. map_of (shmFiles m) p = Some x \<Longrightarrow> map_of (shmFiles m') p = Some x"
    "routeOf t k \<noteq> Some PubFile \<Longrightarrow> beRSAPubPath r' = beRSAPubPath r" "routeOf t k \<noteq> Some PrivFile \<Longrightarrow> beRSAPrivPath r' = beRSAPrivPath r"
    "\<And>l. l \<in> set (beEnv r') \<Longrightarrow> l \<in> set (beEnv r) \<or> lineOf pre t k v r' m' l"
  shows "routed pkcs1 b t pre r' m'"
proof -
  have "reaches pkcs1 pre t k' v' r' m'" if "k' \<in> set (beKnown r')" "map_of (sbBackend b) k' = Some v'" for k' v'
  proof (cases "k' = k")
    case True
    then show ?thesis using assms(2,3) that(2) by simp
  next
    case False
    have "reaches pkcs1 pre t k' v' r m" using assms(1,4) that False by (simp add: routed_def)
    then show ?thesis by (rule reaches_mono) (use assms(5,6,7,8,9) False routeOf_rsa in metis)+
  qed
  moreover have "l = pre @ ''PASSWORD='' @ sbEncryptionPassword b \<or> (\<exists>k v. map_of (sbBackend b) k = Some v \<and> lineOf pre t k v r' m' l)"
    if "l \<in> set (beEnv r')" for l
    using assms(10) [OF that] assms(1,2) lineOf_mono [OF _ assms(6,7)] unfolding routed_def by meson
  ultimately show ?thesis by (simp add: routed_def)
qed

interpretation routes: env_invariant "routed pkcs1 b t pre" pkcs1 b t pre for pkcs1 b t pre
proof unfold_locales
  fix r m k v n
  assume a: "routed pkcs1 b t pre r m" "map_of (sbBackend b) k = Some v" "routeOf t k = Some (Var n)"
  show "routed pkcs1 b t pre (addEnv pre n v k r) m"
    by (rule routed_step [OF a(1,2)]) (auto simp: addEnv_def reaches_def lineOf_def a(3))
next
  fix r m k v n
  assume a: "routed pkcs1 b t pre r m" "map_of (sbBackend b) k = Some v" "routeOf t k = Some (Global n)"
  show "routed pkcs1 b t pre (addEnv [] n v k r) m"
    by (rule routed_step [OF a(1,2)]) (auto simp: addEnv_def reaches_def lineOf_def a(3))
next
  fix r m k v n tp p m'
  assume a: "routed pkcs1 b t pre r m" "map_of (sbBackend b) k = Some v" "routeOf t k = Some (FileVar n)" "writeShmTmp tp v m = (Some p, m')"
  show "routed pkcs1 b t pre ((addEnv pre n p k r)\<lparr>beTmpfiles := beTmpfiles r @ [p]\<rparr>) m'"
    by (rule routed_step [OF a(1,2)]) (use write_lookup [OF a(4)] in \<open>auto simp: addEnv_def reaches_def lineOf_def a(3)\<close>)
next
  fix r m k v tp p m'
  assume a: "routed pkcs1 b t pre r m" "map_of (sbBackend b) k = Some v" "routeOf t k = Some PubFile" "writeShmTmp tp v m = (Some p, m')"
  show "routed pkcs1 b t pre (r\<lparr>beTmpfiles := beTmpfiles r @ [p], beKnown := beKnown r @ [k], beRSAPubPath := p\<rparr>) m'"
    by (rule routed_step [OF a(1,2)]) (use write_lookup [OF a(4)] in \<open>auto simp: reaches_def a(3)\<close>)
next
  fix r m k v tp p m'
  assume a: "routed pkcs1 b t pre r m" "map_of (sbBackend b) k = Some v" "routeOf t k = Some PrivFile" "writeShmTmp tp (pkcs1 v) m = (Some p, m')"
  show "routed pkcs1 b t pre (r\<lparr>beTmpfiles := beTmpfiles r @ [p], beKnown := beKnown r @ [k], beRSAPrivPath := p\<rparr>) m'"
    by (rule routed_step [OF a(1,2)]) (use write_lookup [OF a(4)] in \<open>auto simp: reaches_def a(3)\<close>)
qed

text \<open>C17. \<open>buildEnv\<close> hands over a credential as the CLI expects it. When it succeeds, the encryption password and every backend value of the bundle
  reach the CLI in the way that \<open>routeOf\<close> names for the storage type and the key: in the variable of exactly that name, under the prefix of the alias (the
  RSA passphrase without prefix); or in a file of /dev/shm with exactly that content, which is among the files to be removed and
  whose path is in the variable of that name, or is the path returned for the RSA key (the private key converted). A key that has no such way makes it fail. And the environment
  has no other lines.\<close>

theorem buildEnv_delivers:
  assumes "buildEnv pkcs1 t a pr b m = (Inr r, m')"
  shows "sbEncryptionPassword b \<noteq> [] \<and> envPrefix a pr @ ''PASSWORD='' @ sbEncryptionPassword b \<in> set (beEnv r) \<and>
    (\<forall>k v. map_of (sbBackend b) k = Some v \<longrightarrow>
       (case routeOf t k of
          None \<Rightarrow> False
        | Some (Var n) \<Rightarrow> envPrefix a pr @ n @ ''='' @ v \<in> set (beEnv r)
        | Some (Global n) \<Rightarrow> n @ ''='' @ v \<in> set (beEnv r)
        | Some (FileVar n) \<Rightarrow> \<exists>p\<in>set (beTmpfiles r). envPrefix a pr @ n @ ''='' @ p \<in> set (beEnv r) \<and> map_of (shmFiles m') p = Some v
        | Some PubFile \<Rightarrow> beRSAPubPath r \<in> set (beTmpfiles r) \<and> map_of (shmFiles m') (beRSAPubPath r) = Some v
        | Some PrivFile \<Rightarrow> beRSAPrivPath r \<in> set (beTmpfiles r) \<and> map_of (shmFiles m') (beRSAPrivPath r) = Some (pkcs1 v))) \<and>
    (\<forall>l\<in>set (beEnv r). l = envPrefix a pr @ ''PASSWORD='' @ sbEncryptionPassword b \<or>
       (\<exists>k v. map_of (sbBackend b) k = Some v \<and> lineOf (envPrefix a pr) t k v r m' l))"
proof -
  have "routed pkcs1 b t (envPrefix a pr) r m' \<and> set (map fst (sbBackend b)) \<subseteq> set (beKnown r) \<and> sbEncryptionPassword b \<noteq> []"
    by (rule routes.built [OF assms refl]) (simp add: routed_def)
  then have b: "routed pkcs1 b t (envPrefix a pr) r m'" "set (map fst (sbBackend b)) \<subseteq> set (beKnown r)" by simp_all
  have keys: "case routeOf t k of
          None \<Rightarrow> False
        | Some (Var n) \<Rightarrow> envPrefix a pr @ n @ ''='' @ v \<in> set (beEnv r)
        | Some (Global n) \<Rightarrow> n @ ''='' @ v \<in> set (beEnv r)
        | Some (FileVar n) \<Rightarrow> \<exists>p\<in>set (beTmpfiles r). envPrefix a pr @ n @ ''='' @ p \<in> set (beEnv r) \<and> map_of (shmFiles m') p = Some v
        | Some PubFile \<Rightarrow> beRSAPubPath r \<in> set (beTmpfiles r) \<and> map_of (shmFiles m') (beRSAPubPath r) = Some v
        | Some PrivFile \<Rightarrow> beRSAPrivPath r \<in> set (beTmpfiles r) \<and> map_of (shmFiles m') (beRSAPrivPath r) = Some (pkcs1 v)"
    if "map_of (sbBackend b) k = Some v" for k v
  proof -
    have "k \<in> set (beKnown r)" using b(2) map_of_SomeD [OF that] by force
    then have "reaches pkcs1 (envPrefix a pr) t k v r m'" using b(1) that by (simp add: routed_def)
    then show ?thesis unfolding reaches_def lineOf_def by (auto split: option.splits route.splits)
  qed
  show ?thesis using buildEnv_password [OF assms] keys b(1) unfolding routed_def by blast
qed

text \<open>Witness: the SSH key of a bundle, by its file, and the RSA key.\<close>

theorem buildEnv_delivers_witness:
  "\<exists>r m'. buildEnv (\<lambda>x. x) ''sftp'' ''nas'' False exBundle exShm = (Inr r, m') \<and>
     (\<exists>p\<in>set (beTmpfiles r). ''DUPLICACY_NAS_SSH_KEY_FILE='' @ p \<in> set (beEnv r) \<and> map_of (shmFiles m') p = Some ''PEM'') \<and>
     map_of (shmFiles m') (beRSAPrivPath r) = Some ''KEY''"
proof -
  have ok: "map_sum (\<lambda>_. ()) (\<lambda>_. ()) (fst (buildEnv (\<lambda>x. x) ''sftp'' ''nas'' False exBundle exShm)) = Inr ()" by code_simp
  have pre: "envPrefix ''nas'' False = ''DUPLICACY_NAS_''" by code_simp
  obtain x m' where e: "buildEnv (\<lambda>x. x) ''sftp'' ''nas'' False exBundle exShm = (x, m')" by fastforce
  then obtain r where x: "x = Inr r" using ok by (cases x) auto
  have k: "map_of (sbBackend exBundle) ''ssh_key'' = Some ''PEM''" "map_of (sbBackend exBundle) ''rsa_private_key'' = Some ''KEY''" by (simp_all add: exBundle_def)
  have rt: "routeOf ''sftp'' ''ssh_key'' = Some (FileVar ''SSH_KEY_FILE'')" "routeOf ''sftp'' ''rsa_private_key'' = Some PrivFile" by (simp_all add: routeOf_def)
  note d = conjunct1 [OF conjunct2 [OF conjunct2 [OF buildEnv_delivers [OF e [unfolded x]]]], rule_format]
  show ?thesis using d [OF k(1)] d [OF k(2)] e x by (simp add: rt pre)
qed

section \<open>Retries\<close>

definition transientReply :: "vendReply \<Rightarrow> bool" where
  "transientReply r \<longleftrightarrow> r = VendNetErr \<or> r \<in> VendStatus ` {500, 502, 503, 504}"

lemma fetchSecretsOnce_transient: "fetchSecretsOnce r d = (Inl (True, e), d') \<Longrightarrow> transientReply r \<and> d' = d"
  by (auto simp: fetchSecretsOnce_def transientReply_def split: vendReply.splits option.splits prod.splits if_splits)

lemma transient_fetch: "transientReply r \<Longrightarrow> \<exists>e. fetchSecretsOnce r d = (Inl (True, e), d)"
  by (auto simp: fetchSecretsOnce_def transientReply_def)

lemma vendLoop_Inr:
  "fst (vendLoop replies ctxDone a n e d) = Inr b \<longleftrightarrow>
   (\<exists>k<n. (\<forall>j<k. transientReply (replies (a + j))) \<and> (\<forall>j\<le>k. 0 < a + j \<longrightarrow> \<not> ctxDone (a + j)) \<and> fst (fetchSecretsOnce (replies (a + k)) d) = Inr b)"
proof (induction n arbitrary: a e)
  case (Suc n)
  obtain x d' where x: "fetchSecretsOnce (replies a) d = (x, d')" by fastforce
  show ?case
  proof (cases "0 < a \<and> ctxDone a")
    case True
    then show ?thesis by auto
  next
    case ctx: False
    show ?thesis
    proof (cases "transientReply (replies a)")
      case True
      then obtain e' where e': "fetchSecretsOnce (replies a) d = (Inl (True, e'), d)" using transient_fetch by blast
      have "fst (vendLoop replies ctxDone a (Suc n) e d) = Inr b \<longleftrightarrow> fst (vendLoop replies ctxDone (Suc a) n e' d) = Inr b"
        using ctx e' by auto
      also have "\<dots> \<longleftrightarrow> (\<exists>k<n. (\<forall>j<k. transientReply (replies (a + Suc j))) \<and> (\<forall>j\<le>k. \<not> ctxDone (a + Suc j)) \<and> fst (fetchSecretsOnce (replies (a + Suc k)) d) = Inr b)"
        by (simp add: Suc.IH)
      also have "\<dots> \<longleftrightarrow> (\<exists>k<Suc n. (\<forall>j<k. transientReply (replies (a + j))) \<and> (\<forall>j\<le>k. 0 < a + j \<longrightarrow> \<not> ctxDone (a + j)) \<and> fst (fetchSecretsOnce (replies (a + k)) d) = Inr b)"
        (is "?l \<longleftrightarrow> ?r")
      proof
        assume ?l
        then obtain k where k: "k < n" "\<forall>j<k. transientReply (replies (a + Suc j))" "\<forall>j\<le>k. \<not> ctxDone (a + Suc j)"
          "fst (fetchSecretsOnce (replies (a + Suc k)) d) = Inr b" by blast
        show ?r
        proof (intro exI [of _ "Suc k"] conjI allI impI)
          show "transientReply (replies (a + j))" if "j < Suc k" for j using that k(2) True by (cases j) auto
          show "\<not> ctxDone (a + j)" if "j \<le> Suc k" "0 < a + j" for j using that k(3) ctx by (cases j) auto
        qed (use k in auto)
      next
        assume ?r
        then obtain k where k: "k < Suc n" "\<forall>j<k. transientReply (replies (a + j))" "\<forall>j\<le>k. 0 < a + j \<longrightarrow> \<not> ctxDone (a + j)"
          "fst (fetchSecretsOnce (replies (a + k)) d) = Inr b" by blast
        have "k \<noteq> 0" using k(4) e' by (cases k) auto
        then obtain k' where "k = Suc k'" by (cases k) auto
        then show ?l using k by (intro exI [of _ k']) auto
      qed
      finally show ?thesis .
    next
      case False
      have "fst (vendLoop replies ctxDone a (Suc n) e d) = Inr b \<longleftrightarrow> x = Inr b"
        using ctx x False fetchSecretsOnce_transient [of "replies a" d] by (auto split: sum.splits bool.splits)
      also have "\<dots> \<longleftrightarrow> (\<exists>k<Suc n. (\<forall>j<k. transientReply (replies (a + j))) \<and> (\<forall>j\<le>k. 0 < a + j \<longrightarrow> \<not> ctxDone (a + j)) \<and> fst (fetchSecretsOnce (replies (a + k)) d) = Inr b)"
        (is "?l \<longleftrightarrow> ?r")
      proof
        assume ?l
        then show ?r using x ctx by (intro exI [of _ 0]) auto
      next
        assume ?r
        then obtain k where k: "\<forall>j<k. transientReply (replies (a + j))" "fst (fetchSecretsOnce (replies (a + k)) d) = Inr b" by blast
        then have "k = 0" using False by (metis add.right_neutral gr0I)
        then show ?l using k(2) x by simp
      qed
      finally show ?thesis .
    qed
  qed
qed simp

text \<open>C18. The retry policy: \<open>fetchSecrets\<close> returns a bundle exactly when one of the first four attempts
  yields it, every attempt before it failed in a transient way, and the context was still alive before
  each retry. A permanent answer is never retried, and there is no fifth attempt.\<close>

theorem fetchSecrets_retries:
  "fst (fetchSecrets True (c # url) replies ctxDone d) = Inr b \<longleftrightarrow>
   (\<exists>k<4. (\<forall>j<k. transientReply (replies j)) \<and> (\<forall>j\<le>k. 0 < j \<longrightarrow> \<not> ctxDone j) \<and> fst (fetchSecretsOnce (replies k) d) = Inr b)"
  using vendLoop_Inr [of replies ctxDone 0 maxAttempts VendNet d b] by (simp add: fetchSecrets_def maxAttempts_def)

text \<open>Witness: two transient failures, then the bundle.\<close>

theorem fetchSecrets_retries_witness:
  "fst (fetchSecrets True ''https://cc'' (\<lambda>n. if n < 2 then VendNetErr else VendBody (Some exBundle)) (\<lambda>_. False)
     \<lparr>entries = [], ioErr = [], rmErr = []\<rparr>) = Inr exBundle"
proof -
  have once: "fst (fetchSecretsOnce (VendBody (Some exBundle)) \<lparr>entries = [], ioErr = [], rmErr = []\<rparr>) = Inr exBundle" by code_simp
  show ?thesis
    by (subst fetchSecrets_retries) (auto simp: transientReply_def once intro!: exI [of _ 2])
qed

section \<open>Freshness of the cache\<close>

text \<open>The cache serves what was put last, for at most 60 seconds, and nothing after an invalidation: a bundle
  put at time \<open>t\<close> that is not older than the cached one is served until \<open>t + 60 s\<close> and not later, other
  credentials are untouched, a bundle with an older \<open>UpdatedAt\<close> does not replace a newer one, and an
  invalidated credential is not served.\<close>

theorem secretCache_fresh:
  "(\<forall>cid b c t now. \<not> (sbUpdatedAt b \<noteq> None \<and> (\<exists>e at0. map_of c cid = Some (e, at0) \<and> timeAfter (sbUpdatedAt e) (sbUpdatedAt b))) \<longrightarrow>
      cacheGet now cid (cachePut t cid b c) = (if now - t \<le> 60 * 1000000000 then Some b else None)) \<and>
   (\<forall>cid b c t e at0. sbUpdatedAt b \<noteq> None \<longrightarrow> map_of c cid = Some (e, at0) \<longrightarrow> timeAfter (sbUpdatedAt e) (sbUpdatedAt b) \<longrightarrow> cachePut t cid b c = c) \<and>
   (\<forall>cid cid' b c t now. cid' \<noteq> cid \<longrightarrow> cacheGet now cid' (cachePut t cid b c) = cacheGet now cid' c) \<and>
   (\<forall>cid cid' c now. cacheGet now cid' (invalidate cid c) = (if cid' = cid then None else cacheGet now cid' c))"
proof (intro conjI allI impI)
  fix cid :: string and b :: SecretsBundle and c :: secretCache and t now :: int
  assume "\<not> (sbUpdatedAt b \<noteq> None \<and> (\<exists>e at0. map_of c cid = Some (e, at0) \<and> timeAfter (sbUpdatedAt e) (sbUpdatedAt b)))"
  then have "cachePut t cid b c = AList.update cid (b, t) c" by (auto simp: cachePut_def split: option.splits)
  then show "cacheGet now cid (cachePut t cid b c) = (if now - t \<le> 60 * 1000000000 then Some b else None)"
    by (simp add: cacheGet_def update_conv' secretCacheTTL_def)
next
  fix cid :: string and b e :: SecretsBundle and c :: secretCache and t at0 :: int
  assume "sbUpdatedAt b \<noteq> None" "map_of c cid = Some (e, at0)" "timeAfter (sbUpdatedAt e) (sbUpdatedAt b)"
  then show "cachePut t cid b c = c" by (simp add: cachePut_def)
next
  fix cid cid' :: string and b :: SecretsBundle and c :: secretCache and t now :: int
  assume "cid' \<noteq> cid"
  then show "cacheGet now cid' (cachePut t cid b c) = cacheGet now cid' c"
    by (auto simp: cacheGet_def cachePut_def update_conv' split: option.splits)
next
  fix cid cid' :: string and c :: secretCache and now :: int
  show "cacheGet now cid' (invalidate cid c) = (if cid' = cid then None else cacheGet now cid' c)"
    by (simp add: cacheGet_def invalidate_def delete_conv')
qed

text \<open>Witness.\<close>

theorem secretCache_fresh_witness:
  "cacheGet (60 * 1000000000) ''c'' (cachePut 0 ''c'' exBundle []) = Some exBundle \<and> cacheGet (60 * 1000000000 + 1) ''c'' (cachePut 0 ''c'' exBundle []) = None"
  using secretCache_fresh by (simp del: not_None_eq)

end
