(* ===== verification/Handlers.thy ===== *)
theory Handlers
  imports JobRuns Duplicacy Secrets Lifecycle
begin

text \<open>
  The HTTP handlers that start and cancel jobs (the second half of jobs.go), on top of the repo index, the
  credential preparation and the job registry. \<open>agent\<close> is the part of the application state they touch; a
  request body is the record it decodes to. The process that \<open>jobs.start\<close> spawns synchronously for an ungated
  action may fail to get its pipes or to start: the argument \<open>spawnOutcome\<close>. The closure a job carries as its
  cleanup is kept in \<open>agOwned\<close>: the key files it unlinks and the symlink it removes. \<open>agentExec\<close> runs one action
  of the registry and the cleanup when that action calls it.
\<close>

section \<open>Restore targets\<close>

record restoreFS =
  rfDisk :: disk
  rfLinks :: "(string \<times> string) list"  \<comment> \<open>symbolic links\<close>
  rfMkErr :: "string list"  \<comment> \<open>directories that cannot be created\<close>
  rfLinkErr :: "string list"  \<comment> \<open>links that cannot be created\<close>

datatype lstatResult = LNotExist | LErr | LSymlink | LOther

definition osLstat :: "restoreFS \<Rightarrow> string \<Rightarrow> lstatResult" where
  "osLstat fs p =
     (if p \<in> set (ioErr (rfDisk fs)) then LErr
      else if p \<in> fst ` set (rfLinks fs) then LSymlink
      else case map_of (entries (rfDisk fs)) p of None \<Rightarrow> LNotExist | Some _ \<Rightarrow> LOther)"

definition ancestors :: "string \<Rightarrow> string list" where
  "ancestors p = (let parts = cleanParts p in map (\<lambda>k. CHR ''/'' # joinChar CHR ''/'' (take k parts)) [1..<Suc (length parts)])"

definition mkdirAll :: "string \<Rightarrow> restoreFS \<Rightarrow> bool \<times> restoreFS" where
  "mkdirAll p fs =
     (let d = rfDisk fs
      in if list_ex (\<lambda>q. q \<in> set (rfMkErr fs) \<or> (case map_of (entries d) q of Some (FileNode _) \<Rightarrow> True | _ \<Rightarrow> False)) (ancestors p) then (False, fs)
         else (True, fs\<lparr>rfDisk := d\<lparr>entries := fold (\<lambda>q es. if map_of es q = None then es @ [(q, DirNode)] else es) (ancestors p) (entries d)\<rparr>\<rparr>))"

datatype restoreError = ScratchUnset | TargetNotAbs | MkdirFailed string | SymlinkFailed | LstatFailed

text \<open>The result is the directory to restore into (empty: in place) and the link the teardown looks at.\<close>

definition restoreDir :: "string \<Rightarrow> Repo \<Rightarrow> string \<Rightarrow> int \<Rightarrow> restoreError + string option" where
  "restoreDir scratchRoot repo target0 revision =
     (let target = (if target0 = [] then ''scratch'' else target0)
      in if target = ''original'' then Inr None
         else if target = ''scratch'' then
           (if scratchRoot = [] then Inl ScratchUnset
            else Inr (Some (pathJoin [scratchRoot, rSnapshotID repo @ ''-r'' @ itoa revision])))
         else if \<not> isAbs target then Inl TargetNotAbs
         else Inr (Some (pathClean target)))"

definition prepareRestoreTarget :: "string \<Rightarrow> Repo \<Rightarrow> string \<Rightarrow> int \<Rightarrow> restoreFS \<Rightarrow> (restoreError + string \<times> string option) \<times> restoreFS" where
  "prepareRestoreTarget scratchRoot repo target revision fs =
     (case restoreDir scratchRoot repo target revision of
        Inl e \<Rightarrow> (Inl e, fs)
      | Inr None \<Rightarrow> (Inr ([], None), fs)
      | Inr (Some dir) \<Rightarrow>
          (case mkdirAll dir fs of
             (False, fs1) \<Rightarrow> (Inl (MkdirFailed dir), fs1)
           | (True, fs1) \<Rightarrow>
               let link = pathJoin [dir, ''.duplicacy'']; src = pathJoin [rPath repo, ''.duplicacy'']
               in (case osLstat fs1 link of
                     LNotExist \<Rightarrow> if link \<in> set (rfLinkErr fs1) then (Inl SymlinkFailed, fs1)
                                  else (Inr (dir, Some link), fs1\<lparr>rfLinks := (link, src) # rfLinks fs1\<rparr>)
                   | LErr \<Rightarrow> (Inl LstatFailed, fs1)
                   | _ \<Rightarrow> (Inr (dir, Some link), fs1))))"

definition prepCleanup :: "string option \<Rightarrow> restoreFS \<Rightarrow> restoreFS" where
  "prepCleanup link fs =
     (case link of
        None \<Rightarrow> fs
      | Some l \<Rightarrow> if osLstat fs l = LSymlink then fs\<lparr>rfLinks := filter (\<lambda>x. fst x \<noteq> l) (rfLinks fs)\<rparr> else fs)"

section \<open>State and start of a job\<close>

record agent =
  agNumCPU :: nat
  agCopyThreads :: int
  agScratchRoot :: string
  agRepos :: repoIndex
  agMapping :: repoMappingStore
  agSecrets :: secretsState
  agFS :: restoreFS
  agReg :: jobRegistry
  agOwned :: "(string \<times> string list \<times> string option) list"  \<comment> \<open>the cleanup closure of each job\<close>

datatype spawnOutcome = SpawnPipeErr | SpawnStartErr string | SpawnOk

datatype jobResp = Accepted string | JobError nat

definition runCleanup :: "string list \<times> string option \<Rightarrow> agent \<Rightarrow> agent" where
  "runCleanup = (\<lambda>(tmp, link) ag.
     ag\<lparr>agSecrets := (agSecrets ag)\<lparr>ssShm := cleanupTmpfiles tmp (ssShm (agSecrets ag))\<rparr>, agFS := prepCleanup link (agFS ag)\<rparr>)"

definition cleanupsOf :: "string \<Rightarrow> jobRegistry \<Rightarrow> nat" where
  "cleanupsOf i r = (case map_of (rgHeap r) i of None \<Rightarrow> 0 | Some ob \<Rightarrow> oCleanups ob)"

fun labelJob :: "regLabel \<Rightarrow> string option" where
  "labelJob (LStart i _ _ _ _ _ _ _) = Some i"
| "labelJob (LSlot i) = Some i"
| "labelJob (LQueueCancel i) = Some i"
| "labelJob (LPipeError i) = Some i"
| "labelJob (LStartError i _) = Some i"
| "labelJob (LStartOk i) = Some i"
| "labelJob (LRunning i) = Some i"
| "labelJob (LLine i _) = Some i"
| "labelJob (LExit i _) = Some i"
| "labelJob (LFinish i) = Some i"
| "labelJob (LCancel i) = Some i"
| "labelJob (LCtxDone i) = Some i"
| "labelJob LMaintAcquire = None"
| "labelJob LMaintRelease = None"

definition agentExec :: "int \<Rightarrow> regLabel \<Rightarrow> agent \<Rightarrow> agent option" where
  "agentExec now l ag =
     (case regExec now l (agReg ag) of
        None \<Rightarrow> None
      | Some r' \<Rightarrow>
          let ag' = ag\<lparr>agReg := r'\<rparr>
          in Some (case labelJob l of
                     None \<Rightarrow> ag'
                   | Some i \<Rightarrow> if cleanupsOf i (agReg ag) < cleanupsOf i r'
                               then (case map_of (agOwned ag) i of None \<Rightarrow> ag' | Some c \<Rightarrow> runCleanup c ag')
                               else ag'))"

fun agentRun :: "(int \<times> regLabel) list \<Rightarrow> agent \<Rightarrow> agent option" where
  "agentRun [] ag = Some ag"
| "agentRun ((now, l) # ls) ag = (case agentExec now l ag of None \<Rightarrow> None | Some ag' \<Rightarrow> agentRun ls ag')"

text \<open>\<open>jobs.start\<close> as the handlers see it: the actions it performs before it returns, and whether it
  returns an error.\<close>

definition startLabels :: "int \<Rightarrow> string \<Rightarrow> Repo \<Rightarrow> JobAction \<Rightarrow> string \<Rightarrow> cliInvocation \<Rightarrow> string \<Rightarrow> string \<Rightarrow> bool \<Rightarrow> spawnOutcome \<Rightarrow> (int \<times> regLabel) list" where
  "startLabels now jid repo act storage iv scheduleID triggerKey gated oc =
     (now, LStart jid (rID repo) (rPath repo) act storage (Args iv) scheduleID triggerKey) #
     (if gated then []
      else case oc of
        SpawnPipeErr \<Rightarrow> [(now, LPipeError jid)]
      | SpawnStartErr e \<Rightarrow> [(now, LStartError jid e)]
      | SpawnOk \<Rightarrow> [(now, LStartOk jid), (now, LRunning jid)])"

definition launch :: "int \<Rightarrow> string \<Rightarrow> Repo \<Rightarrow> JobAction \<Rightarrow> string \<Rightarrow> cliInvocation \<Rightarrow> string \<Rightarrow> string \<Rightarrow> spawnOutcome \<Rightarrow>
    string list \<times> string option \<Rightarrow> agent \<Rightarrow> jobResp \<times> agent" where
  "launch now jid repo act storage iv scheduleID triggerKey oc cl ag =
     (let gated = semFor (agReg ag) act \<noteq> None;
          ag1 = ag\<lparr>agOwned := (jid, cl) # agOwned ag\<rparr>
      in case agentRun (startLabels now jid repo act storage iv scheduleID triggerKey gated oc) ag1 of
           None \<Rightarrow> (JobError 500, ag)
         | Some ag2 \<Rightarrow> (if \<not> gated \<and> oc \<noteq> SpawnOk then JobError 500 else Accepted jid, ag2))"

section \<open>Handlers\<close>

record backupRequest =
  brStorage :: string
  brTag :: string
  brThreads :: int
  brScheduleID :: string
  brTriggerKey :: string

record restoreRequest =
  rrStorage :: string
  rrRevision :: int
  rrPaths :: "string list"
  rrOverwrite :: bool
  rrTarget :: string
  rrTriggerKey :: string

record checkRequest =
  crqStorage :: string
  crqRevisions :: string
  crqAll :: bool
  crqSnapshotID :: string
  crqTriggerKey :: string

record pruneRequest =
  prStorage :: string
  prKeepRules :: "string list"
  prExclusive :: bool
  prExhaustive :: bool
  prSnapshotID :: string
  prThreads :: int
  prIgnore :: "string list"
  prTriggerKey :: string

record copyRequest =
  cpFrom :: string
  cpTo :: string
  cpThreads :: int
  cpSnapshotID :: string
  cpTriggerKey :: string

text \<open>What a request runs with: the clock, the id that \<open>uuid.NewString\<close> returns, the digest, the key
  conversion, the controller and the outcome of the spawn.\<close>

record reqEnv =
  rqNow :: int
  rqJobID :: string
  rqSha :: "string \<Rightarrow> string"
  rqPkcs1 :: "string \<Rightarrow> string"
  rqVend :: vendEnv
  rqSpawn :: spawnOutcome

definition orManual :: "string \<Rightarrow> string" where
  "orManual k = (if k = [] then ''manual'' else k)"

definition withEnv :: "string list \<Rightarrow> cliInvocation \<Rightarrow> cliInvocation" where
  "withEnv env iv = iv\<lparr>EnvAdds := EnvAdds iv @ env\<rparr>"

definition prepEnv :: "reqEnv \<Rightarrow> Repo \<Rightarrow> agent \<Rightarrow> (string list \<times> (string \<times> string) list \<times> string list) option \<times> agent" where
  "prepEnv q repo ag =
     (case prepareEnvForRepo (rqSha q) (rqPkcs1 q) (rqVend q) (agMapping ag) (rPath repo) (agSecrets ag) of
        (Inl _, s) \<Rightarrow> (None, ag\<lparr>agSecrets := s\<rparr>)
      | (Inr x, s) \<Rightarrow> (Some x, ag\<lparr>agSecrets := s\<rparr>))"

definition pathOf :: "string \<Rightarrow> (string \<times> string) list \<Rightarrow> string" where
  "pathOf alias rsaPriv = (case map_of rsaPriv alias of None \<Rightarrow> [] | Some p \<Rightarrow> p)"

definition handleBackup :: "reqEnv \<Rightarrow> string \<Rightarrow> backupRequest \<Rightarrow> agent \<Rightarrow> jobResp \<times> agent" where
  "handleBackup q rid req ag =
     (case indexGet (agRepos ag) rid of
        None \<Rightarrow> (JobError 404, ag)
      | Some repo \<Rightarrow>
          (case prepEnv q repo ag of
             (None, ag1) \<Rightarrow> (JobError 500, ag1)
           | (Some (env, _, tmp), ag1) \<Rightarrow>
               launch (rqNow q) (rqJobID q) repo ActionBackup (brStorage req)
                 (withEnv env (invocationForBackup (agNumCPU ag) repo (brStorage req) (brTag req) (brThreads req)))
                 (brScheduleID req) (orManual (brTriggerKey req)) (rqSpawn q) (tmp, None) ag1))"

text \<open>\<open>None\<close> is a body that does not decode.\<close>

definition handleRestore :: "reqEnv \<Rightarrow> string \<Rightarrow> restoreRequest option \<Rightarrow> agent \<Rightarrow> jobResp \<times> agent" where
  "handleRestore q rid body ag =
     (case indexGet (agRepos ag) rid of
        None \<Rightarrow> (JobError 404, ag)
      | Some repo \<Rightarrow>
          (case body of
             None \<Rightarrow> (JobError 400, ag)
           | Some req \<Rightarrow>
               if rrRevision req \<le> 0 then (JobError 400, ag)
               else
                 (case prepareRestoreTarget (agScratchRoot ag) repo (rrTarget req) (rrRevision req) (agFS ag) of
                    (Inl _, fs) \<Rightarrow> (JobError 400, ag\<lparr>agFS := fs\<rparr>)
                  | (Inr (targetRoot, link), fs) \<Rightarrow>
                      (case prepEnv q repo (ag\<lparr>agFS := fs\<rparr>) of
                         (None, ag1) \<Rightarrow> (JobError 500, ag1\<lparr>agFS := prepCleanup link (agFS ag1)\<rparr>)
                       | (Some (env, rsaPriv, tmp), ag1) \<Rightarrow>
                           let alias = (if rrStorage req = [] then ''default'' else rrStorage req)
                           in launch (rqNow q) (rqJobID q) repo ActionRestore (rrStorage req)
                                (withEnv env (invocationForRestore repo (rrStorage req) (rrRevision req) (rrPaths req) (rrOverwrite req)
                                   (pathOf alias rsaPriv) targetRoot))
                                [] (orManual (rrTriggerKey req)) (rqSpawn q) (tmp, link) ag1))))"

definition handleCheck :: "reqEnv \<Rightarrow> string \<Rightarrow> checkRequest \<Rightarrow> agent \<Rightarrow> jobResp \<times> agent" where
  "handleCheck q rid req ag =
     (case indexGet (agRepos ag) rid of
        None \<Rightarrow> (JobError 404, ag)
      | Some repo \<Rightarrow>
          (case prepEnv q repo ag of
             (None, ag1) \<Rightarrow> (JobError 500, ag1)
           | (Some (env, _, tmp), ag1) \<Rightarrow>
               launch (rqNow q) (rqJobID q) repo ActionCheck (crqStorage req)
                 (withEnv env (invocationForCheck repo (crqStorage req) (crqRevisions req) (crqAll req) (crqSnapshotID req)))
                 [] (orManual (crqTriggerKey req)) (rqSpawn q) (tmp, None) ag1))"

definition startPrune :: "reqEnv \<Rightarrow> string \<Rightarrow> pruneRequest \<Rightarrow> bool \<Rightarrow> agent \<Rightarrow> jobResp \<times> agent" where
  "startPrune q rid req dryRun ag =
     (case indexGet (agRepos ag) rid of
        None \<Rightarrow> (JobError 404, ag)
      | Some repo \<Rightarrow>
          let trig = (if prTriggerKey req = [] then (if dryRun then ''manual-preview'' else ''manual'') else prTriggerKey req)
          in if trimSpace (prSnapshotID req) = [] then (JobError 400, ag)
             else
               (case prepEnv q repo ag of
                  (None, ag1) \<Rightarrow> (JobError 500, ag1)
                | (Some (env, _, tmp), ag1) \<Rightarrow>
                    launch (rqNow q) (rqJobID q) repo ActionPrune (prStorage req)
                      (withEnv env (invocationForPrune repo
                         \<lparr>poStorage = prStorage req, poKeepRules = prKeepRules req, poExclusive = prExclusive req,
                          poExhaustive = prExhaustive req, poSnapshotID = prSnapshotID req, poDryRun = dryRun,
                          poThreads = prThreads req, poIgnore = prIgnore req\<rparr>))
                      [] trig (rqSpawn q) (tmp, None) ag1))"

definition handlePrune :: "reqEnv \<Rightarrow> string \<Rightarrow> pruneRequest \<Rightarrow> agent \<Rightarrow> jobResp \<times> agent" where
  "handlePrune q rid req ag = startPrune q rid req False ag"

definition handlePrunePreview :: "reqEnv \<Rightarrow> string \<Rightarrow> pruneRequest \<Rightarrow> agent \<Rightarrow> jobResp \<times> agent" where
  "handlePrunePreview q rid req ag = startPrune q rid req True ag"

definition handleCopy :: "reqEnv \<Rightarrow> string \<Rightarrow> copyRequest \<Rightarrow> agent \<Rightarrow> jobResp \<times> agent" where
  "handleCopy q rid req ag =
     (case indexGet (agRepos ag) rid of
        None \<Rightarrow> (JobError 404, ag)
      | Some repo \<Rightarrow>
          if cpFrom req = [] \<or> cpTo req = [] then (JobError 400, ag)
          else
            (case prepEnv q repo ag of
               (None, ag1) \<Rightarrow> (JobError 500, ag1)
             | (Some (env, rsaPriv, tmp), ag1) \<Rightarrow>
                 let threads = (if cpThreads req \<le> 0 then agCopyThreads ag else cpThreads req)
                 in launch (rqNow q) (rqJobID q) repo ActionCopy (cpTo req)
                      (withEnv env (invocationForCopy (agNumCPU ag) repo (cpFrom req) (cpTo req) threads (cpSnapshotID req)
                         (pathOf (cpFrom req) rsaPriv) []))
                      [] (orManual (cpTriggerKey req)) (rqSpawn q) (tmp, None) ag1))"

datatype cancelResp = Cancelled | CancelNotFound | CancelConflict JobState

definition handleCancelJob :: "string \<Rightarrow> agent \<Rightarrow> cancelResp \<times> agent" where
  "handleCancelJob i ag =
     (if i \<notin> set (rgJobs (agReg ag)) then (CancelNotFound, ag)
      else case map_of (rgHeap (agReg ag)) i of
        None \<Rightarrow> (CancelNotFound, ag)
      | Some ob \<Rightarrow>
          (case cancelJob i (agReg ag) of
             (False, r) \<Rightarrow> (CancelConflict (jState (oJob ob)), ag\<lparr>agReg := r\<rparr>)
           | (True, r) \<Rightarrow> (Cancelled, ag\<lparr>agReg := r\<rparr>)))"

definition handleGetJob :: "string \<Rightarrow> agent \<Rightarrow> Job option" where
  "handleGetJob i ag = (if i \<in> set (rgJobs (agReg ag)) then map_option oJob (map_of (rgHeap (agReg ag)) i) else None)"

definition handleListJobs :: "agent \<Rightarrow> Job list" where
  "handleListJobs ag = registryList (agReg ag)"

section \<open>The key files of all jobs\<close>

datatype request =
    ReqBackup string backupRequest | ReqRestore string "restoreRequest option" | ReqCheck string checkRequest
  | ReqPrune string pruneRequest bool | ReqCopy string copyRequest

fun handleReq :: "reqEnv \<Rightarrow> request \<Rightarrow> agent \<Rightarrow> jobResp \<times> agent" where
  "handleReq q (ReqBackup rid b) ag = handleBackup q rid b ag"
| "handleReq q (ReqRestore rid b) ag = handleRestore q rid b ag"
| "handleReq q (ReqCheck rid b) ag = handleCheck q rid b ag"
| "handleReq q (ReqPrune rid b dry) ag = (if dry then handlePrunePreview q rid b ag else handlePrune q rid b ag)"
| "handleReq q (ReqCopy rid b) ag = handleCopy q rid b ag"

definition pendingOf :: "jobRegistry \<Rightarrow> (string \<times> string list \<times> string option) list \<Rightarrow> string list" where
  "pendingOf r own = concat (map (\<lambda>x. if cleanupsOf (fst x) r = 0 then fst (snd x) else []) own)"

definition pendingFiles :: "agent \<Rightarrow> string list" where
  "pendingFiles ag = pendingOf (agReg ag) (agOwned ag)"

lemma pendingOf_cong:
  "(\<And>j. j \<in> fst ` set own \<Longrightarrow> (cleanupsOf j r' = 0) = (cleanupsOf j r = 0)) \<Longrightarrow> pendingOf r' own = pendingOf r own"
  by (induction own) (auto simp: pendingOf_def)

lemma pendingOf_append: "pendingOf r (xs @ x # ys) = pendingOf r xs @ (if cleanupsOf (fst x) r = 0 then fst (snd x) else []) @ pendingOf r ys"
  by (simp add: pendingOf_def)

abbreviation shmOf :: "agent \<Rightarrow> (string \<times> string) list" where
  "shmOf ag \<equiv> shmFiles (ssShm (agSecrets ag))"

definition filesInv :: "(string \<times> string) list \<Rightarrow> agent \<Rightarrow> bool" where
  "filesInv base ag \<longleftrightarrow> regInv (agReg ag) \<and> distinct (map fst (agOwned ag)) \<and> filter (\<lambda>f. fst f \<notin> set (pendingFiles ag)) (shmOf ag) = base"

lemmas exec_defs = atPhase_def startJob_def takeSlot_def finalizeUnstarted_def spawnPipeError_def unstartedObj_def startErrorObj_def
  runningObj_def finishedObj_def spawnStartError_def spawnSetRunning_def spawnExit_def spawnFinish_def cancelJob_def cancelledObj_def

lemma heap_step:
  assumes "regExec now l r = Some r'"
  shows "rgHeap r' = rgHeap r \<or> (\<exists>i ob'. labelJob l = Some i \<and> rgHeap r' = AList.update i ob' (rgHeap r) \<and> cleanupsOf i r \<le> oCleanups ob')"
proof (cases "map_of (rgHeap r) (the (labelJob l))")
  case None
  then show ?thesis using assms
    by (cases l) (auto simp: exec_defs cleanupsOf_def Let_def split: if_splits)
next
  case (Some ob)
  show ?thesis
  proof (cases l)
    case (LSlot i)
    then show ?thesis using assms Some
      by (cases "oSem ob") (auto simp: exec_defs cleanupsOf_def Let_def split: if_splits)
  next
    case (LStart i a b c d e f g)
    have "i \<in> fst ` set (rgHeap r)" using Some LStart map_of_SomeD [of "rgHeap r" i ob] by force
    then show ?thesis using assms LStart by simp
  qed (use assms Some in \<open>auto simp: exec_defs cleanupsOf_def Let_def split: if_splits\<close>)
qed

lemma cleanups_step:
  assumes "regExec now l r = Some r'"
  shows "labelJob l \<noteq> Some j \<Longrightarrow> cleanupsOf j r' = cleanupsOf j r"
    and "labelJob l = Some j \<Longrightarrow> cleanupsOf j r \<le> cleanupsOf j r'"
    and "fst ` set (rgHeap r) \<subseteq> fst ` set (rgHeap r')"
proof -
  show "labelJob l \<noteq> Some j \<Longrightarrow> cleanupsOf j r' = cleanupsOf j r" "labelJob l = Some j \<Longrightarrow> cleanupsOf j r \<le> cleanupsOf j r'"
    using heap_step [OF assms] by (auto simp: cleanupsOf_def update_conv')
  show "fst ` set (rgHeap r) \<subseteq> fst ` set (rgHeap r')" using heap_step [OF assms] by (elim disjE exE conjE) (simp_all add: dom_update subset_insertI)
qed

lemma objOk_cleanups: "objOk ob \<Longrightarrow> oCleanups ob \<le> 1"
  by (cases "oPhase ob") (simp_all add: objOk_def Let_def)

lemma filesInv_exec:
  assumes "filesInv base ag" "agentExec now l ag = Some ag'"
  shows "filesInv base ag'"
proof -
  obtain r' where r': "regExec now l (agReg ag) = Some r'" using assms(2) by (auto simp: agentExec_def split: option.splits)
  have inv: "regInv r'" using regInv_exec [OF _ r'] assms(1) by (simp add: filesInv_def)
  have same: "filesInv base (ag\<lparr>agReg := r'\<rparr>)" if "\<And>j. j \<in> fst ` set (agOwned ag) \<Longrightarrow> (cleanupsOf j r' = 0) = (cleanupsOf j (agReg ag) = 0)"
  proof -
    have "pendingFiles (ag\<lparr>agReg := r'\<rparr>) = pendingFiles ag" using pendingOf_cong [OF that] by (simp add: pendingFiles_def)
    then show ?thesis using assms(1) inv by (simp add: filesInv_def)
  qed
  show ?thesis
  proof (cases "\<exists>i. labelJob l = Some i \<and> cleanupsOf i (agReg ag) < cleanupsOf i r'")
    case False
    then have "cleanupsOf j r' = cleanupsOf j (agReg ag)" for j using cleanups_step [OF r'] by (metis le_neq_implies_less)
    then show ?thesis using same False assms(2) r' by (auto simp: agentExec_def Let_def split: option.splits if_splits)
  next
    case True
    then obtain i where i: "labelJob l = Some i" "cleanupsOf i (agReg ag) < cleanupsOf i r'" by blast
    have other: "cleanupsOf j r' = cleanupsOf j (agReg ag)" if "j \<noteq> i" for j using cleanups_step(1) [OF r'] i(1) that by simp
    show ?thesis
    proof (cases "map_of (agOwned ag) i")
      case None
      then have "i \<notin> fst ` set (agOwned ag)" by (simp add: map_of_eq_None_iff)
      then have "filesInv base (ag\<lparr>agReg := r'\<rparr>)" using other by (intro same) metis
      then show ?thesis using assms(2) r' i None by (auto simp: agentExec_def Let_def)
    next
      case (Some c)
      obtain tmp link where c: "c = (tmp, link)" by fastforce
      have ag': "ag' = runCleanup (tmp, link) (ag\<lparr>agReg := r'\<rparr>)" using assms(2) r' i Some c by (simp add: agentExec_def)
      have d: "distinct (map fst (agOwned ag))" using assms(1) by (simp add: filesInv_def)
      obtain ys zs where own: "agOwned ag = ys @ (i, tmp, link) # zs" using Some c by (meson map_of_SomeD split_list)
      then have ni: "i \<notin> fst ` set ys" "i \<notin> fst ` set zs" using d by auto
      have le1: "cleanupsOf i r' \<le> 1" using inv objOk_cleanups by (auto simp: cleanupsOf_def regInv_def heapInv_def split: option.splits simp del: map_of_eq_Some_iff)
      then have z: "cleanupsOf i (agReg ag) = 0" "cleanupsOf i r' = 1" using i(2) by auto
      have pend: "set (pendingFiles ag) = set (pendingFiles ag') \<union> set tmp"
      proof -
        have "pendingOf r' ys = pendingOf (agReg ag) ys" "pendingOf r' zs = pendingOf (agReg ag) zs"
          by (rule pendingOf_cong; metis ni other)+
        then show ?thesis using z by (auto simp: pendingFiles_def ag' runCleanup_def own pendingOf_append)
      qed
      have "shmOf ag' = filter (\<lambda>f. fst f \<notin> set tmp) (shmOf ag)" by (simp add: ag' runCleanup_def shmFiles_cleanup)
      moreover have "filter (\<lambda>f. fst f \<notin> set (pendingFiles ag)) (shmOf ag) = base" using assms(1) by (simp add: filesInv_def)
      moreover have "filter (\<lambda>f. fst f \<notin> set (pendingFiles ag')) (filter (\<lambda>f. fst f \<notin> set tmp) xs) = filter (\<lambda>f. fst f \<notin> set (pendingFiles ag)) xs"
        for xs :: "(string \<times> string) list" unfolding pend by (induction xs) auto
      ultimately have "filter (\<lambda>f. fst f \<notin> set (pendingFiles ag')) (shmOf ag') = base" by simp
      then show ?thesis using inv d by (simp add: filesInv_def ag' runCleanup_def)
    qed
  qed
qed

lemma filesInv_run: "agentRun ls ag = Some ag' \<Longrightarrow> filesInv base ag \<Longrightarrow> filesInv base ag'"
  by (induction ls ag rule: agentRun.induct) (auto split: option.splits dest: filesInv_exec)

lemma runCleanup_simps [simp]: "agReg (runCleanup c ag) = agReg ag" "agOwned (runCleanup c ag) = agOwned ag"
  by (cases c; simp add: runCleanup_def)+

lemma agentExec_reg: "map_option agReg (agentExec now l ag) = regExec now l (agReg ag)"
  by (auto simp: agentExec_def Let_def split: option.splits)

lemma agentRun_reg: "map_option agReg (agentRun ls ag) = regRun ls (agReg ag)"
proof (induction ls arbitrary: ag)
  case (Cons x ls)
  then show ?case using agentExec_reg [of "fst x" "snd x" ag]
    by (cases x) (auto split: option.splits)
qed simp

lemma agentExec_owned: "agentExec now l ag = Some ag' \<Longrightarrow> agOwned ag' = agOwned ag"
  by (auto simp: agentExec_def Let_def split: option.splits if_splits)

lemma agentRun_owned: "agentRun ls ag = Some ag' \<Longrightarrow> agOwned ag' = agOwned ag"
  by (induction ls ag rule: agentRun.induct) (auto split: option.splits dest: agentExec_owned)

lemma regRun_heap: "regRun ls r = Some r' \<Longrightarrow> fst ` set (rgHeap r) \<subseteq> fst ` set (rgHeap r')"
proof (induction ls r rule: regRun.induct)
  case (2 now l ls r)
  then obtain r1 where "regExec now l r = Some r1" "regRun ls r1 = Some r'" by (auto split: option.splits)
  then show ?case using order_trans [OF cleanups_step(3) "2.IH"] by blast
qed simp

lemma heap_startJob: "fst ` set (rgHeap (startJob i a b c d e f g r)) = insert i (fst ` set (rgHeap r))"
  by (simp add: startJob_def Let_def dom_update)

lemma startLabels_run:
  assumes "jid \<notin> fst ` set (rgHeap r)"
  shows "\<exists>r'. regRun (startLabels now jid repo act storage iv sch trig (semFor r act \<noteq> None) oc) r = Some r' \<and> jid \<in> fst ` set (rgHeap r')"
proof -
  let ?s = "startJob jid (rID repo) (rPath repo) act storage (Args iv) sch trig r"
  have "\<exists>r'. regRun (startLabels now jid repo act storage iv sch trig (semFor r act \<noteq> None) oc) r = Some r'"
    using assms by (cases oc) (auto simp: startLabels_def atPhase_def startJob_def update_conv' Let_def)
  then obtain r' where r': "regRun (startLabels now jid repo act storage iv sch trig (semFor r act \<noteq> None) oc) r = Some r'" by blast
  obtain ls where "startLabels now jid repo act storage iv sch trig (semFor r act \<noteq> None) oc =
      (now, LStart jid (rID repo) (rPath repo) act storage (Args iv) sch trig) # ls" by (simp add: startLabels_def)
  then have "regRun ls ?s = Some r'" using r' assms by simp
  then have "fst ` set (rgHeap ?s) \<subseteq> fst ` set (rgHeap r')" by (rule regRun_heap)
  then show ?thesis using r' by (simp add: heap_startJob)
qed

definition agentOk :: "(string \<times> string) list \<Rightarrow> agent \<Rightarrow> bool" where
  "agentOk base ag \<longleftrightarrow> filesInv base ag \<and> fst ` set (agOwned ag) \<subseteq> fst ` set (rgHeap (agReg ag))"

lemma filesInv_own:
  assumes "filesInv base ag" "agReg ag1 = agReg ag" "agOwned ag1 = (jid, tmp, link) # agOwned ag"
    "grows (ssShm (agSecrets ag)) tmp (ssShm (agSecrets ag1))" "jid \<notin> fst ` set (rgHeap (agReg ag))" "jid \<notin> fst ` set (agOwned ag)"
  shows "filesInv base ag1"
proof -
  have "cleanupsOf jid (agReg ag) = 0" using assms(5) by (auto simp: cleanupsOf_def map_of_eq_None_iff [THEN iffD2] split: option.splits)
  then have pend: "pendingFiles ag1 = tmp @ pendingFiles ag" using assms(2,3) by (simp add: pendingFiles_def pendingOf_def)
  obtain ns where ns: "shmOf ag1 = shmOf ag @ ns" "map fst ns = tmp" "set tmp \<inter> fst ` set (shmOf ag) = {}" using assms(4) by (auto simp: grows_def)
  have "filter (\<lambda>f. fst f \<notin> set tmp \<and> fst f \<notin> A) xs = filter (\<lambda>f. fst f \<notin> A) xs" if "set tmp \<inter> fst ` set xs = {}" for A and xs :: "(string \<times> string) list"
    using that by (induction xs) auto
  moreover have "filter (\<lambda>f. fst f \<notin> set tmp \<and> fst f \<notin> A) ns = []" for A by (force simp: filter_empty_conv simp flip: ns(2))
  ultimately have "filter (\<lambda>f. fst f \<notin> set (pendingFiles ag1)) (shmOf ag1) = base" using assms(1) ns by (simp add: pend filesInv_def)
  then show ?thesis using assms(1-3,6) by (simp add: filesInv_def)
qed

lemma agentOk_launch:
  assumes ok: "agentOk base ag" and same: "agReg ag1 = agReg ag" "agOwned ag1 = agOwned ag"
    and g: "grows (ssShm (agSecrets ag)) tmp (ssShm (agSecrets ag1))" and new: "jid \<notin> fst ` set (rgHeap (agReg ag))"
    and l: "launch now jid repo act storage iv sch trig oc (tmp, link) ag1 = (resp, ag2)"
  shows "agentOk base ag2"
proof -
  let ?agx = "ag1\<lparr>agOwned := (jid, tmp, link) # agOwned ag1\<rparr>"
  let ?ls = "startLabels now jid repo act storage iv sch trig (semFor (agReg ag1) act \<noteq> None) oc"
  have nown: "jid \<notin> fst ` set (agOwned ag)" using ok new by (auto simp: agentOk_def)
  have x: "filesInv base ?agx" by (rule filesInv_own [where jid = jid and tmp = tmp and link = link]) (use ok same g new nown in \<open>auto simp: agentOk_def\<close>)
  obtain r' where r': "regRun ?ls (agReg ag) = Some r'" "jid \<in> fst ` set (rgHeap r')" using startLabels_run [OF new] same by metis
  then obtain ag3 where a3: "agentRun ?ls ?agx = Some ag3" "agReg ag3 = r'" using agentRun_reg [of ?ls ?agx] same by auto
  have "ag2 = ag3" using l a3(1) by (auto simp: launch_def Let_def)
  moreover have "filesInv base ag3" by (rule filesInv_run [OF a3(1) x])
  moreover have "agOwned ag3 = (jid, tmp, link) # agOwned ag" using agentRun_owned [OF a3(1)] same by simp
  moreover have "fst ` set (agOwned ag) \<subseteq> fst ` set (rgHeap r')" using regRun_heap [OF r'(1)] ok unfolding agentOk_def by (meson order_trans)
  ultimately show ?thesis using r'(2) a3(2) by (simp add: agentOk_def)
qed

lemma prepEnv_cases:
  assumes "prepEnv q repo ag = (x, ag1)"
  shows "agReg ag1 = agReg ag" "agOwned ag1 = agOwned ag"
    "x = None \<Longrightarrow> shmOf ag1 = shmOf ag" "x = Some (env, rsa, tmp) \<Longrightarrow> grows (ssShm (agSecrets ag)) tmp (ssShm (agSecrets ag1))"
  using assms prepareEnv_shm [of "rqSha q" "rqPkcs1 q" "rqVend q" "agMapping ag" "rPath repo" "agSecrets ag"]
  by (auto simp: prepEnv_def split: sum.splits prod.splits)

lemma agentOk_same: "agentOk base ag \<Longrightarrow> agReg ag1 = agReg ag \<Longrightarrow> agOwned ag1 = agOwned ag \<Longrightarrow> shmOf ag1 = shmOf ag \<Longrightarrow> agentOk base ag1"
  by (simp add: agentOk_def filesInv_def pendingFiles_def)

text \<open>The shape all five handlers share: an error that leaves jobs and key files alone, or a launch after a
  successful preparation.\<close>

lemma agentOk_prepared:
  assumes "agentOk base ag" "rqJobID q \<notin> fst ` set (rgHeap (agReg ag))"
    "(case prepEnv q repo ag of (None, ag1) \<Rightarrow> (JobError 500, f ag1)
       | (Some (env, rsa, tmp), ag1) \<Rightarrow> launch (rqNow q) (rqJobID q) repo act st (iv env rsa) sch trig (rqSpawn q) (tmp, link) ag1) = (resp, ag2)"
    "\<And>a. agReg (f a) = agReg a \<and> agOwned (f a) = agOwned a \<and> shmOf (f a) = shmOf a"
  shows "agentOk base ag2"
proof -
  obtain x ag1 where p: "prepEnv q repo ag = (x, ag1)" by fastforce
  note c = prepEnv_cases [OF p]
  show ?thesis
  proof (cases x)
    case None
    then have "ag2 = f ag1" using assms(3) p by simp
    then show ?thesis using agentOk_same [OF assms(1)] c None assms(4) by simp
  next
    case (Some y)
    obtain env rsa tmp where y: "y = (env, rsa, tmp)" by (cases y)
    then have "launch (rqNow q) (rqJobID q) repo act st (iv env rsa) sch trig (rqSpawn q) (tmp, link) ag1 = (resp, ag2)" using assms(3) p Some by simp
    moreover have "grows (ssShm (agSecrets ag)) tmp (ssShm (agSecrets ag1))" by (rule c(4)) (simp add: Some y)
    ultimately show ?thesis using agentOk_launch [OF assms(1) c(1,2) _ assms(2)] by blast
  qed
qed

lemma agentOk_request:
  assumes "agentOk base ag" "rqJobID q \<notin> fst ` set (rgHeap (agReg ag))" "handleReq q rq ag = (resp, ag')"
  shows "agentOk base ag'"
proof (cases rq)
  case (ReqBackup rid b)
  then show ?thesis using assms by (auto simp: handleBackup_def split: option.splits intro: agentOk_prepared [where f = "\<lambda>a. a"])
next
  case (ReqRestore rid b)
  show ?thesis
  proof (cases "indexGet (agRepos ag) rid = None \<or> b = None \<or> rrRevision (the b) \<le> 0")
    case True
    then show ?thesis using assms ReqRestore by (auto simp: handleRestore_def split: option.splits)
  next
    case False
    then obtain repo req where r: "indexGet (agRepos ag) rid = Some repo" "b = Some req" "\<not> rrRevision req \<le> 0" by auto
    obtain x fs where x: "prepareRestoreTarget (agScratchRoot ag) repo (rrTarget req) (rrRevision req) (agFS ag) = (x, fs)" by fastforce
    have ok: "agentOk base (ag\<lparr>agFS := fs\<rparr>)" by (rule agentOk_same [OF assms(1)]) simp_all
    show ?thesis
    proof (cases x)
      case (Inl e)
      then have "ag' = ag\<lparr>agFS := fs\<rparr>" using assms(3) ReqRestore r x by (simp add: handleRestore_def)
      then show ?thesis using ok by simp
    next
      case (Inr y)
      obtain tr link where y: "y = (tr, link)" by fastforce
      let ?iv = "\<lambda>env rsaPriv. withEnv env (invocationForRestore repo (rrStorage req) (rrRevision req) (rrPaths req) (rrOverwrite req)
        (pathOf (if rrStorage req = [] then ''default'' else rrStorage req) rsaPriv) tr)"
      have "(case prepEnv q repo (ag\<lparr>agFS := fs\<rparr>) of (None, ag1) \<Rightarrow> (JobError 500, ag1\<lparr>agFS := prepCleanup link (agFS ag1)\<rparr>)
         | (Some (env, rsa, tmp), ag1) \<Rightarrow> launch (rqNow q) (rqJobID q) repo ActionRestore (rrStorage req) (?iv env rsa) []
             (orManual (rrTriggerKey req)) (rqSpawn q) (tmp, link) ag1) = (resp, ag')"
        using assms(3) ReqRestore r x Inr y by (simp add: handleRestore_def Let_def cong: option.case_cong prod.case_cong)
      then show ?thesis by (intro agentOk_prepared [OF ok, where iv = ?iv and f = "\<lambda>a. a\<lparr>agFS := prepCleanup link (agFS a)\<rparr>"]) (use assms(2) in auto)
    qed
  qed
next
  case (ReqCheck rid b)
  then show ?thesis using assms by (auto simp: handleCheck_def split: option.splits intro: agentOk_prepared [where f = "\<lambda>a. a"])
next
  case (ReqPrune rid b dry)
  then have "startPrune q rid b dry ag = (resp, ag')" using assms(3) by (simp add: handlePrune_def handlePrunePreview_def split: if_splits)
  then show ?thesis using assms by (auto simp: startPrune_def Let_def split: option.splits if_splits intro: agentOk_prepared [where f = "\<lambda>a. a"])
next
  case (ReqCopy rid b)
  show ?thesis
  proof (cases "indexGet (agRepos ag) rid = None \<or> cpFrom b = [] \<or> cpTo b = []")
    case True
    then show ?thesis using assms ReqCopy by (auto simp: handleCopy_def split: option.splits)
  next
    case False
    then obtain repo where r: "indexGet (agRepos ag) rid = Some repo" "cpFrom b \<noteq> []" "cpTo b \<noteq> []" by auto
    let ?iv = "\<lambda>env rsaPriv. withEnv env (invocationForCopy (agNumCPU ag) repo (cpFrom b) (cpTo b) (if cpThreads b \<le> 0 then agCopyThreads ag else cpThreads b)
      (cpSnapshotID b) (pathOf (cpFrom b) rsaPriv) [])"
    have "(case prepEnv q repo ag of (None, ag1) \<Rightarrow> (JobError 500, ag1)
       | (Some (env, rsa, tmp), ag1) \<Rightarrow> launch (rqNow q) (rqJobID q) repo ActionCopy (cpTo b) (?iv env rsa) []
           (orManual (cpTriggerKey b)) (rqSpawn q) (tmp, None) ag1) = (resp, ag')"
      using assms(3) ReqCopy r by (simp add: handleCopy_def Let_def cong: option.case_cong prod.case_cong)
    then show ?thesis by (intro agentOk_prepared [OF assms(1), where iv = ?iv and f = "\<lambda>a. a"]) (use assms(2) in auto)
  qed
qed

lemma agentOk_exec:
  assumes "agentOk base ag" "agentExec now l ag = Some ag'"
  shows "agentOk base ag'"
proof -
  have "regExec now l (agReg ag) = Some (agReg ag')" using agentExec_reg [of now l ag] assms(2) by simp
  then have "fst ` set (rgHeap (agReg ag)) \<subseteq> fst ` set (rgHeap (agReg ag'))" by (rule cleanups_step(3))
  moreover have "fst ` set (agOwned ag') \<subseteq> fst ` set (rgHeap (agReg ag))" using assms agentExec_owned [OF assms(2)] by (simp add: agentOk_def)
  ultimately have "fst ` set (agOwned ag') \<subseteq> fst ` set (rgHeap (agReg ag'))" by (rule order_trans [rotated])
  then show ?thesis using assms filesInv_exec [of base ag now l ag'] by (simp add: agentOk_def)
qed

lemma pendingOf_none: "(\<And>j. j \<in> fst ` set own \<Longrightarrow> cleanupsOf j r \<noteq> 0) \<Longrightarrow> pendingOf r own = []"
proof (induction own)
  case (Cons x own)
  have "cleanupsOf (fst x) r \<noteq> 0" by (rule Cons.prems) simp
  moreover have "pendingOf r own = []" by (rule Cons.IH) (rule Cons.prems, simp)
  ultimately show ?case by (simp only: pendingOf_def list.map concat.simps if_False append_Nil)
qed (simp add: pendingOf_def)

lemma agentOk_ended:
  assumes ok: "agentOk base ag" and e: "\<forall>ob\<in>snd ` set (rgHeap (agReg ag)). oPhase ob = Ended"
  shows "pendingFiles ag = []"
proof -
  have "cleanupsOf j (agReg ag) \<noteq> 0" if x: "j \<in> fst ` set (agOwned ag)" for j
  proof -
    have "j \<in> fst ` set (rgHeap (agReg ag))" using ok x by (auto simp: agentOk_def)
    then obtain ob where ob: "map_of (rgHeap (agReg ag)) j = Some ob" by (metis map_of_eq_None_iff not_None_eq)
    then have "oPhase ob = Ended" using e map_of_SomeD [OF ob] by force
    moreover have "objOk ob" using ok ob by (auto simp: agentOk_def filesInv_def regInv_def heapInv_def simp del: map_of_eq_Some_iff)
    ultimately show ?thesis using ob by (simp add: cleanupsOf_def objOk_def Let_def del: map_of_eq_Some_iff)
  qed
  then show ?thesis by (simp add: pendingFiles_def pendingOf_none)
qed

definition exAgent :: "int \<Rightarrow> agent" where
  "exAgent maint = \<lparr>agNumCPU = 4, agCopyThreads = 2, agScratchRoot = ''/scratch'',
     agRepos = (newRepoIndex [])\<lparr>ixRepos := [(''r'', (exRepo ''/r'')\<lparr>rID := ''r'', rSnapshotID := ''snap''\<rparr>)]\<rparr>,
     agMapping = exStore, agSecrets = exSecrets,
     agFS = \<lparr>rfDisk = \<lparr>entries = [], ioErr = [], rmErr = []\<rparr>, rfLinks = [], rfMkErr = [], rfLinkErr = []\<rparr>,
     agReg = newJobRegistry 1 maint, agOwned = []\<rparr>"

definition exReq :: "spawnOutcome \<Rightarrow> reqEnv" where
  "exReq oc = \<lparr>rqNow = 7, rqJobID = ''j1'', rqSha = exSha, rqPkcs1 = (\<lambda>x. x), rqVend = exVend True, rqSpawn = oc\<rparr>"

definition exRestore :: restoreRequest where
  "exRestore = \<lparr>rrStorage = [], rrRevision = 3, rrPaths = [], rrOverwrite = False, rrTarget = [], rrTriggerKey = []\<rparr>"

definition exStarted :: agent where
  "exStarted = snd (handleReq (exReq SpawnOk) (ReqRestore ''r'' (Some exRestore)) (exAgent 1))"

definition exDone :: "agent option" where
  "exDone = agentRun [(8, LExit ''j1'' None), (9, LFinish ''j1'')] exStarted"

definition exPrune :: pruneRequest where
  "exPrune = \<lparr>prStorage = [], prKeepRules = [''7:30''], prExclusive = False, prExhaustive = False, prSnapshotID = ''snap'', prThreads = 0,
     prIgnore = [], prTriggerKey = []\<rparr>"

lemma exStarted_eval: "length (shmOf exStarted) = 5"
  by code_simp

lemma exDone_eval: "map_option (\<lambda>ag. map (oPhase \<circ> snd) (rgHeap (agReg ag))) exDone = Some [Ended]"
  by code_simp

section \<open>Where a restore writes\<close>

lemma isDigit_slash: "\<not> isDigit CHR ''/''"
  by (simp add: isDigit_def)

lemma plainName_scratch: "CHR ''/'' \<notin> set sid \<Longrightarrow> plainName (sid @ ''-r'' @ itoa n)"
proof -
  assume s: "CHR ''/'' \<notin> set sid"
  have "list_all isDigit (natDigits k)" for k by (simp add: natDigits_isDigit)
  then have d: "CHR ''/'' \<notin> set (natDigits k)" for k by (metis isDigit_slash list_all_iff)
  then have "CHR ''/'' \<notin> set (itoa n)" by (simp add: itoa_def)
  moreover have ne: "x \<noteq> d" if "CHR ''r'' \<in> set x" "CHR ''r'' \<notin> set d" for x d using that by blast
  have "sid @ ''-r'' @ itoa n \<noteq> ''.''" "sid @ ''-r'' @ itoa n \<noteq> ''..''" by (rule ne; simp)+
  ultimately show ?thesis using s by (auto simp: plainName_def sepChar_def)
qed

lemma fold_mkdir_keeps:
  "map_of es p = Some n \<Longrightarrow> map_of (fold (\<lambda>q es. if map_of es q = None then es @ [(q, DirNode)] else es) qs es) p = Some n"
  by (induction qs arbitrary: es) (auto simp: map_add_def)

lemma mkdirAll_keeps:
  assumes "mkdirAll p fs = (ok, fs1)"
  shows "rfLinks fs1 = rfLinks fs" "map_of (entries (rfDisk fs)) q = Some n \<Longrightarrow> map_of (entries (rfDisk fs1)) q = Some n"
  using assms by (auto simp: mkdirAll_def Let_def fold_mkdir_keeps split: if_splits)

lemma prepareRestoreTarget_cases:
  assumes "prepareRestoreTarget scratch repo target revision fs = (Inr (dir, link), fs')"
  shows "(restoreDir scratch repo target revision = Inr None \<and> dir = [] \<and> link = None \<and> fs' = fs) \<or>
    (restoreDir scratch repo target revision = Inr (Some dir) \<and> link = Some (pathJoin [dir, ''.duplicacy'']) \<and>
     (\<exists>fs1. mkdirAll dir fs = (True, fs1) \<and>
       (if osLstat fs1 (the link) = LNotExist then fs' = fs1\<lparr>rfLinks := (the link, pathJoin [rPath repo, ''.duplicacy'']) # rfLinks fs1\<rparr>
        else osLstat fs1 (the link) \<in> {LSymlink, LOther} \<and> fs' = fs1)))"
  using assms by (auto simp: prepareRestoreTarget_def Let_def split: sum.splits option.splits prod.splits bool.splits lstatResult.splits if_splits)

lemma pathWithin_beside:
  assumes "isAbs dir" "isAbs scratch" "cleanParts dir = cleanParts scratch @ [name]" "\<not> pathWithin p scratch" "\<not> pathWithin scratch p"
  shows "\<not> pathWithin p dir \<and> \<not> pathWithin dir p"
  using assms by (auto simp: pathWithin_def prefix_snoc dest: prefix_order.trans append_prefixD)

text \<open>C7. Where a restore runs. With the target "original" it runs in the repository, and preparing it changes nothing. With a target of the
  caller's own, which has to be an absolute path, it runs in exactly that directory (so in the repository if the caller names
  that). With the empty or the default target, which needs a configured scratch root, it runs in a directory of the scratch root that is
  named after the snapshot and the revision; when the scratch root is absolute and the snapshot id has no slash, that
  directory lies below the scratch root, and when scratch root and repository do not contain one another, neither
  in the repository nor around it. Preparing a target changes no entry of the disk that exists, and adds at most one link, the directory's .duplicacy to that of the
  repository, where nothing was.\<close>

theorem restore_target_safe:
  assumes "prepareRestoreTarget scratch repo target revision fs = (Inr (dir, link), fs')"
    "cwd = RepoRoot (invocationForRestore repo storage revision paths overwrite key dir)"
    "name = rSnapshotID repo @ ''-r'' @ itoa revision" "ddir = pathJoin [cwd, ''.duplicacy'']"
  shows "(target = ''original'' \<longrightarrow> cwd = rPath repo \<and> fs' = fs) \<and>
    (target \<notin> {[], ''scratch'', ''original''} \<longrightarrow> isAbs target \<and> cwd = pathClean target) \<and>
    (target \<in> {[], ''scratch''} \<longrightarrow> scratch \<noteq> [] \<and> cwd = pathJoin [scratch, name] \<and>
       (isAbs scratch \<and> CHR ''/'' \<notin> set (rSnapshotID repo) \<longrightarrow>
          pathWithin scratch cwd \<and> cleanParts cwd = cleanParts scratch @ [name] \<and>
          (\<not> pathWithin scratch (rPath repo) \<and> \<not> pathWithin (rPath repo) scratch \<longrightarrow> \<not> pathWithin (rPath repo) cwd \<and> \<not> pathWithin cwd (rPath repo)))) \<and>
    (\<forall>q n. map_of (entries (rfDisk fs)) q = Some n \<longrightarrow> map_of (entries (rfDisk fs')) q = Some n) \<and>
    (rfLinks fs' = rfLinks fs \<or>
     rfLinks fs' = (ddir, pathJoin [rPath repo, ''.duplicacy'']) # rfLinks fs \<and> ddir \<notin> fst ` set (rfLinks fs) \<and> map_of (entries (rfDisk fs)) ddir = None)"
proof -
  note c = prepareRestoreTarget_cases [OF assms(1)]
  have d: "restoreDir scratch repo target revision = Inr (if dir = [] then None else Some dir)"
    using c by (auto simp: restoreDir_def pathJoin_def Let_def split: if_splits)
  have r: "cwd = (if dir = [] then rPath repo else dir)" by (simp add: assms(2) invocationForRestore_def Let_def)
  have orig: "cwd = rPath repo \<and> fs' = fs" if "target = ''original''"
    using c d that r by (auto simp: restoreDir_def)
  have custom: "isAbs target \<and> cwd = pathClean target" if "target \<notin> {[], ''scratch'', ''original''}"
    using d that r by (auto simp: restoreDir_def Let_def split: if_splits)
  have scr: "scratch \<noteq> [] \<and> cwd = pathJoin [scratch, name]" if "target \<in> {[], ''scratch''}"
    using d that r by (auto simp: restoreDir_def assms(3) Let_def split: if_splits)
  have below: "pathWithin scratch cwd \<and> cleanParts cwd = cleanParts scratch @ [name] \<and>
      (\<not> pathWithin scratch (rPath repo) \<and> \<not> pathWithin (rPath repo) scratch \<longrightarrow> \<not> pathWithin (rPath repo) cwd \<and> \<not> pathWithin cwd (rPath repo))"
    if t: "target \<in> {[], ''scratch''}" and a: "isAbs scratch \<and> CHR ''/'' \<notin> set (rSnapshotID repo)"
  proof -
    have j: "cleanParts cwd = cleanParts scratch @ [name]" "isAbs cwd"
      using scr [OF t] pathJoin_child [of scratch name] plainName_scratch [of "rSnapshotID repo" revision] a by (simp_all add: assms(3))
    then show ?thesis using a pathWithin_beside [OF j(2) _ j(1)] by (auto simp: pathWithin_def)
  qed
  have keep: "map_of (entries (rfDisk fs')) q = Some n" if "map_of (entries (rfDisk fs)) q = Some n" for q n
    using c mkdirAll_keeps(2) that by (auto split: if_splits)
  have links: "rfLinks fs' = rfLinks fs \<or>
     rfLinks fs' = (ddir, pathJoin [rPath repo, ''.duplicacy'']) # rfLinks fs \<and> ddir \<notin> fst ` set (rfLinks fs) \<and> map_of (entries (rfDisk fs)) ddir = None"
  proof (cases "dir = []")
    case True
    then show ?thesis using c d by auto
  next
    case False
    then obtain fs1 where f: "mkdirAll dir fs = (True, fs1)" "link = Some ddir"
      "if osLstat fs1 ddir = LNotExist then fs' = fs1\<lparr>rfLinks := (ddir, pathJoin [rPath repo, ''.duplicacy'']) # rfLinks fs1\<rparr> else fs' = fs1"
      using c r by (auto simp: assms(4) split: if_splits)
    have "ddir \<notin> fst ` set (rfLinks fs) \<and> map_of (entries (rfDisk fs)) ddir = None" if "osLstat fs1 ddir = LNotExist"
    proof
      show "ddir \<notin> fst ` set (rfLinks fs)" using that mkdirAll_keeps(1) [OF f(1)] by (auto simp: osLstat_def split: if_splits)
      have "map_of (entries (rfDisk fs1)) ddir = None" using that by (simp add: osLstat_def split: if_splits option.splits)
      then show "map_of (entries (rfDisk fs)) ddir = None" using mkdirAll_keeps(2) [OF f(1)] by (metis not_Some_eq)
    qed
    then show ?thesis using f(3) mkdirAll_keeps(1) [OF f(1)] by (auto split: if_splits)
  qed
  show ?thesis using orig custom scr below keep links by blast
qed

text \<open>Witness: the default target, next to a repository.\<close>

theorem restore_target_safe_witness:
  "\<exists>fs'. prepareRestoreTarget ''/scratch'' ((exRepo ''/r'')\<lparr>rSnapshotID := ''snap''\<rparr>) [] 3 (agFS (exAgent 1)) =
      (Inr (''/scratch/snap-r3'', Some ''/scratch/snap-r3/.duplicacy''), fs') \<and> pathWithin ''/scratch'' ''/scratch/snap-r3'' \<and> \<not> pathWithin ''/r'' ''/scratch/snap-r3''"
proof -
  let ?repo = "(exRepo ''/r'')\<lparr>rSnapshotID := ''snap''\<rparr>"
  have e: "fst (prepareRestoreTarget ''/scratch'' ?repo [] 3 (agFS (exAgent 1))) = Inr (''/scratch/snap-r3'', Some ''/scratch/snap-r3/.duplicacy'')" by code_simp
  then obtain fs' where p: "prepareRestoreTarget ''/scratch'' ?repo [] 3 (agFS (exAgent 1)) = (Inr (''/scratch/snap-r3'', Some ''/scratch/snap-r3/.duplicacy''), fs')"
    by (metis prod.collapse)
  have r: "RepoRoot (invocationForRestore ?repo [] 3 [] False [] ''/scratch/snap-r3'') = ''/scratch/snap-r3''" by code_simp
  have path: "rPath ?repo = ''/r''" "rSnapshotID ?repo = ''snap''" by (simp_all add: exRepo_def)
  have "\<not> prefix (cleanParts ''/scratch'') (cleanParts ''/r'')" "\<not> prefix (cleanParts ''/r'') (cleanParts ''/scratch'')" by code_simp+
  then have w: "\<not> pathWithin ''/scratch'' (rPath ?repo)" "\<not> pathWithin (rPath ?repo) ''/scratch''" unfolding path by (simp_all add: pathWithin_def)
  have a: "isAbs ''/scratch''" "CHR ''/'' \<notin> set (rSnapshotID ?repo)" unfolding path by (simp_all add: isAbs_def sepChar_def)
  note th = restore_target_safe [OF p r [symmetric] refl refl]
  show ?thesis using conjunct1 [OF conjunct2 [OF conjunct2 [OF th]]] a w p unfolding path by blast
qed

lemma prepCleanup_links:
  "link \<notin> set (ioErr (rfDisk fs)) \<Longrightarrow> rfLinks (prepCleanup (Some link) fs) = filter (\<lambda>x. fst x \<noteq> link) (rfLinks fs)"
  "rfDisk (prepCleanup l fs) = rfDisk fs"
proof -
  assume io: "link \<notin> set (ioErr (rfDisk fs))"
  have "filter (\<lambda>x. fst x \<noteq> link) xs = xs" if "link \<notin> fst ` set xs" for xs :: "(string \<times> string) list" using that by (induction xs) auto
  moreover have "osLstat fs link = LSymlink \<longleftrightarrow> link \<in> fst ` set (rfLinks fs)" using io by (simp add: osLstat_def split: option.splits)
  ultimately show "rfLinks (prepCleanup (Some link) fs) = filter (\<lambda>x. fst x \<noteq> link) (rfLinks fs)" by (simp add: prepCleanup_def)
qed (simp add: prepCleanup_def split: option.splits)

text \<open>The teardown of a restore: whatever was at the target's .duplicacy, after the job no symbolic link is
  there and every other link is as before the restore. A real directory stays. So a link the agent planted is
  gone again, and so is one that was there before, which the code says it leaves alone.\<close>

theorem restore_teardown_links:
  assumes "prepareRestoreTarget scratch repo target revision fs = (Inr (dir, Some link), fs')" "link \<notin> set (ioErr (rfDisk fs))"
  shows "rfLinks (prepCleanup (Some link) fs') = filter (\<lambda>x. fst x \<noteq> link) (rfLinks fs) \<and> rfDisk (prepCleanup (Some link) fs') = rfDisk fs'"
proof -
  obtain fs1 where f: "mkdirAll dir fs = (True, fs1)" "if osLstat fs1 link = LNotExist then fs' = fs1\<lparr>rfLinks := (link, pathJoin [rPath repo, ''.duplicacy'']) # rfLinks fs1\<rparr>
        else osLstat fs1 link \<in> {LSymlink, LOther} \<and> fs' = fs1"
    using prepareRestoreTarget_cases [OF assms(1)] by (metis option.distinct(1) option.sel)
  have io: "link \<notin> set (ioErr (rfDisk fs1))" using f(1) assms(2) by (auto simp: mkdirAll_def Let_def split: if_splits)
  then have "link \<notin> set (ioErr (rfDisk fs'))" using f(2) by (auto split: if_splits)
  then have "rfLinks (prepCleanup (Some link) fs') = filter (\<lambda>x. fst x \<noteq> link) (rfLinks fs')" by (rule prepCleanup_links(1))
  moreover have "filter (\<lambda>x. fst x \<noteq> link) (rfLinks fs') = filter (\<lambda>x. fst x \<noteq> link) (rfLinks fs)"
    using f(2) mkdirAll_keeps(1) [OF f(1)] by (auto split: if_splits)
  ultimately show ?thesis using prepCleanup_links(2) by metis
qed

text \<open>Witness: the link of an earlier restore is removed.\<close>

theorem restore_teardown_links_witness:
  "\<exists>fs'. prepareRestoreTarget ''/scratch'' (exRepo ''/r'') ''/t'' 3 ((agFS (exAgent 1))\<lparr>rfLinks := [(''/t/.duplicacy'', ''/mine'')]\<rparr>) =
      (Inr (''/t'', Some ''/t/.duplicacy''), fs') \<and> rfLinks fs' = [(''/t/.duplicacy'', ''/mine'')] \<and> rfLinks (prepCleanup (Some ''/t/.duplicacy'') fs') = []"
proof -
  let ?fs = "(agFS (exAgent 1))\<lparr>rfLinks := [(''/t/.duplicacy'', ''/mine'')]\<rparr>"
  have e: "fst (prepareRestoreTarget ''/scratch'' (exRepo ''/r'') ''/t'' 3 ?fs) = Inr (''/t'', Some ''/t/.duplicacy'')"
    "rfLinks (snd (prepareRestoreTarget ''/scratch'' (exRepo ''/r'') ''/t'' 3 ?fs)) = [(''/t/.duplicacy'', ''/mine'')]" by code_simp+
  then obtain fs' where f: "prepareRestoreTarget ''/scratch'' (exRepo ''/r'') ''/t'' 3 ?fs = (Inr (''/t'', Some ''/t/.duplicacy''), fs')" by (metis prod.collapse)
  have "rfLinks (prepCleanup (Some ''/t/.duplicacy'') fs') = filter (\<lambda>x. fst x \<noteq> ''/t/.duplicacy'') (rfLinks ?fs)"
    using restore_teardown_links [OF f] by (simp add: exAgent_def)
  then show ?thesis using f e(2) by simp
qed

section \<open>The scope of a prune\<close>

lemma startLabels_job:
  assumes "jid \<notin> fst ` set (rgHeap r)" "regRun (startLabels now jid repo act storage iv sch trig (semFor r act \<noteq> None) oc) r = Some r'"
  shows "\<exists>ob. map_of (rgHeap r') jid = Some ob \<and> jArgs (oJob ob) = Args iv \<and> jAction (oJob ob) = act"
  using assms by (cases oc) (auto simp: startLabels_def exec_defs newJob_def update_conv' markTerminated_def release_def Let_def split: if_splits option.splits semKind.splits)

lemma launch_job:
  assumes "launch now jid repo act storage iv sch trig oc cl ag = (Accepted j, ag')" "jid \<notin> fst ` set (rgHeap (agReg ag))"
  shows "j = jid \<and> (\<exists>ob. map_of (rgHeap (agReg ag')) j = Some ob \<and> jArgs (oJob ob) = Args iv \<and> jAction (oJob ob) = act)"
proof -
  let ?ls = "startLabels now jid repo act storage iv sch trig (semFor (agReg ag) act \<noteq> None) oc"
  have a: "agentRun ?ls (ag\<lparr>agOwned := (jid, cl) # agOwned ag\<rparr>) = Some ag'" "j = jid"
    using assms(1) by (auto simp: launch_def Let_def split: option.splits if_splits)
  then have "regRun ?ls (agReg ag) = Some (agReg ag')" using agentRun_reg [of ?ls "ag\<lparr>agOwned := (jid, cl) # agOwned ag\<rparr>"] by simp
  then show ?thesis using startLabels_job [OF assms(2)] a(2) by blast
qed

text \<open>C5. No prune without a scope: a request whose snapshot id is blank is refused and changes nothing, and every
  accepted prune or preview becomes a job whose command line carries "-id" and the requested snapshot id; the
  command line of the preview is the one of the prune followed by "-dry-run".\<close>

theorem startPrune_scoped:
  assumes "startPrune q rid req dry ag = (resp, ag')" "rqJobID q \<notin> fst ` set (rgHeap (agReg ag))"
  shows "(trimSpace (prSnapshotID req) = [] \<longrightarrow> resp \<in> {JobError 404, JobError 400} \<and> ag' = ag) \<and>
    (\<forall>j. resp = Accepted j \<longrightarrow> (\<exists>ob pre post. map_of (rgHeap (agReg ag')) j = Some ob \<and> jAction (oJob ob) = ActionPrune \<and>
       jArgs (oJob ob) = pre @ [''-id'', prSnapshotID req] @ post @ (if dry then [''-dry-run''] else []) \<and>
       pre = ''prune'' # (if prStorage req = [] then [] else [''-storage'', prStorage req])))"
proof (cases "trimSpace (prSnapshotID req) = []")
  case True
  then show ?thesis using assms(1) by (auto simp: startPrune_def Let_def split: option.splits)
next
  case False
  moreover have "trimSpace [] = []" by code_simp
  ultimately have ne: "prSnapshotID req \<noteq> []" by metis
  show ?thesis
  proof (intro conjI allI impI)
    fix j assume acc: "resp = Accepted j"
    let ?o = "\<lparr>poStorage = prStorage req, poKeepRules = prKeepRules req, poExclusive = prExclusive req, poExhaustive = prExhaustive req,
       poSnapshotID = prSnapshotID req, poDryRun = dry, poThreads = prThreads req, poIgnore = prIgnore req\<rparr>"
    obtain repo trig env tmp ag1 where l: "launch (rqNow q) (rqJobID q) repo ActionPrune (prStorage req) (withEnv env (invocationForPrune repo ?o))
        [] trig (rqSpawn q) (tmp, None) ag1 = (Accepted j, ag')" "agReg ag1 = agReg ag"
      using assms(1) acc False prepEnv_cases(1) by (auto simp: startPrune_def Let_def split: option.splits prod.splits)
    obtain ob where ob: "map_of (rgHeap (agReg ag')) j = Some ob" "jArgs (oJob ob) = Args (invocationForPrune repo ?o)" "jAction (oJob ob) = ActionPrune"
      using launch_job [OF l(1)] assms(2) l(2) by (auto simp: withEnv_def)
    show "\<exists>ob pre post. map_of (rgHeap (agReg ag')) j = Some ob \<and> jAction (oJob ob) = ActionPrune \<and>
       jArgs (oJob ob) = pre @ [''-id'', prSnapshotID req] @ post @ (if dry then [''-dry-run''] else []) \<and>
       pre = ''prune'' # (if prStorage req = [] then [] else [''-storage'', prStorage req])"
      using ob ne unfolding prune_args by (intro exI [of _ ob] exI conjI) simp_all
  qed (use False in simp_all)
qed

text \<open>Witness: a preview.\<close>

theorem startPrune_scoped_witness:
  "\<exists>ag' ob. startPrune (exReq SpawnOk) ''r'' exPrune True (exAgent 0) = (Accepted ''j1'', ag') \<and> map_of (rgHeap (agReg ag')) ''j1'' = Some ob \<and>
     take 3 (jArgs (oJob ob)) = [''prune'', ''-id'', ''snap'']"
proof -
  have e: "fst (startPrune (exReq SpawnOk) ''r'' exPrune True (exAgent 0)) = Accepted ''j1''" by code_simp
  then obtain ag' where s: "startPrune (exReq SpawnOk) ''r'' exPrune True (exAgent 0) = (Accepted ''j1'', ag')" by (metis prod.collapse)
  have n: "rqJobID (exReq SpawnOk) \<notin> fst ` set (rgHeap (agReg (exAgent 0)))" by (simp add: exAgent_def newJobRegistry_def)
  from startPrune_scoped [OF s n] show ?thesis using s by (auto simp: exPrune_def)
qed

end
