(* ===== verification/Filters.thy ===== *)
theory Filters
  imports Repos "HOL-Library.Product_Lexorder"
begin

text \<open>
  Filter sets (filters.go): the org and site sets pulled from the controller, the per-repo rules kept on disk,
  and the file .duplicacy/filters rendered from them for each repo. The files the component reads and writes are
  a table of decoded contents (\<open>fileStore\<close>); every write goes to a temporary file that is then renamed. The
  reference reading of a rendered file is \<open>ruleLines\<close>, and duplicacy's first-match-wins evaluation is \<open>decide\<close> over
  an arbitrary matcher. The theorems show that the file says exactly what the sets say, in the order that gives
  per-repo rules precedence over site rules and these over org rules; that anchoring loses nothing; and what
  the size gatherer may skip.
\<close>

section \<open>Data\<close>

record FilterRule =
  frPosition :: int
  frAction :: string
  frPattern :: string

record FilterSet =
  fsID :: string
  fsScope :: string
  fsScopeValue :: string
  fsName :: string
  fsRules :: "FilterRule list"

record PerRepoFilters =
  pfRepoID :: string
  pfRules :: "FilterRule list"
  pfUpdatedAt :: go_time

record globalFilterCacheFile =
  gfSets :: "FilterSet list"
  gfLastFetchedAt :: go_time

datatype fileContent = FText string | FGlobal globalFilterCacheFile | FPerRepo PerRepoFilters | FMalformed

record fileStore =
  ffFiles :: "(string \<times> fileContent) list"
  ffReadErr :: "string list"  \<comment> \<open>files that exist and cannot be read\<close>
  ffWriteErr :: "string list"  \<comment> \<open>files that cannot be written\<close>
  ffRenameErr :: "string list"  \<comment> \<open>targets a rename fails for\<close>

datatype readResult = RNotExist | RErr | RData fileContent

definition osReadFile :: "fileStore \<Rightarrow> string \<Rightarrow> readResult" where
  "osReadFile fs p =
     (if p \<in> set (ffReadErr fs) then RErr
      else case map_of (ffFiles fs) p of None \<Rightarrow> RNotExist | Some c \<Rightarrow> RData c)"

text \<open>Write \<open>dest.tmp\<close>, then rename it: true for success.\<close>

definition replaceFile :: "string \<Rightarrow> fileContent \<Rightarrow> fileStore \<Rightarrow> bool \<times> fileStore" where
  "replaceFile dest c fs =
     (let tmp = dest @ ''.tmp''
      in if tmp \<in> set (ffWriteErr fs) then (False, fs)
         else if dest \<in> set (ffRenameErr fs) then (False, fs\<lparr>ffFiles := AList.update tmp c (ffFiles fs)\<rparr>)
         else (True, fs\<lparr>ffFiles := AList.update dest c (AList.delete tmp (ffFiles fs))\<rparr>))"

record filterCache =
  fcSets :: "FilterSet list"
  fcLastFetched :: go_time
  fcCachePath :: string
  fcPerRepoDir :: string
  fcFS :: fileStore

section \<open>Times in RFC 3339\<close>

definition pad :: "nat \<Rightarrow> int \<Rightarrow> string" where
  "pad n i = (let s = itoa i in replicate (n - length s) CHR ''0'' @ s)"

text \<open>Days since the epoch to year, month and day.\<close>

definition civil :: "int \<Rightarrow> int \<times> int \<times> int" where
  "civil days =
     (let z = days + 719468; era = z div 146097; doe = z mod 146097;
          yoe = (doe - doe div 1460 + doe div 36524 - doe div 146096) div 365;
          doy = doe - (365 * yoe + yoe div 4 - yoe div 100);
          mp = (5 * doy + 2) div 153;
          d = doy - (153 * mp + 2) div 5 + 1;
          m = (if mp < 10 then mp + 3 else mp - 9)
      in (yoe + era * 400 + (if m \<le> 2 then 1 else 0), m, d))"

definition fmtRFC3339 :: "go_time \<Rightarrow> string" where
  "fmtRFC3339 t =
     (case t of
        None \<Rightarrow> ''0001-01-01T00:00:00Z''
      | Some ns \<Rightarrow>
          let s = ns div 1000000000; (y, m, d) = civil (s div 86400); r = s mod 86400
          in pad 4 y @ ''-'' @ pad 2 m @ ''-'' @ pad 2 d @ ''T'' @ pad 2 (r div 3600) @ '':'' @ pad 2 (r mod 3600 div 60) @ '':'' @ pad 2 (r mod 60) @ ''Z'')"

section \<open>Rendering\<close>

abbreviation nl :: char where "nl \<equiv> CHR 0x0A"

definition anchorPattern :: "string \<Rightarrow> string \<Rightarrow> string option" where
  "anchorPattern pattern matchRoot =
     (if pattern = [] then None
      else if \<not> hasPrefix pattern ''/'' then Some pattern
      else let r = trimSuffix matchRoot ''/''
           in if r = [] \<or> r = ''/'' then Some (trimPrefix pattern ''/'')
              else if pattern = r \<or> pattern = r @ ''/'' then None
              else if hasPrefix pattern (r @ ''/'') \<and> drop (length r + 1) pattern \<noteq> [] then Some (drop (length r + 1) pattern)
              else None)"

definition repoMatchRoot :: "Repo \<Rightarrow> string" where
  "repoMatchRoot r = (if rSourcePath r \<noteq> [] then rSourcePath r else rPath r)"

definition ruleText :: "string \<Rightarrow> FilterRule \<Rightarrow> string" where
  "ruleText matchRoot r =
     (case anchorPattern (frPattern r) matchRoot of
        None \<Rightarrow> ''# (not in this repo) '' @ frPattern r @ [nl]
      | Some p \<Rightarrow> (if frAction r = ''include'' then ''+'' else ''-'') @ p @ [nl])"

definition writeRules :: "string \<Rightarrow> FilterRule list \<Rightarrow> string \<Rightarrow> string" where
  "writeRules b rules matchRoot = foldl (\<lambda>b r. b @ ruleText matchRoot r) b (sort_key frPosition rules)"

definition scopeOrder :: "string \<Rightarrow> nat" where
  "scopeOrder s = (if s = ''site'' then 0 else if s = ''org'' then 1 else 2)"

definition scopeValueDisplay :: "string \<Rightarrow> string" where
  "scopeValueDisplay v = (if v = [] then [] else '' ('' @ v @ '')'')"

definition autogeneratedHeader :: string where
  "autogeneratedHeader = ''# AUTOGENERATED by duplicacy-agent-api from controller filter sets'' @ [nl] @
     ''# DO NOT EDIT BY HAND - changes will be overwritten on next sync'' @ [nl]"

definition perRepoPath :: "filterCache \<Rightarrow> string \<Rightarrow> string" where
  "perRepoPath f repoID = pathJoin [fcPerRepoDir f, repoID @ ''.json'']"

text \<open>\<open>None\<close> is an error, the flag says whether the file exists.\<close>

definition loadPerRepo :: "filterCache \<Rightarrow> string \<Rightarrow> (PerRepoFilters \<times> bool) option" where
  "loadPerRepo f repoID =
     (case osReadFile (fcFS f) (perRepoPath f repoID) of
        RNotExist \<Rightarrow> Some (\<lparr>pfRepoID = repoID, pfRules = [], pfUpdatedAt = None\<rparr>, False)
      | RErr \<Rightarrow> None
      | RData (FPerRepo pr) \<Rightarrow> Some (pr, True)
      | RData _ \<Rightarrow> None)"

definition writeSet :: "string \<Rightarrow> string \<Rightarrow> FilterSet \<Rightarrow> string" where
  "writeSet matchRoot b s =
     (if fsScope s = ''repo'' then b
      else writeRules (b @ ''# === '' @ toUpper (fsScope s) @ scopeValueDisplay (fsScopeValue s) @ '': '' @ fsName s @ '' ==='' @ [nl])
             (fsRules s) matchRoot @ [nl])"

definition computeMerged :: "int \<Rightarrow> filterCache \<Rightarrow> string \<Rightarrow> string \<Rightarrow> string" where
  "computeMerged now f repoID matchRoot =
     (let b0 = autogeneratedHeader @ ''# Last rendered: '' @ fmtRFC3339 (Some now) @ [nl] @
                 ''# Source-of-truth fetched: '' @ fmtRFC3339 (fcLastFetched f) @ [nl] @ [nl];
          b1 = (case loadPerRepo f repoID of
                  None \<Rightarrow> b0
                | Some (pr, _) \<Rightarrow>
                    if pfRules pr = [] then b0
                    else writeRules (b0 @ ''# === REPO: per-repo overrides ==='' @ [nl]) (pfRules pr) matchRoot @ [nl])
      in foldl (writeSet matchRoot) b1 (sort_key (\<lambda>s. (scopeOrder (fsScope s), fsName s)) (fcSets f)))"

definition renderForRepo :: "int \<Rightarrow> Repo \<Rightarrow> filterCache \<Rightarrow> bool \<times> filterCache" where
  "renderForRepo now repo f =
     (let merged = computeMerged now f (rID repo) (repoMatchRoot repo);
          (ok, fs) = replaceFile (pathJoin [rPath repo, ''.duplicacy'', ''filters'']) (FText merged) (fcFS f)
      in (ok, f\<lparr>fcFS := fs\<rparr>))"

definition renderAll :: "int \<Rightarrow> repoIndex \<Rightarrow> filterCache \<Rightarrow> filterCache" where
  "renderAll now ix f = fold (\<lambda>repo f. snd (renderForRepo now repo f)) (indexList ix) f"

section \<open>Loading, saving and pulling\<close>

definition loadCache :: "filterCache \<Rightarrow> bool \<times> filterCache" where
  "loadCache f =
     (case osReadFile (fcFS f) (fcCachePath f) of
        RNotExist \<Rightarrow> (True, f)
      | RErr \<Rightarrow> (False, f)
      | RData (FGlobal c) \<Rightarrow> (True, f\<lparr>fcSets := gfSets c, fcLastFetched := gfLastFetchedAt c\<rparr>)
      | RData _ \<Rightarrow> (False, f))"

definition newFilterCache :: "bool \<Rightarrow> string \<Rightarrow> fileStore \<Rightarrow> filterCache option" where
  "newFilterCache mkdirOk configDir fs =
     (if \<not> mkdirOk then None
      else Some (snd (loadCache \<lparr>fcSets = [], fcLastFetched = None, fcCachePath = pathJoin [configDir, ''filter-sets.json''],
                                 fcPerRepoDir = pathJoin [configDir, ''per-repo-filters''], fcFS = fs\<rparr>)))"

definition saveCache :: "filterCache \<Rightarrow> bool \<times> filterCache" where
  "saveCache f =
     (let (ok, fs) = replaceFile (fcCachePath f) (FGlobal \<lparr>gfSets = fcSets f, gfLastFetchedAt = fcLastFetched f\<rparr>) (fcFS f)
      in (ok, f\<lparr>fcFS := fs\<rparr>))"

definition savePerRepo :: "int \<Rightarrow> PerRepoFilters \<Rightarrow> filterCache \<Rightarrow> bool \<times> filterCache" where
  "savePerRepo now pr f =
     (let (ok, fs) = replaceFile (perRepoPath f (pfRepoID pr)) (FPerRepo (pr\<lparr>pfUpdatedAt := Some now\<rparr>)) (fcFS f)
      in (ok, f\<lparr>fcFS := fs\<rparr>))"

datatype filterReply = FReqErr | FNetErr | FStatus int | FBody "FilterSet list option"

text \<open>\<open>FStatus\<close> is an answer other than 200, \<open>FBody None\<close> one that does not decode.\<close>

definition pull :: "int \<Rightarrow> filterReply \<Rightarrow> repoIndex \<Rightarrow> filterCache \<Rightarrow> bool \<times> filterCache" where
  "pull now reply ix f =
     (case reply of
        FBody (Some sets) \<Rightarrow>
          let f1 = f\<lparr>fcSets := sets, fcLastFetched := Some now\<rparr>;
              f2 = snd (saveCache f1)
          in (True, renderAll now ix f2)
      | _ \<Rightarrow> (False, f))"

section \<open>Absolute excludes\<close>

definition containsGlob :: "string \<Rightarrow> bool" where
  "containsGlob p = list_ex (\<lambda>c. c \<in> set ''*?['') p"

definition absolutePatterns :: "string \<Rightarrow> FilterSet list \<Rightarrow> string list" where
  "absolutePatterns action sets =
     concat (map (\<lambda>s. map (\<lambda>r. pathClean (frPattern r))
       (filter (\<lambda>r. hasPrefix (frPattern r) ''/'' \<and> \<not> containsGlob (frPattern r) \<and> frAction r = action) (fsRules s))) sets)"

definition AbsoluteExcludePrefixes :: "filterCache \<Rightarrow> string list" where
  "AbsoluteExcludePrefixes f =
     (let excludes = absolutePatterns ''exclude'' (fcSets f); includes = absolutePatterns ''include'' (fcSets f)
      in if includes = [] then excludes
         else filter (\<lambda>e. \<not> pathUnderAny2 includes e) excludes)"

section \<open>Handlers\<close>

definition handleGetFilters :: "repoIndex \<Rightarrow> string \<Rightarrow> filterCache \<Rightarrow> (PerRepoFilters \<times> bool) httpResult" where
  "handleGetFilters ix i f =
     (case indexGet ix i of
        None \<Rightarrow> HttpError 404
      | Some repo \<Rightarrow> (case loadPerRepo f (rID repo) of None \<Rightarrow> HttpError 500 | Some x \<Rightarrow> HttpOk x))"

definition handlePutFilters :: "int \<Rightarrow> repoIndex \<Rightarrow> string \<Rightarrow> FilterRule list option \<Rightarrow> filterCache \<Rightarrow> unit httpResult \<times> filterCache" where
  "handlePutFilters now ix i body f =
     (case indexGet ix i of
        None \<Rightarrow> (HttpError 404, f)
      | Some repo \<Rightarrow>
          (case body of
             None \<Rightarrow> (HttpError 400, f)
           | Some rules \<Rightarrow>
               (case savePerRepo now \<lparr>pfRepoID = rID repo, pfRules = rules, pfUpdatedAt = None\<rparr> f of
                  (False, f1) \<Rightarrow> (HttpError 500, f1)
                | (True, f1) \<Rightarrow>
                    (case renderForRepo now repo f1 of
                       (False, f2) \<Rightarrow> (HttpError 500, f2)
                     | (True, f2) \<Rightarrow> (HttpOk (), f2)))))"

definition handleRenderFilters :: "int \<Rightarrow> repoIndex \<Rightarrow> string \<Rightarrow> filterCache \<Rightarrow> string httpResult" where
  "handleRenderFilters now ix i f =
     (case indexGet ix i of None \<Rightarrow> HttpError 404 | Some repo \<Rightarrow> HttpOk (computeMerged now f (rID repo) (repoMatchRoot repo)))"

definition handleGlobalFiltersCache :: "filterCache \<Rightarrow> FilterSet list \<times> go_time" where
  "handleGlobalFiltersCache f = (fcSets f, fcLastFetched f)"

definition handleGlobalFiltersRefresh :: "int \<Rightarrow> filterReply \<Rightarrow> repoIndex \<Rightarrow> filterCache \<Rightarrow> unit httpResult \<times> filterCache" where
  "handleGlobalFiltersRefresh now reply ix f = (case pull now reply ix f of (False, f') \<Rightarrow> (HttpError 502, f') | (True, f') \<Rightarrow> (HttpOk (), f'))"

section \<open>Reading a rendered file\<close>

text \<open>The rules of a filters file: its lines that start with a plus or a minus sign.\<close>

definition isRule :: "string \<Rightarrow> bool" where
  "isRule l \<longleftrightarrow> l \<noteq> [] \<and> hd l \<in> {CHR ''+'', CHR ''-''}"

definition ruleLines :: "string \<Rightarrow> (char \<times> string) list" where
  "ruleLines s = map (\<lambda>l. (hd l, tl l)) (filter isRule (splitChar nl s))"

definition ruleOf :: "string \<Rightarrow> FilterRule \<Rightarrow> (char \<times> string) list" where
  "ruleOf matchRoot r =
     (case anchorPattern (frPattern r) matchRoot of
        None \<Rightarrow> []
      | Some p \<Rightarrow> [(if frAction r = ''include'' then CHR ''+'' else CHR ''-'', p)])"

definition rulesOf :: "string \<Rightarrow> FilterRule list \<Rightarrow> (char \<times> string) list" where
  "rulesOf matchRoot rules = concat (map (ruleOf matchRoot) (sort_key frPosition rules))"

definition repoRules :: "filterCache \<Rightarrow> string \<Rightarrow> string \<Rightarrow> (char \<times> string) list" where
  "repoRules f repoID matchRoot = (case loadPerRepo f repoID of None \<Rightarrow> [] | Some (pr, _) \<Rightarrow> rulesOf matchRoot (pfRules pr))"

definition setRules :: "(string \<Rightarrow> bool) \<Rightarrow> filterCache \<Rightarrow> string \<Rightarrow> (char \<times> string) list" where
  "setRules inScope f matchRoot = concat (map (\<lambda>s. rulesOf matchRoot (fsRules s)) (sort_key fsName (filter (\<lambda>s. inScope (fsScope s)) (fcSets f))))"

definition decide :: "(string \<Rightarrow> string \<Rightarrow> bool) \<Rightarrow> string \<Rightarrow> (char \<times> string) list \<Rightarrow> bool option" where
  "decide matches path rules = map_option (\<lambda>x. fst x = CHR ''+'') (find (\<lambda>x. matches (snd x) path) rules)"

definition oneLine :: "string \<Rightarrow> bool" where
  "oneLine s \<longleftrightarrow> nl \<notin> set s"

definition setOk :: "FilterSet \<Rightarrow> bool" where
  "setOk s \<longleftrightarrow> oneLine (fsScope s) \<and> oneLine (fsScopeValue s) \<and> oneLine (fsName s) \<and> list_all (\<lambda>r. oneLine (frPattern r)) (fsRules s)"

definition filtersOk :: "filterCache \<Rightarrow> string \<Rightarrow> bool" where
  "filtersOk f repoID \<longleftrightarrow> list_all setOk (fcSets f) \<and>
     (case loadPerRepo f repoID of None \<Rightarrow> True | Some (pr, _) \<Rightarrow> list_all (\<lambda>r. oneLine (frPattern r)) (pfRules pr))"

definition whole :: "string \<Rightarrow> bool" where
  "whole b \<longleftrightarrow> b = [] \<or> last b = nl"

lemma ruleLines_append: "whole b \<Longrightarrow> ruleLines (b @ c) = ruleLines b @ ruleLines c"
proof (cases "b = []")
  case False
  assume "whole b"
  then obtain b' where "b = b' @ [nl]" using False by (metis append_butlast_last_id whole_def)
  then show ?thesis using splitChar_append [of nl b' c] splitChar_append [of nl b' "[]"] by (simp add: ruleLines_def isRule_def)
qed (simp add: ruleLines_def isRule_def)

lemma whole_append: "whole b \<Longrightarrow> whole c \<Longrightarrow> whole (b @ c)"
  unfolding whole_def by (cases "c = []") simp_all

lemma ruleLines_line: "oneLine l \<Longrightarrow> ruleLines (l @ [nl]) = (if isRule l then [(hd l, tl l)] else [])"
  using splitChar_append_sep [of nl l "[]"] by (simp add: ruleLines_def oneLine_def isRule_def)

lemma oneLine_append [simp]: "oneLine (a @ b) \<longleftrightarrow> oneLine a \<and> oneLine b"
  by (auto simp: oneLine_def)

lemma anchorPattern_oneLine: "anchorPattern p matchRoot = Some q \<Longrightarrow> oneLine p \<Longrightarrow> oneLine q"
  by (auto simp: anchorPattern_def oneLine_def trimPrefix_def Let_def split: if_splits dest: in_set_dropD)

lemma ruleLines_ruleText:
  assumes "oneLine (frPattern r)"
  shows "ruleLines (ruleText matchRoot r) = ruleOf matchRoot r \<and> whole (ruleText matchRoot r)"
proof (cases "anchorPattern (frPattern r) matchRoot")
  case None
  then show ?thesis using assms ruleLines_line [of "''# (not in this repo) '' @ frPattern r"] by (simp add: ruleText_def ruleOf_def oneLine_def isRule_def whole_def)
next
  case (Some q)
  then have "oneLine q" using anchorPattern_oneLine assms by blast
  then show ?thesis using Some ruleLines_line [of "CHR ''+'' # q"] ruleLines_line [of "CHR ''-'' # q"]
    by (simp add: ruleText_def ruleOf_def oneLine_def isRule_def whole_def)
qed

lemma ruleLines_writeRules:
  assumes "whole b" "list_all (\<lambda>r. oneLine (frPattern r)) rules"
  shows "ruleLines (writeRules b rules matchRoot) = ruleLines b @ rulesOf matchRoot rules \<and> whole (writeRules b rules matchRoot)"
proof -
  have "ruleLines (foldl (\<lambda>b r. b @ ruleText matchRoot r) b rs) = ruleLines b @ concat (map (ruleOf matchRoot) rs) \<and>
      whole (foldl (\<lambda>b r. b @ ruleText matchRoot r) b rs)" if "whole b" "\<forall>r\<in>set rs. oneLine (frPattern r)" for b rs
    using that by (induction rs arbitrary: b) (simp_all add: ruleLines_append whole_append ruleLines_ruleText)
  then show ?thesis using assms by (simp add: writeRules_def rulesOf_def list_all_iff)
qed

lemma upperChar_nl: "upperChar c = nl \<longleftrightarrow> c = nl"
  by (auto simp: upperChar_def of_char_eq_iff dest!: arg_cong [where f = "of_char :: char \<Rightarrow> nat"])

lemma oneLine_toUpper: "oneLine s \<Longrightarrow> oneLine (toUpper s)"
  unfolding oneLine_def toUpper_def using upperChar_nl by (metis image_iff list.set_map)

lemma ruleLines_comment: "oneLine l \<Longrightarrow> ruleLines (CHR ''#'' # l @ [nl]) = []"
  using ruleLines_line [of "CHR ''#'' # l"] by (simp add: oneLine_def isRule_def)

lemma ruleLines_blank: "ruleLines [nl] = []"
  by (simp add: ruleLines_def isRule_def)

lemma ruleLines_writeSet:
  assumes "whole b" "setOk s"
  shows "ruleLines (writeSet matchRoot b s) = ruleLines b @ (if fsScope s = ''repo'' then [] else rulesOf matchRoot (fsRules s)) \<and> whole (writeSet matchRoot b s)"
proof (cases "fsScope s = ''repo''")
  case False
  let ?c = "CHR ''#'' # ('' === '' @ toUpper (fsScope s) @ scopeValueDisplay (fsScopeValue s) @ '': '' @ fsName s @ '' ==='') @ [nl]"
  have c: "oneLine ('' === '' @ toUpper (fsScope s) @ scopeValueDisplay (fsScopeValue s) @ '': '' @ fsName s @ '' ==='')"
    using assms(2) oneLine_toUpper [of "fsScope s"] by (simp add: setOk_def scopeValueDisplay_def) (simp add: oneLine_def)
  have w: "whole ?c" by (simp add: whole_def)
  have "ruleLines (b @ ?c) = ruleLines b" using ruleLines_comment [OF c] assms(1) by (simp only: ruleLines_append append_Nil2)
  moreover have "list_all (\<lambda>r. oneLine (frPattern r)) (fsRules s)" using assms(2) by (simp add: setOk_def)
  ultimately have "ruleLines (writeRules (b @ ?c) (fsRules s) matchRoot) = ruleLines b @ rulesOf matchRoot (fsRules s)" "whole (writeRules (b @ ?c) (fsRules s) matchRoot)"
    using ruleLines_writeRules [OF whole_append [OF assms(1) w]] by metis+
  moreover have "writeSet matchRoot b s = writeRules (b @ ?c) (fsRules s) matchRoot @ [nl]" using False by (simp add: writeSet_def)
  ultimately show ?thesis using False by (simp only: ruleLines_append ruleLines_blank if_False append_Nil2) (simp add: whole_def)
qed (use assms in \<open>simp add: writeSet_def\<close>)

lemma ruleLines_foldl_writeSet:
  "whole b \<Longrightarrow> list_all setOk ss \<Longrightarrow>
   ruleLines (foldl (writeSet matchRoot) b ss) = ruleLines b @ concat (map (\<lambda>s. rulesOf matchRoot (fsRules s)) (filter (\<lambda>s. fsScope s \<noteq> ''repo'') ss))"
  by (induction ss arbitrary: b) (simp_all add: ruleLines_writeSet)

lemma oneLine_itoa: "oneLine (itoa i)"
proof -
  have "nl \<notin> set (natDigits k)" for k using natDigits_isDigit [of k] by (auto simp: list_all_iff isDigit_def)
  then show ?thesis by (simp add: oneLine_def itoa_def)
qed

lemma oneLine_fmt: "oneLine (fmtRFC3339 t)"
proof -
  have "oneLine (pad n i)" for n i using oneLine_itoa [of i] by (simp add: pad_def Let_def) (simp add: oneLine_def)
  then show ?thesis by (cases t) (simp_all add: fmtRFC3339_def Let_def split: prod.splits, simp_all add: oneLine_def)
qed

lemma ruleLines_header:
  "ruleLines (autogeneratedHeader @ ''# Last rendered: '' @ fmtRFC3339 t @ [nl] @ ''# Source-of-truth fetched: '' @ fmtRFC3339 u @ [nl] @ [nl]) = []" (is "?r = _")
  "whole (autogeneratedHeader @ ''# Last rendered: '' @ fmtRFC3339 t @ [nl] @ ''# Source-of-truth fetched: '' @ fmtRFC3339 u @ [nl] @ [nl])"
proof -
  have w: "whole autogeneratedHeader" "whole (CHR ''#'' # l @ [nl])" for l by (simp_all add: autogeneratedHeader_def whole_def)
  have l: "oneLine ('' Last rendered: '' @ fmtRFC3339 t)" "oneLine ('' Source-of-truth fetched: '' @ fmtRFC3339 u)"
    using oneLine_fmt by (simp_all add: oneLine_def)
  have "ruleLines autogeneratedHeader = []" by code_simp
  moreover have "?r = ruleLines (autogeneratedHeader @ (CHR ''#'' # ('' Last rendered: '' @ fmtRFC3339 t) @ [nl]) @
      (CHR ''#'' # ('' Source-of-truth fetched: '' @ fmtRFC3339 u) @ [nl]) @ [nl])" by simp
  ultimately show "?r = []" using w ruleLines_comment [OF l(1)] ruleLines_comment [OF l(2)] by (simp only: ruleLines_append ruleLines_blank append_Nil2)
qed (simp add: whole_def)

lemma computeMerged_rules:
  assumes "filtersOk f repoID"
  shows "ruleLines (computeMerged now f repoID matchRoot) = repoRules f repoID matchRoot @
    concat (map (\<lambda>s. rulesOf matchRoot (fsRules s)) (filter (\<lambda>s. fsScope s \<noteq> ''repo'') (sort_key (\<lambda>s. (scopeOrder (fsScope s), fsName s)) (fcSets f))))"
proof -
  let ?b0 = "autogeneratedHeader @ ''# Last rendered: '' @ fmtRFC3339 (Some now) @ [nl] @ ''# Source-of-truth fetched: '' @ fmtRFC3339 (fcLastFetched f) @ [nl] @ [nl]"
  define b1 where "b1 = (case loadPerRepo f repoID of None \<Rightarrow> ?b0 | Some (pr, _) \<Rightarrow> if pfRules pr = [] then ?b0
     else writeRules (?b0 @ ''# === REPO: per-repo overrides ==='' @ [nl]) (pfRules pr) matchRoot @ [nl])"
  note h = ruleLines_header [of "Some now" "fcLastFetched f"]
  let ?c = "''# === REPO: per-repo overrides ==='' @ [nl]"
  have c: "ruleLines ?c = []" "whole ?c" by code_simp (simp add: whole_def)
  have hc: "ruleLines (?b0 @ ?c) = []" "whole (?b0 @ ?c)" using h c by (simp_all only: ruleLines_append append_Nil2) (rule whole_append [OF h(2) c(2)])
  have "ruleLines b1 = repoRules f repoID matchRoot \<and> whole b1"
  proof (cases "\<exists>pr e. loadPerRepo f repoID = Some (pr, e) \<and> pfRules pr \<noteq> []")
    case False
    then have "b1 = ?b0" by (auto simp: b1_def split: option.splits)
    moreover have "repoRules f repoID matchRoot = []" using False by (auto simp: repoRules_def rulesOf_def split: option.splits)
    ultimately show ?thesis using h by metis
  next
    case True
    then obtain pr e where pr: "loadPerRepo f repoID = Some (pr, e)" "pfRules pr \<noteq> []" by blast
    then have b: "b1 = writeRules (?b0 @ ?c) (pfRules pr) matchRoot @ [nl]" by (simp add: b1_def)
    have "list_all (\<lambda>r. oneLine (frPattern r)) (pfRules pr)" using assms pr by (simp add: filtersOk_def)
    then have "ruleLines (writeRules (?b0 @ ?c) (pfRules pr) matchRoot) = rulesOf matchRoot (pfRules pr)" "whole (writeRules (?b0 @ ?c) (pfRules pr) matchRoot)"
      using ruleLines_writeRules [OF hc(2)] hc(1) by (metis append_Nil)+
    then show ?thesis using pr(1) unfolding b by (simp only: ruleLines_append ruleLines_blank append_Nil2) (simp add: repoRules_def whole_def)
  qed
  moreover have "computeMerged now f repoID matchRoot = foldl (writeSet matchRoot) b1 (sort_key (\<lambda>s. (scopeOrder (fsScope s), fsName s)) (fcSets f))"
    by (simp only: computeMerged_def Let_def b1_def)
  moreover have "list_all setOk (sort_key (\<lambda>s. (scopeOrder (fsScope s), fsName s)) (fcSets f))" using assms by (simp add: filtersOk_def list_all_iff)
  ultimately show ?thesis by (simp only: ruleLines_foldl_writeSet)
qed

section \<open>Precedence\<close>

lemma filter_sorted_split:
  "sorted (map k xs) \<Longrightarrow> \<forall>x\<in>set xs. k x \<le> (2::nat) \<Longrightarrow> xs = filter (\<lambda>x. k x = 0) xs @ filter (\<lambda>x. k x = 1) xs @ filter (\<lambda>x. k x = 2) xs"
proof (induction xs)
  case (Cons x xs)
  have e: "filter (\<lambda>y. k y = j) xs = []" if "j < k x" for j using Cons.prems(1) that by (auto simp: filter_empty_conv)
  have i: "xs = filter (\<lambda>x. k x = 0) xs @ filter (\<lambda>x. k x = 1) xs @ filter (\<lambda>x. k x = 2) xs" using Cons by simp
  consider "k x = 0" | "k x = 1" | "k x = 2" using Cons.prems(2) by fastforce
  then show ?case
  proof cases
    case 1
    then show ?thesis using i by simp
  next
    case 2
    then show ?thesis using i e [of 0] by simp
  next
    case 3
    then show ?thesis using i e [of 0] e [of 1] by simp
  qed
qed simp

lemma sort_key_const_fst: "\<forall>x\<in>set xs. k x = c \<Longrightarrow> sort_key (\<lambda>x. (k x, g x)) xs = sort_key g xs"
proof (induction xs)
  case (Cons x xs)
  have "insort_key (\<lambda>x. (k x, g x)) x ys = insort_key g x ys" if "\<forall>y\<in>set ys. k y = k x" for ys using that by (induction ys) (auto simp: less_eq_prod_def)
  then show ?case using Cons by simp
qed simp

lemma sort_scoped:
  "filter P (sort_key (\<lambda>x. (k x, g x)) xs) =
   sort_key g (filter (\<lambda>x. P x \<and> k x = 0) xs) @ sort_key g (filter (\<lambda>x. P x \<and> k x = 1) xs) @ sort_key g (filter (\<lambda>x. P x \<and> k x = 2) xs)"
  if "\<forall>x. k x \<le> (2::nat)"
proof -
  let ?s = "sort_key (\<lambda>x. (k x, g x)) xs"
  have "sorted (map (\<lambda>x. (k x, g x)) ?s)" by (rule sorted_sort_key)
  then have "sorted (map fst (map (\<lambda>x. (k x, g x)) ?s))" by (rule sorted_map_mono) (auto simp: mono_on_def less_eq_prod_def)
  then have "sorted (map k ?s)" by (simp add: comp_def)
  then have e: "?s = filter (\<lambda>x. k x = 0) ?s @ filter (\<lambda>x. k x = 1) ?s @ filter (\<lambda>x. k x = 2) ?s" by (rule filter_sorted_split) (use that in blast)
  have f: "filter P (filter (\<lambda>x. k x = j) ?s) = sort_key g (filter (\<lambda>x. P x \<and> k x = j) xs)" for j
  proof -
    have "filter P (filter (\<lambda>x. k x = j) ys) = filter (\<lambda>x. P x \<and> k x = j) ys" for ys by (induction ys) auto
    then have "filter P (filter (\<lambda>x. k x = j) ?s) = sort_key (\<lambda>x. (k x, g x)) (filter (\<lambda>x. P x \<and> k x = j) xs)" by (simp only: filter_sort)
    also have "\<dots> = sort_key g (filter (\<lambda>x. P x \<and> k x = j) xs)" by (rule sort_key_const_fst [where c = j]) simp
    finally show ?thesis .
  qed
  show ?thesis by (subst e) (simp only: filter_append f)
qed

lemma decide_append: "decide m path (xs @ ys) = (case decide m path xs of Some d \<Rightarrow> Some d | None \<Rightarrow> decide m path ys)"
  by (induction xs) (simp_all add: decide_def)

text \<open>C33. The rendered filters file means what the filter sets say, with the most specific scope first: for every
  pattern matcher and every path, first-match-wins evaluation of the file gives the decision of the per-repo rules
  if one of them matches, else that of the site sets, else that of the org sets, else that of the sets of any other
  scope than "repo"; within a scope sets go by name and rules by position, and each pattern is the stored one
  anchored at the repository root.\<close>

theorem filters_precedence:
  assumes "filtersOk f repoID"
  shows "decide m path (ruleLines (computeMerged now f repoID matchRoot)) =
    (case decide m path (repoRules f repoID matchRoot) of Some d \<Rightarrow> Some d
     | None \<Rightarrow> (case decide m path (setRules (\<lambda>sc. sc = ''site'') f matchRoot) of Some d \<Rightarrow> Some d
     | None \<Rightarrow> (case decide m path (setRules (\<lambda>sc. sc = ''org'') f matchRoot) of Some d \<Rightarrow> Some d
     | None \<Rightarrow> decide m path (setRules (\<lambda>sc. sc \<notin> {''site'', ''org'', ''repo''}) f matchRoot))))"
proof -
  let ?P = "\<lambda>s. fsScope s \<noteq> ''repo''" and ?k = "\<lambda>s. scopeOrder (fsScope s)"
  have le: "\<forall>s. ?k s \<le> 2" by (simp add: scopeOrder_def)
  have k: "(?P s \<and> ?k s = 0) = (fsScope s = ''site'')" "(?P s \<and> ?k s = 1) = (fsScope s = ''org'')" "(?P s \<and> ?k s = 2) = (fsScope s \<notin> {''site'', ''org'', ''repo''})" for s
    by (auto simp: scopeOrder_def)
  show ?thesis unfolding computeMerged_rules [OF assms] sort_scoped [of ?k, OF le, of ?P fsName] k setRules_def map_append concat_append decide_append ..
qed

definition exFilters :: filterCache where
  "exFilters = \<lparr>fcSets = [\<lparr>fsID = ''1'', fsScope = ''org'', fsScopeValue = [], fsName = ''base'',
       fsRules = [\<lparr>frPosition = 1, frAction = ''exclude'', frPattern = ''/home/u/iso/''\<rparr>]\<rparr>,
     \<lparr>fsID = ''2'', fsScope = ''site'', fsScopeValue = ''s1'', fsName = ''local'',
       fsRules = [\<lparr>frPosition = 1, frAction = ''include'', frPattern = ''/home/u/iso/keep''\<rparr>]\<rparr>],
     fcLastFetched = None, fcCachePath = ''/c/filter-sets.json'', fcPerRepoDir = ''/c/per-repo-filters'',
     fcFS = \<lparr>ffFiles = [], ffReadErr = [], ffWriteErr = [], ffRenameErr = []\<rparr>\<rparr>"

text \<open>Witness: a site include before an org exclude, for prefix matching.\<close>

theorem filters_precedence_witness:
  "decide (\<lambda>p path. prefix p path) ''iso/keep/x'' (ruleLines (computeMerged 0 exFilters ''r'' ''/home/u'')) = Some True"
proof -
  have "filtersOk exFilters ''r''" by code_simp
  from filters_precedence [OF this, of "\<lambda>p path. prefix p path" "''iso/keep/x''" 0 "''/home/u''"]
  show ?thesis by (rule trans) code_simp
qed

section \<open>Anchoring\<close>

text \<open>Anchoring keeps exactly the patterns that can apply to the repository, and the absolute pattern can be
  recovered from the rendered one: for a root that does not end in a slash, a pattern anchors to \<open>q\<close> if it is
  relative and \<open>q\<close> itself, or if it is the root, a slash and a nonempty \<open>q\<close>. For a repository at "/" the pattern "/" becomes the
  empty pattern, which matches everything.\<close>

theorem anchorPattern_exact:
  assumes "matchRoot \<noteq> []" "last matchRoot \<noteq> CHR ''/''"
  shows "(anchorPattern p matchRoot = Some q \<longleftrightarrow> q \<noteq> [] \<and> (p = q \<and> \<not> hasPrefix p ''/'' \<or> hasPrefix p ''/'' \<and> p = matchRoot @ ''/'' @ q)) \<and>
    anchorPattern ''/'' ''/'' = Some []"
proof -
  have "trimSuffix matchRoot ''/'' = matchRoot" using assms by (auto simp: trimSuffix_def suffix_def)
  moreover have "matchRoot \<noteq> ''/''" using assms by auto
  ultimately have a: "anchorPattern p matchRoot = (if p = [] then None else if \<not> hasPrefix p ''/'' then Some p
      else if hasPrefix p (matchRoot @ ''/'') \<and> drop (length matchRoot + 1) p \<noteq> [] then Some (drop (length matchRoot + 1) p) else None)"
    using assms(1) by (auto simp: anchorPattern_def)
  have "(hasPrefix p (matchRoot @ ''/'') \<and> drop (length matchRoot + 1) p \<noteq> [] \<and> drop (length matchRoot + 1) p = q) \<longleftrightarrow> q \<noteq> [] \<and> p = matchRoot @ ''/'' @ q"
    by (auto simp: prefix_def)
  moreover have "anchorPattern ''/'' ''/'' = Some []" by code_simp
  ultimately show ?thesis unfolding a by auto
qed

text \<open>Witness.\<close>

theorem anchorPattern_exact_witness: "anchorPattern ''/home/u/iso/'' ''/home/u'' = Some ''iso/'' \<and> anchorPattern ''/srv/x'' ''/home/u'' \<noteq> Some ''x''"
  using anchorPattern_exact [of "''/home/u''" "''/home/u/iso/''" "''iso/''"] anchorPattern_exact [of "''/home/u''" "''/srv/x''" "''x''"] by simp

section \<open>What the size gatherer skips\<close>

definition plainAbsolute :: "string \<Rightarrow> FilterSet list \<Rightarrow> string \<Rightarrow> bool" where
  "plainAbsolute action sets p \<longleftrightarrow>
     (\<exists>s\<in>set sets. \<exists>r\<in>set (fsRules s). frAction r = action \<and> hasPrefix (frPattern r) ''/'' \<and> \<not> containsGlob (frPattern r) \<and> p = pathClean (frPattern r))"

lemma absolutePatterns_iff: "p \<in> set (absolutePatterns action sets) \<longleftrightarrow> plainAbsolute action sets p"
  by (auto simp: absolutePatterns_def plainAbsolute_def)

lemma plainAbsolute_clean: "plainAbsolute action sets p \<Longrightarrow> pathClean p = p \<and> isAbs p"
  using isAbs_pathClean by (auto simp: plainAbsolute_def pathClean_idem) (simp add: isAbs_def sepChar_def prefix_def)

lemma pathUnderAny2_iff: "pathUnderAny2 ps e \<longleftrightarrow> (\<exists>p\<in>set ps. p = e \<or> hasPrefix p (e @ [sepChar]))"
  by (induction ps) auto

text \<open>The excludes handed to the size gatherer are exactly the absolute, wildcard-free exclude patterns below which
  no absolute, wildcard-free include lies (as path containment). Includes with a wildcard are not considered, and
  neither is any include when the exclude is "/" itself.\<close>

theorem AbsoluteExcludePrefixes_exact:
  "(e \<noteq> ''/'' \<longrightarrow> (e \<in> set (AbsoluteExcludePrefixes f) \<longleftrightarrow>
     plainAbsolute ''exclude'' (fcSets f) e \<and> \<not> (\<exists>i. plainAbsolute ''include'' (fcSets f) i \<and> pathWithin e i))) \<and>
   (plainAbsolute ''exclude'' (fcSets f) ''/'' \<and> \<not> plainAbsolute ''include'' (fcSets f) ''/'' \<longrightarrow> ''/'' \<in> set (AbsoluteExcludePrefixes f))"
proof -
  have m: "e \<in> set (AbsoluteExcludePrefixes f) \<longleftrightarrow> plainAbsolute ''exclude'' (fcSets f) e \<and> \<not> (\<exists>i. plainAbsolute ''include'' (fcSets f) i \<and> (i = e \<or> hasPrefix i (e @ [sepChar])))" for e
    unfolding AbsoluteExcludePrefixes_def Let_def by (auto simp: absolutePatterns_iff pathUnderAny2_iff simp flip: absolutePatterns_iff)
  have w: "(i = e \<or> hasPrefix i (e @ [sepChar])) = pathWithin e i" if "plainAbsolute ''include'' (fcSets f) i" "plainAbsolute ''exclude'' (fcSets f) e" "e \<noteq> ''/''" for i
    using insideRoot_iff [of i e] plainAbsolute_clean [OF that(1)] plainAbsolute_clean [OF that(2)] that(3) by (simp add: insideRoot_def Let_def)
  have s: "\<not> hasPrefix i ''//''" if "plainAbsolute ''include'' (fcSets f) i" for i
    using insideRoot_slash [of i "''/''"] plainAbsolute_clean [OF that] by (auto simp: insideRoot_def Let_def sepChar_def pathClean_slash_iff [THEN iffD2] isAbs_def prefix_def)
  show ?thesis
  proof (intro conjI impI)
    assume "e \<noteq> ''/''"
    then show "e \<in> set (AbsoluteExcludePrefixes f) \<longleftrightarrow> plainAbsolute ''exclude'' (fcSets f) e \<and> \<not> (\<exists>i. plainAbsolute ''include'' (fcSets f) i \<and> pathWithin e i)"
      using m w by blast
  next
    assume "plainAbsolute ''exclude'' (fcSets f) ''/'' \<and> \<not> plainAbsolute ''include'' (fcSets f) ''/''"
    then show "''/'' \<in> set (AbsoluteExcludePrefixes f)" using m [of "''/''"] s by (auto simp: sepChar_def)
  qed
qed

text \<open>Witness: the org exclude is dropped because of the site include below it.\<close>

theorem AbsoluteExcludePrefixes_exact_witness: "''/home/u/iso'' \<notin> set (AbsoluteExcludePrefixes exFilters)"
proof -
  have "plainAbsolute ''include'' (fcSets exFilters) ''/home/u/iso/keep''" "pathWithin ''/home/u/iso'' ''/home/u/iso/keep''"
    unfolding absolutePatterns_iff [symmetric] pathWithin_def by code_simp+
  then show ?thesis using AbsoluteExcludePrefixes_exact [of "''/home/u/iso''" exFilters] by auto
qed

section \<open>Files after an update\<close>

lemma suffix_pathClean: "cleanParts q = ps @ [x] \<Longrightarrow> suffix x (pathClean q)"
proof -
  assume q: "cleanParts q = ps @ [x]"
  have "suffix x (joinChar sepChar (ps @ [x]))"
  proof (cases "ps = []")
    case False
    then have "joinChar sepChar (ps @ [x]) = joinChar sepChar ps @ sepChar # x" using joinChar_append [of ps "[x]" sepChar] by simp
    then show ?thesis by (simp add: suffix_def)
  qed simp
  then show ?thesis using q by (auto simp: pathClean_def Let_def intro: suffix_ConsI)
qed

lemma pathJoin3: "p \<noteq> [] \<Longrightarrow> plainName x \<Longrightarrow> plainName y \<Longrightarrow> cleanParts (pathJoin [p, x, y]) = cleanParts p @ [x, y] \<and> suffix y (pathJoin [p, x, y])"
proof -
  assume a: "p \<noteq> []" "plainName x" "plainName y"
  have j: "pathJoin [p, x, y] = pathClean (p @ sepChar # x @ sepChar # y)" using a by (simp add: pathJoin_def)
  have i: "isAbs (p @ sepChar # x @ sepChar # y) = isAbs p" using a by (cases p) (auto simp: isAbs_def)
  have "splitChar sepChar (p @ sepChar # x @ sepChar # y) = splitChar sepChar p @ [x, y]"
    using a by (simp add: splitChar_append splitChar_no_sep splitChar_append_sep plainName_def)
  then have "cleanParts (p @ sepChar # x @ sepChar # y) = cleanParts p @ [x, y]" using a by (simp add: cleanParts_def i) (simp add: cleanStep_def plainName_def)
  then show ?thesis using suffix_pathClean [of "p @ sepChar # x @ sepChar # y" "cleanParts p @ [x]" y] by (simp add: j)
qed

abbreviation filtersPath :: "Repo \<Rightarrow> string" where
  "filtersPath repo \<equiv> pathJoin [rPath repo, ''.duplicacy'', ''filters'']"

lemma last_filtersPath: "rPath repo \<noteq> [] \<Longrightarrow> last (filtersPath repo) = CHR ''s''"
  using pathJoin3 [of "rPath repo" "''.duplicacy''" "''filters''"] by (auto simp: plainName_def sepChar_def suffix_def)

lemma last_perRepoPath: "fcPerRepoDir f \<noteq> [] \<Longrightarrow> CHR ''/'' \<notin> set i \<Longrightarrow> last (perRepoPath f i) = CHR ''n''"
proof -
  assume a: "fcPerRepoDir f \<noteq> []" "CHR ''/'' \<notin> set i"
  have "plainName (i @ ''.json'')" using a(2) by (cases i) (auto simp: plainName_def sepChar_def)
  then have "suffix (i @ ''.json'') (perRepoPath f i)"
    unfolding perRepoPath_def using pathJoin_child [OF a(1)] suffix_pathClean by metis
  then show ?thesis by (auto simp: suffix_def)
qed

lemma replaceFile_ok:
  assumes "replaceFile dest c fs = (True, fs')"
  shows "map_of (ffFiles fs') dest = Some c" "p \<noteq> dest \<Longrightarrow> last p \<noteq> CHR ''p'' \<Longrightarrow> map_of (ffFiles fs') p = map_of (ffFiles fs) p"
    "ffReadErr fs' = ffReadErr fs" "ffWriteErr fs' = ffWriteErr fs" "ffRenameErr fs' = ffRenameErr fs"
  using assms by (auto simp: replaceFile_def Let_def update_conv' delete_conv' split: if_splits)

lemma loadPerRepo_cong:
  "fcPerRepoDir f' = fcPerRepoDir f \<Longrightarrow> ffReadErr (fcFS f') = ffReadErr (fcFS f) \<Longrightarrow>
   map_of (ffFiles (fcFS f')) (perRepoPath f i) = map_of (ffFiles (fcFS f)) (perRepoPath f i) \<Longrightarrow> loadPerRepo f' i = loadPerRepo f i"
  by (simp add: loadPerRepo_def osReadFile_def perRepoPath_def)

lemma computeMerged_cong:
  "fcSets f' = fcSets f \<Longrightarrow> fcLastFetched f' = fcLastFetched f \<Longrightarrow> loadPerRepo f' i = loadPerRepo f i \<Longrightarrow> computeMerged now f' i m = computeMerged now f i m"
  by (simp add: computeMerged_def)

lemma renderForRepo_ok:
  assumes "renderForRepo now repo f = (True, f')" "rPath repo \<noteq> []" "fcPerRepoDir f \<noteq> []"
  shows "map_of (ffFiles (fcFS f')) (filtersPath repo) = Some (FText (computeMerged now f (rID repo) (repoMatchRoot repo)))"
    "p \<noteq> filtersPath repo \<Longrightarrow> last p \<noteq> CHR ''p'' \<Longrightarrow> map_of (ffFiles (fcFS f')) p = map_of (ffFiles (fcFS f)) p"
    "fcSets f' = fcSets f" "fcLastFetched f' = fcLastFetched f" "fcPerRepoDir f' = fcPerRepoDir f"
    "ffReadErr (fcFS f') = ffReadErr (fcFS f)" "ffWriteErr (fcFS f') = ffWriteErr (fcFS f)" "ffRenameErr (fcFS f') = ffRenameErr (fcFS f)"
    "CHR ''/'' \<notin> set i \<Longrightarrow> loadPerRepo f' i = loadPerRepo f i"
proof -
  obtain fs where r: "replaceFile (filtersPath repo) (FText (computeMerged now f (rID repo) (repoMatchRoot repo))) (fcFS f) = (True, fs)" "f' = f\<lparr>fcFS := fs\<rparr>"
    using assms(1) by (auto simp: renderForRepo_def Let_def split: prod.splits)
  note k = replaceFile_ok [OF r(1)]
  show "map_of (ffFiles (fcFS f')) (filtersPath repo) = Some (FText (computeMerged now f (rID repo) (repoMatchRoot repo)))"
    and other: "\<And>p. p \<noteq> filtersPath repo \<Longrightarrow> last p \<noteq> CHR ''p'' \<Longrightarrow> map_of (ffFiles (fcFS f')) p = map_of (ffFiles (fcFS f)) p"
    and s: "fcSets f' = fcSets f" "fcLastFetched f' = fcLastFetched f" "fcPerRepoDir f' = fcPerRepoDir f"
    "ffReadErr (fcFS f') = ffReadErr (fcFS f)" "ffWriteErr (fcFS f') = ffWriteErr (fcFS f)" "ffRenameErr (fcFS f') = ffRenameErr (fcFS f)"
    using k r(2) by simp_all
  assume i: "CHR ''/'' \<notin> set i"
  show "loadPerRepo f' i = loadPerRepo f i"
  proof (rule loadPerRepo_cong [OF s(3,4)])
    have l: "last (perRepoPath f i) = CHR ''n''" by (rule last_perRepoPath [OF assms(3) i])
    have "perRepoPath f i \<noteq> filtersPath repo" using last_filtersPath [OF assms(2)] l by auto
    then show "map_of (ffFiles (fcFS f')) (perRepoPath f i) = map_of (ffFiles (fcFS f)) (perRepoPath f i)" using l by (intro other) simp_all
  qed
qed

text \<open>C34. What is put is what is read and what is rendered: after a successful PUT of rules for a repo, GET returns them with
  the time of the PUT, and the repo's filters file is the rendering of the new state.\<close>

theorem handlePutFilters_roundtrip:
  assumes "handlePutFilters now ix i (Some rules) f = (HttpOk (), f')" "indexGet ix i = Some repo" "CHR ''/'' \<notin> set (rID repo)" "rPath repo \<noteq> []"
    "fcPerRepoDir f \<noteq> []" "perRepoPath f (rID repo) \<notin> set (ffReadErr (fcFS f))"
  shows "handleGetFilters ix i f' = HttpOk (\<lparr>pfRepoID = rID repo, pfRules = rules, pfUpdatedAt = Some now\<rparr>, True) \<and>
    handleRenderFilters now ix i f' = HttpOk (computeMerged now f' (rID repo) (repoMatchRoot repo)) \<and>
    map_of (ffFiles (fcFS f')) (filtersPath repo) = Some (FText (computeMerged now f' (rID repo) (repoMatchRoot repo)))"
proof -
  let ?pr = "\<lparr>pfRepoID = rID repo, pfRules = rules, pfUpdatedAt = None\<rparr>"
  obtain f1 where f1: "savePerRepo now ?pr f = (True, f1)" "renderForRepo now repo f1 = (True, f')"
    using assms(1,2) by (auto simp: handlePutFilters_def split: prod.splits bool.splits)
  obtain fs where fs: "replaceFile (perRepoPath f (rID repo)) (FPerRepo (?pr\<lparr>pfUpdatedAt := Some now\<rparr>)) (fcFS f) = (True, fs)" "f1 = f\<lparr>fcFS := fs\<rparr>"
    using f1(1) by (auto simp: savePerRepo_def Let_def split: prod.splits)
  have dir: "fcPerRepoDir f1 \<noteq> []" using fs(2) assms(5) by simp
  note r = renderForRepo_ok [OF f1(2) assms(4) dir]
  have "loadPerRepo f1 (rID repo) = Some (?pr\<lparr>pfUpdatedAt := Some now\<rparr>, True)"
    using replaceFile_ok [OF fs(1)] fs(2) assms(6) by (simp add: loadPerRepo_def osReadFile_def perRepoPath_def)
  then have l: "loadPerRepo f' (rID repo) = Some (?pr\<lparr>pfUpdatedAt := Some now\<rparr>, True)" using r(9) [OF assms(3)] by simp
  have "computeMerged now f' (rID repo) (repoMatchRoot repo) = computeMerged now f1 (rID repo) (repoMatchRoot repo)"
    by (rule computeMerged_cong [OF r(3,4) r(9) [OF assms(3)]])
  then show ?thesis using l r(1) assms(2) by (simp add: handleGetFilters_def handleRenderFilters_def)
qed

lemma renderAll_fold:
  assumes "\<forall>r\<in>set rs. rPath r \<noteq> [] \<and> CHR ''/'' \<notin> set (rID r)" "distinct (map filtersPath rs)" "fcPerRepoDir f \<noteq> []"
    "ffWriteErr (fcFS f) = []" "ffRenameErr (fcFS f) = []"
  shows "let f' = fold (\<lambda>repo f. snd (renderForRepo now repo f)) rs f
    in fcSets f' = fcSets f \<and> fcLastFetched f' = fcLastFetched f \<and> (\<forall>i. CHR ''/'' \<notin> set i \<longrightarrow> loadPerRepo f' i = loadPerRepo f i) \<and>
      (\<forall>p. p \<notin> filtersPath ` set rs \<and> last p \<noteq> CHR ''p'' \<longrightarrow> map_of (ffFiles (fcFS f')) p = map_of (ffFiles (fcFS f)) p) \<and>
      (\<forall>r\<in>set rs. map_of (ffFiles (fcFS f')) (filtersPath r) = Some (FText (computeMerged now f (rID r) (repoMatchRoot r))))"
  using assms
proof (induction rs arbitrary: f)
  case (Cons x rs)
  obtain f1 where f1: "renderForRepo now x f = (True, f1)" using Cons.prems by (auto simp: renderForRepo_def replaceFile_def Let_def)
  have px: "rPath x \<noteq> []" using Cons.prems by simp
  note k = renderForRepo_ok [OF f1 px Cons.prems(3)]
  let ?f' = "fold (\<lambda>repo f. snd (renderForRepo now repo f)) rs f1"
  have ih: "fcSets ?f' = fcSets f1" "fcLastFetched ?f' = fcLastFetched f1" "CHR ''/'' \<notin> set i \<Longrightarrow> loadPerRepo ?f' i = loadPerRepo f1 i"
    "p \<notin> filtersPath ` set rs \<and> last p \<noteq> CHR ''p'' \<Longrightarrow> map_of (ffFiles (fcFS ?f')) p = map_of (ffFiles (fcFS f1)) p"
    "r \<in> set rs \<Longrightarrow> map_of (ffFiles (fcFS ?f')) (filtersPath r) = Some (FText (computeMerged now f1 (rID r) (repoMatchRoot r)))" for i p r
    using Cons.IH [of f1] Cons.prems k(5,7,8) by (simp_all add: Let_def)
  have cm: "computeMerged now f1 (rID r) (repoMatchRoot r) = computeMerged now f (rID r) (repoMatchRoot r)" if "r \<in> set rs" for r
    using that Cons.prems(1) by (intro computeMerged_cong k) simp
  have hx: "map_of (ffFiles (fcFS ?f')) (filtersPath x) = Some (FText (computeMerged now f (rID x) (repoMatchRoot x)))"
    using ih(4) [of "filtersPath x"] Cons.prems(2) last_filtersPath [OF px] k(1) by (simp add: image_iff)
  show ?case using f1 ih k hx cm by (simp add: Let_def)
qed simp

text \<open>After a successful pull every repo of the index has a filters file rendered from the pulled sets and its own
  per-repo rules; a failed pull changes nothing.\<close>

theorem pull_renders_all:
  assumes "pull now reply ix f = (ok, f')"
  shows "(\<not> ok \<longrightarrow> f' = f) \<and>
   (ok \<longrightarrow> (\<forall>r\<in>set (indexList ix). rPath r \<noteq> [] \<and> CHR ''/'' \<notin> set (rID r)) \<longrightarrow> distinct (map filtersPath (indexList ix)) \<longrightarrow>
     fcPerRepoDir f \<noteq> [] \<longrightarrow> ffWriteErr (fcFS f) = [] \<longrightarrow> ffRenameErr (fcFS f) = [] \<longrightarrow>
     (\<exists>sets. reply = FBody (Some sets) \<and> fcSets f' = sets \<and>
       (\<forall>r\<in>set (indexList ix). map_of (ffFiles (fcFS f')) (filtersPath r) = Some (FText (computeMerged now f' (rID r) (repoMatchRoot r))))))"
proof (intro conjI impI)
  assume "\<not> ok"
  then show "f' = f" using assms by (auto simp: pull_def Let_def split: filterReply.splits option.splits)
next
  assume a: ok "\<forall>r\<in>set (indexList ix). rPath r \<noteq> [] \<and> CHR ''/'' \<notin> set (rID r)" "distinct (map filtersPath (indexList ix))"
    "fcPerRepoDir f \<noteq> []" "ffWriteErr (fcFS f) = []" "ffRenameErr (fcFS f) = []"
  obtain sets where s: "reply = FBody (Some sets)" "f' = renderAll now ix (snd (saveCache (f\<lparr>fcSets := sets, fcLastFetched := Some now\<rparr>)))"
    using assms a(1) by (auto simp: pull_def Let_def split: filterReply.splits option.splits)
  let ?f2 = "snd (saveCache (f\<lparr>fcSets := sets, fcLastFetched := Some now\<rparr>))"
  have f2: "fcSets ?f2 = sets" "fcPerRepoDir ?f2 \<noteq> []" "ffWriteErr (fcFS ?f2) = []" "ffRenameErr (fcFS ?f2) = []"
    using a(4-6) by (simp_all add: saveCache_def replaceFile_def Let_def)
  note k = renderAll_fold [OF a(2,3) f2(2-4), of now, folded renderAll_def s(2), unfolded Let_def]
  have "computeMerged now f' (rID r) (repoMatchRoot r) = computeMerged now ?f2 (rID r) (repoMatchRoot r)" if "r \<in> set (indexList ix)" for r
    using k a(2) that by (intro computeMerged_cong) auto
  then show "\<exists>sets. reply = FBody (Some sets) \<and> fcSets f' = sets \<and>
       (\<forall>r\<in>set (indexList ix). map_of (ffFiles (fcFS f')) (filtersPath r) = Some (FText (computeMerged now f' (rID r) (repoMatchRoot r))))"
    using k s(1) f2(1) by simp
qed

text \<open>Witnesses: one repo, a PUT of one rule, and a pull.\<close>

definition exFilterIndex :: repoIndex where
  "exFilterIndex = (newRepoIndex [])\<lparr>ixRepos := [(''r'', \<lparr>rID = ''r'', rPath = ''/home/u'', rHostPath = [], rSnapshotID = ''snap'', rStorages = [],
     rHasFilters = False, rLastScannedAt = None, rSourcePath = [], rSourceHostPath = [], rLastBackupAt = None\<rparr>)]\<rparr>"

theorem handlePutFilters_roundtrip_witness:
  "let r = snd (hd (ixRepos exFilterIndex)); f' = snd (handlePutFilters 5 exFilterIndex ''r'' (Some [\<lparr>frPosition = 1, frAction = ''exclude'', frPattern = ''tmp/''\<rparr>]) exFilters)
   in map_of (ffFiles (fcFS f')) (filtersPath r) = Some (FText (computeMerged 5 f' ''r'' ''/home/u''))"
proof -
  let ?rules = "[\<lparr>frPosition = 1, frAction = ''exclude'', frPattern = ''tmp/''\<rparr>]" and ?r = "snd (hd (ixRepos exFilterIndex))"
  obtain x f' where h: "handlePutFilters 5 exFilterIndex ''r'' (Some ?rules) exFilters = (x, f')" by fastforce
  have "fst (handlePutFilters 5 exFilterIndex ''r'' (Some ?rules) exFilters) = HttpOk ()" by code_simp
  then have ok: "handlePutFilters 5 exFilterIndex ''r'' (Some ?rules) exFilters = (HttpOk (), f')" using h by simp
  have r: "indexGet exFilterIndex ''r'' = Some ?r" "rID ?r = ''r''" "rPath ?r = ''/home/u''" "repoMatchRoot ?r = ''/home/u''" "fcPerRepoDir exFilters \<noteq> []" "ffReadErr (fcFS exFilters) = []"
    by (simp_all add: exFilterIndex_def indexGet_def repoMatchRoot_def exFilters_def)
  show ?thesis using handlePutFilters_roundtrip [OF ok r(1)] r h by (simp add: Let_def)
qed

theorem pull_renders_all_witness:
  "let r = snd (hd (ixRepos exFilterIndex)); f' = snd (pull 5 (FBody (Some [])) exFilterIndex exFilters)
   in map_of (ffFiles (fcFS f')) (filtersPath r) = Some (FText (computeMerged 5 f' ''r'' ''/home/u''))"
proof -
  let ?r = "snd (hd (ixRepos exFilterIndex))"
  have l: "indexList exFilterIndex = [?r]" "rID ?r = ''r''" "rPath ?r = ''/home/u''" "repoMatchRoot ?r = ''/home/u''" "fcPerRepoDir exFilters \<noteq> []"
      "ffWriteErr (fcFS exFilters) = []" "ffRenameErr (fcFS exFilters) = []"
    by (simp_all add: exFilterIndex_def indexList_def repoMatchRoot_def exFilters_def)
  have p: "pull 5 (FBody (Some [])) exFilterIndex exFilters = (True, snd (pull 5 (FBody (Some [])) exFilterIndex exFilters))" by (simp add: pull_def Let_def)
  show ?thesis using pull_renders_all [OF p] l by (simp add: Let_def)
qed

end
