(* ===== verification/MountGuard.thy ===== *)
theory MountGuard
  imports Paths "HOL-Library.AList"
begin

text \<open>
  The mount guard of the directory walker (mountguard.go): parsing of /proc/self/mountinfo, the octal escapes of its
  path fields, the classification of mounts, and the walk over the sysfs holder graph of a block device. A
  uint32 is a natural number below \<open>2 ^ 32\<close>. The packing of device numbers (\<open>unix.Mkdev\<close>, \<open>unix.Major\<close>, \<open>unix.Minor\<close>
  of golang.org/x/sys) is the parameter \<open>devCodec\<close>; that unpacking inverts packing is a hypothesis where it matters.
  The theorems show that escaping as the kernel does it is undone, that printed mountinfo lines parse to
  their fields, which mount points are skipped, and what the bounded walk over the holder graph finds.
\<close>

section \<open>Parsing\<close>

record devCodec =
  Mkdev :: "nat \<Rightarrow> nat \<Rightarrow> nat"
  Major :: "nat \<Rightarrow> nat"
  Minor :: "nat \<Rightarrow> nat"

record mountEntry =
  meDev :: nat
  meMountPoint :: string
  meFSType :: string
  meSource :: string

text \<open>\<open>strconv.ParseUint(s, 10, 32)\<close>.\<close>

definition parseUint32 :: "string \<Rightarrow> nat option" where
  "parseUint32 s = (if s \<noteq> [] \<and> list_all isDigit s \<and> digitsVal s < 2 ^ 32 then Some (digitsVal s) else None)"

definition parseMajorMinor :: "string \<Rightarrow> (nat \<times> nat) option" where
  "parseMajorMinor s =
     (case cutChar CHR '':'' s of
        None \<Rightarrow> None
      | Some (a, b) \<Rightarrow> (case (parseUint32 a, parseUint32 b) of (Some x, Some y) \<Rightarrow> Some (x, y) | _ \<Rightarrow> None))"

definition isOctal :: "char \<Rightarrow> bool" where
  "isOctal c \<longleftrightarrow> 48 \<le> (of_char c :: nat) \<and> (of_char c :: nat) \<le> 55"

text \<open>\<open>strconv.ParseUint(s, 8, 8)\<close> on three bytes.\<close>

definition parseOctal :: "char \<Rightarrow> char \<Rightarrow> char \<Rightarrow> char option" where
  "parseOctal a b c =
     (let v = 64 * digitVal a + 8 * digitVal b + digitVal c
      in if isOctal a \<and> isOctal b \<and> isOctal c \<and> v < 256 then Some (char_of v) else None)"

fun unescapeLoop :: "string \<Rightarrow> string" where
  "unescapeLoop [] = []"
| "unescapeLoop (x # s) =
     (case s of
        a # b # c # rest \<Rightarrow>
          if x = CHR 0x5C then (case parseOctal a b c of Some v \<Rightarrow> v # unescapeLoop rest | None \<Rightarrow> x # unescapeLoop s)
          else x # unescapeLoop s
      | _ \<Rightarrow> x # unescapeLoop s)"

definition unescapeMountinfo :: "string \<Rightarrow> string" where
  "unescapeMountinfo s = (if CHR 0x5C \<notin> set s then s else unescapeLoop s)"

text \<open>The index of the separator field, searched from field 6 on.\<close>

fun findSep :: "nat \<Rightarrow> string list \<Rightarrow> nat option" where
  "findSep i [] = None"
| "findSep i (x # xs) = (if x = ''-'' then Some i else findSep (Suc i) xs)"

definition parseMountinfoLine :: "devCodec \<Rightarrow> string \<Rightarrow> mountEntry option" where
  "parseMountinfoLine dc line =
     (let f = Prelude.fields line
      in if length f < 10 then None
         else case findSep 6 (drop 6 f) of
           None \<Rightarrow> None
         | Some sep \<Rightarrow>
             if sep + 2 \<ge> length f then None
             else case parseMajorMinor (f ! 2) of
               None \<Rightarrow> None
             | Some (major, minor) \<Rightarrow>
                 Some \<lparr>meDev = Mkdev dc major minor, meMountPoint = unescapeMountinfo (f ! 4), meFSType = f ! (sep + 1), meSource = unescapeMountinfo (f ! (sep + 2))\<rparr>)"

section \<open>Classification\<close>

definition pseudoFSTypes :: "string list" where
  "pseudoFSTypes =
     [''autofs'', ''binfmt_misc'', ''bpf'', ''cgroup'', ''cgroup2'', ''configfs'', ''debugfs'', ''devpts'', ''devtmpfs'', ''efivarfs'',
      ''fusectl'', ''hugetlbfs'', ''mqueue'', ''nfsd'', ''nsfs'', ''overlay'', ''proc'', ''pstore'', ''ramfs'', ''resctrl'',
      ''rpc_pipefs'', ''securityfs'', ''selinuxfs'', ''squashfs'', ''sysfs'', ''tmpfs'', ''tracefs'']"

type_synonym deviceKindFunc = "nat \<Rightarrow> nat \<Rightarrow> bool \<times> bool"

definition classifyMount :: "devCodec \<Rightarrow> mountEntry \<Rightarrow> deviceKindFunc \<Rightarrow> string option" where
  "classifyMount dc e kind =
     (if meFSType e \<in> set pseudoFSTypes then Some (''pseudo filesystem ('' @ meFSType e @ '')'')
      else let (loopBacked, orphanedDM) = kind (Major dc (meDev e)) (Minor dc (meDev e))
           in if loopBacked then Some (''loop-backed disk image ('' @ meSource e @ '')'')
              else if orphanedDM then Some (''orphaned device-mapper target, no backing device ('' @ meSource e @ '')'')
              else None)"

record mountGuard =
  mgSkip :: "(string \<times> string) list"
  mgTotal :: nat

definition guardLine :: "devCodec \<Rightarrow> deviceKindFunc \<Rightarrow> string \<Rightarrow> mountGuard \<Rightarrow> mountGuard" where
  "guardLine dc kind line g =
     (case parseMountinfoLine dc line of
        None \<Rightarrow> g
      | Some e \<Rightarrow>
          let g1 = g\<lparr>mgTotal := Suc (mgTotal g)\<rparr>
          in case classifyMount dc e kind of None \<Rightarrow> g1 | Some reason \<Rightarrow> g1\<lparr>mgSkip := AList.update (meMountPoint e) reason (mgSkip g1)\<rparr>)"

definition parseMountGuard :: "devCodec \<Rightarrow> string \<Rightarrow> deviceKindFunc \<Rightarrow> mountGuard" where
  "parseMountGuard dc mountinfo kind = fold (guardLine dc kind) (splitChar CHR 0x0A mountinfo) \<lparr>mgSkip = [], mgTotal = 0\<rparr>"

text \<open>A nil guard is \<open>None\<close>.\<close>

definition SkipReason :: "mountGuard option \<Rightarrow> string \<Rightarrow> string option" where
  "SkipReason g path = (case g of None \<Rightarrow> None | Some m \<Rightarrow> map_of (mgSkip m) path)"

definition guardSignature :: "mountGuard option \<Rightarrow> string" where
  "guardSignature g =
     (case g of
        None \<Rightarrow> []
      | Some m \<Rightarrow> if mgSkip m = [] then []
                  else joinChar CHR 0x01 (sort (map (\<lambda>(p, reason). p @ CHR 0x00 # reason) (mgSkip m))))"

section \<open>The holder graph\<close>

record sysfs =
  sysFiles :: "string list"  \<comment> \<open>files that exist\<close>
  sysDirs :: "(string \<times> string list) list"  \<comment> \<open>directories that can be read, with their entries\<close>

function deviceKindAt :: "sysfs \<Rightarrow> string \<Rightarrow> nat \<Rightarrow> bool \<times> bool" where
  "deviceKindAt fs base depth =
     (if depth > 8 then (False, False)
      else if pathJoin [base, ''loop'', ''backing_file''] \<in> set (sysFiles fs) then (True, False)
      else let isDM = pathJoin [base, ''dm'', ''name''] \<in> set (sysFiles fs)
           in case map_of (sysDirs fs) (pathJoin [base, ''slaves'']) of
                None \<Rightarrow> (False, False)
              | Some slaves \<Rightarrow>
                  if isDM \<and> slaves = [] then (False, True)
                  else let ks = map (\<lambda>s. deviceKindAt fs (pathJoin [base, ''slaves'', s]) (depth + 1)) slaves
                       in if list_ex fst ks then (True, False) else (False, list_ex snd ks))"
  by pat_completeness auto
termination by (relation "measure (\<lambda>(_, _, d). 9 - d)") auto

definition sysfsDeviceKind :: "sysfs \<Rightarrow> deviceKindFunc" where
  "sysfsDeviceKind fs major minor = deviceKindAt fs (''/sys/dev/block/'' @ natDigits major @ '':'' @ natDigits minor) 0"

section \<open>Escapes\<close>

text \<open>How the kernel prints a path field.\<close>

definition escapeChar :: "char \<Rightarrow> string" where
  "escapeChar c =
     (if c = CHR '' '' then [CHR 0x5C, CHR ''0'', CHR ''4'', CHR ''0'']
      else if c = CHR 0x09 then [CHR 0x5C, CHR ''0'', CHR ''1'', CHR ''1'']
      else if c = CHR 0x0A then [CHR 0x5C, CHR ''0'', CHR ''1'', CHR ''2'']
      else if c = CHR 0x5C then [CHR 0x5C, CHR ''1'', CHR ''3'', CHR ''4'']
      else [c])"

definition escapeMountinfo :: "string \<Rightarrow> string" where
  "escapeMountinfo s = concat (map escapeChar s)"

lemma parseOctal_escapes:
  "parseOctal CHR ''0'' CHR ''4'' CHR ''0'' = Some CHR '' ''" "parseOctal CHR ''0'' CHR ''1'' CHR ''1'' = Some CHR 0x09"
  "parseOctal CHR ''0'' CHR ''1'' CHR ''2'' = Some CHR 0x0A" "parseOctal CHR ''1'' CHR ''3'' CHR ''4'' = Some CHR 0x5C"
  by code_simp+

lemma unescapeLoop_other: "c \<noteq> CHR 0x5C \<Longrightarrow> unescapeLoop (c # t) = c # unescapeLoop t"
  by (simp split: list.splits)

lemma unescapeLoop_escapeChar: "unescapeLoop (escapeChar c @ t) = c # unescapeLoop t"
  by (cases "c \<in> {CHR '' '', CHR 0x09, CHR 0x0A, CHR 0x5C}")
    (auto simp: escapeChar_def parseOctal_escapes unescapeLoop_other simp del: unescapeLoop.simps(2) simp: unescapeLoop.simps(2) [of "CHR 0x5C"])

lemma unescapeLoop_plain: "CHR 0x5C \<notin> set s \<Longrightarrow> unescapeLoop s = s"
proof (induction s)
  case (Cons a s)
  then have "a \<noteq> CHR 0x5C" by auto
  from unescapeLoop_other [OF this] show ?case using Cons by simp
qed simp

lemma unescape_escape: "unescapeMountinfo (escapeMountinfo s) = s"
proof -
  have "unescapeLoop (escapeMountinfo s) = s"
    unfolding escapeMountinfo_def by (induction s) (simp_all add: unescapeLoop_escapeChar del: unescapeLoop.simps(2))
  then show ?thesis using unescapeLoop_plain by (metis unescapeMountinfo_def)
qed

section \<open>Lines\<close>

definition word :: "string \<Rightarrow> bool" where
  "word w \<longleftrightarrow> w \<noteq> [] \<and> list_all (\<lambda>c. \<not> isSpace c) w"

lemma fields_words:
  assumes "ws \<noteq> []" "\<forall>w\<in>set ws. word w"
  shows "Prelude.fields (joinChar CHR '' '' ws) = ws"
proof -
  have sp: "isSpace CHR '' ''" by (simp add: isSpace_def)
  have "map (\<lambda>c. if isSpace c then CHR '' '' else c) (joinChar CHR '' '' vs) = joinChar CHR '' '' vs" if "\<forall>w\<in>set vs. word w" for vs
  proof -
    have "\<forall>c\<in>set (joinChar CHR '' '' vs). isSpace c \<longrightarrow> c = CHR '' ''"
      using that by (induction "CHR '' ''" vs rule: joinChar.induct) (auto simp: word_def list_all_iff)
    then show ?thesis by (intro map_idI) auto
  qed
  moreover have "splitChar CHR '' '' (joinChar CHR '' '' ws) = ws"
    by (rule splitChar_joinChar [OF assms(1)]) (use assms(2) sp in \<open>auto simp: word_def list_all_iff\<close>)
  moreover have "filter (\<lambda>w. w \<noteq> []) ws = ws" using assms(2) by (auto simp: word_def intro!: filter_True)
  ultimately show ?thesis using assms(2) by (simp add: Prelude.fields_def)
qed

lemma findSep_append: "''-'' \<notin> set os \<Longrightarrow> findSep i (os @ ''-'' # xs) = Some (i + length os)"
  by (induction os arbitrary: i) auto

lemma parseUint32_natDigits: "n < 2 ^ 32 \<Longrightarrow> parseUint32 (natDigits n) = Some n"
  by (simp add: parseUint32_def natDigits_isDigit)

lemma parseMajorMinor_printed:
  assumes "a < 2 ^ 32" "b < 2 ^ 32"
  shows "parseMajorMinor (natDigits a @ '':'' @ natDigits b) = Some (a, b)"
proof -
  have "CHR '':'' \<notin> set (natDigits a)" using natDigits_isDigit [of a] by (auto simp: list_all_iff isDigit_def)
  then show ?thesis using assms by (simp add: parseMajorMinor_def cutChar_append parseUint32_natDigits)
qed

lemma word_escape: "p \<noteq> [] \<Longrightarrow> list_all (\<lambda>c. c \<notin> {CHR 0x0B, CHR 0x0C, CHR 0x0D}) p \<Longrightarrow> word (escapeMountinfo p)"
proof -
  have n: "of_char c = (n::nat) \<longleftrightarrow> c = char_of n" if "n < 256" for c n using that by (metis char_of_char of_char_of mod_less)
  have esc: "c \<notin> {CHR 0x0B, CHR 0x0C, CHR 0x0D} \<Longrightarrow> list_all (\<lambda>c. \<not> isSpace c) (escapeChar c) \<and> escapeChar c \<noteq> []" for c
  proof -
    assume c: "c \<notin> {CHR 0x0B, CHR 0x0C, CHR 0x0D}"
    have "isSpace c \<Longrightarrow> c \<in> {CHR '' '', CHR 0x09, CHR 0x0A}"
    proof -
      assume "isSpace c"
      then have "c = CHR '' '' \<or> of_char c \<in> {9, 10, 11, 12, 13::nat}" by (auto simp: isSpace_def)
      moreover have "char_of (9::nat) = CHR 0x09" "char_of (10::nat) = CHR 0x0A" "char_of (11::nat) = CHR 0x0B" "char_of (12::nat) = CHR 0x0C" "char_of (13::nat) = CHR 0x0D"
        by code_simp+
      ultimately show ?thesis using c by (auto simp: n)
    qed
    then have "escapeChar c = [c] \<and> \<not> isSpace c" if "c \<notin> {CHR '' '', CHR 0x09, CHR 0x0A, CHR 0x5C}" using that by (auto simp: escapeChar_def)
    moreover have "list_all (\<lambda>c. \<not> isSpace c) (escapeChar x) \<and> escapeChar x \<noteq> []" if "x \<in> set [CHR '' '', CHR 0x09, CHR 0x0A, CHR 0x5C]" for x
    proof -
      have "list_all (\<lambda>x. list_all (\<lambda>c. \<not> isSpace c) (escapeChar x) \<and> escapeChar x \<noteq> []) [CHR '' '', CHR 0x09, CHR 0x0A, CHR 0x5C]" by code_simp
      then show ?thesis using that unfolding list_all_iff by blast
    qed
    ultimately show ?thesis by (cases "c \<in> set [CHR '' '', CHR 0x09, CHR 0x0A, CHR 0x5C]") simp_all
  qed
  assume "p \<noteq> []" and p: "list_all (\<lambda>c. c \<notin> {CHR 0x0B, CHR 0x0C, CHR 0x0D}) p"
  then obtain a q where q: "p = a # q" by (cases p) simp_all
  have all: "list_all (\<lambda>c. \<not> isSpace c) (concat (map escapeChar xs))" if "list_all (\<lambda>c. c \<notin> {CHR 0x0B, CHR 0x0C, CHR 0x0D}) xs" for xs
    using that
  proof (induction xs)
    case (Cons x xs)
    then have x: "x \<notin> {CHR 0x0B, CHR 0x0C, CHR 0x0D}" "list_all (\<lambda>c. c \<notin> {CHR 0x0B, CHR 0x0C, CHR 0x0D}) xs" unfolding list.pred_inject by blast+
    show ?case unfolding list.map concat.simps list_all_append using esc [OF x(1)] Cons.IH [OF x(2)] by blast
  qed simp
  have "escapeChar a \<noteq> []" using esc [of a] p unfolding q list.pred_inject by blast
  then have "concat (map escapeChar p) \<noteq> []" by (simp add: q)
  then show ?thesis using all [OF p] by (simp only: word_def escapeMountinfo_def simp_thms)
qed

definition mountinfoFields :: "string list \<Rightarrow> nat \<Rightarrow> nat \<Rightarrow> string \<Rightarrow> string \<Rightarrow> string \<Rightarrow> string list \<Rightarrow> string \<Rightarrow> string \<Rightarrow> string \<Rightarrow> string list" where
  "mountinfoFields ids major minor mroot mp opts optional fstype src sopts =
     ids @ [natDigits major @ '':'' @ natDigits minor, mroot, escapeMountinfo mp, opts] @ optional @ [''-'', fstype, escapeMountinfo src, sopts]"

lemma word_dev: "word (natDigits a @ '':'' @ natDigits b)"
proof -
  have "\<not> isSpace c" if "isDigit c" for c using that by (auto simp: isSpace_def isDigit_def)
  then show ?thesis using natDigits_isDigit [of a] natDigits_isDigit [of b] by (auto simp: word_def list_all_iff isSpace_def)
qed

lemma parse_printed:
  assumes "length ids = 2" "\<forall>w\<in>set (ids @ [mroot, opts, fstype, sopts] @ optional). word w" "''-'' \<notin> set optional" "major < 2 ^ 32" "minor < 2 ^ 32"
    "mp \<noteq> []" "src \<noteq> []" "list_all (\<lambda>c. c \<notin> {CHR 0x0B, CHR 0x0C, CHR 0x0D}) (mp @ src)"
  shows "parseMountinfoLine dc (joinChar CHR '' '' (mountinfoFields ids major minor mroot mp opts optional fstype src sopts)) =
    Some \<lparr>meDev = Mkdev dc major minor, meMountPoint = mp, meFSType = fstype, meSource = src\<rparr>"
proof -
  let ?f = "mountinfoFields ids major minor mroot mp opts optional fstype src sopts"
  obtain i1 i2 where ids: "ids = [i1, i2]" using assms(1) by (auto simp: length_Suc_conv numeral_2_eq_2)
  have "word ''-''" by (simp add: word_def isSpace_def)
  then have "\<forall>w\<in>set ?f. word w" using assms(2,6-8) word_escape [of mp] word_escape [of src] word_dev by (auto simp: mountinfoFields_def)
  then have f: "Prelude.fields (joinChar CHR '' '' ?f) = ?f" by (intro fields_words) (simp add: mountinfoFields_def)
  have "drop 6 ?f = optional @ ''-'' # [fstype, escapeMountinfo src, sopts]" by (simp add: mountinfoFields_def ids)
  then have sep: "findSep 6 (drop 6 ?f) = Some (6 + length optional)" using findSep_append [OF assms(3)] by simp
  have nth: "?f ! 2 = natDigits major @ '':'' @ natDigits minor" "?f ! 4 = escapeMountinfo mp" by (simp_all add: mountinfoFields_def ids)
  have tail: "?f ! (6 + length optional + 1) = fstype" "?f ! (6 + length optional + 2) = escapeMountinfo src" "length ?f = 10 + length optional"
    by (simp_all add: mountinfoFields_def ids nth_append)
  show ?thesis unfolding parseMountinfoLine_def Let_def f sep nth option.case parseMajorMinor_printed [OF assms(4,5)] prod.case tail unescape_escape by simp
qed

text \<open>Every line the kernel prints is read back: for a mount with any number of optional fields, a mount point and a source
  with blanks, tabs, newlines or backslashes in them, printed with octal escapes, the parser returns the device number,
  the mount point, the file system type and the source. (Vertical tabs, form feeds and carriage returns are not
  escaped by the kernel but split by the parser.)\<close>

theorem parseMountinfoLine_printed:
  assumes "length ids = 2" "\<forall>w\<in>set (ids @ [mroot, opts, fstype, sopts] @ optional). word w" "''-'' \<notin> set optional" "major < 2 ^ 32" "minor < 2 ^ 32"
    "mp \<noteq> []" "src \<noteq> []" "list_all (\<lambda>c. c \<notin> {CHR 0x0B, CHR 0x0C, CHR 0x0D}) (mp @ src)"
  shows "parseMountinfoLine dc (joinChar CHR '' '' (mountinfoFields ids major minor mroot mp opts optional fstype src sopts)) =
    Some \<lparr>meDev = Mkdev dc major minor, meMountPoint = mp, meFSType = fstype, meSource = src\<rparr>"
  using assms by (rule parse_printed)

text \<open>Witness: a mount point with a blank.\<close>

theorem parseMountinfoLine_printed_witness:
  "parseMountinfoLine \<lparr>Mkdev = \<lambda>a b. a * 4294967296 + b, Major = \<lambda>d. d div 4294967296, Minor = \<lambda>d. d mod 4294967296\<rparr>
     (joinChar CHR '' '' (mountinfoFields [''36'', ''35''] 8 2 ''/'' ''/mnt/my disk'' ''rw'' [''shared:1''] ''ext4'' ''/dev/sda2'' ''rw'')) =
   Some \<lparr>meDev = 8 * 4294967296 + 2, meMountPoint = ''/mnt/my disk'', meFSType = ''ext4'', meSource = ''/dev/sda2''\<rparr>"
  by (subst parseMountinfoLine_printed) (simp_all add: word_def isSpace_def)

section \<open>Which mount points are skipped\<close>

definition skipEntries :: "devCodec \<Rightarrow> deviceKindFunc \<Rightarrow> string \<Rightarrow> string list \<Rightarrow> mountEntry list" where
  "skipEntries dc kind path lines =
     filter (\<lambda>e. meMountPoint e = path \<and> classifyMount dc e kind \<noteq> None) (concat (map (\<lambda>l. case parseMountinfoLine dc l of None \<Rightarrow> [] | Some e \<Rightarrow> [e]) lines))"

lemma skipEntries_set:
  "e \<in> set (skipEntries dc kind path lines) \<longleftrightarrow> (\<exists>line\<in>set lines. parseMountinfoLine dc line = Some e) \<and> meMountPoint e = path \<and> classifyMount dc e kind \<noteq> None"
proof -
  have "e \<in> set (concat (map (\<lambda>l. case parseMountinfoLine dc l of None \<Rightarrow> [] | Some e \<Rightarrow> [e]) lines)) \<longleftrightarrow> (\<exists>line\<in>set lines. parseMountinfoLine dc line = Some e)"
    by (induction lines) (auto split: option.splits)
  then show ?thesis unfolding skipEntries_def set_filter by blast
qed

lemma neq_Nil_conv_ex: "xs \<noteq> [] \<longleftrightarrow> (\<exists>x. x \<in> set xs)"
  by (cases xs) auto

lemma guard_fold:
  "map_of (mgSkip (fold (guardLine dc kind) lines \<lparr>mgSkip = [], mgTotal = 0\<rparr>)) path =
   (let es = skipEntries dc kind path lines in if es = [] then None else classifyMount dc (last es) kind)"
proof (induction lines rule: rev_induct)
  case (snoc l lines)
  then show ?case by (auto simp: guardLine_def skipEntries_def update_conv' Let_def split: option.splits)
qed (simp add: skipEntries_def)

text \<open>C35. The guard skips a path exactly when some line of mountinfo mounts a pseudo file system, a loop-backed image or an
  orphaned device-mapper target there, and gives the reason of the last such line. Lines are judged one by one, so a
  data file system mounted over an autofs trigger on the same path is skipped with it.\<close>

theorem mountGuard_exact:
  assumes "\<forall>a<2 ^ 32. \<forall>b<2 ^ 32. Major dc (Mkdev dc a b) = a \<and> Minor dc (Mkdev dc a b) = b"
  shows "(SkipReason (Some (parseMountGuard dc info kind)) path \<noteq> None \<longleftrightarrow>
     (\<exists>line\<in>set (splitChar CHR 0x0A info). \<exists>e. parseMountinfoLine dc line = Some e \<and> meMountPoint e = path \<and>
        (meFSType e \<in> set pseudoFSTypes \<or> (\<exists>a<2 ^ 32. \<exists>b<2 ^ 32. meDev e = Mkdev dc a b \<and> (fst (kind a b) \<or> snd (kind a b)))))) \<and>
    SkipReason (Some (parseMountGuard dc info kind)) path =
      (let es = skipEntries dc kind path (splitChar CHR 0x0A info) in if es = [] then None else classifyMount dc (last es) kind)"
proof -
  have p: "\<exists>a b. a < 2 ^ 32 \<and> b < 2 ^ 32 \<and> meDev e = Mkdev dc a b" if l: "parseMountinfoLine dc line = Some e" for line e
  proof -
    have "a < 2 ^ 32 \<and> b < 2 ^ 32" if "parseMajorMinor x = Some (a, b)" for x a b
      using that by (auto simp: parseMajorMinor_def parseUint32_def split: option.splits if_splits)
    moreover obtain x a b where "parseMajorMinor x = Some (a, b)" "meDev e = Mkdev dc a b"
      using l by (auto simp: parseMountinfoLine_def Let_def split: option.splits if_splits)
    ultimately show ?thesis by blast
  qed
  have c: "classifyMount dc e kind \<noteq> None \<longleftrightarrow> meFSType e \<in> set pseudoFSTypes \<or> (\<exists>a<2 ^ 32. \<exists>b<2 ^ 32. meDev e = Mkdev dc a b \<and> (fst (kind a b) \<or> snd (kind a b)))"
    if l: "parseMountinfoLine dc line = Some e" for line e
  proof -
    obtain a b where ab: "a < 2 ^ 32" "b < 2 ^ 32" "meDev e = Mkdev dc a b" using p [OF l] by blast
    then have d: "Major dc (meDev e) = a" "Minor dc (meDev e) = b" using assms by metis+
    then have "(\<exists>a<2 ^ 32. \<exists>b<2 ^ 32. meDev e = Mkdev dc a b \<and> (fst (kind a b) \<or> snd (kind a b))) \<longleftrightarrow> fst (kind a b) \<or> snd (kind a b)"
      using ab assms by metis
    then show ?thesis using d by (cases "kind a b") (simp add: classifyMount_def)
  qed
  have s: "SkipReason (Some (parseMountGuard dc info kind)) path =
      (let es = skipEntries dc kind path (splitChar CHR 0x0A info) in if es = [] then None else classifyMount dc (last es) kind)"
    unfolding SkipReason_def parseMountGuard_def option.case guard_fold ..
  have "classifyMount dc (last es) kind \<noteq> None" if "es = skipEntries dc kind path (splitChar CHR 0x0A info)" "es \<noteq> []" for es
    using last_in_set [OF that(2)] unfolding that(1) skipEntries_def by simp
  then have "SkipReason (Some (parseMountGuard dc info kind)) path \<noteq> None \<longleftrightarrow> skipEntries dc kind path (splitChar CHR 0x0A info) \<noteq> []"
    unfolding s Let_def by auto
  also have "\<dots> \<longleftrightarrow> (\<exists>line\<in>set (splitChar CHR 0x0A info). \<exists>e. parseMountinfoLine dc line = Some e \<and> meMountPoint e = path \<and> classifyMount dc e kind \<noteq> None)"
    unfolding skipEntries_set neq_Nil_conv_ex by blast
  finally show ?thesis using c s by blast
qed

definition exCodec :: devCodec where
  "exCodec = \<lparr>Mkdev = \<lambda>a b. a * 4294967296 + b, Major = \<lambda>d. d div 4294967296, Minor = \<lambda>d. d mod 4294967296\<rparr>"

text \<open>Witness: an NFS share mounted over its autofs trigger.\<close>

theorem mountGuard_exact_witness:
  "let auto = joinChar CHR '' '' (mountinfoFields [''40'', ''29''] 0 56 ''/'' ''/mnt/nas'' ''rw'' [''shared:4''] ''autofs'' ''systemd-1'' ''rw'');
       nfs = joinChar CHR '' '' (mountinfoFields [''41'', ''29''] 0 57 ''/'' ''/mnt/nas'' ''rw'' [''shared:5''] ''nfs4'' ''nas:/pool'' ''rw'')
   in map_option meFSType (parseMountinfoLine exCodec nfs) = Some ''nfs4'' \<and>
      SkipReason (Some (parseMountGuard exCodec (auto @ CHR 0x0A # nfs) (\<lambda>_ _. (False, False)))) ''/mnt/nas'' \<noteq> None"
proof -
  have codec: "\<forall>a<2 ^ 32. \<forall>b<2 ^ 32. Major exCodec (Mkdev exCodec a b) = a \<and> Minor exCodec (Mkdev exCodec a b) = b" by (simp add: exCodec_def)
  define auto nfs where "auto = joinChar CHR '' '' (mountinfoFields [''40'', ''29''] 0 56 ''/'' ''/mnt/nas'' ''rw'' [''shared:4''] ''autofs'' ''systemd-1'' ''rw'')"
    and "nfs = joinChar CHR '' '' (mountinfoFields [''41'', ''29''] 0 57 ''/'' ''/mnt/nas'' ''rw'' [''shared:5''] ''nfs4'' ''nas:/pool'' ''rw'')"
  have parsed: "parseMountinfoLine exCodec auto = Some \<lparr>meDev = Mkdev exCodec 0 56, meMountPoint = ''/mnt/nas'', meFSType = ''autofs'', meSource = ''systemd-1''\<rparr>"
    "parseMountinfoLine exCodec nfs = Some \<lparr>meDev = Mkdev exCodec 0 57, meMountPoint = ''/mnt/nas'', meFSType = ''nfs4'', meSource = ''nas:/pool''\<rparr>"
    unfolding auto_def nfs_def by (rule parse_printed; simp add: word_def isSpace_def)+
  have "CHR 0x0A \<notin> set auto" unfolding auto_def by code_simp
  then have "auto \<in> set (splitChar CHR 0x0A (auto @ CHR 0x0A # nfs))" by (simp add: splitChar_append_sep)
  moreover have "''autofs'' \<in> set pseudoFSTypes" by code_simp
  ultimately have "SkipReason (Some (parseMountGuard exCodec (auto @ CHR 0x0A # nfs) (\<lambda>_ _. (False, False)))) ''/mnt/nas'' \<noteq> None"
    using parsed(1) by (intro iffD2 [OF conjunct1 [OF mountGuard_exact [OF codec]]]) (metis mountEntry.select_convs(2,3))
  then show ?thesis using parsed(2) unfolding auto_def nfs_def Let_def by simp
qed

section \<open>What the walk over the holder graph finds\<close>

text \<open>\<open>below fs b n d\<close>: the device directory \<open>d\<close> is reached from \<open>b\<close> through at most \<open>n\<close> slave links.\<close>

inductive below :: "sysfs \<Rightarrow> string \<Rightarrow> nat \<Rightarrow> string \<Rightarrow> bool" for fs where
  here: "below fs b n b"
| step: "map_of (sysDirs fs) (pathJoin [b, ''slaves'']) = Some ss \<Longrightarrow> s \<in> set ss \<Longrightarrow> below fs (pathJoin [b, ''slaves'', s]) n d \<Longrightarrow> below fs b (Suc n) d"

inductive_simps below_0: "below fs b 0 d"

inductive_simps below_Suc: "below fs b (Suc n) d"

definition isLoop :: "sysfs \<Rightarrow> string \<Rightarrow> bool" where
  "isLoop fs d \<longleftrightarrow> pathJoin [d, ''loop'', ''backing_file''] \<in> set (sysFiles fs)"

definition isOrphan :: "sysfs \<Rightarrow> string \<Rightarrow> bool" where
  "isOrphan fs d \<longleftrightarrow> pathJoin [d, ''dm'', ''name''] \<in> set (sysFiles fs) \<and> map_of (sysDirs fs) (pathJoin [d, ''slaves'']) = Some []"

declare deviceKindAt.simps [simp del]

lemma deviceKindAt_below:
  "depth \<le> 8 \<Longrightarrow> deviceKindAt fs b depth =
    ((\<exists>d. below fs b (8 - depth) d \<and> isLoop fs d), \<not> (\<exists>d. below fs b (8 - depth) d \<and> isLoop fs d) \<and> (\<exists>d. below fs b (8 - depth) d \<and> isOrphan fs d))"
proof (induction "8 - depth" arbitrary: b depth)
  case 0
  then have d: "depth = 8" by simp
  have deep: "deviceKindAt fs x 9 = (False, False)" for x by (simp add: deviceKindAt.simps)
  have f: "list_ex fst (map (\<lambda>s. deviceKindAt fs (g s) 9) ss) = False" "list_ex snd (map (\<lambda>s. deviceKindAt fs (g s) 9) ss) = False" for g and ss :: "string list"
    by (induction ss) (simp_all add: deep)
  show ?case unfolding d by (subst deviceKindAt.simps) (auto simp: f below_0 isLoop_def isOrphan_def Let_def split: option.splits)
next
  case (Suc n)
  then have n: "8 - depth = Suc n" "8 - (depth + 1) = n" "depth + 1 \<le> 8" "\<not> 8 < depth" by auto
  have ih: "deviceKindAt fs x (depth + 1) = ((\<exists>d. below fs x n d \<and> isLoop fs d), \<not> (\<exists>d. below fs x n d \<and> isLoop fs d) \<and> (\<exists>d. below fs x n d \<and> isOrphan fs d))" for x
    using Suc.hyps(1) [of "depth + 1" x] n by simp
  have ex: "list_ex P (map h ss) \<longleftrightarrow> (\<exists>s\<in>set ss. P (h s))" for P :: "bool \<times> bool \<Rightarrow> bool" and h :: "string \<Rightarrow> bool \<times> bool" and ss by (induction ss) auto
  show ?case
  proof (cases "isLoop fs b")
    case True
    then show ?thesis unfolding n(1) by (subst deviceKindAt.simps) (use n in \<open>auto simp: isLoop_def intro: below.here\<close>)
  next
    case False
    show ?thesis
    proof (cases "map_of (sysDirs fs) (pathJoin [b, ''slaves''])")
      case None
      then show ?thesis unfolding n(1) below_Suc by (subst deviceKindAt.simps) (use n False in \<open>auto simp: isLoop_def isOrphan_def\<close>)
    next
      case (Some ss)
      have b: "below fs b (Suc n) d \<longleftrightarrow> d = b \<or> (\<exists>s\<in>set ss. below fs (pathJoin [b, ''slaves'', s]) n d)" for d unfolding below_Suc using Some by auto
      show ?thesis
      proof (cases "ss = []")
        case True
        then show ?thesis unfolding n(1) b by (subst deviceKindAt.simps) (use n False Some in \<open>auto simp: isLoop_def isOrphan_def Let_def\<close>)
      next
        case ne: False
        then have no: "\<not> isOrphan fs b" using Some by (simp add: isOrphan_def)
        have "deviceKindAt fs b depth = (let ks = map (\<lambda>s. deviceKindAt fs (pathJoin [b, ''slaves'', s]) (depth + 1)) ss
            in if list_ex fst ks then (True, False) else (False, list_ex snd ks))"
          by (subst deviceKindAt.simps) (use n(4) False Some ne in \<open>simp add: isLoop_def Let_def\<close>)
        then have k: "deviceKindAt fs b depth = (let lb = \<exists>s\<in>set ss. fst (deviceKindAt fs (pathJoin [b, ''slaves'', s]) (depth + 1))
            in (lb, \<not> lb \<and> (\<exists>s\<in>set ss. snd (deviceKindAt fs (pathJoin [b, ''slaves'', s]) (depth + 1)))))"
          by (simp add: ex Let_def)
        show ?thesis unfolding n(1) b k ih Let_def fst_conv snd_conv prod.inject using False no by blast
      qed
    qed
  qed
qed

text \<open>C36. The device walk returns, and what it says is exact: a device counts as loop-backed exactly when a loop device lies at
  most eight slave links below it, and as orphaned exactly when that is not so and a device-mapper target without
  slaves does.\<close>

theorem sysfsDeviceKind_exact:
  "sysfsDeviceKind fs major minor =
    (let base = ''/sys/dev/block/'' @ natDigits major @ '':'' @ natDigits minor; lb = (\<exists>d. below fs base 8 d \<and> isLoop fs d)
     in (lb, \<not> lb \<and> (\<exists>d. below fs base 8 d \<and> isOrphan fs d)))"
  unfolding sysfsDeviceKind_def Let_def by (subst deviceKindAt_below) simp_all

end
