(* ===== verification/TreeSizes.thy ===== *)
theory TreeSizes
  imports Filters MountGuard
begin

text \<open>
  The directory-size gatherer (tree_sizes.go). The file system below a root is a finite tree \<open>fsNode\<close> that does not change
  during a walk; the clock, the measured durations and the state of the context at the moments the code polls it
  are arguments (\<open>walkEnv\<close>). \<open>walk\<close> is the recursive walk with the cache threaded through; its result \<open>None\<close> is a cancelled
  context. \<open>du\<close> is the total over the files the walk is meant to count, and \<open>duWith\<close> the same with the directories that a cache
  has a fresh entry for counted at that entry, which by design may be a day old. The theorems show that, whatever is reused, evicted
  or cancelled, a total left by a pass is an old entry or \<open>duWith\<close> of the cache before the pass, and a finished walk returns it; that a
  pass is not influenced by what is excluded or below a foreign mount; and the bounds of the cache and of the sleep between passes.
\<close>

section \<open>File trees\<close>

text \<open>A regular file has its size if it can be stat'ed; a directory says whether it can be opened and its modification time if
  it can be stat'ed.\<close>

datatype fsNode = FFile "int option" | FLink | FOther | FDir bool "int option" "(string \<times> fsNode) list"

definition excludeBasenames :: "string list" where
  "excludeBasenames = [''__pycache__'', ''node_modules'', ''.git'', ''.cache'', ''.npm'', ''.venv'', ''venv'', ''logs'', ''tmp'', ''.zfs'', ''ix-applications'']"

section \<open>The cache\<close>

record dirSize =
  dsBytes :: int
  dsFileCount :: int
  dsComputedAtS :: int
  dsLastWalkMS :: int

type_synonym sizeMap = "(string \<times> dirSize) list"

datatype sizeFile = SNoFile | SUnreadable | SEmpty | SMalformed | SEntries sizeMap

record dirSizeCache =
  dcMap :: sizeMap
  dcFile :: sizeFile
  dcLegacy :: bool  \<comment> \<open>the file of the old format exists\<close>
  dcRemoveErr :: bool  \<comment> \<open>removing it fails\<close>
  dcSaveErr :: bool  \<comment> \<open>opening, writing or renaming the temporary file fails\<close>

definition SizeOf :: "dirSizeCache \<Rightarrow> string \<Rightarrow> int option" where
  "SizeOf c path = map_option dsBytes (map_of (dcMap c) path)"

definition sizePut :: "string \<Rightarrow> dirSize \<Rightarrow> sizeMap \<Rightarrow> sizeMap" where
  "sizePut path e m = AList.update path e m"

definition sizeDrop :: "string \<Rightarrow> sizeMap \<Rightarrow> sizeMap" where
  "sizeDrop path m = AList.delete path m"

text \<open>The order of the list stands for the iteration order of the Go map, and so for the order of equal file counts.\<close>

definition enforceCap :: "int \<Rightarrow> sizeMap \<Rightarrow> nat \<times> sizeMap" where
  "enforceCap maxN m =
     (if maxN \<le> 0 then (0, m)
      else if int (length m) \<le> maxN then (0, m)
      else let victims = drop (nat maxN) (sort_key (\<lambda>kv. - dsFileCount (snd kv)) m)
           in (length victims, filter (\<lambda>kv. fst kv \<notin> fst ` set victims) m))"

definition sizePrune :: "string list \<Rightarrow> sizeMap \<Rightarrow> nat \<times> sizeMap" where
  "sizePrune excludes m =
     (if excludes = [] then (0, m)
      else (length (filter (\<lambda>kv. pathUnderAny (fst kv) excludes) m), filter (\<lambda>kv. \<not> pathUnderAny (fst kv) excludes) m))"

definition sizeLoad :: "dirSizeCache \<Rightarrow> dirSizeCache" where
  "sizeLoad c =
     (let c1 = (if dcLegacy c \<and> \<not> dcRemoveErr c then c\<lparr>dcLegacy := False\<rparr> else c)
      in case dcFile c of SEntries m \<Rightarrow> c1\<lparr>dcMap := m\<rparr> | _ \<Rightarrow> c1)"

definition sizeSave :: "dirSizeCache \<Rightarrow> bool \<times> dirSizeCache" where
  "sizeSave c = (if dcSaveErr c then (False, c) else (True, c\<lparr>dcFile := SEntries (dcMap c)\<rparr>))"

section \<open>The gatherer\<close>

record sizeCfg =
  scBackupRoots :: "string list"
  scBackupExcludePaths :: "string list"
  scTreeSizeExcludePaths :: "string list"
  scLargeFileThreshold :: int
  scSlowWalk :: int
  scLargeRefresh :: int
  scSmallRefresh :: int
  scStepSleep :: int
  scStepEvery :: int
  scKeepDepth :: int
  scKeepMinFiles :: int
  scMaxEntries :: int

definition excludePaths :: "sizeCfg \<Rightarrow> filterCache option \<Rightarrow> string list" where
  "excludePaths cfg filters =
     scBackupExcludePaths cfg @ scTreeSizeExcludePaths cfg @ (case filters of None \<Rightarrow> [] | Some f \<Rightarrow> AbsoluteExcludePrefixes f)"

definition rootStep :: "string list \<Rightarrow> string \<Rightarrow> string list \<Rightarrow> string list" where
  "rootStep excludes r0 out =
     (let r = pathClean r0 in if r \<in> set out then out else if pathUnderAny r excludes then out else out @ [r])"

definition sizeRoots :: "sizeCfg \<Rightarrow> string list \<Rightarrow> string list" where
  "sizeRoots cfg excludes = fold (rootStep excludes) (scBackupRoots cfg) []"

definition cadence :: "sizeCfg \<Rightarrow> dirSize \<Rightarrow> int" where
  "cadence cfg e =
     (if dsFileCount e > scLargeFileThreshold cfg \<or> dsLastWalkMS e * 1000000 > scSlowWalk cfg then scLargeRefresh cfg else scSmallRefresh cfg)"

definition fresh :: "sizeCfg \<Rightarrow> int \<Rightarrow> dirSize \<Rightarrow> bool" where
  "fresh cfg now e \<longleftrightarrow> now - dsComputedAtS e * 1000000000 < cadence cfg e"

definition due :: "sizeCfg \<Rightarrow> sizeMap \<Rightarrow> string \<Rightarrow> int \<Rightarrow> bool" where
  "due cfg m path now = (case map_of m path of None \<Rightarrow> True | Some e \<Rightarrow> \<not> fresh cfg now e)"

definition worthCaching :: "sizeCfg \<Rightarrow> int \<Rightarrow> dirSize \<Rightarrow> bool" where
  "worthCaching cfg depth e \<longleftrightarrow> depth \<le> scKeepDepth cfg \<or> dsFileCount e \<ge> scKeepMinFiles cfg \<or> dsLastWalkMS e * 1000000 > scSlowWalk cfg"

definition rebuildAnchors :: "sizeCfg \<Rightarrow> string list \<Rightarrow> Repo list \<Rightarrow> string list" where
  "rebuildAnchors cfg excludes repos =
     map pathClean (sizeRoots cfg excludes) @
     concat (map (\<lambda>r. (if rPath r \<noteq> [] then [pathClean (rPath r)] else []) @ (if rSourcePath r \<noteq> [] then [pathClean (rSourcePath r)] else [])) repos)"

text \<open>What a walk runs with. \<open>weDone n\<close> is the state of the context when it is polled for the \<open>n\<close>-th time; the clock and the
  measured duration are those of the directory being walked.\<close>

record walkEnv =
  weCfg :: sizeCfg
  weExcludes :: "string list"
  weGuard :: "mountGuard option"
  weAnchors :: "string list"
  weNow :: "string \<Rightarrow> int"
  weWalkMS :: "string \<Rightarrow> int"
  weDone :: "nat \<Rightarrow> bool"

record walkState =
  wsMap :: sizeMap
  wsStepN :: int
  wsPolls :: nat

definition poll :: "walkEnv \<Rightarrow> walkState \<Rightarrow> bool \<times> walkState" where
  "poll v st = (weDone v (wsPolls st), st\<lparr>wsPolls := Suc (wsPolls st)\<rparr>)"

text \<open>The pause after a directory: false when the context ended.\<close>

definition throttle :: "walkEnv \<Rightarrow> walkState \<Rightarrow> bool \<times> walkState" where
  "throttle v st =
     (if scStepSleep (weCfg v) > 0 then
        let n = wsStepN st + 1; every = (if scStepEvery (weCfg v) < 1 then 1 else scStepEvery (weCfg v))
        in if n \<ge> every then (case poll v (st\<lparr>wsStepN := 0\<rparr>) of (d, st') \<Rightarrow> (\<not> d, st'))
           else (True, st\<lparr>wsStepN := n\<rparr>)
      else (True, st))"

definition skipChild :: "walkEnv \<Rightarrow> string \<Rightarrow> string \<Rightarrow> bool" where
  "skipChild v name child \<longleftrightarrow> name \<in> set excludeBasenames \<or> isDuplicacyWebCache child \<or> pathUnderAny child (weExcludes v)"

definition finishDir :: "walkEnv \<Rightarrow> string \<Rightarrow> int \<Rightarrow> int \<times> int \<Rightarrow> walkState \<Rightarrow> (int \<times> int) option \<times> walkState" where
  "finishDir v dir depth tot st =
     (case poll v st of
        (True, st1) \<Rightarrow> (None, st1)
      | (False, st1) \<Rightarrow>
          (case throttle v st1 of
             (False, st2) \<Rightarrow> (None, st2)
           | (True, st2) \<Rightarrow>
               let e = \<lparr>dsBytes = fst tot, dsFileCount = snd tot, dsComputedAtS = weNow v dir div 1000000000, dsLastWalkMS = weWalkMS v dir\<rparr>
               in (Some tot, st2\<lparr>wsMap := (if worthCaching (weCfg v) depth e then sizePut dir e (wsMap st2) else sizeDrop dir (wsMap st2))\<rparr>)))"

definition reusable :: "walkEnv \<Rightarrow> string \<Rightarrow> sizeMap \<Rightarrow> dirSize option" where
  "reusable v dir m = (case map_of m dir of None \<Rightarrow> None | Some e \<Rightarrow> if fresh (weCfg v) (weNow v dir) e then Some e else None)"

definition unreadableDir :: "walkEnv \<Rightarrow> string \<Rightarrow> walkState \<Rightarrow> walkState" where
  "unreadableDir v dir st =
     st\<lparr>wsMap := sizePut dir \<lparr>dsBytes = 0, dsFileCount = 0, dsComputedAtS = weNow v dir div 1000000000, dsLastWalkMS = weWalkMS v dir\<rparr> (wsMap st)\<rparr>"

fun walk :: "walkEnv \<Rightarrow> fsNode \<Rightarrow> string \<Rightarrow> int \<Rightarrow> walkState \<Rightarrow> (int \<times> int) option \<times> walkState"
  and walkEntries :: "walkEnv \<Rightarrow> (string \<times> fsNode) list \<Rightarrow> string \<Rightarrow> int \<Rightarrow> int \<times> int \<Rightarrow> walkState \<Rightarrow> (int \<times> int) option \<times> walkState" where
  "walk v node dir depth0 st =
     (case poll v st of
        (True, st1) \<Rightarrow> (None, st1)
      | (False, st1) \<Rightarrow>
          let depth = (if dir \<in> set (weAnchors v) then 0 else depth0)
          in (case reusable v dir (wsMap st1) of
                Some e \<Rightarrow> (Some (dsBytes e, dsFileCount e), st1)
              | None \<Rightarrow>
                  (case node of
                     FDir True _ es \<Rightarrow>
                       (case walkEntries v es dir depth (0, 0) st1 of
                          (None, st2) \<Rightarrow> (None, st2)
                        | (Some tot, st2) \<Rightarrow> finishDir v dir depth tot st2)
                   | FDir False _ _ \<Rightarrow> (Some (0, 0), unreadableDir v dir st1)
                   | _ \<Rightarrow> finishDir v dir depth (0, 0) st1)))"
| "walkEntries v [] dir depth tot st = (Some tot, st)"
| "walkEntries v ((name, n) # es) dir depth tot st =
     (let child = pathJoin [dir, name]
      in if n = FLink \<or> skipChild v name child then walkEntries v es dir depth tot st
         else case n of
           FDir _ _ _ \<Rightarrow>
             if SkipReason (weGuard v) child \<noteq> None then walkEntries v es dir depth tot st
             else (case walk v n child (depth + 1) st of
                     (None, st1) \<Rightarrow> (None, st1)
                   | (Some (b, c), st1) \<Rightarrow> walkEntries v es dir depth (fst tot + b, snd tot + c) st1)
         | FFile (Some sz) \<Rightarrow> walkEntries v es dir depth (fst tot + sz, snd tot + 1) st
         | _ \<Rightarrow> walkEntries v es dir depth tot st)"

section \<open>Passes\<close>

record sizeGatherer =
  sgCache :: dirSizeCache
  sgLastAttempt :: "(string \<times> int) list"
  sgFirstPass :: bool
  sgGuardSig :: string
  sgStepN :: int

definition newSizeGatherer :: "dirSizeCache \<Rightarrow> sizeGatherer" where
  "newSizeGatherer c = \<lparr>sgCache = c, sgLastAttempt = [], sgFirstPass = True, sgGuardSig = [], sgStepN = 0\<rparr>"

definition sizePersist :: "sizeCfg \<Rightarrow> sizeGatherer \<Rightarrow> sizeGatherer" where
  "sizePersist cfg g =
     (let c = sgCache g; c1 = c\<lparr>dcMap := snd (enforceCap (scMaxEntries cfg) (dcMap c))\<rparr> in g\<lparr>sgCache := snd (sizeSave c1)\<rparr>)"

text \<open>\<open>Start\<close> before it launches the loop.\<close>

definition sizeStart :: "string list \<Rightarrow> sizeGatherer \<Rightarrow> sizeGatherer" where
  "sizeStart excludes g =
     (let c = sizeLoad (sgCache g); (n, m) = sizePrune excludes (dcMap c); c1 = c\<lparr>dcMap := m\<rparr>
      in g\<lparr>sgCache := (if n > 0 then snd (sizeSave c1) else c1)\<rparr>)"

definition sizeSummary :: "sizeGatherer \<Rightarrow> nat \<times> int" where
  "sizeSummary g = (length (dcMap (sgCache g)), sum_list (map (\<lambda>kv. dsFileCount (snd kv)) (dcMap (sgCache g))))"

text \<open>What a pass runs with: the tree below each root, the clock, whether the agent is being stopped when a root is
  reached, the context of each walk and whether the pass was cancelled when a walk returned.\<close>

record passEnv =
  peEnv :: walkEnv
  peTree :: "string \<Rightarrow> fsNode"
  peNow :: int
  peAttempt :: "string \<Rightarrow> int"
  peStop :: "string \<Rightarrow> bool"
  peWalkDone :: "string \<Rightarrow> nat \<Rightarrow> bool"
  peCancelled :: "string \<Rightarrow> bool"

definition walkRootOnce :: "passEnv \<Rightarrow> string \<Rightarrow> sizeGatherer \<Rightarrow> sizeGatherer" where
  "walkRootOnce q r g =
     (let v = (peEnv q)\<lparr>weDone := peWalkDone q r\<rparr>;
          st = snd (walk v (peTree q r) r 0 \<lparr>wsMap = dcMap (sgCache g), wsStepN = sgStepN g, wsPolls = 0\<rparr>)
      in g\<lparr>sgCache := (sgCache g)\<lparr>dcMap := wsMap st\<rparr>, sgStepN := wsStepN st, sgLastAttempt := AList.update r (peAttempt q r) (sgLastAttempt g)\<rparr>)"

fun passLoop :: "passEnv \<Rightarrow> string list \<Rightarrow> bool \<Rightarrow> sizeGatherer \<Rightarrow> sizeGatherer" where
  "passLoop q [] dirty g =
     (let g1 = (if dirty then sizePersist (weCfg (peEnv q)) g else g) in g1\<lparr>sgFirstPass := False\<rparr>)"
| "passLoop q (r # rs) dirty g =
     (if peStop q r then g
      else if \<not> due (weCfg (peEnv q)) (dcMap (sgCache g)) r (peNow q) then passLoop q rs dirty g
      else let g1 = walkRootOnce q r g
           in if peCancelled q r then sizePersist (weCfg (peEnv q)) g1 else passLoop q rs True g1)"

definition runPass :: "passEnv \<Rightarrow> sizeGatherer \<Rightarrow> sizeGatherer" where
  "runPass q g =
     (let sig = guardSignature (weGuard (peEnv q));
          g1 = (if sgFirstPass g \<or> sig \<noteq> sgGuardSig g then g\<lparr>sgGuardSig := sig\<rparr> else g)
      in passLoop q (sizeRoots (weCfg (peEnv q)) (weExcludes (peEnv q))) False g1)"

text \<open>\<open>now'\<close> is the clock when \<open>time.Until\<close> reads it.\<close>

fun nextDue :: "sizeCfg \<Rightarrow> sizeGatherer \<Rightarrow> string list \<Rightarrow> int \<Rightarrow> int option" where
  "nextDue cfg g [] nxt = Some nxt"
| "nextDue cfg g (r # rs) nxt =
     (case map_of (sgLastAttempt g) r of
        None \<Rightarrow> None
      | Some t \<Rightarrow>
          let cad = (case map_of (dcMap (sgCache g)) r of None \<Rightarrow> scSmallRefresh cfg | Some e \<Rightarrow> cadence cfg e); d = t + cad
          in nextDue cfg g rs (if d < nxt then d else nxt))"

definition minSleep :: int where "minSleep = 60 * 1000000000"

definition untilNextDue :: "sizeCfg \<Rightarrow> string list \<Rightarrow> sizeGatherer \<Rightarrow> int \<Rightarrow> int \<Rightarrow> int" where
  "untilNextDue cfg excludes g now now' =
     (case nextDue cfg g (sizeRoots cfg excludes) (now + scSmallRefresh cfg) of
        None \<Rightarrow> minSleep
      | Some nxt \<Rightarrow> let d = nxt - now' in if d < minSleep then minSleep else d)"

section \<open>What is to be counted\<close>

definition countedDir :: "walkEnv \<Rightarrow> string \<Rightarrow> string \<Rightarrow> bool" where
  "countedDir v name child \<longleftrightarrow> \<not> skipChild v name child \<and> SkipReason (weGuard v) child = None"

fun du :: "walkEnv \<Rightarrow> fsNode \<Rightarrow> string \<Rightarrow> int \<times> int"
  and duEntries :: "walkEnv \<Rightarrow> (string \<times> fsNode) list \<Rightarrow> string \<Rightarrow> int \<times> int" where
  "du v n dir = (case n of FDir True _ es \<Rightarrow> duEntries v es dir | _ \<Rightarrow> (0, 0))"
| "duEntries v [] dir = (0, 0)"
| "duEntries v ((name, n) # es) dir =
     (let child = pathJoin [dir, name]; rest = duEntries v es dir
      in case n of
           FDir _ _ _ \<Rightarrow> if countedDir v name child then (fst (du v n child) + fst rest, snd (du v n child) + snd rest) else rest
         | FFile (Some sz) \<Rightarrow> if skipChild v name child then rest else (sz + fst rest, 1 + snd rest)
         | _ \<Rightarrow> rest)"

text \<open>The directories of a walk.\<close>

fun dirsOf :: "walkEnv \<Rightarrow> fsNode \<Rightarrow> string \<Rightarrow> (string \<times> fsNode) list"
  and dirsIn :: "walkEnv \<Rightarrow> (string \<times> fsNode) list \<Rightarrow> string \<Rightarrow> (string \<times> fsNode) list" where
  "dirsOf v n dir = (dir, n) # (case n of FDir True _ es \<Rightarrow> dirsIn v es dir | _ \<Rightarrow> [])"
| "dirsIn v [] dir = []"
| "dirsIn v ((name, n) # es) dir =
     (case n of
        FDir _ _ _ \<Rightarrow> if countedDir v name (pathJoin [dir, name]) then dirsOf v n (pathJoin [dir, name]) else []
      | _ \<Rightarrow> []) @ dirsIn v es dir"

text \<open>The same total, with the cached total in the place of every directory whose entry in \<open>C\<close> is still fresh.\<close>

fun duWith :: "walkEnv \<Rightarrow> sizeMap \<Rightarrow> fsNode \<Rightarrow> string \<Rightarrow> int \<times> int"
  and duWiths :: "walkEnv \<Rightarrow> sizeMap \<Rightarrow> (string \<times> fsNode) list \<Rightarrow> string \<Rightarrow> int \<times> int" where
  "duWith v C n dir =
     (case reusable v dir C of
        Some e \<Rightarrow> (dsBytes e, dsFileCount e)
      | None \<Rightarrow> (case n of FDir True _ es \<Rightarrow> duWiths v C es dir | _ \<Rightarrow> (0, 0)))"
| "duWiths v C [] dir = (0, 0)"
| "duWiths v C ((name, n) # es) dir =
     (let child = pathJoin [dir, name]; rest = duWiths v C es dir
      in case n of
           FDir _ _ _ \<Rightarrow> if countedDir v name child then (fst (duWith v C n child) + fst rest, snd (duWith v C n child) + snd rest) else rest
         | FFile (Some sz) \<Rightarrow> if skipChild v name child then rest else (sz + fst rest, 1 + snd rest)
         | _ \<Rightarrow> rest)"

text \<open>Where the totals of \<open>m\<close> come from: each is the entry of \<open>C\<close>, or it replaces one that was missing or no longer fresh
  and is the total of its directory.\<close>

definition totalsFrom :: "walkEnv \<Rightarrow> sizeMap \<Rightarrow> (string \<times> fsNode) set \<Rightarrow> sizeMap \<Rightarrow> bool" where
  "totalsFrom v C D m \<longleftrightarrow>
     (\<forall>p e. map_of m p = Some e \<longrightarrow>
        map_of C p = Some e \<or> (reusable v p C = None \<and> (\<exists>n. (p, n) \<in> D \<and> (dsBytes e, dsFileCount e) = duWith v C n p)))"

text \<open>A tree without what a walk has to leave alone: the excluded entries and the directories a foreign mount is on, with all below them.\<close>

fun visible :: "walkEnv \<Rightarrow> fsNode \<Rightarrow> string \<Rightarrow> fsNode"
  and visibleIn :: "walkEnv \<Rightarrow> (string \<times> fsNode) list \<Rightarrow> string \<Rightarrow> (string \<times> fsNode) list" where
  "visible v n dir = (case n of FDir ok mt es \<Rightarrow> FDir ok mt (visibleIn v es dir) | _ \<Rightarrow> n)"
| "visibleIn v [] dir = []"
| "visibleIn v ((name, n) # es) dir =
     (let child = pathJoin [dir, name]
      in if skipChild v name child then visibleIn v es dir
         else case n of
           FDir _ _ _ \<Rightarrow> if SkipReason (weGuard v) child \<noteq> None then visibleIn v es dir else (name, visible v n child) # visibleIn v es dir
         | _ \<Rightarrow> (name, n) # visibleIn v es dir)"

declare walk.simps [simp del] walkEntries.simps [simp del] du.simps [simp del] duEntries.simps [simp del] dirsOf.simps [simp del] dirsIn.simps [simp del]
  duWith.simps [simp del] duWiths.simps [simp del] visible.simps [simp del] visibleIn.simps [simp del]

section \<open>A walk keeps the cache right\<close>

definition functional :: "(string \<times> 'a) set \<Rightarrow> bool" where
  "functional D \<longleftrightarrow> (\<forall>p n n'. (p, n) \<in> D \<longrightarrow> (p, n') \<in> D \<longrightarrow> n = n')"

lemma poll_map: "poll v st = (d, st') \<Longrightarrow> wsMap st' = wsMap st"
  by (auto simp: poll_def)

lemma throttle_map: "throttle v st = (b, st') \<Longrightarrow> wsMap st' = wsMap st"
  by (auto simp: throttle_def poll_def Let_def split: if_splits)

lemma finishDir_cases:
  assumes "finishDir v dir depth tot st = (r, st')"
  shows "(r = None \<and> wsMap st' = wsMap st) \<or>
    (r = Some tot \<and> ((\<exists>e. (dsBytes e, dsFileCount e) = tot \<and> wsMap st' = sizePut dir e (wsMap st)) \<or> wsMap st' = sizeDrop dir (wsMap st)))"
proof -
  obtain d st1 where p: "poll v st = (d, st1)" by fastforce
  obtain b st2 where t: "throttle v st1 = (b, st2)" by fastforce
  have m: "wsMap st1 = wsMap st" "wsMap st2 = wsMap st" using poll_map [OF p] throttle_map [OF t] by simp_all
  let ?e = "\<lparr>dsBytes = fst tot, dsFileCount = snd tot, dsComputedAtS = weNow v dir div 1000000000, dsLastWalkMS = weWalkMS v dir\<rparr>"
  have e: "(dsBytes ?e, dsFileCount ?e) = tot" by simp
  show ?thesis
  proof (cases "\<not> d \<and> b")
    case True
    then have "r = Some tot" "wsMap st' = (if worthCaching (weCfg v) depth ?e then sizePut dir ?e (wsMap st) else sizeDrop dir (wsMap st))"
      using assms p t m by (auto simp: finishDir_def Let_def)
    then show ?thesis using e by metis
  next
    case False
    then show ?thesis using assms p t m by (auto simp: finishDir_def split: bool.splits)
  qed
qed

text \<open>What every write of a right total and every removal keeps, a walk keeps; and when it also makes cached totals right, a
  finished walk returns the right one. \<open>ref\<close> is what is right, and \<open>stale\<close> says where nothing can be reused.\<close>

locale walk_invariant =
  fixes P :: "walkEnv \<Rightarrow> sizeMap \<Rightarrow> bool" and D :: "(string \<times> fsNode) set" and stale :: "walkEnv \<Rightarrow> string \<Rightarrow> bool"
    and ref :: "walkEnv \<Rightarrow> fsNode \<Rightarrow> string \<Rightarrow> int \<times> int" and refs :: "walkEnv \<Rightarrow> (string \<times> fsNode) list \<Rightarrow> string \<Rightarrow> int \<times> int"
  assumes put: "P v m \<Longrightarrow> (p, n) \<in> D \<Longrightarrow> stale v p \<Longrightarrow> (dsBytes e, dsFileCount e) = ref v n p \<Longrightarrow> P v (sizePut p e m)"
    and drop: "P v m \<Longrightarrow> (p, n) \<in> D \<Longrightarrow> stale v p \<Longrightarrow> P v (sizeDrop p m)"
    and right: "P v m \<Longrightarrow> (p, n) \<in> D \<Longrightarrow> reusable v p m = Some e \<Longrightarrow> (dsBytes e, dsFileCount e) = ref v n p"
    and none: "P v m \<Longrightarrow> (p, n) \<in> D \<Longrightarrow> reusable v p m = None \<Longrightarrow> stale v p"
    and ref: "stale v p \<Longrightarrow> ref v n p = (case n of FDir True _ es \<Rightarrow> refs v es p | _ \<Rightarrow> (0, 0))"
    and refs_Nil: "refs v [] dir = (0, 0)"
    and refs_Cons: "refs v ((name, k) # es) dir =
      (case k of
         FDir _ _ _ \<Rightarrow> if countedDir v name (pathJoin [dir, name])
           then (fst (ref v k (pathJoin [dir, name])) + fst (refs v es dir), snd (ref v k (pathJoin [dir, name])) + snd (refs v es dir)) else refs v es dir
       | FFile (Some sz) \<Rightarrow> if skipChild v name (pathJoin [dir, name]) then refs v es dir else (sz + fst (refs v es dir), 1 + snd (refs v es dir))
       | _ \<Rightarrow> refs v es dir)"
begin

lemma finishDir_keeps:
  assumes "finishDir v dir depth tot st = (r, st')" "P v (wsMap st)" "(dir, n) \<in> D" "tot = ref v n dir" "stale v dir"
  shows "P v (wsMap st') \<and> (\<forall>t. r = Some t \<longrightarrow> t = ref v n dir)"
  using finishDir_cases [OF assms(1)] put [OF assms(2,3,5)] drop [OF assms(2,3,5)] assms(2,4) by auto

lemma walk_keeps:
  "set (dirsOf v n dir) \<subseteq> D \<Longrightarrow> P v (wsMap st) \<Longrightarrow> walk v n dir depth st = (r, st') \<Longrightarrow>
     P v (wsMap st') \<and> (\<forall>t. r = Some t \<longrightarrow> t = ref v n dir)"
  "set (dirsIn v es dir) \<subseteq> D \<Longrightarrow> P v (wsMap st) \<Longrightarrow> walkEntries v es dir depth tot st = (r, st') \<Longrightarrow>
     P v (wsMap st') \<and> (\<forall>t. r = Some t \<longrightarrow> t = (fst tot + fst (refs v es dir), snd tot + snd (refs v es dir)))"
proof (induction v n dir depth st and v es dir depth tot st arbitrary: r st' and r st' rule: walk_walkEntries.induct)
  case (1 v node dir depth0 st)
  obtain d st1 where p: "poll v st = (d, st1)" by fastforce
  have m: "wsMap st1 = wsMap st" using poll_map [OF p] .
  have inD: "(dir, node) \<in> D" using "1.prems"(1) by (simp add: dirsOf.simps)
  let ?depth = "if dir \<in> set (weAnchors v) then 0 else depth0"
  show ?case
  proof (cases d)
    case True
    then show ?thesis using "1.prems"(2,3) p m by (simp add: walk.simps)
  next
    case nd: False
    show ?thesis
    proof (cases "reusable v dir (wsMap st1)")
      case (Some e)
      then have "r = Some (dsBytes e, dsFileCount e)" "st' = st1" using "1.prems"(3) p nd by (simp_all add: walk.simps)
      then show ?thesis using "1.prems"(2) right [OF "1.prems"(2) inD] Some m by simp
    next
      case None
      have stale: "stale v dir" by (rule none [OF "1.prems"(2) inD]) (use None m in simp)
      have w: "walk v node dir depth0 st = (case node of
         FDir True _ es \<Rightarrow> (case walkEntries v es dir ?depth (0, 0) st1 of (None, st2) \<Rightarrow> (None, st2) | (Some tot, st2) \<Rightarrow> finishDir v dir ?depth tot st2)
       | FDir False _ _ \<Rightarrow> (Some (0, 0), unreadableDir v dir st1)
       | _ \<Rightarrow> finishDir v dir ?depth (0, 0) st1)"
        using p nd None by (simp add: walk.simps)
      show ?thesis
      proof (cases "\<exists>mt es. node = FDir True mt es")
        case True
        then obtain mt es where n: "node = FDir True mt es" by blast
        obtain x st2 where e: "walkEntries v es dir ?depth (0, 0) st1 = (x, st2)" by fastforce
        have ih: "P v (wsMap st2) \<and> (\<forall>t. x = Some t \<longrightarrow> t = ref v node dir)"
          using "1.IH" [OF p [symmetric] _ refl None n _ _ _ e] nd "1.prems"(1,2) n m by (simp add: dirsOf.simps ref [OF stale])
        show ?thesis
        proof (cases x)
          case None
          then have "r = None" "st' = st2" using "1.prems"(3) unfolding w by (simp_all add: n e)
          then show ?thesis using ih by simp
        next
          case (Some t)
          then have f: "finishDir v dir ?depth t st2 = (r, st')" using "1.prems"(3) unfolding w by (simp add: n e)
          show ?thesis using finishDir_keeps [OF f _ inD _ stale] ih Some by blast
        qed
      next
        case False
        then have z: "ref v node dir = (0, 0)" by (auto simp: ref [OF stale] split: fsNode.splits bool.splits)
        show ?thesis
        proof (cases "\<exists>mt es. node = FDir False mt es")
          case True
          then have "r = Some (0, 0)" "st' = unreadableDir v dir st1" using "1.prems"(3) unfolding w by auto
          then show ?thesis using put [OF "1.prems"(2) inD stale] z m by (simp add: unreadableDir_def)
        next
          case nf: False
          then have "finishDir v dir ?depth (0, 0) st1 = (r, st')" using "1.prems"(3) False unfolding w by (auto split: fsNode.splits bool.splits)
          from finishDir_keeps [OF this _ inD _ stale] show ?thesis using z m "1.prems"(2) by simp
        qed
      qed
    qed
  qed
next
  case (2 v dir depth tot st)
  then show ?case by (auto simp: walkEntries.simps refs_Nil)
next
  case (3 v name n es dir depth tot st)
  let ?child = "pathJoin [dir, name]"
  have sub: "set (dirsIn v es dir) \<subseteq> D" using "3.prems"(1) by (simp add: dirsIn.simps)
  note pre = sub "3.prems"(2)
  show ?case
  proof (cases "n = FLink \<or> skipChild v name ?child")
    case True
    then have w: "walkEntries v es dir depth tot st = (r, st')" using "3.prems"(3) by (simp add: walkEntries.simps)
    have "refs v ((name, n) # es) dir = refs v es dir"
      using True by (auto simp: refs_Cons countedDir_def Let_def split: fsNode.splits option.splits)
    then show ?thesis using "3.IH"(1) [OF refl True pre w] by simp
  next
    case ns: False
    show ?thesis
    proof (cases n)
      case (FFile x)
      show ?thesis
      proof (cases x)
        case None
        then have w: "walkEntries v es dir depth tot st = (r, st')" using "3.prems"(3) ns FFile by (simp add: walkEntries.simps)
        show ?thesis using "3.IH"(2) [OF refl ns FFile None pre w] FFile None by (simp add: refs_Cons)
      next
        case (Some sz)
        then have w: "walkEntries v es dir depth (fst tot + sz, snd tot + 1) st = (r, st')" using "3.prems"(3) ns FFile by (simp add: walkEntries.simps)
        show ?thesis using "3.IH"(3) [OF refl ns FFile Some pre w] FFile Some ns by (simp add: refs_Cons Let_def add.assoc)
      qed
    next
      case FLink
      then show ?thesis using ns by simp
    next
      case FOther
      then have w: "walkEntries v es dir depth tot st = (r, st')" using "3.prems"(3) ns by (simp add: walkEntries.simps)
      show ?thesis using "3.IH"(5) [OF refl ns FOther pre w] FOther by (simp add: refs_Cons)
    next
      case (FDir ok mt ch)
      show ?thesis
      proof (cases "SkipReason (weGuard v) ?child = None")
        case False
        then have w: "walkEntries v es dir depth tot st = (r, st')" using "3.prems"(3) ns FDir by (simp add: walkEntries.simps)
        show ?thesis using "3.IH"(6) [OF refl ns FDir False pre w] FDir False by (auto simp: refs_Cons countedDir_def Let_def)
      next
        case True
        then have c: "countedDir v name ?child" using ns by (simp add: countedDir_def)
        then have "set (dirsOf v n ?child) \<subseteq> D" using "3.prems"(1) FDir by (simp add: dirsIn.simps)
        moreover obtain x st1 where wk: "walk v n ?child (depth + 1) st = (x, st1)" by fastforce
        ultimately have ih: "P v (wsMap st1)" "\<forall>t. x = Some t \<longrightarrow> t = ref v n ?child"
          using "3.IH"(7) [OF refl ns FDir _ _ pre(2) wk] True by simp_all
        show ?thesis
        proof (cases x)
          case None
          then have "r = None \<and> st' = st1" using "3.prems"(3) ns FDir True wk by (simp add: walkEntries.simps)
          then show ?thesis using ih by simp
        next
          case (Some t)
          obtain a b where t: "t = (a, b)" by (cases t)
          then have w: "walkEntries v es dir depth (fst tot + a, snd tot + b) st1 = (r, st')"
            using "3.prems"(3) ns FDir True wk Some by (simp add: walkEntries.simps)
          have d: "ref v n ?child = (a, b)" using ih(2) Some t by simp
          then have "refs v ((name, n) # es) dir = (a + fst (refs v es dir), b + snd (refs v es dir))"
            using FDir c by (simp add: refs_Cons Let_def)
          then show ?thesis using "3.IH"(8) [OF refl ns FDir _ wk [symmetric] Some t [symmetric] pre(1) ih(1) w] True by (simp add: add.assoc)
        qed
      qed
    qed
  qed
qed

end

text \<open>The map during a pass that began with \<open>C\<close>: what was fresh is untouched, everything else is as before, gone, or recomputed.\<close>

definition sizesOk :: "sizeMap \<Rightarrow> (string \<times> fsNode) set \<Rightarrow> walkEnv \<Rightarrow> sizeMap \<Rightarrow> bool" where
  "sizesOk C D v m \<longleftrightarrow> functional D \<and> distinct (map fst m) \<and> (\<forall>p. p \<notin> fst ` D \<longrightarrow> map_of m p = map_of C p) \<and>
     (\<forall>p n. (p, n) \<in> D \<longrightarrow>
        (case reusable v p C of
           Some e \<Rightarrow> map_of m p = Some e
         | None \<Rightarrow> map_of m p = None \<or> map_of m p = map_of C p \<or> (\<exists>e. map_of m p = Some e \<and> (dsBytes e, dsFileCount e) = duWith v C n p)))"

lemma reusable_entry: "reusable v p m = Some e \<Longrightarrow> map_of m p = Some e"
  by (auto simp: reusable_def split: option.splits if_splits)

lemma reusable_cong: "map_of m p = map_of m' p \<Longrightarrow> reusable v p m = reusable v p m'"
  by (simp add: reusable_def)

lemma sizesOk_at:
  "sizesOk C D v m \<Longrightarrow> (p, n) \<in> D \<Longrightarrow>
     (case reusable v p C of
        Some e \<Rightarrow> map_of m p = Some e
      | None \<Rightarrow> map_of m p = None \<or> map_of m p = map_of C p \<or> (\<exists>e. map_of m p = Some e \<and> (dsBytes e, dsFileCount e) = duWith v C n p))"
  unfolding sizesOk_def by blast

lemma sizesOkD:
  assumes "sizesOk C D v m" "(p, n) \<in> D"
  shows "reusable v p C = Some e \<Longrightarrow> map_of m p = Some e"
    "reusable v p C = None \<Longrightarrow> map_of m p = Some x \<Longrightarrow> map_of C p = Some x \<or> (dsBytes x, dsFileCount x) = duWith v C n p"
  using sizesOk_at [OF assms] by auto

lemma sizesOk_change:
  assumes "sizesOk C D v m" "(p, n) \<in> D" "reusable v p C = None" "distinct (map fst m')" "\<And>q. q \<noteq> p \<Longrightarrow> map_of m' q = map_of m q"
    "map_of m' p = None \<or> (\<exists>e. map_of m' p = Some e \<and> (dsBytes e, dsFileCount e) = duWith v C n p)"
  shows "sizesOk C D v m'"
  unfolding sizesOk_def
proof (intro conjI allI impI)
  show "functional D" "distinct (map fst m')" using assms(1,4) by (simp_all add: sizesOk_def)
  show "map_of m' q = map_of C q" if "q \<notin> fst ` D" for q
  proof -
    have "q \<noteq> p" using that assms(2) by force
    then show ?thesis using assms(1,5) that by (simp add: sizesOk_def)
  qed
  fix q k assume k: "(q, k) \<in> D"
  show "case reusable v q C of
     Some e \<Rightarrow> map_of m' q = Some e
   | None \<Rightarrow> map_of m' q = None \<or> map_of m' q = map_of C q \<or> (\<exists>e. map_of m' q = Some e \<and> (dsBytes e, dsFileCount e) = duWith v C k q)"
  proof (cases "q = p")
    case True
    then have "k = n" using assms(1,2) k by (auto simp: sizesOk_def functional_def)
    then show ?thesis using True assms(3,6) by auto
  next
    case False
    then show ?thesis using sizesOk_at [OF assms(1) k] by (simp add: assms(5) cong: option.case_cong)
  qed
qed

interpretation sizes: walk_invariant "sizesOk C D" D "\<lambda>v p. reusable v p C = None" "\<lambda>v n p. duWith v C n p" "\<lambda>v es p. duWiths v C es p" for C D
proof
  fix v m p n e
  assume a: "sizesOk C D v m" "(p, n) \<in> D"
  have d: "distinct (map fst m)" using a(1) by (simp add: sizesOk_def)
  show "sizesOk C D v (sizePut p e m)" if "reusable v p C = None" "(dsBytes e, dsFileCount e) = duWith v C n p"
    by (rule sizesOk_change [OF a that(1)]) (use that d in \<open>simp_all add: sizePut_def distinct_update update_conv'\<close>)
  show "sizesOk C D v (sizeDrop p m)" if "reusable v p C = None"
    by (rule sizesOk_change [OF a that]) (use d in \<open>simp_all add: sizeDrop_def distinct_delete delete_conv'\<close>)
  show "(dsBytes e, dsFileCount e) = duWith v C n p" if r: "reusable v p m = Some e"
  proof (cases "reusable v p C")
    case (Some x)
    then have "x = e" using sizesOkD(1) [OF a Some] reusable_entry [OF r] by simp
    then show ?thesis using Some by (simp add: duWith.simps)
  next
    case None
    have "map_of m p = Some e" by (rule reusable_entry [OF r])
    moreover from this have "map_of C p \<noteq> Some e" using r None reusable_cong [of m p C v] by auto
    ultimately show ?thesis using sizesOkD(2) [OF a None] by blast
  qed
  show "reusable v p C = None" if r: "reusable v p m = None"
  proof (rule ccontr)
    assume "reusable v p C \<noteq> None"
    then obtain x where x: "reusable v p C = Some x" by blast
    then have "map_of m p = map_of C p" using sizesOkD(1) [OF a x] reusable_entry [OF x] by simp
    then show False using r x reusable_cong [of m p C v] by simp
  qed
next
  fix v name k es dir
  show "duWiths v C ((name, k) # es) dir = (case k of
         FDir _ _ _ \<Rightarrow> if countedDir v name (pathJoin [dir, name])
           then (fst (duWith v C k (pathJoin [dir, name])) + fst (duWiths v C es dir), snd (duWith v C k (pathJoin [dir, name])) + snd (duWiths v C es dir)) else duWiths v C es dir
       | FFile (Some sz) \<Rightarrow> if skipChild v name (pathJoin [dir, name]) then duWiths v C es dir else (sz + fst (duWiths v C es dir), 1 + snd (duWiths v C es dir))
       | _ \<Rightarrow> duWiths v C es dir)"
    by (simp add: duWiths.simps Let_def split: fsNode.split)
qed (simp_all add: duWith.simps duWiths.simps)

section \<open>Passes keep the cache right\<close>

lemma dirs_not_skipped:
  "x \<in> set (dirsOf v n dir) \<Longrightarrow> fst x = dir \<or> (\<not> pathUnderAny (fst x) (weExcludes v) \<and> \<not> isDuplicacyWebCache (fst x) \<and> SkipReason (weGuard v) (fst x) = None)"
  "x \<in> set (dirsIn v es dir) \<Longrightarrow> \<not> pathUnderAny (fst x) (weExcludes v) \<and> \<not> isDuplicacyWebCache (fst x) \<and> SkipReason (weGuard v) (fst x) = None"
proof (induction v n dir and v es dir rule: dirsOf_dirsIn.induct)
  case (1 v n dir)
  then show ?case by (auto simp: dirsOf.simps split: fsNode.splits bool.splits)
next
  case (3 v name n es dir)
  show ?case
  proof (cases "x \<in> set (dirsIn v es dir)")
    case True
    then show ?thesis by (rule "3.IH"(2))
  next
    case False
    then obtain ok mt ch where n: "n = FDir ok mt ch" "countedDir v name (pathJoin [dir, name])" "x \<in> set (dirsOf v n (pathJoin [dir, name]))"
      using "3.prems" by (cases n) (auto simp: dirsIn.simps split: if_splits)
    then show ?thesis using "3.IH"(1) [OF n(1,2,3)] by (auto simp: countedDir_def skipChild_def)
  qed
qed (simp add: dirsIn.simps)

lemma weDone_simps [simp]:
  "reusable (v\<lparr>weDone := w\<rparr>) p m = reusable v p m" "countedDir (v\<lparr>weDone := w\<rparr>) = countedDir v" "skipChild (v\<lparr>weDone := w\<rparr>) = skipChild v"
  by (simp_all add: reusable_def countedDir_def skipChild_def fun_eq_iff split: option.split)

lemma duWith_weDone [simp]: "duWith (v\<lparr>weDone := w\<rparr>) C n dir = duWith v C n dir" "duWiths (v\<lparr>weDone := w\<rparr>) C es dir = duWiths v C es dir"
  by (induction v C n dir and v C es dir rule: duWith_duWiths.induct)
    (simp_all add: duWith.simps duWiths.simps Let_def split: fsNode.split option.split bool.split)

lemma dirsOf_weDone [simp]: "dirsOf (v\<lparr>weDone := w\<rparr>) n dir = dirsOf v n dir" "dirsIn (v\<lparr>weDone := w\<rparr>) es dir = dirsIn v es dir"
  by (induction v n dir and v es dir rule: dirsOf_dirsIn.induct)
    (simp_all add: dirsOf.simps dirsIn.simps split: fsNode.split bool.split)

lemma sizesOk_weDone [simp]: "sizesOk C D (v\<lparr>weDone := w\<rparr>) m = sizesOk C D v m"
  by (simp add: sizesOk_def cong: option.case_cong)

lemma enforceCap_subset: "set (snd (enforceCap n m)) \<subseteq> set m"
  by (auto simp: enforceCap_def Let_def)

lemma totalsFrom_cap:
  assumes "sizesOk C D v m" "set m' \<subseteq> set m"
  shows "totalsFrom v C D m'"
  unfolding totalsFrom_def
proof (intro allI impI)
  fix p e assume "map_of m' p = Some e"
  then have "(p, e) \<in> set m" using assms(2) map_of_SomeD by fastforce
  then have m: "map_of m p = Some e" using assms(1) by (simp add: sizesOk_def)
  show "map_of C p = Some e \<or> (reusable v p C = None \<and> (\<exists>n. (p, n) \<in> D \<and> (dsBytes e, dsFileCount e) = duWith v C n p))"
  proof (cases "\<exists>n. (p, n) \<in> D")
    case False
    then have "map_of m p = map_of C p" using assms(1) unfolding sizesOk_def by force
    then show ?thesis using m by simp
  next
    case True
    then obtain n where n: "(p, n) \<in> D" by blast
    show ?thesis
    proof (cases "reusable v p C")
      case (Some x)
      then show ?thesis using sizesOkD(1) [OF assms(1) n Some] m reusable_entry [OF Some] by simp
    next
      case None
      then show ?thesis using sizesOkD(2) [OF assms(1) n None m] n by blast
    qed
  qed
qed

lemma sizesOk_walk:
  assumes "sizesOk C D (peEnv q) (dcMap (sgCache g))" "set (dirsOf (peEnv q) (peTree q r) r) \<subseteq> D"
  shows "sizesOk C D (peEnv q) (dcMap (sgCache (walkRootOnce q r g))) \<and> dcFile (sgCache (walkRootOnce q r g)) = dcFile (sgCache g)"
proof -
  let ?v = "(peEnv q)\<lparr>weDone := peWalkDone q r\<rparr>" and ?st = "\<lparr>wsMap = dcMap (sgCache g), wsStepN = sgStepN g, wsPolls = 0\<rparr>"
  obtain x st where w: "walk ?v (peTree q r) r 0 ?st = (x, st)" by fastforce
  have "sizesOk C D ?v (wsMap st)" using sizes.walk_keeps(1) [OF _ _ w, of D C] assms by simp
  then show ?thesis using w by (simp add: walkRootOnce_def Let_def)
qed

text \<open>What a pass leaves: the map and, where it wrote it, the file.\<close>

definition passOk :: "sizeMap \<Rightarrow> (string \<times> fsNode) set \<Rightarrow> walkEnv \<Rightarrow> sizeFile \<Rightarrow> sizeGatherer \<Rightarrow> bool" where
  "passOk C D v f0 g \<longleftrightarrow> totalsFrom v C D (dcMap (sgCache g)) \<and> (dcFile (sgCache g) = f0 \<or> (\<exists>m. dcFile (sgCache g) = SEntries m \<and> totalsFrom v C D m))"

lemma passOk_persist: "sizesOk C D v (dcMap (sgCache g)) \<Longrightarrow> dcFile (sgCache g) = f0 \<Longrightarrow> passOk C D v f0 (sizePersist cfg g) \<and> passOk C D v f0 g"
  using totalsFrom_cap [OF _ enforceCap_subset] totalsFrom_cap [OF _ subset_refl] by (auto simp: passOk_def sizePersist_def sizeSave_def Let_def)

lemma passOk_loop:
  "sizesOk C D (peEnv q) (dcMap (sgCache g)) \<Longrightarrow> dcFile (sgCache g) = f0 \<Longrightarrow> \<forall>r\<in>set rs. set (dirsOf (peEnv q) (peTree q r) r) \<subseteq> D \<Longrightarrow>
   passOk C D (peEnv q) f0 (passLoop q rs dirty g)"
proof (induction q rs dirty g rule: passLoop.induct)
  case (1 q dirty g)
  then show ?case using passOk_persist [OF "1.prems"(1,2)] by (auto simp: Let_def passOk_def)
next
  case (2 q r rs dirty g)
  have w: "sizesOk C D (peEnv q) (dcMap (sgCache (walkRootOnce q r g)))" "dcFile (sgCache (walkRootOnce q r g)) = f0"
    using sizesOk_walk [OF "2.prems"(1)] "2.prems"(2,3) by auto
  show ?case using 2 w passOk_persist [OF w] passOk_persist [OF "2.prems"(1,2)] by (simp add: Let_def)
qed

lemma dirsOf_trans:
  "(p, k) \<in> set (dirsOf v n dir) \<Longrightarrow> set (dirsOf v k p) \<subseteq> set (dirsOf v n dir)"
  "(p, k) \<in> set (dirsIn v es dir) \<Longrightarrow> set (dirsOf v k p) \<subseteq> set (dirsIn v es dir)"
proof (induction v n dir and v es dir rule: dirsOf_dirsIn.induct)
  case (1 v n dir)
  show ?case
  proof (cases "(p, k) = (dir, n)")
    case False
    then obtain mt es where n: "n = FDir True mt es" "(p, k) \<in> set (dirsIn v es dir)"
      using "1.prems" by (auto simp: dirsOf.simps split: fsNode.splits bool.splits)
    have "set (dirsOf v k p) \<subseteq> set (dirsIn v es dir)" using "1.IH" n by simp
    then show ?thesis by (auto simp: n(1) dirsOf.simps [of v "FDir True mt es"])
  qed simp
next
  case (3 v name n es dir)
  show ?case
  proof (cases "(p, k) \<in> set (dirsIn v es dir)")
    case True
    then show ?thesis using "3.IH"(2) by (auto simp: dirsIn.simps)
  next
    case False
    then obtain ok mt ch where n: "n = FDir ok mt ch" "countedDir v name (pathJoin [dir, name])" "(p, k) \<in> set (dirsOf v n (pathJoin [dir, name]))"
      using "3.prems" by (cases n) (auto simp: dirsIn.simps split: if_splits)
    then show ?thesis using "3.IH"(1) [OF n(1,2,3)] by (auto simp: dirsIn.simps)
  qed
qed (simp add: dirsIn.simps)

text \<open>Where the fresh totals are up to date, they make no difference.\<close>

lemma duWith_du:
  "\<forall>(p, k)\<in>set (dirsOf v n dir). \<forall>e. reusable v p C = Some e \<longrightarrow> (dsBytes e, dsFileCount e) = du v k p \<Longrightarrow> duWith v C n dir = du v n dir"
  "\<forall>(p, k)\<in>set (dirsIn v es dir). \<forall>e. reusable v p C = Some e \<longrightarrow> (dsBytes e, dsFileCount e) = du v k p \<Longrightarrow> duWiths v C es dir = duEntries v es dir"
proof (induction v C n dir and v C es dir rule: duWith_duWiths.induct)
  case (1 v C n dir)
  show ?case
  proof (cases "reusable v dir C")
    case (Some e)
    then show ?thesis using "1.prems" by (simp add: duWith.simps dirsOf.simps)
  next
    case None
    show ?thesis
    proof (cases "\<exists>mt es. n = FDir True mt es")
      case True
      then obtain mt es where n: "n = FDir True mt es" by blast
      then show ?thesis using "1.IH" [OF None n] "1.prems" None by (simp add: duWith.simps du.simps dirsOf.simps)
    next
      case False
      then show ?thesis using None by (auto simp: duWith.simps du.simps split: fsNode.splits bool.splits)
    qed
  qed
next
  case (3 v C name n es dir)
  have rest: "duWiths v C es dir = duEntries v es dir" by (rule "3.IH"(1) [OF refl]) (use "3.prems" in \<open>simp add: dirsIn.simps\<close>)
  show ?case
  proof (cases "\<exists>ok mt ch. n = FDir ok mt ch \<and> countedDir v name (pathJoin [dir, name])")
    case True
    then obtain ok mt ch where n: "n = FDir ok mt ch" "countedDir v name (pathJoin [dir, name])" by blast
    have "duWith v C n (pathJoin [dir, name]) = du v n (pathJoin [dir, name])"
      by (rule "3.IH"(2) [OF refl refl n]) (use "3.prems" n in \<open>simp add: dirsIn.simps\<close>)
    then show ?thesis using n rest by (simp add: duWiths.simps duEntries.simps Let_def)
  next
    case False
    then show ?thesis using rest by (auto simp: duWiths.simps duEntries.simps Let_def split: fsNode.splits option.splits)
  qed
qed (simp add: duWiths.simps duEntries.simps)

section \<open>What a walk leaves alone\<close>

lemma visible_weDone [simp]: "visible (v\<lparr>weDone := w\<rparr>) n dir = visible v n dir" "visibleIn (v\<lparr>weDone := w\<rparr>) es dir = visibleIn v es dir"
  by (induction v n dir and v es dir rule: visible_visibleIn.induct)
    (auto simp: visible.simps visibleIn.simps Let_def split: fsNode.split)

lemma walk_visible:
  "walk v (visible v n dir) dir depth st = walk v n dir depth st"
  "walkEntries v (visibleIn v es dir) dir depth tot st = walkEntries v es dir depth tot st"
proof (induction v n dir depth st and v es dir depth tot st rule: walk_walkEntries.induct)
  case (1 v node dir depth0 st)
  obtain d st1 where p: "poll v st = (d, st1)" by fastforce
  let ?depth = "if dir \<in> set (weAnchors v) then 0 else depth0"
  show ?case
  proof (cases "\<exists>mt es. node = FDir True mt es \<and> \<not> d \<and> reusable v dir (wsMap st1) = None")
    case True
    then obtain mt es where n: "node = FDir True mt es" "\<not> d" "reusable v dir (wsMap st1) = None" by blast
    have "walkEntries v (visibleIn v es dir) dir ?depth (0, 0) st1 = walkEntries v es dir ?depth (0, 0) st1"
      using "1.IH" [OF p [symmetric] _ refl n(3) n(1)] n(2) by simp
    then show ?thesis using p n by (simp add: walk.simps visible.simps)
  next
    case False
    then show ?thesis using p by (auto simp: walk.simps visible.simps split: fsNode.split bool.split option.split)
  qed
next
  case (2 v dir depth tot st)
  then show ?case by (simp add: visibleIn.simps)
next
  case (3 v name n es dir depth tot st)
  let ?child = "pathJoin [dir, name]"
  show ?case
  proof (cases "n = FLink \<or> skipChild v name ?child")
    case True
    then show ?thesis using "3.IH"(1) [OF refl True] by (auto simp: visibleIn.simps walkEntries.simps Let_def)
  next
    case ns: False
    show ?thesis
    proof (cases n)
      case (FFile x)
      then show ?thesis using "3.IH"(2,3) [OF refl ns FFile] ns by (cases x) (auto simp: visibleIn.simps walkEntries.simps Let_def)
    next
      case FOther
      then show ?thesis using "3.IH"(5) [OF refl ns FOther] ns by (auto simp: visibleIn.simps walkEntries.simps Let_def)
    next
      case (FDir ok mt ch)
      show ?thesis
      proof (cases "SkipReason (weGuard v) ?child = None")
        case False
        then show ?thesis using "3.IH"(6) [OF refl ns FDir False] ns FDir by (auto simp: visibleIn.simps walkEntries.simps Let_def)
      next
        case True
        have w: "walk v (visible v n ?child) ?child (depth + 1) st = walk v n ?child (depth + 1) st" using "3.IH"(7) [OF refl ns FDir] True by simp
        obtain ch' where vis: "visible v n ?child = FDir ok mt ch'" by (simp add: visible.simps FDir)
        have e: "walkEntries v (visibleIn v ((name, n) # es) dir) dir depth tot st =
            (case walk v n ?child (depth + 1) st of
               (None, st1) \<Rightarrow> (None, st1)
             | (Some (b, c), st1) \<Rightarrow> walkEntries v (visibleIn v es dir) dir depth (fst tot + b, snd tot + c) st1)"
          using ns True FDir vis w by (simp add: visibleIn.simps walkEntries.simps Let_def)
        obtain x st1 where x: "walk v n ?child (depth + 1) st = (x, st1)" by fastforce
        show ?thesis
        proof (cases x)
          case None
          then show ?thesis unfolding e using ns True FDir x by (simp add: walkEntries.simps)
        next
          case (Some t)
          obtain b c where t: "t = (b, c)" by fastforce
          have "walkEntries v (visibleIn v es dir) dir depth (fst tot + b, snd tot + c) st1 = walkEntries v es dir depth (fst tot + b, snd tot + c) st1"
            using "3.IH"(8) [OF refl ns FDir _ x [symmetric] Some t [symmetric]] True by simp
          then show ?thesis unfolding e using ns True FDir x Some t by (simp add: walkEntries.simps)
        qed
      qed
    qed (use ns in simp)
  qed
qed

lemma passLoop_visible:
  "\<forall>r\<in>set rs. visible (peEnv q) (T r) r = visible (peEnv q) (peTree q r) r \<Longrightarrow> passLoop (q\<lparr>peTree := T\<rparr>) rs dirty g = passLoop q rs dirty g"
proof (induction q rs dirty g rule: passLoop.induct)
  case (2 q r rs dirty g)
  have "walk ((peEnv q)\<lparr>weDone := w\<rparr>) (T r) r 0 st = walk ((peEnv q)\<lparr>weDone := w\<rparr>) (peTree q r) r 0 st" for w st
    by (metis walk_visible(1) visible_weDone(1) "2.prems" list.set_intros(1))
  then have "walkRootOnce (q\<lparr>peTree := T\<rparr>) r g = walkRootOnce q r g" by (simp add: walkRootOnce_def)
  then show ?case using 2 by (simp add: Let_def)
qed simp

text \<open>C30. What a pass of the gatherer leaves, whatever the cache held before, however old, and whatever times out or is cancelled: a total in the cache, and in
  the file the pass wrote, is either the entry from before or one for a directory that had no fresh entry, and then it is the
  bytes and files on disk with exactly the directories whose entry is still fresh counted at their cached total (\<open>duWith\<close>); so
  where no fresh total below is out of date it is the total \<open>du\<close>. And the walk enters nothing it is to leave alone: whatever lies in an excluded place or below a foreign
  mount under the roots, the pass does the same. The trees of overlapping roots are taken to be views of one disk.\<close>

theorem runPass_sizes_right:
  assumes "D = (\<Union>r\<in>set (sizeRoots (weCfg (peEnv q)) (weExcludes (peEnv q))). set (dirsOf (peEnv q) (peTree q r) r))" "functional D"
    "distinct (map fst (dcMap (sgCache g)))"
  shows "totalsFrom (peEnv q) (dcMap (sgCache g)) D (dcMap (sgCache (runPass q g))) \<and>
    (\<forall>m. dcFile (sgCache (runPass q g)) = SEntries m \<longrightarrow> SEntries m \<noteq> dcFile (sgCache g) \<longrightarrow> totalsFrom (peEnv q) (dcMap (sgCache g)) D m) \<and>
    (\<forall>(p, n)\<in>D. (\<forall>(p', k)\<in>set (dirsOf (peEnv q) n p). \<forall>e. reusable (peEnv q) p' (dcMap (sgCache g)) = Some e \<longrightarrow> (dsBytes e, dsFileCount e) = du (peEnv q) k p') \<longrightarrow>
       duWith (peEnv q) (dcMap (sgCache g)) n p = du (peEnv q) n p) \<and>
    (\<forall>T. (\<forall>r\<in>set (sizeRoots (weCfg (peEnv q)) (weExcludes (peEnv q))). visible (peEnv q) (T r) r = visible (peEnv q) (peTree q r) r) \<longrightarrow>
       runPass (q\<lparr>peTree := T\<rparr>) g = runPass q g)"
proof -
  let ?C = "dcMap (sgCache g)" and ?v = "peEnv q" and ?rs = "sizeRoots (weCfg (peEnv q)) (weExcludes (peEnv q))"
  define g1 where "g1 = (if sgFirstPass g \<or> guardSignature (weGuard (peEnv q)) \<noteq> sgGuardSig g then g\<lparr>sgGuardSig := guardSignature (weGuard (peEnv q))\<rparr> else g)"
  have g1: "dcMap (sgCache g1) = ?C" "dcFile (sgCache g1) = dcFile (sgCache g)" by (simp_all add: g1_def)
  have "sizesOk ?C D ?v (dcMap (sgCache g1))" unfolding g1 using assms(2,3) by (auto simp: sizesOk_def dest: reusable_entry split: option.split)
  then have "passOk ?C D ?v (dcFile (sgCache g)) (passLoop q ?rs False g1)" by (rule passOk_loop [OF _ g1(2)]) (auto simp: assms(1))
  then have ok: "passOk ?C D ?v (dcFile (sgCache g)) (runPass q g)" by (simp add: runPass_def g1_def Let_def)
  then have tot: "totalsFrom ?v ?C D (dcMap (sgCache (runPass q g)))" by (simp add: passOk_def)
  have f: "dcFile (sgCache (runPass q g)) = SEntries m \<Longrightarrow> SEntries m \<noteq> dcFile (sgCache g) \<Longrightarrow> totalsFrom ?v ?C D m" for m
    using ok unfolding passOk_def by (metis sizeFile.inject)
  have du: "duWith ?v ?C n p = du ?v n p" if "\<forall>(p', k)\<in>set (dirsOf ?v n p). \<forall>e. reusable ?v p' ?C = Some e \<longrightarrow> (dsBytes e, dsFileCount e) = du ?v k p'" for n p
    by (rule duWith_du(1) [OF that])
  have vis: "runPass (q\<lparr>peTree := T\<rparr>) g = runPass q g" if "\<forall>r\<in>set ?rs. visible ?v (T r) r = visible ?v (peTree q r) r" for T
    using passLoop_visible [of ?rs q T] that by (simp add: runPass_def Let_def)
  show ?thesis by (intro conjI allI impI ballI prod.case_eq_if [THEN iffD2] tot f vis) (auto intro!: du)
qed

definition exCfg :: sizeCfg where
  "exCfg = \<lparr>scBackupRoots = [''/d'', ''/d/''], scBackupExcludePaths = [], scTreeSizeExcludePaths = [''/d/x''], scLargeFileThreshold = 50000,
     scSlowWalk = 30000000000, scLargeRefresh = 86400000000000, scSmallRefresh = 21600000000000, scStepSleep = 2000000, scStepEvery = 1,
     scKeepDepth = 0, scKeepMinFiles = 2, scMaxEntries = 10\<rparr>"

definition exTree :: fsNode where
  "exTree = FDir True (Some 1) [(''a'', FFile (Some 5)), (''l'', FLink), (''s'', FDir True (Some 1) [(''b'', FFile (Some 7)), (''c'', FFile None)]),
     (''tmp'', FDir True (Some 1) [(''t'', FFile (Some 9))]), (''x'', FDir True (Some 1) [(''t'', FFile (Some 9))])]"

definition exEmptied :: fsNode where
  "exEmptied = FDir True (Some 1) [(''a'', FFile (Some 5)), (''l'', FLink), (''s'', FDir True (Some 1) [(''b'', FFile (Some 7)), (''c'', FFile None)]),
     (''x'', FDir False (Some 2) [])]"

definition exWalk :: walkEnv where
  "exWalk = \<lparr>weCfg = exCfg, weExcludes = excludePaths exCfg None, weGuard = None, weAnchors = [], weNow = (\<lambda>_. 10 ^ 18), weWalkMS = (\<lambda>_. 1), weDone = (\<lambda>_. False)\<rparr>"

definition exPass :: passEnv where
  "exPass = \<lparr>peEnv = exWalk, peTree = (\<lambda>_. exTree), peNow = 10 ^ 18, peAttempt = (\<lambda>_. 10 ^ 18), peStop = (\<lambda>_. False), peWalkDone = (\<lambda>_ _. False), peCancelled = (\<lambda>_. False)\<rparr>"

definition exGatherer :: sizeGatherer where
  "exGatherer = newSizeGatherer \<lparr>dcMap = [(''/d/s'', \<lparr>dsBytes = 8, dsFileCount = 1, dsComputedAtS = 999999999, dsLastWalkMS = 0\<rparr>)], dcFile = SNoFile,
     dcLegacy = False, dcRemoveErr = False, dcSaveErr = False\<rparr>"

lemma functional_distinct: "distinct (map fst xs) \<Longrightarrow> functional (set xs)"
  unfolding functional_def by (metis map_of_is_SomeI option.inject)

lemma exRoots: "sizeRoots (weCfg (peEnv exPass)) (weExcludes (peEnv exPass)) = [''/d'']"
  by code_simp

lemma exDirs: "(\<Union>r\<in>set (sizeRoots (weCfg (peEnv exPass)) (weExcludes (peEnv exPass))). set (dirsOf (peEnv exPass) (peTree exPass r) r)) = set (dirsOf exWalk exTree ''/d'')"
  by (simp add: exRoots) (simp add: exPass_def)

text \<open>Witness: the fresh total of one directory (8 bytes, of yesterday) is older than the file there now (7 bytes); the pass counts the
  directory at it, and what lies in an excluded place is not counted.\<close>

theorem runPass_sizes_right_witness:
  "totalsFrom exWalk (dcMap (sgCache exGatherer)) (set (dirsOf exWalk exTree ''/d'')) (dcMap (sgCache (runPass exPass exGatherer))) \<and>
   runPass (exPass\<lparr>peTree := (\<lambda>_. exEmptied)\<rparr>) exGatherer = runPass exPass exGatherer \<and>
   SizeOf (sgCache (runPass exPass exGatherer)) ''/d'' = Some 13 \<and> duWith exWalk (dcMap (sgCache exGatherer)) exTree ''/d'' = (13, 2) \<and> du exWalk exTree ''/d'' = (12, 2)"
proof -
  have d: "distinct (map fst (dirsOf exWalk exTree ''/d''))" by code_simp
  have k: "distinct (map fst (dcMap (sgCache exGatherer)))" by code_simp
  have t: "peEnv exPass = exWalk" by (simp add: exPass_def)
  have "visible exWalk exEmptied ''/d'' = visible exWalk exTree ''/d''" by code_simp
  then have vis: "\<forall>r\<in>set (sizeRoots (weCfg (peEnv exPass)) (weExcludes (peEnv exPass))). visible (peEnv exPass) exEmptied r = visible (peEnv exPass) (peTree exPass r) r"
    by (simp add: exRoots) (simp add: exPass_def)
  have v: "SizeOf (sgCache (runPass exPass exGatherer)) ''/d'' = Some 13" "duWith exWalk (dcMap (sgCache exGatherer)) exTree ''/d'' = (13, 2)"
    "du exWalk exTree ''/d'' = (12, 2)" by code_simp+
  note th = runPass_sizes_right [OF exDirs [symmetric] functional_distinct [OF d] k]
  show ?thesis using conjunct1 [OF th] conjunct2 [OF conjunct2 [OF conjunct2 [OF th]], rule_format, of "\<lambda>_. exEmptied"] vis v by (simp add: t)
qed

section \<open>Results of a walk\<close>

lemma walk_returns:
  "\<forall>k. \<not> weDone v k \<Longrightarrow> fst (walk v n dir depth st) \<noteq> None"
  "\<forall>k. \<not> weDone v k \<Longrightarrow> fst (walkEntries v es dir depth tot st) \<noteq> None"
proof (induction v n dir depth st and v es dir depth tot st rule: walk_walkEntries.induct)
  case (1 v n dir depth st)
  have f: "fst (finishDir v dir k tot s) \<noteq> None" for k tot s
    using "1.prems" by (simp add: finishDir_def poll_def throttle_def Let_def)
  show ?case
  proof (cases "\<exists>mt es. n = FDir True mt es \<and> reusable v dir (wsMap (snd (poll v st))) = None")
    case True
    then obtain mt es where n: "n = FDir True mt es" "reusable v dir (wsMap (snd (poll v st))) = None" by blast
    have "fst (walkEntries v es dir (if dir \<in> set (weAnchors v) then 0 else depth) (0, 0) (snd (poll v st))) \<noteq> None"
      using "1.IH" [OF prod.collapse, of "if dir \<in> set (weAnchors v) then 0 else depth"] n "1.prems" by (simp add: poll_def)
    then show ?thesis using n f "1.prems" by (cases "dir \<in> set (weAnchors v)") (auto simp: walk.simps poll_def split: prod.splits option.splits)
  next
    case False
    then show ?thesis using f "1.prems" by (auto simp: walk.simps poll_def Let_def split: option.splits fsNode.splits bool.splits)
  qed
next
  case (3 v name n es dir depth tot st)
  let ?child = "pathJoin [dir, name]"
  show ?case
  proof (cases "\<exists>ok mt ch. n = FDir ok mt ch \<and> \<not> skipChild v name ?child \<and> SkipReason (weGuard v) ?child = None")
    case True
    then obtain ok mt ch where n: "n = FDir ok mt ch" and ns: "\<not> (n = FLink \<or> skipChild v name ?child)" and g: "\<not> SkipReason (weGuard v) ?child \<noteq> None" by auto
    have "fst (walk v n ?child (depth + 1) st) \<noteq> None" by (rule "3.IH"(7) [OF refl ns n g "3.prems"])
    then obtain a b st1 where w: "walk v n ?child (depth + 1) st = (Some (a, b), st1)" by (cases "walk v n ?child (depth + 1) st") auto
    have "fst (walkEntries v es dir depth (fst tot + a, snd tot + b) st1) \<noteq> None" by (rule "3.IH"(8) [OF refl ns n g w [symmetric] refl refl "3.prems"])
    then show ?thesis using n ns g w by (simp add: walkEntries.simps)
  next
    case False
    then show ?thesis using "3.IH"(1-6) [OF refl] "3.prems" by (auto simp: walkEntries.simps Let_def split: fsNode.splits option.splits)
  qed
qed (simp add: walkEntries.simps)

text \<open>A walk counts what it is to count: as long as the context lives it finishes, and when it finishes its result is the total of
  the directory with the fresh cached totals taken as they are, wherever the caps and the cancellation of earlier walks left gaps.\<close>

theorem walk_exact:
  assumes "distinct (map fst (dirsOf v n dir))" "distinct (map fst (wsMap st))" "walk v n dir depth st = (r, st')"
  shows "(r = None \<or> r = Some (duWith v (wsMap st) n dir)) \<and> ((\<forall>k. \<not> weDone v k) \<longrightarrow> r = Some (duWith v (wsMap st) n dir))"
proof -
  have "sizesOk (wsMap st) (set (dirsOf v n dir)) v (wsMap st)"
    using assms functional_distinct by (auto simp: sizesOk_def dest: reusable_entry split: option.split)
  from sizes.walk_keeps(1) [OF subset_refl this assms(3)] walk_returns(1) [of v n dir depth st] assms(3)
  show ?thesis by (cases r) auto
qed

text \<open>Witness.\<close>

theorem walk_exact_witness:
  "fst (walk exWalk exTree ''/d'' 0 \<lparr>wsMap = dcMap (sgCache exGatherer), wsStepN = 0, wsPolls = 0\<rparr>) = Some (13, 2)"
proof -
  have d: "distinct (map fst (dirsOf exWalk exTree ''/d''))" by code_simp
  have k: "distinct (map fst (dcMap (sgCache exGatherer)))" by code_simp
  have "duWith exWalk (dcMap (sgCache exGatherer)) exTree ''/d'' = (13, 2)" by code_simp
  then show ?thesis using walk_exact [OF d _ surjective_pairing] k by (simp add: exWalk_def)
qed

section \<open>Bounds\<close>

text \<open>The cap is a cap and evicts the cheapest: after \<open>enforceCap\<close> with a positive limit at most that many entries are left,
  none is changed or added, and every evicted entry has at most as many files below it as every kept one.\<close>

theorem enforceCap_keeps_largest:
  assumes "0 < maxN" "distinct (map fst m)"
  shows "int (length (snd (enforceCap maxN m))) \<le> maxN \<and> set (snd (enforceCap maxN m)) \<subseteq> set m \<and>
    fst (enforceCap maxN m) + length (snd (enforceCap maxN m)) = length m \<and>
    (\<forall>kv\<in>set m - set (snd (enforceCap maxN m)). \<forall>kv'\<in>set (snd (enforceCap maxN m)). dsFileCount (snd kv) \<le> dsFileCount (snd kv'))"
proof (cases "int (length m) \<le> maxN")
  case True
  then show ?thesis using assms(1) by (simp add: enforceCap_def)
next
  case False
  let ?s = "sort_key (\<lambda>kv. - dsFileCount (snd kv)) m" and ?n = "nat maxN"
  let ?v = "drop ?n ?s"
  have e: "enforceCap maxN m = (length ?v, filter (\<lambda>kv. fst kv \<notin> fst ` set ?v) m)" using False assms(1) by (simp add: enforceCap_def Let_def)
  have d: "distinct (map fst ?s)" using assms(2) by (simp add: distinct_map)
  have sub: "fst x \<in> fst ` set ?v \<longleftrightarrow> x \<in> set ?v" if "x \<in> set m" for x
  proof
    assume "fst x \<in> fst ` set ?v"
    then obtain y where y: "y \<in> set ?v" "fst y = fst x" by force
    have "y \<in> set ?s" "x \<in> set ?s" using y(1) that set_drop_subset by (fastforce, simp)
    then have "y = x" using d y(2) by (simp add: distinct_map inj_on_def)
    then show "x \<in> set ?v" using y by simp
  qed simp
  have kept: "set (filter (\<lambda>kv. fst kv \<notin> fst ` set ?v) m) = set m - set ?v" using sub by auto
  have dm: "distinct m" using assms(2) by (simp add: distinct_map)
  have tk: "set m - set ?v = set (take ?n ?s)"
  proof -
    have "distinct (take ?n ?s @ drop ?n ?s)" using dm by simp
    then have "set (take ?n ?s) \<inter> set ?v = {}" by (simp only: distinct_append)
    moreover have "set m = set (take ?n ?s) \<union> set ?v" by (metis append_take_drop_id set_append set_sort)
    ultimately show ?thesis by blast
  qed
  have "length (filter (\<lambda>kv. fst kv \<notin> fst ` set ?v) m) = card (set (take ?n ?s))"
    using dm kept tk by (metis distinct_card distinct_filter)
  also have "\<dots> = length (take ?n ?s)" using dm by (intro distinct_card) simp
  finally have len: "length (filter (\<lambda>kv. fst kv \<notin> fst ` set ?v) m) = ?n" using False assms(1) by simp
  have "sorted (map (\<lambda>kv. - dsFileCount (snd kv)) (take ?n ?s @ ?v))" by simp
  then have "\<forall>a\<in>set (map (\<lambda>kv. - dsFileCount (snd kv)) (take ?n ?s)). \<forall>b\<in>set (map (\<lambda>kv. - dsFileCount (snd kv)) ?v). a \<le> b"
    unfolding map_append sorted_append by blast
  then have ord: "- dsFileCount (snd y) \<le> - dsFileCount (snd x)" if "y \<in> set (take ?n ?s)" "x \<in> set ?v" for x y
    using that unfolding set_map by blast
  show ?thesis
  proof (intro conjI ballI)
    show "int (length (snd (enforceCap maxN m))) \<le> maxN" using len assms(1) by (simp add: e)
    show "set (snd (enforceCap maxN m)) \<subseteq> set m" by (auto simp: e)
    show "fst (enforceCap maxN m) + length (snd (enforceCap maxN m)) = length m" using len False assms(1) by (simp add: e)
    fix kv kv' assume "kv \<in> set m - set (snd (enforceCap maxN m))" "kv' \<in> set (snd (enforceCap maxN m))"
    then have "kv \<in> set ?v" "kv' \<in> set (take ?n ?s)" unfolding e snd_conv kept tk [symmetric] by auto
    then show "dsFileCount (snd kv) \<le> dsFileCount (snd kv')" using ord by fastforce
  qed
qed

text \<open>Witness.\<close>

theorem enforceCap_keeps_largest_witness:
  "map fst (snd (enforceCap 1 [(''/a'', \<lparr>dsBytes = 1, dsFileCount = 3, dsComputedAtS = 0, dsLastWalkMS = 0\<rparr>),
     (''/b'', \<lparr>dsBytes = 1, dsFileCount = 8, dsComputedAtS = 0, dsLastWalkMS = 0\<rparr>)])) = [''/b''] \<and>
   int (length (snd (enforceCap 1 [(''/a'', \<lparr>dsBytes = 1, dsFileCount = 3, dsComputedAtS = 0, dsLastWalkMS = 0\<rparr>),
     (''/b'', \<lparr>dsBytes = 1, dsFileCount = 8, dsComputedAtS = 0, dsLastWalkMS = 0\<rparr>)]))) \<le> 1"
proof
  show "map fst (snd (enforceCap 1 [(''/a'', \<lparr>dsBytes = 1, dsFileCount = 3, dsComputedAtS = 0, dsLastWalkMS = 0\<rparr>),
     (''/b'', \<lparr>dsBytes = 1, dsFileCount = 8, dsComputedAtS = 0, dsLastWalkMS = 0\<rparr>)])) = [''/b'']" by code_simp
qed (rule enforceCap_keeps_largest [THEN conjunct1], simp_all)

lemma nextDue_le: "nextDue cfg g rs nxt = Some d \<Longrightarrow> d \<le> nxt"
  by (induction rs arbitrary: nxt) (fastforce simp: Let_def split: option.splits if_splits)+

lemma nextDue_due:
  "nextDue cfg g rs nxt = Some d \<Longrightarrow> r \<in> set rs \<Longrightarrow> \<exists>t. map_of (sgLastAttempt g) r = Some t \<and>
     d \<le> t + (case map_of (dcMap (sgCache g)) r of None \<Rightarrow> scSmallRefresh cfg | Some e \<Rightarrow> cadence cfg e)"
proof (induction rs arbitrary: nxt)
  case (Cons x rs)
  then obtain t where t: "map_of (sgLastAttempt g) x = Some t" by (auto split: option.splits)
  let ?d = "t + (case map_of (dcMap (sgCache g)) x of None \<Rightarrow> scSmallRefresh cfg | Some e \<Rightarrow> cadence cfg e)"
  have n: "nextDue cfg g rs (if ?d < nxt then ?d else nxt) = Some d" using Cons.prems(1) t by (simp add: Let_def)
  have "d \<le> ?d" using nextDue_le [OF n] by (simp split: if_splits)
  then show ?case using Cons.IH [OF n] Cons.prems(2) t by auto
qed simp

text \<open>The sleep between passes is at least a minute and at most the longer of a minute and the small refresh interval, and
  unless that minimum cuts in, no root has been due before it ends.\<close>

theorem untilNextDue_bounds:
  assumes "now \<le> now'"
  shows "minSleep \<le> untilNextDue cfg ex g now now' \<and> untilNextDue cfg ex g now now' \<le> max minSleep (scSmallRefresh cfg) \<and>
    (minSleep < untilNextDue cfg ex g now now' \<longrightarrow> (\<forall>r\<in>set (sizeRoots cfg ex). \<exists>t. map_of (sgLastAttempt g) r = Some t \<and>
       now' + untilNextDue cfg ex g now now' \<le> t + (case map_of (dcMap (sgCache g)) r of None \<Rightarrow> scSmallRefresh cfg | Some e \<Rightarrow> cadence cfg e)))"
proof (cases "nextDue cfg g (sizeRoots cfg ex) (now + scSmallRefresh cfg)")
  case None
  then show ?thesis by (simp add: untilNextDue_def)
next
  case (Some d)
  then have u: "untilNextDue cfg ex g now now' = max minSleep (d - now')" by (simp add: untilNextDue_def Let_def max_def)
  show ?thesis unfolding u using nextDue_le [OF Some] nextDue_due [OF Some] assms by (auto simp: max_def)
qed

text \<open>Witness.\<close>

theorem untilNextDue_bounds_witness: "minSleep \<le> untilNextDue exCfg [] (runPass exPass exGatherer) (10 ^ 18) (10 ^ 18 + 5)"
  using untilNextDue_bounds [of "10 ^ 18" "10 ^ 18 + 5"] by simp

section \<open>Files and stops\<close>

text \<open>A restart resumes from the last save: what \<open>save\<close> wrote, \<open>load\<close> reads into a fresh cache, whatever became of the
  file of the old format; a failed save leaves the previous file, and loading a missing, empty or malformed file
  leaves the cache as it was.\<close>

theorem sizeSave_load_roundtrip:
  assumes "sizeSave c = (ok, c')"
  shows "(ok \<longrightarrow> dcMap (sizeLoad (c'\<lparr>dcMap := []\<rparr>)) = dcMap c) \<and> (\<not> ok \<longrightarrow> c' = c) \<and>
    (dcFile c \<in> {SNoFile, SUnreadable, SEmpty, SMalformed} \<longrightarrow> dcMap (sizeLoad c) = dcMap c)"
  using assms by (auto simp: sizeSave_def sizeLoad_def Let_def split: if_splits)

text \<open>Witness.\<close>

theorem sizeSave_load_roundtrip_witness:
  "dcMap (sizeLoad ((snd (sizeSave (sgCache exGatherer)))\<lparr>dcMap := []\<rparr>)) = dcMap (sgCache exGatherer)"
proof -
  have s: "sizeSave (sgCache exGatherer) = (True, snd (sizeSave (sgCache exGatherer)))" by (simp add: sizeSave_def exGatherer_def newSizeGatherer_def)
  show ?thesis using sizeSave_load_roundtrip [OF s] by blast
qed

text \<open>What a stop costs: a pass that is cancelled while it walks saves its progress, but a stop that is only seen when the
  next root is reached returns without saving, so the sizes computed in that pass are lost with the process.\<close>

theorem stop_discards_pass:
  assumes "peStop q r" "rs = us @ r # ws" "\<forall>u\<in>set us. \<not> peStop q u \<and> \<not> peCancelled q u"
  shows "dcFile (sgCache (passLoop q rs dirty g)) = dcFile (sgCache g)"
  using assms(2,3)
proof (induction us arbitrary: rs dirty g)
  case Nil
  then show ?case using assms(1) by simp
next
  case (Cons u us)
  have "dcFile (sgCache (walkRootOnce q u g)) = dcFile (sgCache g)" by (simp add: walkRootOnce_def Let_def)
  then show ?case using Cons.IH [of "us @ r # ws"] Cons.prems by (simp add: Let_def)
qed

text \<open>Witness: the first root is walked, the stop is seen at the second.\<close>

theorem stop_discards_pass_witness:
  "let q = exPass\<lparr>peStop := (\<lambda>r. r = ''/e'')\<rparr>; g = passLoop q [''/d'', ''/e''] False exGatherer
   in dcFile (sgCache g) = SNoFile \<and> SizeOf (sgCache g) ''/d'' = Some 13"
proof -
  let ?q = "exPass\<lparr>peStop := (\<lambda>r. r = ''/e'')\<rparr>"
  have "SizeOf (sgCache (passLoop ?q [''/d'', ''/e''] False exGatherer)) ''/d'' = Some 13" by code_simp
  moreover have "dcFile (sgCache (passLoop ?q [''/d'', ''/e''] False exGatherer)) = dcFile (sgCache exGatherer)"
    by (rule stop_discards_pass [of _ "''/e''" _ "[''/d'']" "[]"]) (simp_all add: exPass_def)
  ultimately show ?thesis by (simp add: exGatherer_def newSizeGatherer_def)
qed

end
