(* ===== verification/Trees.thy ===== *)
theory Trees
  imports TreeSizes "HOL-Library.Sublist"
begin

text \<open>
  The directory trees pushed to the controller (trees.go): the structural walk with its cache of modification times,
  the sizes stamped on the nodes at push time, and the manifest-first protocol of a lane. Nodes are objects on a heap
  \<open>twHeap\<close>, a pointer being an index: the cached nodes of one push are shared by the next, and stamped again there. The
  entries of a directory come in the order \<open>os.ReadDir\<close> returns them. The hash of a tree and the answers of the controller
  are arguments. The theorems compare the walk with the listing it stands for, with what the cache puts in its place, and say
  what a lane sends.
\<close>

section \<open>Nodes\<close>

definition treeMaxDepth :: nat where "treeMaxDepth = 5"

definition treeMaxFilesPerDir :: nat where "treeMaxFilesPerDir = 100"

datatype nodeType = TDirectory | TFile | TTruncated

record treeObj =
  toName :: string
  toPath :: string
  toType :: nodeType
  toFileCount :: nat
  toSize :: int

datatype treeNode = TNode nat "treeNode list"

record treeWalker =
  twCache :: "(string \<times> int \<times> treeNode list) list"
  twHeap :: "treeObj list"

record treeCfg =
  tcBackupRoots :: "string list"
  tcBackupExcludePaths :: "string list"

definition newTreeWalker :: treeWalker where
  "newTreeWalker = \<lparr>twCache = [], twHeap = []\<rparr>"

definition allocNode :: "treeObj \<Rightarrow> treeNode list \<Rightarrow> treeWalker \<Rightarrow> treeNode \<times> treeWalker" where
  "allocNode ob ch w = (TNode (length (twHeap w)) ch, w\<lparr>twHeap := twHeap w @ [ob]\<rparr>)"

definition dirObj :: "string \<Rightarrow> string \<Rightarrow> treeObj" where
  "dirObj name path = \<lparr>toName = name, toPath = path, toType = TDirectory, toFileCount = 0, toSize = 0\<rparr>"

definition fileObj :: "string \<Rightarrow> string \<times> int option \<Rightarrow> treeObj" where
  "fileObj dir f = \<lparr>toName = fst f, toPath = pathJoin [dir, fst f], toType = TFile, toFileCount = 0, toSize = (case snd f of None \<Rightarrow> 0 | Some b \<Rightarrow> b)\<rparr>"

definition markerObj :: "string \<Rightarrow> nat \<Rightarrow> treeObj" where
  "markerObj dir n = \<lparr>toName = natDigits n @ '' files (too many to list)'', toPath = dir, toType = TTruncated, toFileCount = n, toSize = 0\<rparr>"

section \<open>The walk\<close>

definition skipEntry :: "treeCfg \<Rightarrow> string \<Rightarrow> string \<Rightarrow> bool" where
  "skipEntry cfg name child \<longleftrightarrow> name \<in> set excludeBasenames \<or> isDuplicacyWebCache child \<or> pathUnderAny child (tcBackupExcludePaths cfg)"

fun allocFiles :: "string \<Rightarrow> (string \<times> int option) list \<Rightarrow> treeWalker \<Rightarrow> treeNode list \<times> treeWalker" where
  "allocFiles dir [] w = ([], w)"
| "allocFiles dir (f # fs) w =
     (case allocNode (fileObj dir f) [] w of (n, w1) \<Rightarrow> (case allocFiles dir fs w1 of (ns, w2) \<Rightarrow> (n # ns, w2)))"

definition listFiles :: "string \<Rightarrow> (string \<times> int option) list \<Rightarrow> treeWalker \<Rightarrow> treeNode list \<times> treeWalker" where
  "listFiles dir files w =
     (if length files > treeMaxFilesPerDir
      then (case allocNode (markerObj dir (length files)) [] w of (t, w1) \<Rightarrow> ([t], w1))
      else allocFiles dir files w)"

definition finishListing :: "string \<Rightarrow> int \<Rightarrow> treeNode list \<Rightarrow> (string \<times> int option) list \<Rightarrow> treeWalker \<Rightarrow> treeNode list \<times> treeWalker" where
  "finishListing dir mtime dirs files w =
     (case listFiles dir files w of (fs, w1) \<Rightarrow> (dirs @ fs, w1\<lparr>twCache := AList.update dir (mtime, dirs @ fs) (twCache w1)\<rparr>))"

definition cachedChildren :: "string \<Rightarrow> int \<Rightarrow> treeWalker \<Rightarrow> treeNode list option" where
  "cachedChildren dir mtime w = (case map_of (twCache w) dir of None \<Rightarrow> None | Some (m, ch) \<Rightarrow> if m = mtime then Some ch else None)"

fun walkDir :: "treeCfg \<Rightarrow> fsNode \<Rightarrow> string \<Rightarrow> int \<Rightarrow> nat \<Rightarrow> treeWalker \<Rightarrow> treeNode list \<times> treeWalker"
  and walkListing :: "treeCfg \<Rightarrow> (string \<times> fsNode) list \<Rightarrow> string \<Rightarrow> nat \<Rightarrow> treeWalker \<Rightarrow> treeNode list \<times> (string \<times> int option) list \<times> treeWalker" where
  "walkDir cfg node dir mtime depth w =
     (if depth \<ge> treeMaxDepth then ([], w)
      else case cachedChildren dir mtime w of
        Some ch \<Rightarrow> (ch, w)
      | None \<Rightarrow>
          (case node of
             FDir True _ es \<Rightarrow> (case walkListing cfg es dir depth w of (dirs, files, w1) \<Rightarrow> finishListing dir mtime dirs files w1)
           | _ \<Rightarrow> ([], w)))"
| "walkListing cfg [] dir depth w = ([], [], w)"
| "walkListing cfg ((name, n) # es) dir depth w =
     (let child = pathJoin [dir, name]
      in if n = FLink \<or> skipEntry cfg name child then walkListing cfg es dir depth w
         else case n of
           FDir _ (Some m) _ \<Rightarrow>
             (case walkDir cfg n child m (Suc depth) w of
                (ch, w1) \<Rightarrow>
                  (case allocNode (dirObj name child) ch w1 of
                     (t, w2) \<Rightarrow> (case walkListing cfg es dir depth w2 of (dirs, files, w3) \<Rightarrow> (t # dirs, files, w3))))
         | FFile sz \<Rightarrow> (case walkListing cfg es dir depth w of (dirs, files, w1) \<Rightarrow> (dirs, (name, sz) # files, w1))
         | _ \<Rightarrow> walkListing cfg es dir depth w)"

text \<open>\<open>lstat\<close> gives the node at a path, \<open>None\<close> when it fails.\<close>

definition treeWalkRoot :: "treeCfg \<Rightarrow> (string \<Rightarrow> fsNode option) \<Rightarrow> string \<Rightarrow> treeWalker \<Rightarrow> treeNode option \<times> treeWalker" where
  "treeWalkRoot cfg lstat r w =
     (case lstat r of
        Some (FDir ok (Some m) es) \<Rightarrow>
          (case walkDir cfg (FDir ok (Some m) es) r m 0 w of
             (ch, w1) \<Rightarrow> (case allocNode (dirObj (pathBase r) r) ch w1 of (t, w2) \<Rightarrow> (Some t, w2)))
      | _ \<Rightarrow> (None, w))"

fun umbrellaChildren :: "treeCfg \<Rightarrow> (string \<Rightarrow> fsNode option) \<Rightarrow> string list \<Rightarrow> treeWalker \<Rightarrow> treeNode list \<times> treeWalker" where
  "umbrellaChildren cfg lstat [] w = ([], w)"
| "umbrellaChildren cfg lstat (r # rs) w =
     (case treeWalkRoot cfg lstat r w of
        (None, w1) \<Rightarrow> umbrellaChildren cfg lstat rs w1
      | (Some t, w1) \<Rightarrow> (case umbrellaChildren cfg lstat rs w1 of (ts, w2) \<Rightarrow> (t # ts, w2)))"

definition walkBackupRootsUmbrella :: "treeCfg \<Rightarrow> (string \<Rightarrow> fsNode option) \<Rightarrow> treeWalker \<Rightarrow> treeNode option \<times> treeWalker" where
  "walkBackupRootsUmbrella cfg lstat w =
     (if tcBackupRoots cfg = [] then (None, w)
      else case umbrellaChildren cfg lstat (tcBackupRoots cfg) w of
        ([], w1) \<Rightarrow> (None, w1)
      | (ts, w1) \<Rightarrow> (case allocNode (dirObj ''(all backup roots)'' ''/'') ts w1 of (t, w2) \<Rightarrow> (Some t, w2)))"

section \<open>Sizes\<close>

text \<open>What one visit of \<open>annotateSizes\<close> does to its node.\<close>

definition stamp :: "dirSizeCache \<Rightarrow> treeObj \<Rightarrow> treeObj" where
  "stamp c ob =
     (if toType ob = TDirectory then (case SizeOf c (toPath ob) of Some b \<Rightarrow> ob\<lparr>toSize := b\<rparr> | None \<Rightarrow> ob) else ob)"

fun annotateSizes :: "dirSizeCache option \<Rightarrow> treeNode \<Rightarrow> treeObj list \<Rightarrow> treeObj list" where
  "annotateSizes None t h = h"
| "annotateSizes (Some c) (TNode i ch) h = fold (annotateSizes (Some c)) ch (h[i := stamp c (h ! i)])"

text \<open>What \<open>json.Marshal\<close> sees of a tree.\<close>

datatype wireNode = WNode treeObj "wireNode list"

fun wireOf :: "treeObj list \<Rightarrow> treeNode \<Rightarrow> wireNode" where
  "wireOf h (TNode i ch) = WNode (h ! i) (map (wireOf h) ch)"

section \<open>Pushing\<close>

record laneItem =
  liKey :: string
  liSource :: string
  liSum :: string
  liTree :: treeNode

definition repoTreeOf :: "treeCfg \<Rightarrow> (string \<Rightarrow> fsNode option) \<Rightarrow> Repo \<Rightarrow> treeWalker \<Rightarrow> (string \<times> treeNode option) \<times> treeWalker" where
  "repoTreeOf cfg lstat r w =
     (let source = (if rSourcePath r = [] then rPath r else rSourcePath r)
      in if source = ''/backuproot'' then (case walkBackupRootsUmbrella cfg lstat w of (t, w1) \<Rightarrow> ((''(all backup roots)'', t), w1))
         else (case treeWalkRoot cfg lstat source w of (t, w1) \<Rightarrow> ((source, t), w1)))"

text \<open>One item: the tree is annotated and hashed. \<open>hash\<close> is \<open>treeSum\<close> as a function of the rendered tree.\<close>

definition laneItemOf :: "dirSizeCache option \<Rightarrow> (wireNode \<Rightarrow> string) \<Rightarrow> string \<Rightarrow> string \<Rightarrow> treeNode \<Rightarrow> treeWalker \<Rightarrow> laneItem \<times> treeWalker" where
  "laneItemOf c hash key source t w =
     (let h = annotateSizes c t (twHeap w)
      in (\<lparr>liKey = key, liSource = source, liSum = hash (wireOf h t), liTree = t\<rparr>, w\<lparr>twHeap := h\<rparr>))"

text \<open>The items are complete before anything is sent. The gatherer works on in the meantime: \<open>sizes r\<close> is the size cache
  as it is when the tree of \<open>r\<close> is annotated, \<open>None\<close> when there is no gatherer.\<close>

fun repoItems :: "treeCfg \<Rightarrow> (string \<Rightarrow> fsNode option) \<Rightarrow> (Repo \<Rightarrow> dirSizeCache option) \<Rightarrow> (wireNode \<Rightarrow> string) \<Rightarrow> Repo list \<Rightarrow> treeWalker \<Rightarrow>
    laneItem list \<times> treeWalker" where
  "repoItems cfg lstat sizes hash [] w = ([], w)"
| "repoItems cfg lstat sizes hash (r # rs) w =
     (case repoTreeOf cfg lstat r w of
        ((source, None), w1) \<Rightarrow> repoItems cfg lstat sizes hash rs w1
      | ((source, Some t), w1) \<Rightarrow>
          (case laneItemOf (sizes r) hash (if rSnapshotID r = [] then rID r else rSnapshotID r) source t w1 of
             (it, w2) \<Rightarrow> (case repoItems cfg lstat sizes hash rs w2 of (its, w3) \<Rightarrow> (it # its, w3))))"

fun nodeItems :: "treeCfg \<Rightarrow> (string \<Rightarrow> fsNode option) \<Rightarrow> (string \<Rightarrow> dirSizeCache option) \<Rightarrow> (wireNode \<Rightarrow> string) \<Rightarrow> string list \<Rightarrow> treeWalker \<Rightarrow>
    laneItem list \<times> treeWalker" where
  "nodeItems cfg lstat sizes hash [] w = ([], w)"
| "nodeItems cfg lstat sizes hash (r # rs) w =
     (case treeWalkRoot cfg lstat r w of
        (None, w1) \<Rightarrow> nodeItems cfg lstat sizes hash rs w1
      | (Some t, w1) \<Rightarrow>
          (case laneItemOf (sizes r) hash r r t w1 of
             (it, w2) \<Rightarrow> (case nodeItems cfg lstat sizes hash rs w2 of (its, w3) \<Rightarrow> (it # its, w3))))"

text \<open>The controller: the keys it answers the manifest with (\<open>None\<close>: the call fails), and whether it takes a body.\<close>

record laneEnv =
  leNeed :: "(string \<times> string) list \<Rightarrow> string list option"
  lePut :: "string \<Rightarrow> wireNode \<Rightarrow> bool"

text \<open>The bodies are rendered again from the nodes as they are now.\<close>

fun putTrees :: "laneEnv \<Rightarrow> treeObj list \<Rightarrow> string list \<Rightarrow> laneItem list \<Rightarrow> (laneItem \<times> wireNode) list \<times> string list" where
  "putTrees q h want [] = ([], [])"
| "putTrees q h want (it # its) =
     (if liKey it \<notin> set want then putTrees q h want its
      else case putTrees q h (List.removeAll (liKey it) want) its of
        (sent, errs) \<Rightarrow> ((it, wireOf h (liTree it)) # sent, if lePut q (liKey it) (wireOf h (liTree it)) then errs else liKey it # errs))"

text \<open>The result: the manifest sent; the bodies sent and the keys that failed, \<open>None\<close> when the manifest call failed.\<close>

definition pushTreeLane :: "laneEnv \<Rightarrow> treeObj list \<Rightarrow> laneItem list \<Rightarrow> (string \<times> string) list \<times> ((laneItem \<times> wireNode) list \<times> string list) option" where
  "pushTreeLane q h its =
     (if its = [] then ([], Some ([], []))
      else let manifest = map (\<lambda>it. (liKey it, liSum it)) its
           in (manifest, case leNeed q manifest of None \<Rightarrow> None | Some need \<Rightarrow> Some (putTrees q h need its)))"

definition pushRepoTrees where
  "pushRepoTrees cfg lstat sizes hash q (ix :: repoIndex) w =
     (case repoItems cfg lstat sizes hash (indexList ix) w of (its, w1) \<Rightarrow> (pushTreeLane q (twHeap w1) its, w1))"

definition pushNodeTrees where
  "pushNodeTrees cfg lstat sizes hash q w =
     (case nodeItems cfg lstat sizes hash (tcBackupRoots cfg) w of (its, w1) \<Rightarrow> (pushTreeLane q (twHeap w1) its, w1))"

definition treeTick where
  "treeTick cfg lstat rsizes nsizes hash qr qn ix w =
     (case pushRepoTrees cfg lstat rsizes hash qr ix w of
        (_, w1) \<Rightarrow> snd (pushNodeTrees cfg lstat nsizes hash qn w1))"

declare walkDir.simps [simp del] walkListing.simps [simp del]

section \<open>Pointers\<close>

fun nodeIds :: "treeNode \<Rightarrow> nat list" where
  "nodeIds (TNode i ch) = i # concat (map nodeIds ch)"

text \<open>Every pointer of the list is on the heap; so are those of the cache.\<close>

definition live :: "treeObj list \<Rightarrow> treeNode list \<Rightarrow> bool" where
  "live h ts \<longleftrightarrow> (\<forall>t\<in>set ts. \<forall>i\<in>set (nodeIds t). i < length h)"

definition walkerOk :: "treeWalker \<Rightarrow> bool" where
  "walkerOk w \<longleftrightarrow> (\<forall>(d, m, ch)\<in>set (twCache w). live (twHeap w) ch)"

definition grows :: "treeWalker \<Rightarrow> treeWalker \<Rightarrow> bool" where
  "grows w w' \<longleftrightarrow> prefix (twHeap w) (twHeap w')"

lemma live_simps [simp]: "live h []" "live h (TNode i ch # ts) \<longleftrightarrow> i < length h \<and> live h ch \<and> live h ts" "live h (ts @ us) \<longleftrightarrow> live h ts \<and> live h us"
  by (auto simp: live_def)

lemma live_grows: "live (twHeap w) ts \<Longrightarrow> grows w w' \<Longrightarrow> live (twHeap w') ts"
  unfolding live_def grows_def by (meson less_le_trans prefix_length_le)

lemma grown_refl [simp]: "grows w w"
  by (simp add: grows_def)

lemma grown_trans: "grows w w1 \<Longrightarrow> grows w1 w2 \<Longrightarrow> grows w w2"
  unfolding grows_def by (rule prefix_order.trans)

lemma walkerOk_cached: "walkerOk w \<Longrightarrow> cachedChildren d m w = Some ch \<Longrightarrow> live (twHeap w) ch"
  unfolding walkerOk_def cachedChildren_def by (auto dest!: map_of_SomeD split: option.splits if_splits)

lemma alloc_live:
  "allocNode ob ch w = (t, w') \<Longrightarrow> live (twHeap w) ch \<Longrightarrow> walkerOk w \<Longrightarrow> grows w w' \<and> walkerOk w' \<and> live (twHeap w') [t]"
  unfolding allocNode_def grows_def walkerOk_def using live_grows [of w _ w'] by (fastforce simp: grows_def less_Suc_eq live_def)

lemma allocFiles_live:
  "allocFiles dir fs w = (ns, w') \<Longrightarrow> walkerOk w \<Longrightarrow> grows w w' \<and> walkerOk w' \<and> live (twHeap w') ns"
proof (induction dir fs w arbitrary: ns w' rule: allocFiles.induct)
  case (2 dir f fs w)
  obtain n w1 where a: "allocNode (fileObj dir f) [] w = (n, w1)" by fastforce
  obtain ms w2 where b: "allocFiles dir fs w1 = (ms, w2)" by fastforce
  note l = alloc_live [OF a _ "2.prems"(2), simplified]
  with "2.IH" [OF a [symmetric] b] have "grows w1 w2" "walkerOk w2" "live (twHeap w2) ms" by auto
  then show ?case using l a b "2.prems"(1) live_grows [of w1 "[n]" w2] live_simps(3) [of "twHeap w2" "[n]" ms] by (auto intro: grown_trans)
qed auto

lemma listFiles_live: "listFiles dir fs w = (ns, w') \<Longrightarrow> walkerOk w \<Longrightarrow> grows w w' \<and> walkerOk w' \<and> live (twHeap w') ns"
  by (auto simp: listFiles_def dest!: allocFiles_live alloc_live split: if_splits prod.splits)

lemma finishListing_live:
  assumes "finishListing dir m ds fs w = (ch, w')" "walkerOk w" "live (twHeap w) ds"
  shows "grows w w' \<and> walkerOk w' \<and> live (twHeap w') ch"
proof -
  obtain ns w1 where l: "listFiles dir fs w = (ns, w1)" by fastforce
  note k = listFiles_live [OF l assms(2)]
  then have d: "live (twHeap w1) (ds @ ns)" using live_grows [OF assms(3)] by simp
  have c: "ch = ds @ ns" "w' = w1\<lparr>twCache := AList.update dir (m, ds @ ns) (twCache w1)\<rparr>" using assms(1) l by (auto simp: finishListing_def)
  have "set (AList.update k v al) \<subseteq> insert (k, v) (set al)" for k v and al :: "(string \<times> int \<times> treeNode list) list"
    by (induction al) (auto split: if_splits)
  from this [of dir "(m, ds @ ns)" "twCache w1"] have "walkerOk w'" using k d c(2) by (auto simp: walkerOk_def)
  then show ?thesis using k d c by (simp add: grows_def)
qed

lemma walk_live:
  "walkDir cfg node dir m depth w = (ch, w') \<Longrightarrow> walkerOk w \<Longrightarrow> grows w w' \<and> walkerOk w' \<and> live (twHeap w') ch"
  "walkListing cfg es dir depth w = (ds, fs, w') \<Longrightarrow> walkerOk w \<Longrightarrow> grows w w' \<and> walkerOk w' \<and> live (twHeap w') ds"
proof (induction cfg node dir m depth w and cfg es dir depth w arbitrary: ch w' and ds fs w' rule: walkDir_walkListing.induct)
  case (1 cfg node dir mtime depth w)
  show ?case
  proof (cases "treeMaxDepth \<le> depth \<or> cachedChildren dir mtime w \<noteq> None \<or> \<not> (\<exists>mt es. node = FDir True mt es)")
    case True
    then show ?thesis using "1.prems" walkerOk_cached
      by (auto simp: walkDir.simps split: if_splits option.splits fsNode.splits bool.splits)
  next
    case False
    then obtain mt es where n: "node = FDir True mt es" "\<not> treeMaxDepth \<le> depth" "cachedChildren dir mtime w = None" by auto
    obtain ds fs w1 where l: "walkListing cfg es dir depth w = (ds, fs, w1)" by (metis prod_cases3)
    have k: "grows w w1 \<and> walkerOk w1 \<and> live (twHeap w1) ds" using "1.IH" [OF n(2,3,1) _ l "1.prems"(2)] by simp
    have "finishListing dir mtime ds fs w1 = (ch, w')" using "1.prems"(1) n l by (simp add: walkDir.simps)
    from finishListing_live [OF this] show ?thesis using k by (auto intro: grown_trans)
  qed
next
  case (2 cfg dir depth w)
  then show ?case by (simp add: walkListing.simps)
next
  case (3 cfg name n es dir depth w)
  let ?child = "pathJoin [dir, name]"
  show ?case
  proof (cases "(n = FLink \<or> skipEntry cfg name ?child) \<or> (\<forall>ok m ch. n \<noteq> FDir ok (Some m) ch)")
    case True
    then consider "n = FLink \<or> skipEntry cfg name ?child" | sz where "n = FFile sz" "\<not> skipEntry cfg name ?child"
      | "n = FOther" "\<not> skipEntry cfg name ?child" | ok x where "n = FDir ok None x" "\<not> skipEntry cfg name ?child"
      by (cases n) (metis option.exhaust)+
    then show ?thesis
    proof cases
      case 1
      then show ?thesis using "3.IH"(1) [OF refl 1] "3.prems" by (simp add: walkListing.simps)
    next
      case 2
      then show ?thesis using "3.IH"(2) [OF refl] "3.prems" by (auto simp: walkListing.simps split: prod.splits)
    next
      case 3
      then show ?thesis using "3.IH"(4) [OF refl] "3.prems" by (auto simp: walkListing.simps split: prod.splits)
    next
      case 4
      then show ?thesis using "3.IH"(5) [OF refl] "3.prems" by (auto simp: walkListing.simps split: prod.splits)
    qed
  next
    case False
    then obtain ok m x where n: "n = FDir ok (Some m) x" "\<not> (n = FLink \<or> skipEntry cfg name ?child)" by auto
    obtain ch w1 where c: "walkDir cfg n ?child m (Suc depth) w = (ch, w1)" by fastforce
    obtain t w2 where a: "allocNode (dirObj name ?child) ch w1 = (t, w2)" by fastforce
    obtain ds2 fs2 w3 where l: "walkListing cfg es dir depth w2 = (ds2, fs2, w3)" by (metis prod_cases3)
    have r: "ds = t # ds2" "w' = w3" using "3.prems"(1) n c a l by (auto simp: walkListing.simps)
    have k1: "grows w w1 \<and> walkerOk w1 \<and> live (twHeap w1) ch" using "3.IH"(6) [OF refl n(2) n(1) refl c "3.prems"(2)] .
    have k2: "grows w1 w2 \<and> walkerOk w2 \<and> live (twHeap w2) [t]" using alloc_live [OF a] k1 by simp
    have k3: "grows w2 w3 \<and> walkerOk w3 \<and> live (twHeap w3) ds2" using "3.IH"(7) [OF refl n(2) n(1) refl c [symmetric] a [symmetric] l] k2 by simp
    show ?thesis using k1 k2 k3 r live_grows [of w2 "[t]" w3] live_simps(3) [of "twHeap w3" "[t]" ds2] by (auto intro: grown_trans)
  qed
qed

section \<open>The listing a walk stands for\<close>

text \<open>No cache, no heap: the rendered tree, with the sizes of directories left at zero.\<close>

fun refDir :: "treeCfg \<Rightarrow> fsNode \<Rightarrow> string \<Rightarrow> nat \<Rightarrow> wireNode list"
  and refDirs :: "treeCfg \<Rightarrow> (string \<times> fsNode) list \<Rightarrow> string \<Rightarrow> nat \<Rightarrow> wireNode list" where
  "refDir cfg node dir depth =
     (if depth \<ge> treeMaxDepth then []
      else case node of
        FDir True _ es \<Rightarrow>
          (let files = [(name, sz). (name, FFile sz) \<leftarrow> es, \<not> skipEntry cfg name (pathJoin [dir, name])]
           in refDirs cfg es dir depth @
              (if length files > treeMaxFilesPerDir then [WNode (markerObj dir (length files)) []] else map (\<lambda>f. WNode (fileObj dir f) []) files))
      | _ \<Rightarrow> [])"
| "refDirs cfg [] dir depth = []"
| "refDirs cfg ((name, n) # es) dir depth =
     (case n of
        FDir _ (Some m) _ \<Rightarrow>
          if skipEntry cfg name (pathJoin [dir, name]) then refDirs cfg es dir depth
          else WNode (dirObj name (pathJoin [dir, name])) (refDir cfg n (pathJoin [dir, name]) (Suc depth)) # refDirs cfg es dir depth
      | _ \<Rightarrow> refDirs cfg es dir depth)"

fun noSizes :: "wireNode \<Rightarrow> wireNode" where
  "noSizes (WNode ob ch) = WNode (if toType ob = TDirectory then ob\<lparr>toSize := 0\<rparr> else ob) (map noSizes ch)"

text \<open>The directories a walk may list, with the depth it meets them at.\<close>

fun treeDirs :: "treeCfg \<Rightarrow> fsNode \<Rightarrow> string \<Rightarrow> nat \<Rightarrow> (string \<times> fsNode \<times> nat) list"
  and treeDirsIn :: "treeCfg \<Rightarrow> (string \<times> fsNode) list \<Rightarrow> string \<Rightarrow> nat \<Rightarrow> (string \<times> fsNode \<times> nat) list" where
  "treeDirs cfg node dir depth =
     (if depth \<ge> treeMaxDepth then [] else (dir, node, depth) # (case node of FDir True _ es \<Rightarrow> treeDirsIn cfg es dir depth | _ \<Rightarrow> []))"
| "treeDirsIn cfg [] dir depth = []"
| "treeDirsIn cfg ((name, n) # es) dir depth =
     (case n of
        FDir _ (Some m) _ \<Rightarrow> if skipEntry cfg name (pathJoin [dir, name]) then [] else treeDirs cfg n (pathJoin [dir, name]) (Suc depth)
      | _ \<Rightarrow> []) @ treeDirsIn cfg es dir depth"

declare refDir.simps [simp del] refDirs.simps [simp del] treeDirs.simps [simp del] treeDirsIn.simps [simp del]

fun fsMtime :: "fsNode \<Rightarrow> int option" where
  "fsMtime (FDir ok m es) = m"
| "fsMtime _ = None"

abbreviation shapes :: "treeObj list \<Rightarrow> treeNode list \<Rightarrow> wireNode list" where
  "shapes h ts \<equiv> map (\<lambda>t. noSizes (wireOf h t)) ts"

lemma wireOf_same: "(\<And>i. i \<in> set (nodeIds t) \<Longrightarrow> h' ! i = h ! i) \<Longrightarrow> wireOf h' t = wireOf h t"
  by (induction t) auto

lemma live_wire: "live (twHeap w) ts \<Longrightarrow> grows w w' \<Longrightarrow> t \<in> set ts \<Longrightarrow> wireOf (twHeap w') t = wireOf (twHeap w) t"
  by (rule wireOf_same) (auto simp: live_def grows_def prefix_def nth_append)

lemma live_shapes: "live (twHeap w) ts \<Longrightarrow> grows w w' \<Longrightarrow> shapes (twHeap w') ts = shapes (twHeap w) ts"
  by (intro map_cong refl arg_cong [where f = noSizes]) (rule live_wire)

lemma alloc_wire:
  assumes "allocNode ob ch w = (t, w')" "live (twHeap w) ch"
  shows "wireOf (twHeap w') t = WNode ob (map (wireOf (twHeap w)) ch)"
proof -
  have "t = TNode (length (twHeap w)) ch" "twHeap w' = twHeap w @ [ob]" using assms(1) by (auto simp: allocNode_def)
  moreover from this(2) have "grows w w'" by (simp add: grows_def)
  moreover from this have "map (wireOf (twHeap w')) ch = map (wireOf (twHeap w)) ch" by (intro map_cong refl live_wire [OF assms(2)])
  ultimately show ?thesis by simp
qed

lemma alloc_cache: "allocNode ob ch w = (t, w') \<Longrightarrow> twCache w' = twCache w"
  by (auto simp: allocNode_def)

lemma fileObj_type [simp]: "toType (fileObj dir f) = TFile" "toType (markerObj dir n) = TTruncated" "toType (dirObj a b) = TDirectory" "(dirObj a b)\<lparr>toSize := 0\<rparr> = dirObj a b"
  by (simp_all add: fileObj_def markerObj_def dirObj_def)

lemma allocFiles_shapes:
  "allocFiles dir fs w = (ns, w') \<Longrightarrow> walkerOk w \<Longrightarrow> shapes (twHeap w') ns = map (\<lambda>f. WNode (fileObj dir f) []) fs \<and> twCache w' = twCache w"
proof (induction dir fs w arbitrary: ns w' rule: allocFiles.induct)
  case (2 dir f fs w)
  obtain n w1 where a: "allocNode (fileObj dir f) [] w = (n, w1)" by fastforce
  obtain ms w2 where b: "allocFiles dir fs w1 = (ms, w2)" by fastforce
  note l = alloc_live [OF a _ "2.prems"(2), simplified]
  have "wireOf (twHeap w2) n = wireOf (twHeap w1) n" using live_wire [of w1 "[n]" w2 n] l allocFiles_live [OF b] by simp
  then show ?case using "2.IH" [OF a [symmetric] b] l alloc_wire [OF a] alloc_cache [OF a] "2.prems"(1) a b by auto
qed auto

lemma listFiles_shapes:
  assumes "listFiles dir fs w = (ns, w')" "walkerOk w"
  shows "shapes (twHeap w') ns = (if length fs > treeMaxFilesPerDir then [WNode (markerObj dir (length fs)) []] else map (\<lambda>f. WNode (fileObj dir f) []) fs) \<and>
    twCache w' = twCache w"
  using assms allocFiles_shapes alloc_wire alloc_cache by (auto simp: listFiles_def split: if_splits prod.splits)

section \<open>The walk is the listing\<close>

text \<open>The cache as values.\<close>

definition absCache :: "treeWalker \<Rightarrow> string \<Rightarrow> (int \<times> wireNode list) option" where
  "absCache w p = map_option (\<lambda>(m, ch). (m, shapes (twHeap w) ch)) (map_of (twCache w) p)"

definition hit :: "(string \<Rightarrow> (int \<times> wireNode list) option) \<Rightarrow> fsNode \<Rightarrow> string \<Rightarrow> wireNode list option" where
  "hit C node dir = (case C dir of None \<Rightarrow> None | Some (m, ls) \<Rightarrow> if fsMtime node = Some m then Some ls else None)"

text \<open>The listing of the disk in which every directory with the modification time \<open>C\<close> has for it is replaced by the listing \<open>C\<close> has.\<close>

fun listC :: "treeCfg \<Rightarrow> (string \<Rightarrow> (int \<times> wireNode list) option) \<Rightarrow> fsNode \<Rightarrow> string \<Rightarrow> nat \<Rightarrow> wireNode list"
  and listsC :: "treeCfg \<Rightarrow> (string \<Rightarrow> (int \<times> wireNode list) option) \<Rightarrow> (string \<times> fsNode) list \<Rightarrow> string \<Rightarrow> nat \<Rightarrow> wireNode list" where
  "listC cfg C node dir depth =
     (if depth \<ge> treeMaxDepth then []
      else case hit C node dir of
        Some ls \<Rightarrow> ls
      | None \<Rightarrow>
          (case node of
             FDir True _ es \<Rightarrow>
               (let files = [(name, sz). (name, FFile sz) \<leftarrow> es, \<not> skipEntry cfg name (pathJoin [dir, name])]
                in listsC cfg C es dir depth @
                   (if length files > treeMaxFilesPerDir then [WNode (markerObj dir (length files)) []] else map (\<lambda>f. WNode (fileObj dir f) []) files))
           | _ \<Rightarrow> []))"
| "listsC cfg C [] dir depth = []"
| "listsC cfg C ((name, n) # es) dir depth =
     (case n of
        FDir _ (Some m) _ \<Rightarrow>
          if skipEntry cfg name (pathJoin [dir, name]) then listsC cfg C es dir depth
          else WNode (dirObj name (pathJoin [dir, name])) (listC cfg C n (pathJoin [dir, name]) (Suc depth)) # listsC cfg C es dir depth
      | _ \<Rightarrow> listsC cfg C es dir depth)"

text \<open>The directories that are listed anew, with what the cache then has for them.\<close>

fun relisted :: "treeCfg \<Rightarrow> (string \<Rightarrow> (int \<times> wireNode list) option) \<Rightarrow> fsNode \<Rightarrow> string \<Rightarrow> nat \<Rightarrow> (string \<times> int \<times> wireNode list) list"
  and relistedIn :: "treeCfg \<Rightarrow> (string \<Rightarrow> (int \<times> wireNode list) option) \<Rightarrow> (string \<times> fsNode) list \<Rightarrow> string \<Rightarrow> nat \<Rightarrow> (string \<times> int \<times> wireNode list) list" where
  "relisted cfg C node dir depth =
     (if depth \<ge> treeMaxDepth \<or> hit C node dir \<noteq> None then []
      else case node of
        FDir True (Some m) es \<Rightarrow> (dir, m, listC cfg C node dir depth) # relistedIn cfg C es dir depth
      | _ \<Rightarrow> [])"
| "relistedIn cfg C [] dir depth = []"
| "relistedIn cfg C ((name, n) # es) dir depth =
     (case n of
        FDir _ (Some m) _ \<Rightarrow> if skipEntry cfg name (pathJoin [dir, name]) then [] else relisted cfg C n (pathJoin [dir, name]) (Suc depth)
      | _ \<Rightarrow> []) @ relistedIn cfg C es dir depth"

declare listC.simps [simp del] listsC.simps [simp del] relisted.simps [simp del] relistedIn.simps [simp del]

lemma relisted_dirs:
  "fst ` set (relisted cfg C node dir depth) \<subseteq> fst ` set (treeDirs cfg node dir depth)"
  "fst ` set (relistedIn cfg C es dir depth) \<subseteq> fst ` set (treeDirsIn cfg es dir depth)"
proof (induction cfg C node dir depth and cfg C es dir depth rule: relisted_relistedIn.induct)
  case (1 cfg C node dir depth)
  show ?case
  proof (cases "treeMaxDepth \<le> depth \<or> hit C node dir \<noteq> None \<or> (\<forall>m es. node \<noteq> FDir True (Some m) es)")
    case True
    then have "relisted cfg C node dir depth = []" by (auto simp: relisted.simps split: fsNode.splits bool.splits option.splits)
    then show ?thesis by simp
  next
    case False
    then obtain m es where n: "node = FDir True (Some m) es" by auto
    with False 1 show ?thesis by (auto simp: relisted.simps treeDirs.simps)
  qed
next
  case (3 cfg C name n es dir depth)
  show ?case
  proof (cases "\<exists>ok m x. n = FDir ok (Some m) x \<and> \<not> skipEntry cfg name (pathJoin [dir, name])")
    case True
    then obtain ok m x where n: "n = FDir ok (Some m) x" "\<not> skipEntry cfg name (pathJoin [dir, name])" by blast
    show ?thesis using "3.IH"(1) [OF n(1) refl n(2)] "3.IH"(2) n by (simp add: relistedIn.simps treeDirsIn.simps image_Un) blast
  next
    case False
    then have "relistedIn cfg C ((name, n) # es) dir depth = relistedIn cfg C es dir depth"
      by (auto simp: relistedIn.simps split: fsNode.splits option.splits)
    then show ?thesis using "3.IH"(2) by (auto simp: treeDirsIn.simps)
  qed
qed (simp add: relistedIn.simps)

lemma absCache_grows:
  assumes "walkerOk w" "grows w w'" "twCache w' = twCache w"
  shows "absCache w' = absCache w"
proof (rule ext)
  fix p
  show "absCache w' p = absCache w p"
  proof (cases "map_of (twCache w) p")
    case (Some x)
    obtain m ch where x: "x = (m, ch)" by fastforce
    have "(p, m, ch) \<in> set (twCache w)" using Some x by (simp add: map_of_SomeD)
    then have "live (twHeap w) ch" using assms(1) by (auto simp: walkerOk_def)
    from live_shapes [OF this assms(2)] show ?thesis using Some x assms(3) by (simp add: absCache_def)
  qed (simp add: absCache_def assms(3))
qed

lemma finishListing_abs:
  assumes "finishListing dir m ds fs w = (ch, w')" "walkerOk w" "live (twHeap w) ds"
  shows "shapes (twHeap w') ch = shapes (twHeap w) ds @
      (if length fs > treeMaxFilesPerDir then [WNode (markerObj dir (length fs)) []] else map (\<lambda>f. WNode (fileObj dir f) []) fs) \<and>
    absCache w' = (absCache w)(dir \<mapsto> (m, shapes (twHeap w') ch))"
proof -
  obtain ns w1 where l: "listFiles dir fs w = (ns, w1)" by fastforce
  note k = listFiles_live [OF l assms(2)] and s = listFiles_shapes [OF l assms(2)]
  have c: "ch = ds @ ns" "twHeap w' = twHeap w1" "twCache w' = AList.update dir (m, ds @ ns) (twCache w1)" using assms(1) l by (auto simp: finishListing_def)
  have a: "absCache w1 = absCache w" using absCache_grows [OF assms(2)] k s by blast
  have "absCache w' p = ((absCache w1)(dir \<mapsto> (m, shapes (twHeap w') ch))) p" for p
    by (simp add: absCache_def c update_conv')
  then show ?thesis using a live_shapes [OF assms(3) conjunct1 [OF k]] s c by (simp add: fun_eq_iff)
qed

lemma walk_listC:
  "walkDir cfg node dir m depth w = (ch, w') \<Longrightarrow> walkerOk w \<Longrightarrow> fsMtime node = Some m \<Longrightarrow> distinct (map fst (treeDirs cfg node dir depth)) \<Longrightarrow>
     \<forall>p\<in>fst ` set (treeDirs cfg node dir depth). absCache w p = C p \<Longrightarrow>
     shapes (twHeap w') ch = listC cfg C node dir depth \<and> absCache w' = absCache w ++ map_of (relisted cfg C node dir depth)"
  "walkListing cfg es dir depth w = (ds, fs, w') \<Longrightarrow> walkerOk w \<Longrightarrow> distinct (map fst (treeDirsIn cfg es dir depth)) \<Longrightarrow>
     \<forall>p\<in>fst ` set (treeDirsIn cfg es dir depth). absCache w p = C p \<Longrightarrow>
     shapes (twHeap w') ds = listsC cfg C es dir depth \<and> absCache w' = absCache w ++ map_of (relistedIn cfg C es dir depth) \<and>
     fs = [(name, sz). (name, FFile sz) \<leftarrow> es, \<not> skipEntry cfg name (pathJoin [dir, name])]"
proof (induction cfg node dir m depth w and cfg es dir depth w arbitrary: ch w' and ds fs w' rule: walkDir_walkListing.induct)
  case (1 cfg node dir mtime depth w)
  show ?case
  proof (cases "treeMaxDepth \<le> depth")
    case True
    then show ?thesis using "1.prems"(1) by (auto simp: walkDir.simps listC.simps relisted.simps)
  next
    case d: False
    then have inD: "absCache w dir = C dir" using "1.prems"(5) by (simp add: treeDirs.simps)
    have h: "hit C node dir = map_option (shapes (twHeap w)) (cachedChildren dir mtime w)"
      using "1.prems"(3) by (auto simp: hit_def cachedChildren_def inD [symmetric] absCache_def split: option.splits)
    show ?thesis
    proof (cases "cachedChildren dir mtime w")
      case (Some c)
      then show ?thesis using "1.prems"(1) d h by (auto simp: walkDir.simps listC.simps relisted.simps)
    next
      case None
      show ?thesis
      proof (cases "\<exists>es. node = FDir True (Some mtime) es")
        case False
        then show ?thesis using "1.prems"(1,3) d None h
          by (auto simp: walkDir.simps listC.simps relisted.simps split: fsNode.splits bool.splits)
      next
        case True
        then obtain es where n: "node = FDir True (Some mtime) es" by blast
        obtain ds fs w1 where l: "walkListing cfg es dir depth w = (ds, fs, w1)" by (metis prod_cases3)
        have sub: "distinct (map fst (treeDirsIn cfg es dir depth))" "dir \<notin> fst ` set (treeDirsIn cfg es dir depth)"
            "\<forall>p\<in>fst ` set (treeDirsIn cfg es dir depth). absCache w p = C p"
          using "1.prems"(4,5) d n by (simp_all add: treeDirs.simps)
        note ih = "1.IH" [OF d None n _ l "1.prems"(2) sub(1,3), simplified]
        have f: "finishListing dir mtime ds fs w1 = (ch, w')" using "1.prems"(1) n d None l by (simp add: walkDir.simps)
        have lv: "walkerOk w1" "live (twHeap w1) ds" using walk_live(2) [OF l "1.prems"(2)] by simp_all
        note fin = finishListing_abs [OF f lv]
        have sh: "shapes (twHeap w') ch = listC cfg C node dir depth" using fin ih d None h by (simp add: listC.simps n Let_def)
        have "dir \<notin> dom (map_of (relistedIn cfg C es dir depth))" unfolding dom_map_of_conv_image_fst using sub(2) relisted_dirs(2) by blast
        then have "absCache w ++ (map_of (relistedIn cfg C es dir depth))(dir \<mapsto> x) = (absCache w ++ map_of (relistedIn cfg C es dir depth))(dir \<mapsto> x)" for x by simp
        moreover have "relisted cfg C node dir depth = (dir, mtime, listC cfg C node dir depth) # relistedIn cfg C es dir depth"
          using d None h by (simp add: relisted.simps n)
        ultimately have "absCache w' = absCache w ++ map_of (relisted cfg C node dir depth)" using fin ih sh by simp
        with sh show ?thesis by simp
      qed
    qed
  qed
next
  case (2 cfg dir depth w)
  then show ?case by (simp add: walkListing.simps listsC.simps relistedIn.simps)
next
  case (3 cfg name n es dir depth w)
  let ?child = "pathJoin [dir, name]"
  have sub: "distinct (map fst (treeDirsIn cfg es dir depth))" "\<forall>p\<in>fst ` set (treeDirsIn cfg es dir depth). absCache w p = C p"
    using "3.prems"(3,4) by (auto simp: treeDirsIn.simps)
  note pre = "3.prems"(2) sub
  show ?case
  proof (cases "(n = FLink \<or> skipEntry cfg name ?child) \<or> (\<forall>ok m ch. n \<noteq> FDir ok (Some m) ch)")
    case True
    then consider "n = FLink \<or> skipEntry cfg name ?child" | sz where "n = FFile sz" "\<not> skipEntry cfg name ?child"
      | "n = FOther" "\<not> skipEntry cfg name ?child" | ok x where "n = FDir ok None x" "\<not> skipEntry cfg name ?child"
      by (cases n) (metis option.exhaust)+
    then show ?thesis
    proof cases
      case 1
      then have "walkListing cfg es dir depth w = (ds, fs, w')" using "3.prems"(1) by (simp add: walkListing.simps)
      from "3.IH"(1) [OF refl 1 this pre] show ?thesis using 1 by (auto simp: listsC.simps relistedIn.simps split: fsNode.splits option.splits)
    next
      case 2
      then obtain gs where "walkListing cfg es dir depth w = (ds, gs, w')" "fs = (name, sz) # gs"
        using "3.prems"(1) by (auto simp: walkListing.simps split: prod.splits)
      with "3.IH"(2) [OF refl _ 2(1) _ pre] 2 show ?thesis by (simp add: listsC.simps relistedIn.simps)
    next
      case 3
      then have "walkListing cfg es dir depth w = (ds, fs, w')" using "3.prems"(1) by (simp add: walkListing.simps)
      from "3.IH"(4) [OF refl _ 3(1) this pre] show ?thesis using 3 by (simp add: listsC.simps relistedIn.simps)
    next
      case 4
      then have "walkListing cfg es dir depth w = (ds, fs, w')" using "3.prems"(1) by (simp add: walkListing.simps)
      from "3.IH"(5) [OF refl _ 4(1) refl this pre] show ?thesis using 4 by (simp add: listsC.simps relistedIn.simps)
    qed
  next
    case False
    then obtain ok m x where n: "n = FDir ok (Some m) x" "\<not> (n = FLink \<or> skipEntry cfg name ?child)" by auto
    obtain ch w1 where c: "walkDir cfg n ?child m (Suc depth) w = (ch, w1)" by fastforce
    obtain t w2 where a: "allocNode (dirObj name ?child) ch w1 = (t, w2)" by fastforce
    obtain ds2 fs2 w3 where l: "walkListing cfg es dir depth w2 = (ds2, fs2, w3)" by (metis prod_cases3)
    have r: "ds = t # ds2" "fs = fs2" "w' = w3" using "3.prems"(1) n c a l by (auto simp: walkListing.simps)
    have dis: "distinct (map fst (treeDirs cfg n ?child (Suc depth)))"
        "fst ` set (treeDirs cfg n ?child (Suc depth)) \<inter> fst ` set (treeDirsIn cfg es dir depth) = {}"
        "\<forall>p\<in>fst ` set (treeDirs cfg n ?child (Suc depth)). absCache w p = C p"
      using "3.prems"(3,4) n by (auto simp: treeDirsIn.simps)
    have k1: "walkerOk w1" "live (twHeap w1) ch" using walk_live(1) [OF c "3.prems"(2)] by simp_all
    have k2: "grows w1 w2" "walkerOk w2" "live (twHeap w2) [t]" using alloc_live [OF a k1(2,1)] by simp_all
    have i1: "shapes (twHeap w1) ch = listC cfg C n ?child (Suc depth)" "absCache w1 = absCache w ++ map_of (relisted cfg C n ?child (Suc depth))"
      using "3.IH"(6) [OF refl n(2) n(1) refl c "3.prems"(2) _ dis(1,3)] n(1) by simp_all
    have a2: "absCache w2 = absCache w1" by (rule absCache_grows [OF k1(1) k2(1) alloc_cache [OF a]])
    have rd: "fst ` set (relisted cfg C n ?child (Suc depth)) \<inter> fst ` set (treeDirsIn cfg es dir depth) = {}"
      using dis(2) relisted_dirs(1) [of cfg C n ?child "Suc depth"] by blast
    have agree: "\<forall>p\<in>fst ` set (treeDirsIn cfg es dir depth). absCache w2 p = C p"
    proof
      fix p assume p: "p \<in> fst ` set (treeDirsIn cfg es dir depth)"
      then have "map_of (relisted cfg C n ?child (Suc depth)) p = None" using rd by (auto simp: map_of_eq_None_iff)
      moreover have "absCache w p = C p" by (rule bspec [OF sub(2) p])
      ultimately show "absCache w2 p = C p" by (simp add: a2 i1(2) map_add_def)
    qed
    note i2 = "3.IH"(7) [OF refl n(2) n(1) refl c [symmetric] a [symmetric] l k2(2) sub(1) agree]
    have g: "grows w2 w3" using walk_live(2) [OF l k2(2)] by simp
    have "wireOf (twHeap w3) t = WNode (dirObj name ?child) (map (wireOf (twHeap w1)) ch)"
      using live_wire [OF k2(3) g] alloc_wire [OF a k1(2)] by simp
    then have "noSizes (wireOf (twHeap w3) t) = WNode (dirObj name ?child) (listC cfg C n ?child (Suc depth))"
      using i1(1) by (simp add: comp_def)
    moreover have "dom (map_of (relisted cfg C n ?child (Suc depth))) \<inter> dom (map_of (relistedIn cfg C es dir depth)) = {}"
      unfolding dom_map_of_conv_image_fst using rd relisted_dirs(2) [of cfg C es dir depth] by blast
    then have "absCache w ++ map_of (relisted cfg C n ?child (Suc depth)) ++ map_of (relistedIn cfg C es dir depth) =
        absCache w ++ map_of (relistedIn cfg C es dir depth) ++ map_of (relisted cfg C n ?child (Suc depth))"
      unfolding map_add_assoc [symmetric] by (rule arg_cong [OF map_add_comm])
    ultimately show ?thesis using i2 n unfolding r a2 i1(2) by (simp add: listsC.simps relistedIn.simps map_of_append)
  qed
qed

lemma listC_miss:
  "\<forall>(p, n, d)\<in>set (treeDirs cfg node dir depth). hit C n p = None \<Longrightarrow> listC cfg C node dir depth = refDir cfg node dir depth"
  "\<forall>(p, n, d)\<in>set (treeDirsIn cfg es dir depth). hit C n p = None \<Longrightarrow> listsC cfg C es dir depth = refDirs cfg es dir depth"
proof (induction cfg C node dir depth and cfg C es dir depth rule: listC_listsC.induct)
  case (1 cfg C node dir depth)
  then show ?case by (auto simp: listC.simps refDir.simps treeDirs.simps Let_def split: fsNode.splits bool.splits)
next
  case (3 cfg C name n es dir depth)
  then show ?case by (auto simp: listsC.simps refDirs.simps treeDirsIn.simps split: fsNode.splits option.splits if_splits)
qed (simp add: listsC.simps refDirs.simps)

text \<open>C31. The pushed tree is the listing of the disk, as far as the modification times say. Whatever the cache holds, \<open>walkRoot\<close> returns, the sizes of
  directories aside, the listing \<open>listC\<close> of the root: the entries not excluded down to depth five, directories before files, a marker with
  the count in place of more than 100 files, no symbolic links - except that a directory whose modification time is the cached one is
  exactly what the cache has for it, be it older below or cut off at another depth. Afterwards the cache has, for exactly the directories listed anew, their
  listing and time, so that a second walk of the same disk gives the same tree; and where no time matches, as in a new walker, the tree is the plain listing \<open>refDir\<close>.\<close>

theorem treeWalkRoot_exact:
  assumes "lstat r = Some node" "fsMtime node = Some m" "walkerOk w" "distinct (map fst (treeDirs cfg node r 0))" "treeWalkRoot cfg lstat r w = (t, w')"
  shows "map_option (\<lambda>t. noSizes (wireOf (twHeap w') t)) t = Some (WNode (dirObj (pathBase r) r) (listC cfg (absCache w) node r 0)) \<and>
    absCache w' = absCache w ++ map_of (relisted cfg (absCache w) node r 0) \<and> walkerOk w' \<and>
    listC cfg (absCache w') node r 0 = listC cfg (absCache w) node r 0 \<and>
    ((\<forall>(p, n, d)\<in>set (treeDirs cfg node r 0). hit (absCache w) n p = None) \<longrightarrow> listC cfg (absCache w) node r 0 = refDir cfg node r 0)"
proof -
  obtain ok es where n: "node = FDir ok (Some m) es" using assms(2) by (cases node) auto
  obtain ch w1 where c: "walkDir cfg node r m 0 w = (ch, w1)" by fastforce
  obtain t1 w2 where a: "allocNode (dirObj (pathBase r) r) ch w1 = (t1, w2)" by fastforce
  have e: "t = Some t1" "w' = w2" using assms(1,5) c a by (auto simp: treeWalkRoot_def n)
  have k: "walkerOk w1" "live (twHeap w1) ch" using walk_live(1) [OF c assms(3)] by simp_all
  note s = walk_listC(1) [OF c assms(3,2,4), of "absCache w", simplified]
  note l = alloc_live [OF a k(2,1)]
  have ab: "absCache w' = absCache w ++ map_of (relisted cfg (absCache w) node r 0)"
    using absCache_grows [OF k(1) _ alloc_cache [OF a]] l s e by simp
  have tree: "noSizes (wireOf (twHeap w2) t1) = WNode (dirObj (pathBase r) r) (listC cfg (absCache w) node r 0)"
    using alloc_wire [OF a k(2)] s by (simp add: comp_def)
  have again: "listC cfg (absCache w') node r 0 = listC cfg (absCache w) node r 0"
  proof (cases "hit (absCache w) node r = None \<and> ok")
    case True
    then have "relisted cfg (absCache w) node r 0 = (r, m, listC cfg (absCache w) node r 0) # relistedIn cfg (absCache w) es r 0"
      by (auto simp: relisted.simps n treeMaxDepth_def)
    then have "hit (absCache w') node r = Some (listC cfg (absCache w) node r 0)" by (simp add: ab hit_def n map_add_def)
    then show ?thesis by (simp add: listC.simps [of cfg "absCache w'"] treeMaxDepth_def)
  next
    case False
    then have "relisted cfg (absCache w) node r 0 = []" by (auto simp: relisted.simps n)
    then show ?thesis by (simp add: ab)
  qed
  show ?thesis using e tree ab again l k listC_miss(1) [of cfg node r 0 "absCache w"] by simp
qed

definition exTreeCfg :: treeCfg where "exTreeCfg = \<lparr>tcBackupRoots = [''/d''], tcBackupExcludePaths = [''/d/s/n'']\<rparr>"

text \<open>Witness: a listing with an excluded directory, a link and a nested directory.\<close>

theorem treeWalkRoot_exact_witness:
  "case treeWalkRoot exTreeCfg (\<lambda>_. Some exTree) ''/d'' newTreeWalker of (t, w') \<Rightarrow>
     map_option (\<lambda>t. noSizes (wireOf (twHeap w') t)) t =
       Some (WNode (dirObj ''d'' ''/d'')
         [WNode (dirObj ''s'' ''/d/s'') [WNode (fileObj ''/d/s'' (''b'', Some 7)) [], WNode (fileObj ''/d/s'' (''c'', None)) []],
          WNode (dirObj ''x'' ''/d/x'') [WNode (fileObj ''/d/x'' (''t'', Some 9)) []], WNode (fileObj ''/d'' (''a'', Some 5)) []]) \<and>
     map_option fst (absCache w' ''/d/s'') = Some 1"
proof -
  obtain t w' where e: "treeWalkRoot exTreeCfg (\<lambda>_. Some exTree) ''/d'' newTreeWalker = (t, w')" by fastforce
  have ok: "walkerOk newTreeWalker" "absCache newTreeWalker p = None" for p by (simp_all add: newTreeWalker_def walkerOk_def absCache_def)
  have d: "distinct (map fst (treeDirs exTreeCfg exTree ''/d'' 0))" by code_simp
  have m: "fsMtime exTree = Some 1" by (simp add: exTree_def)
  have x: "WNode (dirObj (pathBase ''/d'') ''/d'') (refDir exTreeCfg exTree ''/d'' 0) = WNode (dirObj ''d'' ''/d'')
         [WNode (dirObj ''s'' ''/d/s'') [WNode (fileObj ''/d/s'' (''b'', Some 7)) [], WNode (fileObj ''/d/s'' (''c'', None)) []],
          WNode (dirObj ''x'' ''/d/x'') [WNode (fileObj ''/d/x'' (''t'', Some 9)) []], WNode (fileObj ''/d'' (''a'', Some 5)) []]" by code_simp
  note c31 = treeWalkRoot_exact [OF refl m ok(1) d e]
  have c: "absCache newTreeWalker = (\<lambda>_. None)" by (rule ext) (rule ok(2))
  have "map_option fst (map_of (relisted exTreeCfg (\<lambda>_. None) exTree ''/d'' 0) ''/d/s'') = Some 1" by code_simp
  then have "map_option fst (absCache w' ''/d/s'') = Some 1" using c31 by (simp add: c map_add_def split: option.splits)
  then show ?thesis unfolding e prod.case x [symmetric] using c31 by (simp add: c hit_def del: map_option_eq_Some)
qed

section \<open>What the cache hides\<close>

text \<open>A directory's own modification time is all the walk looks at: once a directory has been listed, a later walk that
  finds it with the same modification time returns the same nodes, whatever has changed in the directories below it, and
  at whatever depth it is met - a listing cut off at depth five below one root is reused as the listing of another root.\<close>

theorem walkDir_ignores_below:
  assumes "walkDir cfg (FDir True (Some m) es) dir m depth w = (ch, w1)" "depth < treeMaxDepth" "depth' < treeMaxDepth"
  shows "walkDir cfg' (FDir ok (Some m) es') dir m depth' w1 = (ch, w1)"
proof (cases "cachedChildren dir m w")
  case None
  obtain ds fs w2 where l: "walkListing cfg es dir depth w = (ds, fs, w2)" by (metis prod_cases3)
  have f: "finishListing dir m ds fs w2 = (ch, w1)" using assms(1,2) None l by (simp add: walkDir.simps)
  then have "cachedChildren dir m w1 = Some ch" by (auto simp: finishListing_def cachedChildren_def update_conv split: prod.splits)
  then show ?thesis using assms(3) by (simp add: walkDir.simps)
next
  case (Some c)
  then show ?thesis using assms by (simp add: walkDir.simps)
qed

text \<open>Witness: a file added in \<open>/d/s\<close> is not seen while \<open>/d\<close> keeps its modification time.\<close>

theorem walkDir_ignores_below_witness:
  "case walkDir exTreeCfg (FDir True (Some 1) [(''s'', FDir True (Some 1) [])]) ''/d'' 1 0 newTreeWalker of (ch, w1) \<Rightarrow>
     walkDir exTreeCfg (FDir True (Some 1) [(''s'', FDir True (Some 2) [(''new'', FFile (Some 3))])]) ''/d'' 1 0 w1 = (ch, w1) \<and>
     shapes (twHeap w1) ch = [WNode (dirObj ''s'' ''/d/s'') []]"
proof -
  obtain ch w1 where e: "walkDir exTreeCfg (FDir True (Some 1) [(''s'', FDir True (Some 1) [])]) ''/d'' 1 0 newTreeWalker = (ch, w1)" by fastforce
  have "case walkDir exTreeCfg (FDir True (Some 1) [(''s'', FDir True (Some 1) [])]) ''/d'' 1 0 newTreeWalker of (ch, w1) \<Rightarrow>
     shapes (twHeap w1) ch = [WNode (dirObj ''s'' ''/d/s'') []]" by code_simp
  then show ?thesis using walkDir_ignores_below [OF e, of 0 exTreeCfg True "[(''s'', FDir True (Some 2) [(''new'', FFile (Some 3))])]"]
    by (simp add: e treeMaxDepth_def)
qed

section \<open>Sizes and hashes\<close>

fun stampO :: "dirSizeCache option \<Rightarrow> treeObj \<Rightarrow> treeObj" where
  "stampO None ob = ob"
| "stampO (Some c) ob = stamp c ob"

lemma stampO_twice [simp]: "stampO c (stampO c ob) = stampO c ob"
  by (cases c) (auto simp: stamp_def split: option.splits)

lemma length_annotate [simp]: "length (annotateSizes c t h) = length h"
proof (induction c t h rule: annotateSizes.induct)
  case (2 c i ch h)
  have "length (fold (annotateSizes (Some c)) ts h1) = length h1" if "\<And>t h. t \<in> set ts \<Longrightarrow> length (annotateSizes (Some c) t h) = length h" for ts h1
    using that by (induction ts arbitrary: h1) auto
  from this [of ch] "2.IH" show ?case by simp
qed simp

lemma annotate_fold_nth:
  assumes "\<And>t h i. t \<in> set ts \<Longrightarrow> i < length h \<Longrightarrow> annotateSizes c t h ! i = (if i \<in> set (nodeIds t) then stampO c (h ! i) else h ! i)" "i < length h"
  shows "fold (annotateSizes c) ts h ! i = (if \<exists>t\<in>set ts. i \<in> set (nodeIds t) then stampO c (h ! i) else h ! i)"
  using assms by (induction ts arbitrary: h) auto

lemma annotate_nth: "i < length h \<Longrightarrow> annotateSizes c t h ! i = (if i \<in> set (nodeIds t) then stampO c (h ! i) else h ! i)"
proof (induction t arbitrary: h i)
  case (TNode j ch)
  show ?case
  proof (cases c)
    case None
    then show ?thesis by simp
  next
    case (Some k)
    have "fold (annotateSizes c) ch (h[j := stamp k (h ! j)]) ! i =
       (if \<exists>t\<in>set ch. i \<in> set (nodeIds t) then stampO c (h[j := stamp k (h ! j)] ! i) else h[j := stamp k (h ! j)] ! i)"
      by (rule annotate_fold_nth) (simp_all add: TNode)
    then show ?thesis using Some TNode.prems stampO_twice [of c "h ! j"] by (cases "i = j") (auto simp: nth_list_update)
  qed
qed

text \<open>From \<open>h\<close> to \<open>h'\<close> nodes are added, and a node already stamped is not changed.\<close>

definition keepsStamped :: "dirSizeCache option \<Rightarrow> treeWalker \<Rightarrow> treeWalker \<Rightarrow> bool" where
  "keepsStamped c w w' \<longleftrightarrow> length (twHeap w) \<le> length (twHeap w') \<and>
     (\<forall>i < length (twHeap w). stampO c (twHeap w ! i) = twHeap w ! i \<longrightarrow> twHeap w' ! i = twHeap w ! i)"

definition stampedTree :: "dirSizeCache option \<Rightarrow> treeWalker \<Rightarrow> treeNode \<Rightarrow> bool" where
  "stampedTree c w t \<longleftrightarrow> (\<forall>i\<in>set (nodeIds t). i < length (twHeap w) \<and> stampO c (twHeap w ! i) = twHeap w ! i)"

lemma grows_keeps: "grows w w' \<Longrightarrow> keepsStamped c w w'"
  by (auto simp: grows_def keepsStamped_def prefix_def nth_append)

lemma keeps_refl: "keepsStamped c w w"
  by (simp add: keepsStamped_def)

lemma keeps_trans: "keepsStamped c w w1 \<Longrightarrow> keepsStamped c w1 w2 \<Longrightarrow> keepsStamped c w w2"
  unfolding keepsStamped_def by (metis le_trans less_le_trans)

lemma keeps_tree:
  assumes "stampedTree c w t" "keepsStamped c w w'"
  shows "stampedTree c w' t \<and> wireOf (twHeap w') t = wireOf (twHeap w) t"
proof
  show "stampedTree c w' t" using assms unfolding stampedTree_def keepsStamped_def by (metis less_le_trans)
  show "wireOf (twHeap w') t = wireOf (twHeap w) t"
    by (rule wireOf_same) (use assms in \<open>auto simp: stampedTree_def keepsStamped_def\<close>)
qed

lemma laneItemOf_stamps:
  assumes "laneItemOf c hash k src t w = (it, w')" "walkerOk w" "live (twHeap w) [t]"
  shows "walkerOk w' \<and> keepsStamped c w w' \<and> stampedTree c w' (liTree it) \<and> liSum it = hash (wireOf (twHeap w') (liTree it)) \<and> liKey it = k"
proof -
  have i: "liTree it = t" "twHeap w' = annotateSizes c t (twHeap w)" "twCache w' = twCache w" "liKey it = k" "liSum it = hash (wireOf (twHeap w') t)"
    using assms(1) by (auto simp: laneItemOf_def Let_def)
  have "walkerOk w'" using assms(2) i by (simp add: walkerOk_def live_def)
  moreover have "keepsStamped c w w'" using i(2) annotate_nth [of _ "twHeap w" c t] by (auto simp: keepsStamped_def)
  moreover have "stampedTree c w' t" using assms(3) i(2) annotate_nth [of _ "twHeap w" c t] by (auto simp: stampedTree_def live_def)
  ultimately show ?thesis using i by simp
qed

lemma treeWalkRoot_live:
  assumes "treeWalkRoot cfg lstat r w = (t, w')" "walkerOk w"
  shows "grows w w' \<and> walkerOk w' \<and> (\<forall>n. t = Some n \<longrightarrow> live (twHeap w') [n])"
proof (cases "\<exists>ok m es. lstat r = Some (FDir ok (Some m) es)")
  case True
  then obtain ok m es where n: "lstat r = Some (FDir ok (Some m) es)" by blast
  obtain ch w1 where c: "walkDir cfg (FDir ok (Some m) es) r m 0 w = (ch, w1)" by fastforce
  obtain t1 w2 where a: "allocNode (dirObj (pathBase r) r) ch w1 = (t1, w2)" by fastforce
  have "t = Some t1" "w' = w2" using assms(1) n c a by (auto simp: treeWalkRoot_def)
  moreover have "grows w w1 \<and> walkerOk w1 \<and> live (twHeap w1) ch" using walk_live(1) [OF c assms(2)] .
  ultimately show ?thesis using alloc_live [OF a] grown_trans by blast
next
  case False
  then have "t = None \<and> w' = w" using assms(1) by (auto simp: treeWalkRoot_def split: option.splits fsNode.splits)
  then show ?thesis using assms(2) by simp
qed

lemma umbrellaChildren_live:
  "umbrellaChildren cfg lstat rs w = (ts, w') \<Longrightarrow> walkerOk w \<Longrightarrow> grows w w' \<and> walkerOk w' \<and> live (twHeap w') ts"
proof (induction cfg lstat rs w arbitrary: ts w' rule: umbrellaChildren.induct)
  case (2 cfg lstat r rs w)
  obtain t w1 where a: "treeWalkRoot cfg lstat r w = (t, w1)" by fastforce
  note l = treeWalkRoot_live [OF a "2.prems"(2)]
  obtain us w2 where u: "umbrellaChildren cfg lstat rs w1 = (us, w2)" by fastforce
  show ?case
  proof (cases t)
    case None
    then show ?thesis using "2.IH"(1) [OF a [symmetric] None u] "2.prems"(1) a l u by (auto intro: grown_trans)
  next
    case (Some n)
    then have i: "grows w1 w2 \<and> walkerOk w2 \<and> live (twHeap w2) us" using "2.IH"(2) [OF a [symmetric] Some u] l by simp
    have r: "ts = n # us" "w' = w2" using "2.prems"(1) a u Some by simp_all
    have "live (twHeap w2) [n]" using live_grows i l Some by blast
    then show ?thesis using i l r live_simps(3) [of "twHeap w2" "[n]" us] by (auto intro: grown_trans)
  qed
qed auto

lemma umbrella_live:
  assumes "walkBackupRootsUmbrella cfg lstat w = (t, w')" "walkerOk w"
  shows "grows w w' \<and> walkerOk w' \<and> (\<forall>n. t = Some n \<longrightarrow> live (twHeap w') [n])"
proof -
  obtain ts w1 where u: "umbrellaChildren cfg lstat (tcBackupRoots cfg) w = (ts, w1)" by fastforce
  obtain t1 w2 where a: "allocNode (dirObj ''(all backup roots)'' ''/'') ts w1 = (t1, w2)" by fastforce
  note l = umbrellaChildren_live [OF u assms(2)]
  then have k: "grows w1 w2 \<and> walkerOk w2 \<and> live (twHeap w2) [t1]" using alloc_live [OF a] by simp
  have "(t, w') \<in> {(None, w), (None, w1), (Some t1, w2)}"
    using assms(1) u a by (auto simp: walkBackupRootsUmbrella_def split: if_splits list.splits)
  then show ?thesis using k l assms(2) grown_trans by auto
qed

lemma repoTreeOf_live:
  assumes "repoTreeOf cfg lstat r w = ((src, t), w')" "walkerOk w"
  shows "grows w w' \<and> walkerOk w' \<and> (\<forall>n. t = Some n \<longrightarrow> live (twHeap w') [n])"
  using assms treeWalkRoot_live umbrella_live unfolding repoTreeOf_def Let_def by (auto split: if_splits prod.splits)

text \<open>All items hash the tree as the heap has it at the end.\<close>

definition itemsOk :: "dirSizeCache option \<Rightarrow> (wireNode \<Rightarrow> string) \<Rightarrow> treeWalker \<Rightarrow> laneItem list \<Rightarrow> bool" where
  "itemsOk c hash w its \<longleftrightarrow> (\<forall>it\<in>set its. stampedTree c w (liTree it) \<and> liSum it = hash (wireOf (twHeap w) (liTree it)))"

lemma itemsOk_Cons:
  assumes "laneItemOf c hash k src t w = (it, w1)" "walkerOk w" "live (twHeap w) [t]" "keepsStamped c w1 w2" "itemsOk c hash w2 its"
  shows "itemsOk c hash w2 (it # its)"
  using laneItemOf_stamps [OF assms(1-3)] keeps_tree [OF _ assms(4)] assms(5) by (simp add: itemsOk_def)

lemma repoItems_ok:
  "repoItems cfg lstat sizes hash rs w = (its, w') \<Longrightarrow> walkerOk w \<Longrightarrow> (\<forall>r\<in>set rs. sizes r = c) \<Longrightarrow>
     walkerOk w' \<and> keepsStamped c w w' \<and> itemsOk c hash w' its"
proof (induction cfg lstat sizes hash rs w arbitrary: its w' rule: repoItems.induct)
  case (1 cfg lstat sizes hash w)
  then show ?case by (simp add: itemsOk_def keeps_refl)
next
  case (2 cfg lstat sizes hash r rs w)
  obtain src t w1 where a: "repoTreeOf cfg lstat r w = ((src, t), w1)" by (metis prod.exhaust)
  note l = repoTreeOf_live [OF a "2.prems"(2)]
  have c: "sizes r = c" "\<forall>r\<in>set rs. sizes r = c" using "2.prems"(3) by simp_all
  show ?case
  proof (cases t)
    case None
    then have "repoItems cfg lstat sizes hash rs w1 = (its, w')" using "2.prems"(1) a by simp
    from "2.IH"(1) [OF a [symmetric] refl None this _ c(2)] l show ?thesis using keeps_trans [OF grows_keeps] by blast
  next
    case (Some n)
    define k where "k = (if rSnapshotID r = [] then rID r else rSnapshotID r)"
    obtain it w2 where i: "laneItemOf (sizes r) hash k src n w1 = (it, w2)" by fastforce
    obtain js w3 where j: "repoItems cfg lstat sizes hash rs w2 = (js, w3)" by fastforce
    have r: "its = it # js" "w' = w3" using "2.prems"(1) a Some i j by (simp_all add: k_def)
    have lv: "live (twHeap w1) [n]" using l Some by blast
    note s = laneItemOf_stamps [OF i [unfolded c(1)] _ lv]
    have ih: "walkerOk w3 \<and> keepsStamped c w2 w3 \<and> itemsOk c hash w3 js"
      using "2.IH"(2) [OF a [symmetric] refl Some i [unfolded k_def, symmetric] j _ c(2)] s l by blast
    have "keepsStamped c w w3" using keeps_trans [OF grows_keeps keeps_trans] l s ih by blast
    then show ?thesis using ih itemsOk_Cons [OF i [unfolded c(1)] _ lv] l unfolding r by blast
  qed
qed

lemma nodeItems_ok:
  "nodeItems cfg lstat sizes hash rs w = (its, w') \<Longrightarrow> walkerOk w \<Longrightarrow> (\<forall>r\<in>set rs. sizes r = c) \<Longrightarrow>
     walkerOk w' \<and> keepsStamped c w w' \<and> itemsOk c hash w' its"
proof (induction cfg lstat sizes hash rs w arbitrary: its w' rule: nodeItems.induct)
  case (1 cfg lstat sizes hash w)
  then show ?case by (simp add: itemsOk_def keeps_refl)
next
  case (2 cfg lstat sizes hash r rs w)
  obtain t w1 where a: "treeWalkRoot cfg lstat r w = (t, w1)" by fastforce
  note l = treeWalkRoot_live [OF a "2.prems"(2)]
  have c: "sizes r = c" "\<forall>r\<in>set rs. sizes r = c" using "2.prems"(3) by simp_all
  show ?case
  proof (cases t)
    case None
    then have "nodeItems cfg lstat sizes hash rs w1 = (its, w')" using "2.prems"(1) a by simp
    from "2.IH"(1) [OF a [symmetric] None this _ c(2)] l show ?thesis using keeps_trans [OF grows_keeps] by blast
  next
    case (Some n)
    obtain it w2 where i: "laneItemOf (sizes r) hash r r n w1 = (it, w2)" by fastforce
    obtain js w3 where j: "nodeItems cfg lstat sizes hash rs w2 = (js, w3)" by fastforce
    have r: "its = it # js" "w' = w3" using "2.prems"(1) a Some i j by simp_all
    have lv: "live (twHeap w1) [n]" using l Some by blast
    note s = laneItemOf_stamps [OF i [unfolded c(1)] _ lv]
    have ih: "walkerOk w3 \<and> keepsStamped c w2 w3 \<and> itemsOk c hash w3 js"
      using "2.IH"(2) [OF a [symmetric] Some i [symmetric] j _ c(2)] s l by blast
    have "keepsStamped c w w3" using keeps_trans [OF grows_keeps keeps_trans] l s ih by blast
    then show ?thesis using ih itemsOk_Cons [OF i [unfolded c(1)] _ lv] l unfolding r by blast
  qed
qed

lemma putTrees_sent:
  "putTrees q h want its = (sent, errs) \<Longrightarrow> (it, body) \<in> set sent \<Longrightarrow> it \<in> set its \<and> body = wireOf h (liTree it)"
  by (induction q h want its arbitrary: sent errs rule: putTrees.induct) (auto split: if_splits prod.splits)

lemma lane_bodies:
  assumes "itemsOk c hash w its" "snd (pushTreeLane q (twHeap w) its) = Some (sent, errs)" "(it, body) \<in> set sent"
  shows "hash body = liSum it"
proof -
  obtain want where "putTrees q (twHeap w) want its = (sent, errs)"
    using assms(2,3) by (auto simp: pushTreeLane_def Let_def split: if_splits option.splits)
  from putTrees_sent [OF this assms(3)] show ?thesis using assms(1) by (auto simp: itemsOk_def)
qed

text \<open>C32. The two sides hash one byte stream: when the gatherer's totals do not change between the annotation of the first
  tree of a lane and its last, every body sent in it hashes to the sum the manifest announced for it, in both lanes - even
  though the bodies are rendered anew, from nodes that the trees of overlapping roots share.\<close>

theorem lane_bodies_hash:
  assumes "walkerOk w" "\<forall>r. rsizes r = c" "\<forall>r. nsizes r = c" "pushRepoTrees cfg lstat rsizes hash qr ix w = (x, w1)" "pushNodeTrees cfg lstat nsizes hash qn w1 = (y, w2)"
  shows "(\<forall>sent errs. snd x = Some (sent, errs) \<longrightarrow> (\<forall>(it, body)\<in>set sent. hash body = liSum it)) \<and>
    (\<forall>sent errs. snd y = Some (sent, errs) \<longrightarrow> (\<forall>(it, body)\<in>set sent. hash body = liSum it)) \<and> walkerOk w2"
proof -
  obtain its v1 where a: "repoItems cfg lstat rsizes hash (indexList ix) w = (its, v1)" by fastforce
  have x: "x = pushTreeLane qr (twHeap v1) its" "w1 = v1" using assms(4) a by (auto simp: pushRepoTrees_def)
  obtain ns v2 where b: "nodeItems cfg lstat nsizes hash (tcBackupRoots cfg) w1 = (ns, v2)" by fastforce
  have y: "y = pushTreeLane qn (twHeap v2) ns" "w2 = v2" using assms(5) b by (auto simp: pushNodeTrees_def)
  have i: "walkerOk v1 \<and> itemsOk c hash v1 its" using repoItems_ok [OF a assms(1)] assms(2) by blast
  have j: "walkerOk v2 \<and> itemsOk c hash v2 ns" using nodeItems_ok [OF b] i x(2) assms(3) by blast
  show ?thesis using lane_bodies i j x y by blast
qed

text \<open>What the controller is sent when every call succeeds and it asks for everything.\<close>

definition askAll :: laneEnv where
  "askAll = \<lparr>leNeed = (\<lambda>m. Some (map fst m)), lePut = (\<lambda>k b. True)\<rparr>"

definition exLstat :: "string \<Rightarrow> fsNode option" where
  "exLstat p = (if p = ''/d'' then Some (FDir True (Some 1) [(''s'', FDir True (Some 1) [(''b'', FDir True (Some 1) [])])])
     else if p = ''/d/s'' then Some (FDir True (Some 1) [(''b'', FDir True (Some 1) [])]) else None)"

definition exSizes :: "int \<Rightarrow> dirSizeCache" where
  "exSizes n = \<lparr>dcMap = [(''/d/s/b'', \<lparr>dsBytes = n, dsFileCount = 1, dsComputedAtS = 0, dsLastWalkMS = 0\<rparr>)], dcFile = SNoFile,
     dcLegacy = False, dcRemoveErr = False, dcSaveErr = False\<rparr>"

definition exRootsCfg :: treeCfg where "exRootsCfg = \<lparr>tcBackupRoots = [''/d'', ''/d/s''], tcBackupExcludePaths = []\<rparr>"

fun sizeHash :: "wireNode \<Rightarrow> string" where
  "sizeHash (WNode ob ch) = ''('' @ natDigits (nat (toSize ob)) @ concat (map sizeHash ch) @ '')''"

text \<open>Witness: two overlapping roots.\<close>

theorem lane_bodies_hash_witness:
  "let (x, w1) = pushRepoTrees exRootsCfg exLstat (\<lambda>_. Some (exSizes 7)) sizeHash askAll (newRepoIndex []) newTreeWalker;
       (y, w2) = pushNodeTrees exRootsCfg exLstat (\<lambda>_. Some (exSizes 7)) sizeHash askAll w1
   in walkerOk w2 \<and> map_option (\<lambda>(sent, errs). map (\<lambda>(it, body). (liSum it, sizeHash body)) sent) (snd y) = Some [(''(0(0(7)))'', ''(0(0(7)))''), (''(0(7))'', ''(0(7))'')]"
proof -
  obtain x w1 where a: "pushRepoTrees exRootsCfg exLstat (\<lambda>_. Some (exSizes 7)) sizeHash askAll (newRepoIndex []) newTreeWalker = (x, w1)" by fastforce
  obtain y w2 where b: "pushNodeTrees exRootsCfg exLstat (\<lambda>_. Some (exSizes 7)) sizeHash askAll w1 = (y, w2)" by fastforce
  have ok: "walkerOk newTreeWalker" by (simp add: newTreeWalker_def walkerOk_def)
  have "case pushRepoTrees exRootsCfg exLstat (\<lambda>_. Some (exSizes 7)) sizeHash askAll (newRepoIndex []) newTreeWalker of (x, w1) \<Rightarrow>
     map_option (\<lambda>(sent, errs). map (\<lambda>(it, body). (liSum it, sizeHash body)) sent) (snd (fst (pushNodeTrees exRootsCfg exLstat (\<lambda>_. Some (exSizes 7)) sizeHash askAll w1))) =
     Some [(''(0(0(7)))'', ''(0(0(7)))''), (''(0(7))'', ''(0(7))'')]" by code_simp
  then show ?thesis using lane_bodies_hash [OF ok _ _ a b] by (simp add: a b)
qed

text \<open>They can disagree all the same: when the gatherer finishes a directory that two roots share between the annotation
  of the one tree and of the other, the first is announced under the hash of its old sizes and sent with the new ones.\<close>

theorem lane_body_hash_differs:
  "map_option (\<lambda>(sent, errs). map (\<lambda>(it, body). (liSum it, sizeHash body)) sent)
     (snd (fst (pushNodeTrees exRootsCfg exLstat (\<lambda>r. Some (exSizes (if r = ''/d'' then 7 else 8))) sizeHash askAll newTreeWalker))) =
   Some [(''(0(0(7)))'', ''(0(0(8)))''), (''(0(8))'', ''(0(8))'')]"
  by code_simp

text \<open>Sizes are only ever stamped, never cleared: once a node has a size, a push with a gatherer that no longer has the
  directory sends the old one.\<close>

theorem annotateSizes_never_clears:
  assumes "toType (h ! i) = TDirectory" "SizeOf c (toPath (h ! i)) = None" "i < length h"
  shows "annotateSizes (Some c) t h ! i = h ! i"
  using assms annotate_nth [of i h "Some c" t] by (simp add: stamp_def)

text \<open>Witness.\<close>

theorem annotateSizes_never_clears_witness:
  "let h = [(dirObj ''b'' ''/d/s/b'')\<lparr>toSize := 7\<rparr>]; c = (exSizes 0)\<lparr>dcMap := []\<rparr> in annotateSizes (Some c) (TNode 0 []) h ! 0 = h ! 0 \<and> toSize (h ! 0) = 7"
proof -
  have "toType ([(dirObj ''b'' ''/d/s/b'')\<lparr>toSize := 7\<rparr>] ! 0) = TDirectory" "SizeOf ((exSizes 0)\<lparr>dcMap := []\<rparr>) (toPath ([(dirObj ''b'' ''/d/s/b'')\<lparr>toSize := 7\<rparr>] ! 0)) = None"
    by code_simp+
  from annotateSizes_never_clears [OF this, of "TNode 0 []"] show ?thesis unfolding Let_def by simp
qed

section \<open>The lane\<close>

lemma putTrees_exact:
  "putTrees q h want its = (sent, errs) \<Longrightarrow>
     distinct (map (\<lambda>(it, b). liKey it) sent) \<and> set (map (\<lambda>(it, b). liKey it) sent) = set want \<inter> liKey ` set its \<and>
     (\<forall>(it, b)\<in>set sent. find (\<lambda>i. liKey i = liKey it) its = Some it \<and> b = wireOf h (liTree it)) \<and>
     errs = [liKey it. (it, b) \<leftarrow> sent, \<not> lePut q (liKey it) b]"
proof (induction q h want its arbitrary: sent errs rule: putTrees.induct)
  case (2 q h want it its)
  show ?case
  proof (cases "liKey it \<in> set want")
    case False
    then have "putTrees q h want its = (sent, errs)" using "2.prems" by simp
    note ih = "2.IH"(1) [OF False this]
    then have "liKey i \<noteq> liKey it" if "(i, b) \<in> set sent" for i b using that False by force
    then show ?thesis using ih False by fastforce
  next
    case True
    obtain s e where p: "putTrees q h (List.removeAll (liKey it) want) its = (s, e)" by fastforce
    have r: "sent = (it, wireOf h (liTree it)) # s" "errs = (if lePut q (liKey it) (wireOf h (liTree it)) then e else liKey it # e)"
      using "2.prems" True p by simp_all
    note ih = "2.IH"(2) [OF _ p] 
    then have "liKey i \<noteq> liKey it" if "(i, b) \<in> set s" for i b using that True by force
    then show ?thesis using ih True unfolding r by fastforce
  qed
qed auto

text \<open>The lane: the manifest names every item; when it fails nothing is sent; when it is answered, the bodies sent are
  those of the keys the controller needs that the lane has, each key once, of the first item with that key, and the errors
  are the keys whose upload failed - one failure does not keep the others from being sent.\<close>

theorem pushTreeLane_exact:
  "fst (pushTreeLane q h its) = map (\<lambda>it. (liKey it, liSum it)) its \<and>
   (case snd (pushTreeLane q h its) of
      None \<Rightarrow> its \<noteq> [] \<and> leNeed q (fst (pushTreeLane q h its)) = None
    | Some (sent, errs) \<Rightarrow> let need = (if its = [] then [] else the (leNeed q (fst (pushTreeLane q h its)))) in
        distinct (map (\<lambda>(it, b). liKey it) sent) \<and> set (map (\<lambda>(it, b). liKey it) sent) = set need \<inter> liKey ` set its \<and>
        list_all (\<lambda>(it, b). find (\<lambda>i. liKey i = liKey it) its = Some it \<and> b = wireOf h (liTree it)) sent \<and>
        errs = [liKey it. (it, b) \<leftarrow> sent, \<not> lePut q (liKey it) b])"
proof (cases "its = []")
  case True
  then show ?thesis by (simp add: pushTreeLane_def)
next
  case False
  show ?thesis
  proof (cases "leNeed q (map (\<lambda>it. (liKey it, liSum it)) its)")
    case None
    then show ?thesis using False by (simp add: pushTreeLane_def Let_def)
  next
    case (Some need)
    obtain s e where p: "putTrees q h need its = (s, e)" by fastforce
    from putTrees_exact [OF p] show ?thesis using False Some p by (simp add: pushTreeLane_def Let_def list_all_iff)
  qed
qed

end
