(* ===== verification/RepoInit.thy ===== *)
theory RepoInit
  imports Secrets Duplicacy Lifecycle
begin

text \<open>
  init_handler.go and sftp_mkdir.go: POST /repos/init, POST /repos/bind and the invalidation of a credential. The duplicacy
  CLI is not part of the repository: what a run of it answers and does to the disk is the argument \<open>ieCLI\<close>, as are the
  outcomes of the SSH and SFTP sessions, the RSA key conversion and the hash of the repo ids. \<open>iaRuns\<close> records the
  invocations made. The theorems say what the handlers may touch, that no key file outlives a request, when a repository
  already on disk is taken over, and what a bind leaves behind.
\<close>

section \<open>Requests\<close>

record initStorageReq =
  isStorageAlias :: string
  isCredentialID :: string
  isIsPrimary :: bool
  isStorageType :: string
  isStorageURL :: string
  isServerOverride :: string
  isSecrets :: SecretsBundle

record initRepoReq =
  irRepoPath :: string
  irRepoID :: string
  irRepoUUID :: string
  irStorages :: "initStorageReq list"

definition isAgentValidStorageType :: "string \<Rightarrow> bool" where
  "isAgentValidStorageType s \<longleftrightarrow> s \<in> {''b2'', ''s3'', ''sftp'', ''gcs'', ''azure'', ''local''}"

datatype initReqError =
    PathNotAbs | PathNotCanonical string | PathOutside string | RepoIDMissing | NoStorage
  | CredentialMissing nat | AliasMissing nat | AliasDuplicate string | TypeInvalid nat string | URLMissing nat | PasswordMissing nat
  | PrimaryCount nat

fun validateStorages :: "nat \<Rightarrow> string list \<Rightarrow> initStorageReq list \<Rightarrow> initReqError option" where
  "validateStorages i seen [] = None"
| "validateStorages i seen (s # ss) =
     (if isCredentialID s = [] then Some (CredentialMissing i)
      else if trimSpace (isStorageAlias s) = [] then Some (AliasMissing i)
      else if isStorageAlias s \<in> set seen then Some (AliasDuplicate (isStorageAlias s))
      else if \<not> isAgentValidStorageType (isStorageType s) then Some (TypeInvalid i (isStorageType s))
      else if isStorageURL s = [] then Some (URLMissing i)
      else if sbEncryptionPassword (isSecrets s) = [] then Some (PasswordMissing i)
      else validateStorages (Suc i) (isStorageAlias s # seen) ss)"

definition validateInitReq :: "string list \<Rightarrow> initRepoReq \<Rightarrow> initReqError option" where
  "validateInitReq roots req =
     (if \<not> hasPrefix (irRepoPath req) ''/'' then Some PathNotAbs
      else let clean = pathClean (irRepoPath req)
      in if clean \<noteq> irRepoPath req then Some (PathNotCanonical clean)
      else if \<not> pathInsideAny clean roots then Some (PathOutside clean)
      else if trimSpace (irRepoID req) = [] then Some RepoIDMissing
      else if irStorages req = [] then Some NoStorage
      else case validateStorages 0 [] (irStorages req) of
        Some e \<Rightarrow> Some e
      | None \<Rightarrow>
          let primaries = length (filter isIsPrimary (irStorages req))
          in if primaries \<noteq> 1 then Some (PrimaryCount primaries) else None)"

text \<open>The loop that expands the URLs and applies the region guard.\<close>

datatype expandError = ExpandFailed nat tplError | MissingRegion nat

fun expandStorages :: "tplCtx \<Rightarrow> nat \<Rightarrow> initStorageReq list \<Rightarrow> expandError + initStorageReq list" where
  "expandStorages ctx i [] = Inr []"
| "expandStorages ctx i (s # ss) =
     (case expandStorageURL (isStorageURL s) ctx (isServerOverride s) of
        Inl e \<Rightarrow> Inl (ExpandFailed i e)
      | Inr u \<Rightarrow>
          if s3URLMissingRegion (isStorageType s) u then Inl (MissingRegion i)
          else (case expandStorages ctx (Suc i) ss of Inl e \<Rightarrow> Inl e | Inr r \<Rightarrow> Inr (s\<lparr>isStorageURL := u\<rparr> # r)))"

section \<open>SFTP directories\<close>

text \<open>\<open>u.Path\<close> of an sftp URL that \<open>urlParse\<close> accepts.\<close>

definition sftpPath :: "string \<Rightarrow> string" where
  "sftpPath raw = (let rest = drop (length ''sftp://'') (upTo CHR ''?'' (upTo CHR ''#'' raw)) in unescape (drop (length (upTo CHR ''/'' rest)) rest))"

datatype sftpStat = SftpDir | SftpNotDir | SftpMissing | SftpStatErr

record sftpEnv =
  seReadKey :: "string \<Rightarrow> string option"
  seParseKey :: "string \<Rightarrow> string \<Rightarrow> bool"
  seConnect :: "string \<Rightarrow> string \<Rightarrow> bool"  \<comment> \<open>dial, handshake and subsystem for a host and a user\<close>
  seStat :: "string \<Rightarrow> sftpStat"
  seMkdirAll :: "string \<Rightarrow> bool"

datatype sftpError =
    SftpURL | SftpNoUser | SftpNoHost | SftpNoPath | SftpNoKey | SftpReadKey | SftpParseKey | SftpConnect string
  | SftpNotADir string | SftpStatFailed string | SftpMkdir string

definition ensureSFTPStorageDir :: "sftpEnv \<Rightarrow> string \<Rightarrow> string \<Rightarrow> string \<Rightarrow> sftpError option" where
  "ensureSFTPStorageDir v storageURL keyFile passphrase =
     (if \<not> hasPrefix storageURL ''sftp://'' then None
      else case urlParse storageURL of
        None \<Rightarrow> Some SftpURL
      | Some (user, host0) \<Rightarrow>
          if user = None \<or> user = Some [] then Some SftpNoUser
          else if host0 = [] then Some SftpNoHost
          else let host = (if CHR '':'' \<in> set host0 then host0 else host0 @ '':22'');
                   remote = trimLeftFunc (sftpPath storageURL) (\<lambda>c. c = CHR ''/'')
          in if remote = [] then Some SftpNoPath
          else let remotePath = CHR ''/'' # remote
          in if keyFile = [] then Some SftpNoKey
          else case seReadKey v keyFile of
            None \<Rightarrow> Some SftpReadKey
          | Some key \<Rightarrow>
              if \<not> seParseKey v key passphrase then Some SftpParseKey
              else if \<not> seConnect v host (the user) then Some (SftpConnect host)
              else case seStat v remotePath of
                SftpDir \<Rightarrow> None
              | SftpNotDir \<Rightarrow> Some (SftpNotADir remotePath)
              | SftpStatErr \<Rightarrow> Some (SftpStatFailed remotePath)
              | SftpMissing \<Rightarrow> if seMkdirAll v remotePath then None else Some (SftpMkdir remotePath))"

definition sshAuthFromEnv :: "string list \<Rightarrow> string \<Rightarrow> bool \<Rightarrow> string \<times> string" where
  "sshAuthFromEnv env alias isPrimary =
     (let pre = (if \<not> isPrimary \<and> alias \<noteq> [] \<and> \<not> equalFold alias ''default'' then ''DUPLICACY_'' @ toUpper alias @ ''_'' else ''DUPLICACY_'')
      in foldl (\<lambda>(keyFile, passphrase) kv.
           case cutChar CHR ''='' kv of
             None \<Rightarrow> (keyFile, passphrase)
           | Some (k, v) \<Rightarrow>
               if k = pre @ ''SSH_KEY_FILE'' then (v, passphrase)
               else if k = pre @ ''SSH_KEY_PASSPHRASE'' then (keyFile, v) else (keyFile, passphrase)) ([], []) env)"

section \<open>Staging\<close>

record stagedStorage =
  stReq :: initStorageReq
  stEnv :: "string list"
  stTmpfiles :: "string list"
  stRsaPubPath :: string

definition noStaged :: stagedStorage where
  "noStaged = \<lparr>stReq = \<lparr>isStorageAlias = [], isCredentialID = [], isIsPrimary = False, isStorageType = [], isStorageURL = [], isServerOverride = [],
     isSecrets = \<lparr>sbStorageURL = [], sbStorageType = [], sbEncryptionPassword = [], sbBackend = [], sbUpdatedAt = None\<rparr>\<rparr>,
     stEnv = [], stTmpfiles = [], stRsaPubPath = []\<rparr>"

fun stagedFor :: "stagedStorage list \<Rightarrow> string \<Rightarrow> stagedStorage" where
  "stagedFor [] alias = noStaged"
| "stagedFor (s # ss) alias = (if isStorageAlias (stReq s) = alias then s else stagedFor ss alias)"

definition rollback :: "stagedStorage list \<Rightarrow> shmState \<Rightarrow> shmState" where
  "rollback staged st = fold (\<lambda>s. cleanupTmpfiles (stTmpfiles s)) staged st"

text \<open>The staging loop; a failure rolls back what was staged before.\<close>

fun stageStorages :: "(string \<Rightarrow> string) \<Rightarrow> initStorageReq list \<Rightarrow> stagedStorage list \<Rightarrow> shmState \<Rightarrow> (string \<times> envError + stagedStorage list) \<times> shmState" where
  "stageStorages pkcs1 [] staged st = (Inr staged, st)"
| "stageStorages pkcs1 (s # ss) staged st =
     (case buildEnv pkcs1 (isStorageType s) (isStorageAlias s) (isIsPrimary s) (isSecrets s) st of
        (Inl e, st1) \<Rightarrow> (Inl (isStorageAlias s, e), rollback staged st1)
      | (Inr r, st1) \<Rightarrow>
          stageStorages pkcs1 ss (staged @ [\<lparr>stReq = s, stEnv = beEnv r, stTmpfiles = beTmpfiles r, stRsaPubPath = beRSAPubPath r\<rparr>]) st1)"

fun ensureDirs :: "sftpEnv \<Rightarrow> stagedStorage list \<Rightarrow> (string \<times> sftpError) option" where
  "ensureDirs v [] = None"
| "ensureDirs v (s # ss) =
     (if \<not> hasPrefix (isStorageURL (stReq s)) ''sftp://'' then ensureDirs v ss
      else case sshAuthFromEnv (stEnv s) (isStorageAlias (stReq s)) (isIsPrimary (stReq s)) of
        (keyFile, passphrase) \<Rightarrow>
          if keyFile = [] then ensureDirs v ss
          else case ensureSFTPStorageDir v (isStorageURL (stReq s)) keyFile passphrase of
            Some e \<Rightarrow> Some (isStorageAlias (stReq s), e)
          | None \<Rightarrow> ensureDirs v ss)"

section \<open>POST /repos/init\<close>

record initApp =
  iaApp :: app
  iaSiteID :: string
  iaRemoteSite :: string
  iaShm :: shmState
  iaCache :: secretCache
  iaRuns :: "cliInvocation list"

text \<open>A run of the CLI: whether it exits with 0, its output, and the disk after it. \<open>ieMkdirErr\<close> are the directories whose
  creation fails, \<open>ieScrubFault\<close> says that rewriting the preferences fails.\<close>

record initEnv =
  ieSha :: "string \<Rightarrow> string"
  iePkcs1 :: "string \<Rightarrow> string"
  ieNow :: int
  ieCLI :: "cliInvocation \<Rightarrow> disk \<Rightarrow> (bool \<times> string) \<times> disk"
  ieSFTP :: sftpEnv
  ieMkdirErr :: "string list"
  ieScrubFault :: bool

datatype initError =
    BadRequest | Invalid initReqError | BadURL expandError | MkdirError | NoPrimary | StageFailed string envError
  | SFTPDirFailed string sftpError | InitFailed string | PrefsUnreadable | PrimaryConflict string | StorageConflict string string
  | AddFailed string string | NotInitialized | StorageAbsent string | PersistFailed

datatype initResp = InitOk string | InitErr nat initError

text \<open>The directories on the way to a path, outermost first.\<close>

definition dirsTo :: "string \<Rightarrow> string list" where
  "dirsTo p = map (\<lambda>n. CHR ''/'' # joinChar CHR ''/'' (take n (cleanParts p))) [1..<Suc (length (cleanParts p))]"

fun mkdirs :: "string list \<Rightarrow> string list \<Rightarrow> disk \<Rightarrow> bool \<times> disk" where
  "mkdirs errs [] d = (True, d)"
| "mkdirs errs (p # ps) d =
     (case osStat d p of
        StatOk DirNode \<Rightarrow> mkdirs errs ps d
      | StatNotExist \<Rightarrow> if p \<in> set errs then (False, d) else mkdirs errs ps (d\<lparr>entries := (p, DirNode) # entries d\<rparr>)
      | _ \<Rightarrow> (False, d))"

definition ensureDir :: "string list \<Rightarrow> string \<Rightarrow> disk \<Rightarrow> bool \<times> disk" where
  "ensureDir errs p d = mkdirs errs (dirsTo (pathClean p)) d"

definition prefsPath :: "string \<Rightarrow> string" where
  "prefsPath repoPath = pathJoin [repoPath, ''.duplicacy'', ''preferences'']"

definition readPreferenceURLs :: "disk \<Rightarrow> string \<Rightarrow> (string \<times> string) list option" where
  "readPreferenceURLs d repoPath =
     (case readPreferences d (prefsPath repoPath) of
        Inl _ \<Rightarrow> None
      | Inr raws \<Rightarrow> Some (fold (\<lambda>p m. AList.update (pName p) (pStorageURL p) m) raws []))"

definition isAlreadyInitialized :: "string \<Rightarrow> bool" where
  "isAlreadyInitialized out = strContains out ''has already been initialized''"

definition toMappingStorages :: "initStorageReq list \<Rightarrow> RepoStorageMapping list" where
  "toMappingStorages = map (\<lambda>s. \<lparr>smStorageAlias = isStorageAlias s, smCredentialID = isCredentialID s, smStorageType = isStorageType s, smIsPrimary = isIsPrimary s\<rparr>)"

definition outputTail :: "string \<Rightarrow> nat \<Rightarrow> string" where
  "outputTail s n = (if length s \<le> n then s else drop (length s - n) s)"

definition initRunSync :: "initEnv \<Rightarrow> cliInvocation \<Rightarrow> initApp \<Rightarrow> (bool \<times> string) \<times> initApp" where
  "initRunSync v ci a =
     (case ieCLI v ci (appDisk (iaApp a)) of (res, d) \<Rightarrow> (res, a\<lparr>iaApp := (iaApp a)\<lparr>appDisk := d\<rparr>, iaRuns := iaRuns a @ [ci]\<rparr>))"

text \<open>The loop over the secondary storages. \<open>existing\<close> is \<open>None\<close> when the repository is not being adopted.\<close>

fun addStorages :: "initEnv \<Rightarrow> initRepoReq \<Rightarrow> initStorageReq \<Rightarrow> stagedStorage \<Rightarrow> (string \<times> string) list option \<Rightarrow> stagedStorage list \<Rightarrow> initApp \<Rightarrow> initResp option \<times> initApp" where
  "addStorages v req primary ps existing [] a = (None, a)"
| "addStorages v req primary ps existing (s # ss) a =
     (let r = stReq s; next = addStorages v req primary ps existing ss
      in if isIsPrimary r then next a
         else case (case existing of None \<Rightarrow> None | Some m \<Rightarrow> map_of m (isStorageAlias r)) of
           Some got \<Rightarrow> if got \<noteq> isStorageURL r then (Some (InitErr 409 (StorageConflict (isStorageAlias r) got)), a) else next a
         | None \<Rightarrow>
             let pw = sbEncryptionPassword (isSecrets r); bitIdentical = (pw \<noteq> [] \<and> pw = sbEncryptionPassword (isSecrets primary));
                 ci0 = invocationForAdd (irRepoPath req) (isStorageAlias r) (irRepoID req) (isStorageURL r) True (stRsaPubPath s) (isStorageAlias primary) bitIdentical;
                 ci = ci0\<lparr>EnvAdds := EnvAdds ci0 @ stEnv ps @ stEnv s\<rparr>
             in case initRunSync v ci a of
                  ((False, out), a1) \<Rightarrow> (Some (InitErr 500 (AddFailed (isStorageAlias r) (outputTail out 4096))), a1)
                | ((True, out), a1) \<Rightarrow> next a1)"

definition mappingFor :: "int \<Rightarrow> initRepoReq \<Rightarrow> RepoMapping" where
  "mappingFor now req =
     \<lparr>mRepoPath = irRepoPath req, mRepoID = irRepoID req, mUUID = irRepoUUID req, mStorages = toMappingStorages (irStorages req), mRegisteredAt = Some now\<rparr>"

text \<open>From the run of \<open>duplicacy init\<close> to the answer; the caller's deferred rollback follows.\<close>

definition finishInit :: "initEnv \<Rightarrow> initRepoReq \<Rightarrow> bool \<Rightarrow> initApp \<Rightarrow> initResp \<times> initApp" where
  "finishInit v req adopt a =
     (let d = snd (scrubPreferences (ieScrubFault v) (irRepoPath req) (appDisk (iaApp a)));
          ap = (iaApp a)\<lparr>appDisk := d, appMapping := snd (upsert (ieSha v) (ieNow v) (mappingFor (ieNow v) req) (appMapping (iaApp a)))\<rparr>
      in (InitOk (if adopt then ''adopted'' else ''initialized''), a\<lparr>iaApp := rescanAsync ap\<rparr>))"

definition runInit :: "initEnv \<Rightarrow> initRepoReq \<Rightarrow> initStorageReq \<Rightarrow> stagedStorage list \<Rightarrow> initApp \<Rightarrow> initResp \<times> initApp" where
  "runInit v req primary staged a =
     (let ps = stagedFor staged (isStorageAlias primary);
          ci0 = invocationForInit (irRepoPath req) (irRepoID req) (isStorageURL primary) True (stRsaPubPath ps) cloudOptimizedChunks;
          ci = ci0\<lparr>EnvAdds := EnvAdds ci0 @ stEnv ps\<rparr>;
          secondaries = (\<lambda>existing a. case addStorages v req primary ps existing staged a of
             (Some resp, a1) \<Rightarrow> (resp, a1)
           | (None, a1) \<Rightarrow> finishInit v req (existing \<noteq> None) a1)
      in case initRunSync v ci a of
           ((True, out), a1) \<Rightarrow> secondaries None a1
         | ((False, out), a1) \<Rightarrow>
             if \<not> isAlreadyInitialized out then (InitErr 500 (InitFailed (outputTail out 4096)), a1)
             else case readPreferenceURLs (appDisk (iaApp a1)) (irRepoPath req) of
               None \<Rightarrow> (InitErr 500 PrefsUnreadable, a1)
             | Some existing \<Rightarrow>
                 let got = (case map_of existing (isStorageAlias primary) of None \<Rightarrow> [] | Some u \<Rightarrow> u)
                 in if got \<noteq> isStorageURL primary then (InitErr 409 (PrimaryConflict got), a1) else secondaries (Some existing) a1)"

definition initCtx :: "initApp \<Rightarrow> initRepoReq \<Rightarrow> tplCtx" where
  "initCtx a req = (baseTplCtx (cfgNodeName (iaApp a)) (iaSiteID a) (iaRemoteSite a))\<lparr>tRepoID := irRepoID req\<rparr>"

definition handleInitRepoNew :: "initEnv \<Rightarrow> initRepoReq option \<Rightarrow> initApp \<Rightarrow> initResp \<times> initApp" where
  "handleInitRepoNew v reqO a =
     (case reqO of
        None \<Rightarrow> (InitErr 400 BadRequest, a)
      | Some req0 \<Rightarrow>
          (case validateInitReq (cfgBackupRoots (iaApp a)) req0 of
             Some e \<Rightarrow> (InitErr 400 (Invalid e), a)
           | None \<Rightarrow>
               (case expandStorages (initCtx a req0) 0 (irStorages req0) of
                  Inl e \<Rightarrow> (InitErr 400 (BadURL e), a)
                | Inr ss \<Rightarrow>
                    let req = req0\<lparr>irStorages := ss\<rparr>
                    in (case ensureDir (ieMkdirErr v) (irRepoPath req) (appDisk (iaApp a)) of
                          (False, d) \<Rightarrow> (InitErr 500 MkdirError, a\<lparr>iaApp := (iaApp a)\<lparr>appDisk := d\<rparr>\<rparr>)
                        | (True, d) \<Rightarrow>
                            let a1 = a\<lparr>iaApp := (iaApp a)\<lparr>appDisk := d\<rparr>\<rparr>
                            in (case find isIsPrimary ss of
                                  None \<Rightarrow> (InitErr 400 NoPrimary, a1)
                                | Some primary \<Rightarrow>
                                    (case stageStorages (iePkcs1 v) ss [] (iaShm a1) of
                                       (Inl (al, e), st) \<Rightarrow> (InitErr 400 (StageFailed al e), a1\<lparr>iaShm := st\<rparr>)
                                     | (Inr staged, st) \<Rightarrow>
                                         let a2 = a1\<lparr>iaShm := st\<rparr>;
                                             (resp, a3) =
                                               (case ensureDirs (ieSFTP v) staged of
                                                  Some (al, e) \<Rightarrow> (InitErr 500 (SFTPDirFailed al e), a2)
                                                | None \<Rightarrow> runInit v req primary staged a2)
                                         in (resp, a3\<lparr>iaShm := rollback staged (iaShm a3)\<rparr>)))))))"

section \<open>POST /repos/bind\<close>

fun bindMismatch :: "(string \<times> string) list \<Rightarrow> initStorageReq list \<Rightarrow> initError option" where
  "bindMismatch existing [] = None"
| "bindMismatch existing (s # ss) =
     (case map_of existing (isStorageAlias s) of
        None \<Rightarrow> Some (StorageAbsent (isStorageAlias s))
      | Some got \<Rightarrow> if got \<noteq> isStorageURL s then Some (StorageConflict (isStorageAlias s) got) else bindMismatch existing ss)"

definition handleBindRepo :: "initEnv \<Rightarrow> initRepoReq option \<Rightarrow> initApp \<Rightarrow> initResp \<times> initApp" where
  "handleBindRepo v reqO a =
     (case reqO of
        None \<Rightarrow> (InitErr 400 BadRequest, a)
      | Some req0 \<Rightarrow>
          (case validateInitReq (cfgBackupRoots (iaApp a)) req0 of
             Some e \<Rightarrow> (InitErr 400 (Invalid e), a)
           | None \<Rightarrow>
               (case expandStorages (initCtx a req0) 0 (irStorages req0) of
                  Inl e \<Rightarrow> (InitErr 400 (BadURL e), a)
                | Inr ss \<Rightarrow>
                    let req = req0\<lparr>irStorages := ss\<rparr>
                    in (case osStat (appDisk (iaApp a)) (prefsPath (irRepoPath req)) of
                          StatOk n \<Rightarrow>
                            (case readPreferenceURLs (appDisk (iaApp a)) (irRepoPath req) of
                               None \<Rightarrow> (InitErr 500 PrefsUnreadable, a)
                             | Some existing \<Rightarrow>
                                 (case bindMismatch existing ss of
                                    Some e \<Rightarrow> (InitErr 409 e, a)
                                  | None \<Rightarrow>
                                      (case upsert (ieSha v) (ieNow v) (mappingFor (ieNow v) req) (appMapping (iaApp a)) of
                                         (True, m) \<Rightarrow> (InitErr 500 PersistFailed, a\<lparr>iaApp := (iaApp a)\<lparr>appMapping := m\<rparr>\<rparr>)
                                       | (False, m) \<Rightarrow>
                                           (InitOk ''bound'',
                                            a\<lparr>iaApp := rescanAsync ((iaApp a)\<lparr>appMapping := m\<rparr>),
                                              iaCache := fold (\<lambda>s. invalidate (isCredentialID s)) ss (iaCache a)\<rparr>))))
                        | _ \<Rightarrow> (InitErr 409 NotInitialized, a)))))"

definition handleInvalidateCredential :: "string \<Rightarrow> initApp \<Rightarrow> nat \<times> initApp" where
  "handleInvalidateCredential cid a = (if cid = [] then (400, a) else (204, a\<lparr>iaCache := invalidate cid (iaCache a)\<rparr>))"

section \<open>No key file outlives a request\<close>

lemma rollback_concat: "rollback staged st = cleanupTmpfiles (concat (map stTmpfiles staged)) st"
  by (induction staged arbitrary: st) (simp_all add: rollback_def cleanupTmpfiles_def)

lemma stageStorages_shm:
  "stageStorages pkcs1 ss staged st = (res, st') \<Longrightarrow> Secrets.grows st0 (concat (map stTmpfiles staged)) st \<Longrightarrow>
     (case res of Inl e \<Rightarrow> shmFiles st' = shmFiles st0 | Inr staged' \<Rightarrow> Secrets.grows st0 (concat (map stTmpfiles staged')) st')"
proof (induction pkcs1 ss staged st arbitrary: res st' rule: stageStorages.induct)
  case (2 pkcs1 s ss staged st)
  obtain x st1 where b: "buildEnv pkcs1 (isStorageType s) (isStorageAlias s) (isIsPrimary s) (isSecrets s) st = (x, st1)" by fastforce
  have r: "shmRes st (x, st1)" using shmRes_buildEnv [of st] b by metis
  show ?case
  proof (cases x)
    case (Inl e)
    then have "shmFiles st1 = shmFiles st" using r by (simp add: shmRes_def)
    then have "Secrets.grows st0 (concat (map stTmpfiles staged)) st1" using grows_same "2.prems"(2) by blast
    from grows_cleanup [OF this] show ?thesis using "2.prems"(1) b Inl by (auto simp: rollback_concat)
  next
    case (Inr r')
    then have "Secrets.grows st (beTmpfiles r') st1" using r by (simp add: shmRes_def)
    then have g: "Secrets.grows st0 (concat (map stTmpfiles staged) @ beTmpfiles r') st1" by (rule Secrets.grows_trans [OF "2.prems"(2)])
    show ?thesis using "2.IH" [OF b [symmetric] Inr, of res st'] "2.prems"(1) b Inr g by simp
  qed
qed auto

section \<open>What a request may touch\<close>

text \<open>What a list of invocations answers, run one after the other, and the disk after them.\<close>

fun runAll :: "(cliInvocation \<Rightarrow> disk \<Rightarrow> (bool \<times> string) \<times> disk) \<Rightarrow> cliInvocation list \<Rightarrow> disk \<Rightarrow> (bool \<times> string) list \<times> disk" where
  "runAll cli [] d = ([], d)"
| "runAll cli (c # cs) d = (case cli c d of (x, d1) \<Rightarrow> (case runAll cli cs d1 of (xs, d2) \<Rightarrow> (x # xs, d2)))"

lemma runAll_append: "runAll cli cs d = (xs, d1) \<Longrightarrow> runAll cli cs' d1 = (ys, d2) \<Longrightarrow> runAll cli (cs @ cs') d = (xs @ ys, d2)"
  by (induction cs arbitrary: d xs) (auto split: prod.splits)

text \<open>The invocations that make the repository of a request with a storage as the first one, and that add a storage to it.\<close>

definition initFor :: "initRepoReq \<Rightarrow> initStorageReq \<Rightarrow> cliInvocation \<Rightarrow> bool" where
  "initFor req s ci \<longleftrightarrow> RepoRoot ci = irRepoPath req \<and> (\<exists>opts. Args ci = ''init'' # ''-encrypt'' # opts @ [irRepoID req, isStorageURL s])"

definition addFor :: "initRepoReq \<Rightarrow> initStorageReq \<Rightarrow> cliInvocation \<Rightarrow> bool" where
  "addFor req s ci \<longleftrightarrow> RepoRoot ci = irRepoPath req \<and> (\<exists>opts. Args ci = ''add'' # ''-encrypt'' # opts @ [isStorageAlias s, irRepoID req, isStorageURL s])"

lemma initFor_args: "irRepoPath req = path \<Longrightarrow> irRepoID req = i \<Longrightarrow> isStorageURL s = u \<Longrightarrow> initFor req s ((invocationForInit path i u True k c)\<lparr>EnvAdds := e\<rparr>)"
  by (simp add: initFor_def invocationForInit_def Let_def)

lemma addFor_args:
  "irRepoPath req = path \<Longrightarrow> irRepoID req = i \<Longrightarrow> isStorageAlias s = al \<Longrightarrow> isStorageURL s = u \<Longrightarrow>
     addFor req s ((invocationForAdd path al i u True k c b)\<lparr>EnvAdds := e\<rparr>)"
  by (simp add: addFor_def invocationForAdd_def Let_def)

text \<open>The CLI runs a step adds, their effect on the disk, and what the step leaves alone.\<close>

definition initRun :: "string \<Rightarrow> cliInvocation \<Rightarrow> bool" where
  "initRun path ci \<longleftrightarrow> RepoRoot ci = path \<and> hd (Args ci) \<in> {''init'', ''add''} \<and> ''-encrypt'' \<in> set (Args ci)"

definition stepOk :: "initEnv \<Rightarrow> string \<Rightarrow> initApp \<Rightarrow> initApp \<Rightarrow> bool" where
  "stepOk v path a a' \<longleftrightarrow> iaShm a' = iaShm a \<and> iaCache a' = iaCache a \<and> appMapping (iaApp a') = appMapping (iaApp a) \<and>
     (\<exists>rs outs. iaRuns a' = iaRuns a @ rs \<and> list_all (initRun path) rs \<and> runAll (ieCLI v) rs (appDisk (iaApp a)) = (outs, appDisk (iaApp a')))"

lemma stepOk_refl [simp]: "stepOk v path a a"
  by (simp add: stepOk_def)

lemma stepOk_trans: "stepOk v path a b \<Longrightarrow> stepOk v path b c \<Longrightarrow> stepOk v path a c"
  unfolding stepOk_def
proof (elim conjE exE, intro conjI)
  fix rs outs rs' outs'
  assume "iaRuns b = iaRuns a @ rs" "list_all (initRun path) rs" "runAll (ieCLI v) rs (appDisk (iaApp a)) = (outs, appDisk (iaApp b))"
    "iaRuns c = iaRuns b @ rs'" "list_all (initRun path) rs'" "runAll (ieCLI v) rs' (appDisk (iaApp b)) = (outs', appDisk (iaApp c))"
  then show "\<exists>rs outs. iaRuns c = iaRuns a @ rs \<and> list_all (initRun path) rs \<and> runAll (ieCLI v) rs (appDisk (iaApp a)) = (outs, appDisk (iaApp c))"
    by (intro exI [of _ "rs @ rs'"] exI [of _ "outs @ outs'"]) (simp add: runAll_append)
qed simp_all

lemma initRunSync_step: "initRunSync v ci a = (x, a') \<Longrightarrow> initRun path ci \<Longrightarrow> stepOk v path a a'"
  by (auto simp: initRunSync_def stepOk_def split: prod.splits)

lemma initFor_run: "initFor req s ci \<Longrightarrow> initRun (irRepoPath req) ci"
  by (auto simp: initFor_def initRun_def)

lemma addFor_run: "addFor req s ci \<Longrightarrow> initRun (irRepoPath req) ci"
  by (auto simp: addFor_def initRun_def)

text \<open>The storages that are still to be added: none that the adopted repository has.\<close>

definition absent :: "(string \<times> string) list option \<Rightarrow> initStorageReq \<Rightarrow> bool" where
  "absent existing s \<longleftrightarrow> \<not> isIsPrimary s \<and> (case existing of None \<Rightarrow> True | Some m \<Rightarrow> map_of m (isStorageAlias s) = None)"

definition agrees :: "(string \<times> string) list option \<Rightarrow> initStorageReq \<Rightarrow> bool" where
  "agrees existing s \<longleftrightarrow> isIsPrimary s \<or> (case existing of None \<Rightarrow> True | Some m \<Rightarrow> map_of m (isStorageAlias s) \<in> {None, Some (isStorageURL s)})"

definition addCI :: "initRepoReq \<Rightarrow> initStorageReq \<Rightarrow> stagedStorage \<Rightarrow> stagedStorage \<Rightarrow> cliInvocation" where
  "addCI req primary ps s =
     (let r = stReq s; pw = sbEncryptionPassword (isSecrets r); bitIdentical = (pw \<noteq> [] \<and> pw = sbEncryptionPassword (isSecrets primary));
          ci0 = invocationForAdd (irRepoPath req) (isStorageAlias r) (irRepoID req) (isStorageURL r) True (stRsaPubPath s) (isStorageAlias primary) bitIdentical
      in ci0\<lparr>EnvAdds := EnvAdds ci0 @ stEnv ps @ stEnv s\<rparr>)"

lemma addCI_for: "addFor req (stReq s) (addCI req primary ps s)"
  by (simp add: addCI_def Let_def addFor_args)

lemma addStorages_unfold:
  "addStorages v req primary ps existing (s # ss) a =
     (if absent existing (stReq s) then
        (case initRunSync v (addCI req primary ps s) a of
           ((False, out), a1) \<Rightarrow> (Some (InitErr 500 (AddFailed (isStorageAlias (stReq s)) (outputTail out 4096))), a1)
         | ((True, out), a1) \<Rightarrow> addStorages v req primary ps existing ss a1)
      else if agrees existing (stReq s) then addStorages v req primary ps existing ss a
      else (Some (InitErr 409 (StorageConflict (isStorageAlias (stReq s)) (the (map_of (the existing) (isStorageAlias (stReq s)))))), a))"
  by (auto simp: absent_def agrees_def addCI_def Let_def split: option.split)

lemma addStorages_step: "addStorages v req primary ps existing ss a = (x, a') \<Longrightarrow> stepOk v (irRepoPath req) a a' \<and> (\<forall>s. x \<noteq> Some (InitOk s))"
proof (induction ss arbitrary: a)
  case (Cons s ss)
  obtain ok out a1 where r: "initRunSync v (addCI req primary ps s) a = ((ok, out), a1)" by (metis prod.exhaust)
  have st: "stepOk v (irRepoPath req) a a1" by (rule initRunSync_step [OF r addFor_run [OF addCI_for]])
  show ?case using Cons.prems Cons.IH [of a] Cons.IH [of a1] r st stepOk_trans [OF st]
    unfolding addStorages_unfold by (auto split: if_splits bool.splits)
qed simp

lemma addStorages_done:
  "addStorages v req primary ps existing ss a = (None, a') \<Longrightarrow>
     list_all (\<lambda>s. agrees existing (stReq s)) ss \<and>
     (\<exists>cs outs. iaRuns a' = iaRuns a @ cs \<and> runAll (ieCLI v) cs (appDisk (iaApp a)) = (outs, appDisk (iaApp a')) \<and> list_all fst outs \<and>
        list_all2 (addFor req) (filter (absent existing) (map stReq ss)) cs)"
proof (induction ss arbitrary: a)
  case (Cons s ss)
  show ?case
  proof (cases "absent existing (stReq s)")
    case False
    then show ?thesis using Cons unfolding addStorages_unfold by (auto split: if_splits)
  next
    case True
    obtain ok out a1 where r: "initRunSync v (addCI req primary ps s) a = ((ok, out), a1)" by (metis prod.exhaust)
    have ok: "ok" "addStorages v req primary ps existing ss a1 = (None, a')"
      using Cons.prems True r unfolding addStorages_unfold by (auto split: bool.splits)
    have d: "ieCLI v (addCI req primary ps s) (appDisk (iaApp a)) = ((ok, out), appDisk (iaApp a1))" "iaRuns a1 = iaRuns a @ [addCI req primary ps s]"
      using r by (auto simp: initRunSync_def split: prod.splits)
    obtain cs outs where cs: "iaRuns a' = iaRuns a1 @ cs" "runAll (ieCLI v) cs (appDisk (iaApp a1)) = (outs, appDisk (iaApp a'))" "list_all fst outs"
        "list_all2 (addFor req) (filter (absent existing) (map stReq ss)) cs" using Cons.IH [OF ok(2)] by blast
    have "agrees existing (stReq s)" using True by (auto simp: absent_def agrees_def split: option.splits)
    moreover have "list_all2 (addFor req) (filter (absent existing) (map stReq (s # ss))) (addCI req primary ps s # cs)" using True cs(4) addCI_for by simp
    moreover have "runAll (ieCLI v) (addCI req primary ps s # cs) (appDisk (iaApp a)) = ((ok, out) # outs, appDisk (iaApp a'))" using d(1) cs(2) by simp
    ultimately show ?thesis using Cons.IH [OF ok(2)] ok(1) d(2) cs(1,3)
      by (intro conjI exI [of _ "addCI req primary ps s # cs"] exI [of _ "(ok, out) # outs"]) simp_all
  qed
qed simp

text \<open>The runs of a successful request: \<open>init\<close> for the primary storage, which makes the repository or finds it made, and
  then, all with success, \<open>add\<close> for each of the other storages, or for those that the repository found lacks; what it has
  is what was asked for.\<close>

definition initDone :: "initEnv \<Rightarrow> initRepoReq \<Rightarrow> initStorageReq list \<Rightarrow> cliInvocation list \<Rightarrow> disk \<Rightarrow> string \<Rightarrow> disk \<Rightarrow> bool" where
  "initDone v req ss rs d0 s d2 \<longleftrightarrow>
     (\<exists>primary ci cs out d1 outs existing. filter isIsPrimary ss = [primary] \<and> rs = ci # cs \<and> initFor req primary ci \<and>
        ieCLI v ci d0 = ((s = ''initialized'', out), d1) \<and>
        (if s = ''initialized'' then existing = None
         else s = ''adopted'' \<and> isAlreadyInitialized out \<and> existing = readPreferenceURLs d1 (irRepoPath req) \<and> existing \<noteq> None \<and>
           (case map_of (the existing) (isStorageAlias primary) of None \<Rightarrow> [] | Some u \<Rightarrow> u) = isStorageURL primary) \<and>
        list_all (agrees existing) ss \<and> list_all2 (addFor req) (filter (absent existing) ss) cs \<and>
        runAll (ieCLI v) cs d1 = (outs, d2) \<and> list_all fst outs)"

text \<open>What an answer means: the registry is written exactly when the handler succeeds.\<close>

definition answers :: "initEnv \<Rightarrow> initRepoReq \<Rightarrow> initStorageReq list \<Rightarrow> initApp \<Rightarrow> initResp \<Rightarrow> initApp \<Rightarrow> bool" where
  "answers v req ss a resp a' \<longleftrightarrow>
     (case resp of
        InitErr n e \<Rightarrow> stepOk v (irRepoPath req) a a'
      | InitOk s \<Rightarrow> \<exists>a1 rs. stepOk v (irRepoPath req) a a1 \<and> iaRuns a1 = iaRuns a @ rs \<and>
          initDone v req ss rs (appDisk (iaApp a)) s (appDisk (iaApp a1)) \<and> (resp, a') = finishInit v req (s = ''adopted'') a1)"

lemma runInit_answers:
  assumes h: "runInit v req primary staged a = (resp, a')" and ss: "map stReq staged = ss" "filter isIsPrimary ss = [primary]"
  shows "answers v req ss a resp a'"
proof -
  define ps where "ps = stagedFor staged (isStorageAlias primary)"
  define ci where "ci = (let ci0 = invocationForInit (irRepoPath req) (irRepoID req) (isStorageURL primary) True (stRsaPubPath ps) cloudOptimizedChunks
     in ci0\<lparr>EnvAdds := EnvAdds ci0 @ stEnv ps\<rparr>)"
  define sec where "sec = (\<lambda>existing a. case addStorages v req primary ps existing staged a of
             (Some resp, a1) \<Rightarrow> (resp, a1)
           | (None, a1) \<Rightarrow> finishInit v req (existing \<noteq> None) a1)"
  obtain ok out a1 where r: "initRunSync v ci a = ((ok, out), a1)" by (metis prod.exhaust)
  have ci: "initFor req primary ci" by (simp add: ci_def Let_def initFor_args)
  have d: "ieCLI v ci (appDisk (iaApp a)) = ((ok, out), appDisk (iaApp a1))" "iaRuns a1 = iaRuns a @ [ci]" using r by (auto simp: initRunSync_def split: prod.splits)
  have s1: "stepOk v (irRepoPath req) a a1" by (rule initRunSync_step [OF r initFor_run [OF ci]])
  have sec: "answers v req ss a (fst (sec ex a1)) (snd (sec ex a1))"
    if ex: "if ok then ex = None else isAlreadyInitialized out \<and> ex = readPreferenceURLs (appDisk (iaApp a1)) (irRepoPath req) \<and> ex \<noteq> None \<and>
       (case map_of (the ex) (isStorageAlias primary) of None \<Rightarrow> [] | Some u \<Rightarrow> u) = isStorageURL primary" for ex
  proof -
    obtain x a2 where ad: "addStorages v req primary ps ex staged a1 = (x, a2)" by fastforce
    have s2: "stepOk v (irRepoPath req) a a2" "\<forall>s. x \<noteq> Some (InitOk s)" using addStorages_step [OF ad] stepOk_trans [OF s1] by auto
    show ?thesis
    proof (cases x)
      case None
      let ?s = "if ok then ''initialized'' else ''adopted''"
      from addStorages_done [OF ad [unfolded None]] obtain cs outs where cs: "iaRuns a2 = iaRuns a1 @ cs"
          "runAll (ieCLI v) cs (appDisk (iaApp a1)) = (outs, appDisk (iaApp a2))" "list_all fst outs" "list_all2 (addFor req) (filter (absent ex) ss) cs"
          "list_all (agrees ex) ss" unfolding ss(1) [symmetric] by (auto simp: list_all_iff)
      have "initDone v req ss (ci # cs) (appDisk (iaApp a)) ?s (appDisk (iaApp a2))"
        unfolding initDone_def
        by (intro exI [of _ primary] exI [of _ ci] exI [of _ cs] exI [of _ out] exI [of _ "appDisk (iaApp a1)"] exI [of _ outs] exI [of _ ex])
          (use ss(2) ci d ex cs in auto)
      moreover have f: "sec ex a1 = finishInit v req (?s = ''adopted'') a2" using ex None by (auto simp: sec_def ad)
      moreover have fs: "fst (sec ex a1) = InitOk ?s" unfolding f by (simp add: finishInit_def Let_def)
      moreover have "iaRuns a2 = iaRuns a @ ci # cs" using cs(1) d(2) by simp
      moreover have "(InitOk ?s, snd (sec ex a1)) = finishInit v req (?s = ''adopted'') a2" unfolding f [symmetric] fs [symmetric] by simp
      ultimately have "\<exists>b rs. stepOk v (irRepoPath req) a b \<and> iaRuns b = iaRuns a @ rs \<and> initDone v req ss rs (appDisk (iaApp a)) ?s (appDisk (iaApp b)) \<and>
          (InitOk ?s, snd (sec ex a1)) = finishInit v req (?s = ''adopted'') b" using s2(1) by blast
      then show ?thesis by (simp only: answers_def fs initResp.case)
    next
      case (Some y)
      then obtain n e where "y = InitErr n e" using s2(2) by (cases y) auto
      then show ?thesis using Some s2(1) by (simp add: sec_def ad answers_def)
    qed
  qed
  have "(resp, a') = (if ok then sec None a1
     else if \<not> isAlreadyInitialized out then (InitErr 500 (InitFailed (outputTail out 4096)), a1)
     else case readPreferenceURLs (appDisk (iaApp a1)) (irRepoPath req) of
       None \<Rightarrow> (InitErr 500 PrefsUnreadable, a1)
     | Some existing \<Rightarrow>
         let got = (case map_of existing (isStorageAlias primary) of None \<Rightarrow> [] | Some u \<Rightarrow> u)
         in if got \<noteq> isStorageURL primary then (InitErr 409 (PrimaryConflict got), a1) else sec (Some existing) a1)"
    using r unfolding h [symmetric] runInit_def sec_def ci_def ps_def Let_def by simp
  then consider "ok" "(resp, a') = sec None a1" | n e where "resp = InitErr n e" "a' = a1"
    | existing where "\<not> ok" "isAlreadyInitialized out" "readPreferenceURLs (appDisk (iaApp a1)) (irRepoPath req) = Some existing"
        "(case map_of existing (isStorageAlias primary) of None \<Rightarrow> [] | Some u \<Rightarrow> u) = isStorageURL primary" "(resp, a') = sec (Some existing) a1"
    by (fastforce simp: Let_def split: if_splits option.splits)
  then show ?thesis
  proof cases
    case 1
    then show ?thesis using sec [of None] by (metis fst_conv snd_conv)
  next
    case 2
    then show ?thesis using s1 by (simp add: answers_def)
  next
    case 3
    then show ?thesis using sec [of "Some existing"] by (metis fst_conv option.distinct(1) option.sel snd_conv)
  qed
qed

lemma expandStorages_same:
  "expandStorages c n xs = Inr ss \<Longrightarrow> map isIsPrimary ss = map isIsPrimary xs \<and> map isStorageAlias ss = map isStorageAlias xs \<and> map isCredentialID ss = map isCredentialID xs"
  by (induction c n xs arbitrary: ss rule: expandStorages.induct) (auto split: sum.splits if_splits)

lemma one_primary:
  assumes "validateInitReq roots req = None" "expandStorages c n (irStorages req) = Inr ss" "find isIsPrimary ss = Some primary"
  shows "filter isIsPrimary ss = [primary]"
proof -
  have "length (filter id (map isIsPrimary ss)) = length (filter id (map isIsPrimary (irStorages req)))" using expandStorages_same [OF assms(2)] by simp
  then have "length (filter isIsPrimary ss) = length (filter isIsPrimary (irStorages req))" by (simp add: filter_map comp_def)
  then have "length (filter isIsPrimary ss) = 1" using assms(1) by (auto simp: validateInitReq_def Let_def split: if_splits option.splits)
  then obtain y where y: "filter isIsPrimary ss = [y]" by (auto simp: length_Suc_conv)
  have "primary \<in> set (filter isIsPrimary ss)" using assms(3) by (auto simp: find_Some_iff)
  then show ?thesis using y by simp
qed

lemma stageStorages_reqs: "stageStorages pkcs1 ss staged st = (Inr staged', st') \<Longrightarrow> map stReq staged' = map stReq staged @ ss"
  by (induction pkcs1 ss staged st rule: stageStorages.induct) (auto split: prod.splits sum.splits)

text \<open>From the request to the answer: either nothing was run and nothing registered, or the answer is that of \<open>runInit\<close>.\<close>

lemma handleInit_answers:
  assumes "handleInitRepoNew v (Some req) a = (resp, a')"
  shows "shmFiles (iaShm a') = shmFiles (iaShm a) \<and>
    ((\<exists>n e. resp = InitErr n e) \<and> iaRuns a' = iaRuns a \<and> iaCache a' = iaCache a \<and> appMapping (iaApp a') = appMapping (iaApp a) \<and>
       appDisk (iaApp a') \<in> {appDisk (iaApp a), snd (ensureDir (ieMkdirErr v) (irRepoPath req) (appDisk (iaApp a)))} \<or>
     (\<exists>ss d a2 a3. validateInitReq (cfgBackupRoots (iaApp a)) req = None \<and> expandStorages (initCtx a req) 0 (irStorages req) = Inr ss \<and>
        ensureDir (ieMkdirErr v) (irRepoPath req) (appDisk (iaApp a)) = (True, d) \<and> appDisk (iaApp a2) = d \<and> iaRuns a2 = iaRuns a \<and> iaCache a2 = iaCache a \<and>
        appMapping (iaApp a2) = appMapping (iaApp a) \<and> answers v (req\<lparr>irStorages := ss\<rparr>) ss a2 resp a3 \<and> iaApp a' = iaApp a3 \<and> iaRuns a' = iaRuns a3 \<and>
        iaCache a' = iaCache a3))"
proof (cases "validateInitReq (cfgBackupRoots (iaApp a)) req")
  case (Some e)
  then show ?thesis using assms by (auto simp: handleInitRepoNew_def)
next
  case ok: None
  show ?thesis
  proof (cases "expandStorages (initCtx a req) 0 (irStorages req)")
    case (Inl e)
    then show ?thesis using assms ok by (auto simp: handleInitRepoNew_def)
  next
    case (Inr ss)
    let ?req = "req\<lparr>irStorages := ss\<rparr>"
    obtain mk d where md: "ensureDir (ieMkdirErr v) (irRepoPath req) (appDisk (iaApp a)) = (mk, d)" by fastforce
    define a1 where "a1 = a\<lparr>iaApp := (iaApp a)\<lparr>appDisk := d\<rparr>\<rparr>"
    have a1: "iaShm a1 = iaShm a" "iaCache a1 = iaCache a" "iaRuns a1 = iaRuns a" "appMapping (iaApp a1) = appMapping (iaApp a)" "appDisk (iaApp a1) = d" by (simp_all add: a1_def)
    show ?thesis
    proof (cases "mk \<and> find isIsPrimary ss \<noteq> None")
      case False
      then have "\<exists>n e. resp = InitErr n e \<and> a' = a1" using assms ok Inr md
        by (auto simp: handleInitRepoNew_def a1_def Let_def split: bool.splits option.splits)
      then show ?thesis using a1 md by auto
    next
      case True
      then obtain primary where p: "mk" "find isIsPrimary ss = Some primary" by auto
      obtain x st where sg: "stageStorages (iePkcs1 v) ss [] (iaShm a1) = (x, st)" by fastforce
      have g: "case x of Inl e \<Rightarrow> shmFiles st = shmFiles (iaShm a) | Inr staged \<Rightarrow> Secrets.grows (iaShm a) (concat (map stTmpfiles staged)) st"
        using stageStorages_shm [OF sg, of "iaShm a"] a1(1) by (simp add: Secrets.grows_refl)
      show ?thesis
      proof (cases x)
        case (Inl e)
        then have "\<exists>n e. resp = InitErr n e \<and> a' = a1\<lparr>iaShm := st\<rparr>" using assms ok Inr md p sg
          by (cases e) (auto simp: handleInitRepoNew_def a1_def)
        then show ?thesis using a1 g Inl md by auto
      next
        case staged: (Inr staged)
        define a2 where "a2 = a1\<lparr>iaShm := st\<rparr>"
        obtain resp3 a3 where b: "(case ensureDirs (ieSFTP v) staged of
             Some (al, e) \<Rightarrow> (InitErr 500 (SFTPDirFailed al e), a2)
           | None \<Rightarrow> runInit v ?req primary staged a2) = (resp3, a3)" by fastforce
        have ss: "map stReq staged = ss" "filter isIsPrimary ss = [primary]"
          using stageStorages_reqs [OF sg [unfolded staged]] one_primary [OF ok Inr p(2)] by simp_all
        have ans: "answers v ?req ss a2 resp3 a3"
          using b runInit_answers [OF _ ss] by (auto simp: answers_def split: option.splits)
        have e: "resp = resp3" "a' = a3\<lparr>iaShm := rollback staged (iaShm a3)\<rparr>"
          using assms ok Inr md p sg staged b [unfolded a2_def a1_def] by (simp_all add: handleInitRepoNew_def a1_def Let_def)
        have "iaShm a3 = st" using ans by (auto simp: answers_def a2_def stepOk_def finishInit_def Let_def split: initResp.splits)
        then have "shmFiles (iaShm a') = shmFiles (iaShm a)" using grows_cleanup g staged by (simp add: e rollback_concat)
        moreover have "appDisk (iaApp a2) = d" "iaRuns a2 = iaRuns a" "iaCache a2 = iaCache a" "appMapping (iaApp a2) = appMapping (iaApp a)" using a1 by (simp_all add: a2_def)
        moreover have "iaApp a' = iaApp a3" "iaRuns a' = iaRuns a3" "iaCache a' = iaCache a3" by (simp_all add: e)
        ultimately show ?thesis using ok Inr md p(1) ans e(1)
          by (intro conjI disjI2 exI [of _ ss] exI [of _ d] exI [of _ a2] exI [of _ a3]) simp_all
      qed
    qed
  qed
qed

lemma mappingGet_upsert: "mappingGet (snd (upsert sha now (mappingFor t req) ms)) = (mappingGet ms)(repoIDFromPath sha (irRepoPath req) \<mapsto> mappingFor t req)"
  by (simp add: fun_eq_iff mappingGet_def upsert_def persist_def mappingFor_def Let_def update_conv')

text \<open>C8. Where \<open>POST /repos/init\<close> may act and what it registers, whatever the CLI and the network answer. No key file is left in /dev/shm, and the credential
  cache is not touched. The CLI runs only \<open>init\<close> and \<open>add\<close>, always encrypted, in the requested directory, which is canonical and inside the backup roots; and the disk after the request is the
  disk after exactly these runs (from the one with the directory made on), on a success with the preferences scrubbed. On a success the runs were \<open>init\<close> with the
  URL of the one primary storage, successful when the answer is \<open>initialized\<close> and refused as already initialized when it is \<open>adopted\<close>, followed by
  a successful \<open>add\<close> for every other storage with its alias and URL (when adopting, for every one the preferences do not
  have already), and the registry has the request under its path, every other entry as before. On an error the registry is as before; what the CLI did until then stays on disk.\<close>

theorem handleInitRepoNew_confined:
  assumes "handleInitRepoNew v (Some req) a = (resp, a')"
  shows "shmFiles (iaShm a') = shmFiles (iaShm a) \<and> iaCache a' = iaCache a \<and>
    (\<exists>d0 rs outs d1. iaRuns a' = iaRuns a @ rs \<and> list_all (initRun (irRepoPath req)) rs \<and>
       (if rs = [] then d0 \<in> {appDisk (iaApp a), snd (ensureDir (ieMkdirErr v) (irRepoPath req) (appDisk (iaApp a)))}
        else pathClean (irRepoPath req) = irRepoPath req \<and> pathInsideAny (irRepoPath req) (cfgBackupRoots (iaApp a)) \<and>
          ensureDir (ieMkdirErr v) (irRepoPath req) (appDisk (iaApp a)) = (True, d0)) \<and>
       runAll (ieCLI v) rs d0 = (outs, d1) \<and>
       (case resp of
          InitErr n e \<Rightarrow> appMapping (iaApp a') = appMapping (iaApp a) \<and> appDisk (iaApp a') = d1
        | InitOk s \<Rightarrow> appDisk (iaApp a') = snd (scrubPreferences (ieScrubFault v) (irRepoPath req) d1) \<and>
            (\<exists>ss. expandStorages (initCtx a req) 0 (irStorages req) = Inr ss \<and> initDone v (req\<lparr>irStorages := ss\<rparr>) ss rs d0 s d1 \<and>
               mappingGet (appMapping (iaApp a')) =
                 (mappingGet (appMapping (iaApp a)))(repoIDFromPath (ieSha v) (irRepoPath req) \<mapsto> mappingFor (ieNow v) (req\<lparr>irStorages := ss\<rparr>)))))"
proof -
  note h = handleInit_answers [OF assms]
  then consider (none) n e where "resp = InitErr n e" "iaRuns a' = iaRuns a" "iaCache a' = iaCache a" "appMapping (iaApp a') = appMapping (iaApp a)"
       "appDisk (iaApp a') \<in> {appDisk (iaApp a), snd (ensureDir (ieMkdirErr v) (irRepoPath req) (appDisk (iaApp a)))}"
    | (run) ss d a2 a3 where "validateInitReq (cfgBackupRoots (iaApp a)) req = None" "expandStorages (initCtx a req) 0 (irStorages req) = Inr ss"
        "ensureDir (ieMkdirErr v) (irRepoPath req) (appDisk (iaApp a)) = (True, d)" "appDisk (iaApp a2) = d" "iaRuns a2 = iaRuns a" "iaCache a2 = iaCache a"
        "appMapping (iaApp a2) = appMapping (iaApp a)" "answers v (req\<lparr>irStorages := ss\<rparr>) ss a2 resp a3" "iaApp a' = iaApp a3" "iaRuns a' = iaRuns a3" "iaCache a' = iaCache a3"
    by blast
  then show ?thesis
  proof cases
    case none
    then show ?thesis using h by (intro conjI exI [of _ "appDisk (iaApp a')"] exI [of _ "[]"]) auto
  next
    case run
    have path: "pathClean (irRepoPath req) = irRepoPath req" "pathInsideAny (irRepoPath req) (cfgBackupRoots (iaApp a))"
      using run(1) by (auto simp: validateInitReq_def Let_def split: if_splits)
    show ?thesis
    proof (cases resp)
      case (InitErr n e)
      then have "stepOk v (irRepoPath req) a2 a3" using run(8) by (simp add: answers_def)
      then obtain rs outs where rs: "iaCache a3 = iaCache a2" "appMapping (iaApp a3) = appMapping (iaApp a2)" "iaRuns a3 = iaRuns a2 @ rs" "list_all (initRun (irRepoPath req)) rs"
          "runAll (ieCLI v) rs d = (outs, appDisk (iaApp a3))" by (auto simp: stepOk_def run(4))
      show ?thesis using h path InitErr rs run(3-11)
        by (intro conjI exI [of _ d] exI [of _ rs] exI [of _ outs] exI [of _ "appDisk (iaApp a3)"]) auto
    next
      case (InitOk s)
      then obtain a1 rs where st: "stepOk v (irRepoPath req) a2 a1" "iaRuns a1 = iaRuns a2 @ rs" "initDone v (req\<lparr>irStorages := ss\<rparr>) ss rs d s (appDisk (iaApp a1))"
          "(resp, a3) = finishInit v (req\<lparr>irStorages := ss\<rparr>) (s = ''adopted'') a1" using run(8) by (auto simp: answers_def run(4))
      obtain outs where rs: "iaCache a1 = iaCache a2" "appMapping (iaApp a1) = appMapping (iaApp a2)" "list_all (initRun (irRepoPath req)) rs"
          "runAll (ieCLI v) rs d = (outs, appDisk (iaApp a1))" using st(1,2) by (auto simp: stepOk_def run(4))
      have f: "iaCache a3 = iaCache a1" "iaRuns a3 = iaRuns a1" "appDisk (iaApp a3) = snd (scrubPreferences (ieScrubFault v) (irRepoPath req) (appDisk (iaApp a1)))"
        "mappingGet (appMapping (iaApp a3)) = (mappingGet (appMapping (iaApp a1)))(repoIDFromPath (ieSha v) (irRepoPath req) \<mapsto> mappingFor (ieNow v) (req\<lparr>irStorages := ss\<rparr>))"
        using st(4) mappingGet_upsert [of "ieSha v" "ieNow v" "ieNow v" "req\<lparr>irStorages := ss\<rparr>" "appMapping (iaApp a1)"] by (simp_all add: finishInit_def rescanAsync_def Let_def)
      have ne: "rs \<noteq> []" using st(3) by (auto simp: initDone_def)
      show ?thesis unfolding InitOk using h path ne rs run(2-11) f st(2,3)
        by (intro conjI exI [of _ d] exI [of _ rs] exI [of _ outs] exI [of _ "appDisk (iaApp a1)"]) auto
    qed
  qed
qed

text \<open>A CLI as documented: \<open>init\<close> names the first storage \<open>default\<close> (the comment of \<open>buildEnv\<close> relies on it) and refuses a directory
  that has preferences; \<open>add\<close> appends an entry.\<close>

definition exCLI :: "cliInvocation \<Rightarrow> disk \<Rightarrow> (bool \<times> string) \<times> disk" where
  "exCLI ci d =
     (let p = prefsPath (RepoRoot ci); as = Args ci; url = last as;
          entry = (\<lambda>n. \<lparr>pName = n, pSnapshotID = last (butlast as), pRepositoryPath = RepoRoot ci, pStorageURL = url, pEncrypted = True, pBackupProhibited = False,
            pRestoreProhibited = False, pDoNotSavePassword = False, pNobackupFile = [], pKeys = [(''password'', ''x'')], pFiltersFile = [], pExcludeByAttr = False\<rparr>);
          put = (\<lambda>raws. ((True, ''ok''), d\<lparr>entries := AList.update p (FileNode (Some raws)) (entries d)\<rparr>))
      in case readPreferences d p of
           Inr raws \<Rightarrow> if hd as = ''init'' then ((False, ''The repository has already been initialized''), d)
                       else put (raws @ [entry (last (butlast (butlast as)))])
         | Inl e \<Rightarrow> if hd as = ''init'' then put [entry ''default''] else ((False, ''no repository''), d))"

definition exInitEnv :: initEnv where
  "exInitEnv = \<lparr>ieSha = exSha, iePkcs1 = (\<lambda>k. k), ieNow = 5, ieCLI = exCLI,
     ieSFTP = \<lparr>seReadKey = (\<lambda>_. Some []), seParseKey = (\<lambda>_ _. True), seConnect = (\<lambda>_ _. True), seStat = (\<lambda>_. SftpMissing), seMkdirAll = (\<lambda>_. True)\<rparr>,
     ieMkdirErr = [], ieScrubFault = False\<rparr>"

definition exInitApp :: initApp where
  "exInitApp = \<lparr>iaApp = \<lparr>cfgBackupRoots = [''/srv''], cfgNodeName = ''nas01'', appMapping = newRepoMappingStore NoFile False, appRepos = newRepoIndex [],
       appDisk = \<lparr>entries = [(''/srv'', DirNode)], ioErr = [], rmErr = []\<rparr>, appJobs = [], rescans = 0, fleetTriggers = 0\<rparr>,
     iaSiteID = ''kd'', iaRemoteSite = [], iaShm = exShm, iaCache = [(''c1'', exBundle, 0)], iaRuns = []\<rparr>"

definition exInitStorage :: "string \<Rightarrow> bool \<Rightarrow> initStorageReq" where
  "exInitStorage al p = \<lparr>isStorageAlias = al, isCredentialID = ''c1'', isIsPrimary = p, isStorageType = ''sftp'', isStorageURL = ''sftp://u@h//mnt/{server}/'' @ al,
     isServerOverride = [], isSecrets = \<lparr>sbStorageURL = [], sbStorageType = ''sftp'', sbEncryptionPassword = ''pw'', sbBackend = [(''ssh_key'', ''KEY'')], sbUpdatedAt = None\<rparr>\<rparr>"

definition exInitReq :: "string \<Rightarrow> initRepoReq" where
  "exInitReq al = \<lparr>irRepoPath = ''/srv/a'', irRepoID = ''a'', irRepoUUID = ''u1'', irStorages = [exInitStorage al True, exInitStorage ''off'' False]\<rparr>"

text \<open>The agent after a request with only the primary storage.\<close>

definition exMade :: initApp where
  "exMade = snd (handleInitRepoNew exInitEnv (Some ((exInitReq ''default'')\<lparr>irStorages := [exInitStorage ''default'' True]\<rparr>)) exInitApp)"

text \<open>Witness: a first registration with two storages.\<close>

theorem handleInitRepoNew_confined_witness:
  "case handleInitRepoNew exInitEnv (Some (exInitReq ''default'')) exInitApp of (resp, a') \<Rightarrow>
     resp = InitOk ''initialized'' \<and> shmFiles (iaShm a') = shmFiles (iaShm exInitApp) \<and> map (\<lambda>ci. hd (Args ci)) (iaRuns a') = [''init'', ''add'']"
proof -
  obtain resp a' where e: "handleInitRepoNew exInitEnv (Some (exInitReq ''default'')) exInitApp = (resp, a')" by fastforce
  have "case handleInitRepoNew exInitEnv (Some (exInitReq ''default'')) exInitApp of (resp, a') \<Rightarrow>
     resp = InitOk ''initialized'' \<and> map (\<lambda>ci. hd (Args ci)) (iaRuns a') = [''init'', ''add'']" by code_simp
  then show ?thesis using handleInitRepoNew_confined [OF e] by (simp add: e)
qed

text \<open>A repository registered with a primary storage that is not called \<open>default\<close> cannot be taken over again: \<open>duplicacy init\<close>
  names the first storage \<open>default\<close> whatever alias the request has, so repeating the very request that registered it is
  refused as a conflict with a different primary storage, and binding it is refused because the storage is not there -
  while with the alias \<open>default\<close> both succeed.\<close>

theorem named_primary_not_adoptable:
  "(let (r1, a1) = handleInitRepoNew exInitEnv (Some (exInitReq ''nas'')) exInitApp;
        (r2, a2) = handleInitRepoNew exInitEnv (Some (exInitReq ''nas'')) a1;
        (r3, a3) = handleBindRepo exInitEnv (Some (exInitReq ''nas'')) a1
    in (r1, r2, r3) = (InitOk ''initialized'', InitErr 409 (PrimaryConflict []), InitErr 409 (StorageAbsent ''nas''))) \<and>
   (let (r1, a1) = handleInitRepoNew exInitEnv (Some (exInitReq ''default'')) exInitApp;
        (r2, a2) = handleInitRepoNew exInitEnv (Some (exInitReq ''default'')) a1;
        (r3, a3) = handleBindRepo exInitEnv (Some (exInitReq ''default'')) a1
    in (r1, r2, r3) = (InitOk ''initialized'', InitOk ''adopted'', InitOk ''bound''))"
  by code_simp

section \<open>Taking over and binding\<close>

lemma bindMismatch_None: "bindMismatch existing ss = None \<longleftrightarrow> list_all (\<lambda>s. map_of existing (isStorageAlias s) = Some (isStorageURL s)) ss"
  by (induction ss) (auto split: option.splits)

lemma map_of_invalidates:
  "map_of (fold (\<lambda>s. invalidate (isCredentialID s)) ss c) k = (if k \<in> isCredentialID ` set ss then None else map_of c k)"
  by (induction ss arbitrary: c) (auto simp: invalidate_def delete_conv')

lemma bindMismatch_err: "bindMismatch existing ss = Some PersistFailed \<Longrightarrow> False"
  by (induction ss) (auto split: option.splits if_splits)

definition bindable :: "initApp \<Rightarrow> initRepoReq \<Rightarrow> initStorageReq list \<Rightarrow> bool" where
  "bindable a req ss \<longleftrightarrow> validateInitReq (cfgBackupRoots (iaApp a)) req = None \<and> expandStorages (initCtx a req) 0 (irStorages req) = Inr ss \<and>
     (case readPreferenceURLs (appDisk (iaApp a)) (irRepoPath req) of
        None \<Rightarrow> False | Some existing \<Rightarrow> list_all (\<lambda>s. map_of existing (isStorageAlias s) = Some (isStorageURL s)) ss)"

lemma prefs_stat: "readPreferenceURLs d p = Some ex \<Longrightarrow> \<exists>n. osStat d (prefsPath p) = StatOk n"
  by (auto simp: readPreferenceURLs_def readPreferences_def split: sum.splits statResult.splits)

text \<open>C27. \<open>POST /repos/bind\<close> succeeds exactly when the request is valid and its URLs can be expanded, every storage is in the preferences on disk with the very
  URL its template expands to, and the registry can be written. Then the registry has the repository as requested, in
  memory and on disk, every other entry is as before, and no credential it names is served from the cache any more. If only the write of the registry fails, the
  answer is an error and the new entry stays in memory, not in the file; on every other error nothing at all changes. The disk, the key files and the CLI are never touched.\<close>

theorem handleBindRepo_exact:
  assumes "handleBindRepo v (Some req) a = (resp, a')"
  shows "(resp = InitOk ''bound'' \<longleftrightarrow> (\<exists>ss. bindable a req ss) \<and> \<not> storeFault (appMapping (iaApp a))) \<and>
    (resp = InitErr 500 PersistFailed \<longleftrightarrow> (\<exists>ss. bindable a req ss) \<and> storeFault (appMapping (iaApp a))) \<and>
    (if \<exists>ss. bindable a req ss then
       (\<exists>ss. bindable a req ss \<and> mappingGet (appMapping (iaApp a')) =
          (mappingGet (appMapping (iaApp a)))(repoIDFromPath (ieSha v) (irRepoPath req) \<mapsto> mappingFor (ieNow v) (req\<lparr>irStorages := ss\<rparr>)) \<and>
        (if resp = InitOk ''bound''
         then storeFile (appMapping (iaApp a')) = Entries (map snd (byID (appMapping (iaApp a')))) \<and>
           list_all (\<lambda>s. \<forall>now. cacheGet now (isCredentialID s) (iaCache a') = None) ss
         else storeFile (appMapping (iaApp a')) = storeFile (appMapping (iaApp a)) \<and> iaCache a' = iaCache a))
     else a' = a) \<and>
    appDisk (iaApp a') = appDisk (iaApp a) \<and> iaShm a' = iaShm a \<and> iaRuns a' = iaRuns a"
proof (cases "\<exists>ss. bindable a req ss")
  case False
  have "a' = a \<and> (\<exists>n e. resp = InitErr n e \<and> e \<noteq> PersistFailed)"
    using assms False unfolding handleBindRepo_def bindable_def Let_def
    by (auto simp: bindMismatch_None [symmetric] dest: bindMismatch_err split: option.splits sum.splits statResult.splits)
  then show ?thesis using False by auto
next
  case True
  then obtain ss where b: "bindable a req ss" by blast
  then obtain existing where e: "validateInitReq (cfgBackupRoots (iaApp a)) req = None" "expandStorages (initCtx a req) 0 (irStorages req) = Inr ss"
      "readPreferenceURLs (appDisk (iaApp a)) (irRepoPath req) = Some existing" "bindMismatch existing ss = None"
    by (auto simp: bindable_def bindMismatch_None split: option.splits)
  obtain n where st: "osStat (appDisk (iaApp a)) (prefsPath (irRepoPath req)) = StatOk n" using prefs_stat [OF e(3)] by blast
  let ?u = "upsert (ieSha v) (ieNow v) (mappingFor (ieNow v) (req\<lparr>irStorages := ss\<rparr>)) (appMapping (iaApp a))"
  obtain f m where u: "?u = (f, m)" by fastforce
  have f: "f = storeFault (appMapping (iaApp a))" "storeFile m = (if f then storeFile (appMapping (iaApp a)) else Entries (map snd (byID m)))"
    using u by (auto simp: upsert_def persist_def Let_def split: if_splits)
  have g: "mappingGet m = (mappingGet (appMapping (iaApp a)))(repoIDFromPath (ieSha v) (irRepoPath req) \<mapsto> mappingFor (ieNow v) (req\<lparr>irStorages := ss\<rparr>))"
    using mappingGet_upsert [of "ieSha v" "ieNow v" "ieNow v" "req\<lparr>irStorages := ss\<rparr>" "appMapping (iaApp a)"] u by simp
  have h: "(resp, a') = (if f then (InitErr 500 PersistFailed, a\<lparr>iaApp := (iaApp a)\<lparr>appMapping := m\<rparr>\<rparr>)
     else (InitOk ''bound'', a\<lparr>iaApp := rescanAsync ((iaApp a)\<lparr>appMapping := m\<rparr>), iaCache := fold (\<lambda>s. invalidate (isCredentialID s)) ss (iaCache a)\<rparr>))"
    using assms e st u by (cases f) (simp_all add: handleBindRepo_def)
  have "list_all (\<lambda>s. \<forall>now. cacheGet now (isCredentialID s) (fold (\<lambda>s. invalidate (isCredentialID s)) ss (iaCache a)) = None) ss"
    by (simp add: cacheGet_def list_all_iff map_of_invalidates)
  then show ?thesis using h f g b by (cases f) (auto simp: rescanAsync_def intro!: exI [of _ ss])
qed

text \<open>Witness: the registration of the last theorem, bound again.\<close>

theorem handleBindRepo_exact_witness:
  "case handleBindRepo exInitEnv (Some (exInitReq ''default'')) (snd (handleInitRepoNew exInitEnv (Some (exInitReq ''default'')) exInitApp)) of (resp, a') \<Rightarrow>
     resp = InitOk ''bound'' \<and> cacheGet 1 ''c1'' (iaCache a') = None"
proof -
  let ?a = "snd (handleInitRepoNew exInitEnv (Some (exInitReq ''default'')) exInitApp)"
  obtain resp a' where e: "handleBindRepo exInitEnv (Some (exInitReq ''default'')) ?a = (resp, a')" by fastforce
  have "case handleBindRepo exInitEnv (Some (exInitReq ''default'')) ?a of (resp, a') \<Rightarrow> resp = InitOk ''bound''" by code_simp
  then have r: "resp = InitOk ''bound''" by (simp add: e)
  have i: "isCredentialID s = ''c1''" if "s \<in> set ss" "bindable ?a (exInitReq ''default'') ss" for s ss
  proof -
    have "expandStorages (initCtx ?a (exInitReq ''default'')) 0 (irStorages (exInitReq ''default'')) = Inr ss" using that(2) by (simp add: bindable_def)
    from expandStorages_same [OF this] have "map isCredentialID ss = map isCredentialID (irStorages (exInitReq ''default''))" by (elim conjE)
    also have "\<dots> = [''c1'', ''c1'']" by code_simp
    finally have "isCredentialID ` set ss = {''c1''}" by (metis image_set list.set(1,2) insert_absorb2)
    then show ?thesis using that(1) by blast
  qed
  note th = handleBindRepo_exact [OF e, unfolded r]
  have ex: "\<exists>ss. bindable ?a (exInitReq ''default'') ss" using conjunct1 [OF th] by simp
  obtain ss where b: "bindable ?a (exInitReq ''default'') ss" "list_all (\<lambda>s. \<forall>now. cacheGet now (isCredentialID s) (iaCache a') = None) ss"
    using conjunct1 [OF conjunct2 [OF conjunct2 [OF th]], unfolded if_P [OF ex] if_P [OF refl]] by blast
  have "ss \<noteq> []" using b(1) by (auto simp: bindable_def exInitReq_def exInitStorage_def split: sum.splits if_splits)
  then obtain s where "s \<in> set ss" by (meson list.set_sel(1))
  then have s: "s \<in> set ss" .
  have "isCredentialID s = ''c1''" by (rule i [OF s b(1)])
  moreover have "cacheGet 1 (isCredentialID s) (iaCache a') = None" using b(2) s unfolding list_all_iff by blast
  ultimately have "cacheGet 1 ''c1'' (iaCache a') = None" by (simp only:)
  then show ?thesis unfolding e r by simp
qed

text \<open>What the documentation of \<open>duplicacy add\<close> says of a successful one: the preferences it leaves have the new storage under its
  name, with its URL, beside those that were there.\<close>

definition addLaw :: "(cliInvocation \<Rightarrow> disk \<Rightarrow> (bool \<times> string) \<times> disk) \<Rightarrow> string \<Rightarrow> bool" where
  "addLaw cli path \<longleftrightarrow>
     (\<forall>ci opts al i u d out d' m. RepoRoot ci = path \<longrightarrow> Args ci = ''add'' # opts @ [al, i, u] \<longrightarrow> cli ci d = ((True, out), d') \<longrightarrow>
        readPreferenceURLs d path = Some m \<longrightarrow> (\<exists>m'. readPreferenceURLs d' path = Some m' \<and> map_of m' = (map_of m)(al \<mapsto> u)))"

lemma runAll_adds:
  "addLaw cli (irRepoPath req) \<Longrightarrow> list_all2 (addFor req) ss cs \<Longrightarrow> runAll cli cs d = (outs, d') \<Longrightarrow> list_all fst outs \<Longrightarrow>
     readPreferenceURLs d (irRepoPath req) = Some m \<Longrightarrow> distinct (map isStorageAlias ss) \<Longrightarrow>
     \<exists>m'. readPreferenceURLs d' (irRepoPath req) = Some m' \<and> (\<forall>s\<in>set ss. map_of m' (isStorageAlias s) = Some (isStorageURL s)) \<and>
       (\<forall>k. k \<notin> isStorageAlias ` set ss \<longrightarrow> map_of m' k = map_of m k)"
proof (induction ss arbitrary: cs d m outs)
  case (Cons s ss cs0)
  then obtain c cs where cs0: "cs0 = c # cs" "addFor req s c" "list_all2 (addFor req) ss cs" by (auto simp: list_all2_Cons1)
  obtain ok out d1 outs1 where c: "cli c d = ((ok, out), d1)" "runAll cli cs d1 = (outs1, d')" "outs = (ok, out) # outs1"
    using Cons.prems(3) cs0(1) by (auto split: prod.splits)
  obtain opts where o: "RepoRoot c = irRepoPath req" "Args c = ''add'' # (''-encrypt'' # opts) @ [isStorageAlias s, irRepoID req, isStorageURL s]"
    using cs0(2) by (auto simp: addFor_def)
  obtain m1 where m1: "readPreferenceURLs d1 (irRepoPath req) = Some m1" "map_of m1 = (map_of m)(isStorageAlias s \<mapsto> isStorageURL s)"
    using Cons.prems(1) [unfolded addLaw_def, rule_format, OF o _ Cons.prems(5), of out d1] c(1,3) Cons.prems(4) by auto
  obtain m' where m': "readPreferenceURLs d' (irRepoPath req) = Some m'" "\<forall>x\<in>set ss. map_of m' (isStorageAlias x) = Some (isStorageURL x)"
      "\<forall>k. k \<notin> isStorageAlias ` set ss \<longrightarrow> map_of m' k = map_of m1 k" using Cons.IH [OF Cons.prems(1) cs0(3) c(2) _ m1(1)] Cons.prems(4,6) c(3) by auto
  have "map_of m' (isStorageAlias s) = Some (isStorageURL s)" using m'(3) m1(2) Cons.prems(6) by simp
  then show ?case using m' m1(2) by (intro exI [of _ m']) auto
qed auto

lemma prefs_fold: "fold (\<lambda>p m. AList.update (pName p) (pStorageURL p) m) (map scrubEntry raws) m = fold (\<lambda>p m. AList.update (pName p) (pStorageURL p) m) raws m"
  by (induction raws arbitrary: m) (simp_all add: scrubEntry_def)

lemma scrub_urls: "readPreferenceURLs (snd (scrubPreferences fault path d)) path = readPreferenceURLs d path"
proof (cases "readPreferences d (prefsPath path)")
  case (Inr raws)
  have "prefsPath path \<notin> set (ioErr d)" using Inr by (auto simp: readPreferences_def osStat_def)
  then have "readPreferences (snd (scrubPreferences fault path d)) (prefsPath path) = Inr (if fault then raws else map scrubEntry raws)"
    using Inr by (simp add: scrubPreferences_def prefsPath_def Let_def readPreferences_def osStat_def update_conv')
  then show ?thesis using Inr by (simp add: readPreferenceURLs_def prefs_fold)
qed (simp add: readPreferenceURLs_def scrubPreferences_def prefsPath_def)

lemma validateStorages_aliases:
  "validateStorages n seen ss = None \<Longrightarrow> distinct (map isStorageAlias ss) \<and> set (map isStorageAlias ss) \<inter> set seen = {}"
  by (induction n seen ss rule: validateStorages.induct) (auto split: if_splits)

lemma initDone_adopted:
  assumes "initDone v req ss rs d0 ''adopted'' d2" "addLaw (ieCLI v) (irRepoPath req)" "distinct (map isStorageAlias ss)"
  shows "\<exists>m. readPreferenceURLs d2 (irRepoPath req) = Some m \<and>
    (\<forall>s\<in>set ss. (isIsPrimary s \<longrightarrow> isStorageURL s \<noteq> []) \<longrightarrow> map_of m (isStorageAlias s) = Some (isStorageURL s))"
proof -
  obtain primary cs d1 outs e where i: "filter isIsPrimary ss = [primary]" "readPreferenceURLs d1 (irRepoPath req) = Some e"
      "(case map_of e (isStorageAlias primary) of None \<Rightarrow> [] | Some u \<Rightarrow> u) = isStorageURL primary" "list_all (agrees (Some e)) ss"
      "list_all2 (addFor req) (filter (absent (Some e)) ss) cs" "runAll (ieCLI v) cs d1 = (outs, d2)" "list_all fst outs"
    using assms(1) by (auto simp: initDone_def)
  have "distinct (map isStorageAlias (filter (absent (Some e)) ss))" using assms(3) distinct_map_filter by blast
  from runAll_adds [OF assms(2) i(5,6,7,2) this] obtain m where m: "readPreferenceURLs d2 (irRepoPath req) = Some m"
      "\<forall>s\<in>set (filter (absent (Some e)) ss). map_of m (isStorageAlias s) = Some (isStorageURL s)"
      "\<forall>k. k \<notin> isStorageAlias ` set (filter (absent (Some e)) ss) \<longrightarrow> map_of m k = map_of e k" by blast
  have "map_of m (isStorageAlias s) = Some (isStorageURL s)" if s: "s \<in> set ss" "isIsPrimary s \<longrightarrow> isStorageURL s \<noteq> []" for s
  proof (cases "absent (Some e) s")
    case True
    then show ?thesis using m(2) s(1) by simp
  next
    case False
    have "isStorageAlias s \<notin> isStorageAlias ` set (filter (absent (Some e)) ss)"
    proof
      assume "isStorageAlias s \<in> isStorageAlias ` set (filter (absent (Some e)) ss)"
      then obtain t where "t \<in> set ss" "absent (Some e) t" "isStorageAlias t = isStorageAlias s" by auto
      then have "t = s" using assms(3) s(1) by (metis distinct_map inj_on_eq_iff)
      then show False using False \<open>absent (Some e) t\<close> by simp
    qed
    then have k: "map_of m (isStorageAlias s) = map_of e (isStorageAlias s)" using m(3) by blast
    show ?thesis
    proof (cases "isIsPrimary s")
      case True
      then have "s \<in> set (filter isIsPrimary ss)" using s(1) by simp
      then have "s = primary" unfolding i(1) by simp
      then show ?thesis using k i(3) s(2) True by (auto split: option.splits)
    next
      case np: False
      then have "map_of e (isStorageAlias s) \<noteq> None" using False by (simp add: absent_def)
      moreover have "map_of e (isStorageAlias s) \<in> {None, Some (isStorageURL s)}" using i(4) s(1) np by (auto simp: list_all_iff agrees_def)
      ultimately show ?thesis using k by auto
    qed
  qed
  then show ?thesis using m(1) by blast
qed

text \<open>C28. No repository is taken over that is not the requested one: after an answer \<open>adopted\<close> the preferences on disk can be read, and
  they have every storage of the request under its alias with exactly the URL that its template expands to. (The CLI is taken to add a storage as documented, \<open>addLaw\<close>; nothing is assumed
  of what \<open>init\<close> does. For a primary storage whose template expands to the empty URL the code also takes an absent entry for a match.)\<close>

theorem adopted_is_requested:
  assumes "handleInitRepoNew v (Some req) a = (InitOk ''adopted'', a')" "addLaw (ieCLI v) (irRepoPath req)"
  shows "\<exists>ss m. expandStorages (initCtx a req) 0 (irStorages req) = Inr ss \<and> readPreferenceURLs (appDisk (iaApp a')) (irRepoPath req) = Some m \<and>
    (\<forall>s\<in>set ss. (isIsPrimary s \<longrightarrow> isStorageURL s \<noteq> []) \<longrightarrow> map_of m (isStorageAlias s) = Some (isStorageURL s))"
proof -
  obtain ss a2 a3 where h: "validateInitReq (cfgBackupRoots (iaApp a)) req = None" "expandStorages (initCtx a req) 0 (irStorages req) = Inr ss"
      "answers v (req\<lparr>irStorages := ss\<rparr>) ss a2 (InitOk ''adopted'') a3" "iaApp a' = iaApp a3"
    using handleInit_answers [OF assms(1)] by auto
  obtain a1 rs where d: "initDone v (req\<lparr>irStorages := ss\<rparr>) ss rs (appDisk (iaApp a2)) ''adopted'' (appDisk (iaApp a1))"
      and f: "(InitOk ''adopted'', a3) = finishInit v (req\<lparr>irStorages := ss\<rparr>) True a1"
    using h(3) by (auto simp: answers_def)
  have d3: "appDisk (iaApp a3) = snd (scrubPreferences (ieScrubFault v) (irRepoPath req) (appDisk (iaApp a1)))"
    using f by (simp add: finishInit_def rescanAsync_def Let_def)
  have "distinct (map isStorageAlias (irStorages req))"
    using h(1) validateStorages_aliases [of 0 "[]" "irStorages req"] by (auto simp: validateInitReq_def Let_def split: if_splits option.splits)
  then have "distinct (map isStorageAlias ss)" using expandStorages_same [OF h(2)] by simp
  from initDone_adopted [OF d _ this] assms(2) show ?thesis using h(2,4) d3 by (simp add: scrub_urls)
qed

lemma exCLI_addLaw: "addLaw exCLI path"
  unfolding addLaw_def
proof (intro allI impI)
  fix ci opts al i u d out d' m
  assume a: "RepoRoot ci = path" "Args ci = ''add'' # opts @ [al, i, u]" "exCLI ci d = ((True, out), d')" "readPreferenceURLs d path = Some m"
  let ?p = "prefsPath path"
  obtain raws where r: "readPreferences d ?p = Inr raws" "m = fold (\<lambda>p m. AList.update (pName p) (pStorageURL p) m) raws []"
    using a(4) by (auto simp: readPreferenceURLs_def split: sum.splits)
  obtain entry where e: "d' = d\<lparr>entries := AList.update ?p (FileNode (Some (raws @ [entry]))) (entries d)\<rparr>" "pName entry = al" "pStorageURL entry = u"
    using a(1,2,3) r(1) by (auto simp: exCLI_def Let_def butlast_append)
  have "?p \<notin> set (ioErr d)" using r(1) by (auto simp: readPreferences_def osStat_def)
  then have "readPreferences d' ?p = Inr (raws @ [entry])" by (simp add: e(1) readPreferences_def osStat_def update_conv')
  then show "\<exists>m'. readPreferenceURLs d' path = Some m' \<and> map_of m' = (map_of m)(al \<mapsto> u)"
    by (simp add: readPreferenceURLs_def r(2) e(2,3) update_conv')
qed

text \<open>Witness: a request for one storage more than the first one made.\<close>

theorem adopted_is_requested_witness:
  "\<exists>m. readPreferenceURLs (appDisk (iaApp (snd (handleInitRepoNew exInitEnv (Some (exInitReq ''default'')) exMade)))) ''/srv/a'' = Some m \<and>
     map_of m ''off'' = Some ''sftp://u@h//mnt/nas01/off'' \<and> map_of m ''default'' = Some ''sftp://u@h//mnt/nas01/default''"
proof -
  obtain resp a' where e: "handleInitRepoNew exInitEnv (Some (exInitReq ''default'')) exMade = (resp, a')" by fastforce
  have "fst (handleInitRepoNew exInitEnv (Some (exInitReq ''default'')) exMade) = InitOk ''adopted''" by code_simp
  then have h: "handleInitRepoNew exInitEnv (Some (exInitReq ''default'')) exMade = (InitOk ''adopted'', a')" using e by simp
  obtain ss m where s: "expandStorages (initCtx exMade (exInitReq ''default'')) 0 (irStorages (exInitReq ''default'')) = Inr ss"
      "readPreferenceURLs (appDisk (iaApp a')) (irRepoPath (exInitReq ''default'')) = Some m"
      "\<forall>s\<in>set ss. (isIsPrimary s \<longrightarrow> isStorageURL s \<noteq> []) \<longrightarrow> map_of m (isStorageAlias s) = Some (isStorageURL s)"
    using adopted_is_requested [OF h] exCLI_addLaw by (auto simp: exInitEnv_def)
  have "map_sum (\<lambda>_. ()) (map (\<lambda>s. (isStorageAlias s, isStorageURL s))) (expandStorages (initCtx exMade (exInitReq ''default'')) 0 (irStorages (exInitReq ''default''))) =
     Inr [(''default'', ''sftp://u@h//mnt/nas01/default''), (''off'', ''sftp://u@h//mnt/nas01/off'')]" by code_simp
  then have "map (\<lambda>s. (isStorageAlias s, isStorageURL s)) ss = [(''default'', ''sftp://u@h//mnt/nas01/default''), (''off'', ''sftp://u@h//mnt/nas01/off'')]"
    by (simp add: s(1))
  then have "map_of m ''off'' = Some ''sftp://u@h//mnt/nas01/off'' \<and> map_of m ''default'' = Some ''sftp://u@h//mnt/nas01/default''"
    using s(3) by (auto simp: map_eq_Cons_conv)
  then show ?thesis using s(2) h by (simp add: exInitReq_def)
qed

end
