(* ===== verification/Schedules.thy ===== *)
theory Schedules
  imports Handlers "HOL-Library.Word"
begin

text \<open>
  schedules.go and chain.go: what a fired schedule runs, the delay that spreads the fires of a fleet over a minute, and the
  callbacks of the after-wave chain. The scheduler itself (the clock tick, the cron matching, the chain's engine and the
  readers of schedule parameters) is the library agent-kit-go, which is not part of the repository: a schedule carries
  what those readers return for its parameters. The theorems give the range of the delay, extend the reclaiming of key
  files to agents whose jobs are also started by schedules, show that a scheduled prune is always scoped and never a
  preview, and what a job that could not be spawned means for the chain.
\<close>

unbundle bit_operations_syntax

section \<open>The delay\<close>

text \<open>FNV-1a on 64 bits (hash/fnv).\<close>

definition fnvOffset :: "64 word" where "fnvOffset = 14695981039346656037"

definition fnvPrime :: "64 word" where "fnvPrime = 1099511628211"

definition fnv64a :: "string \<Rightarrow> 64 word" where
  "fnv64a s = foldl (\<lambda>h c. (h XOR word_of_nat (of_char c)) * fnvPrime) fnvOffset s"

text \<open>Durations are nanoseconds.\<close>

definition fireJitter :: "string \<Rightarrow> string \<Rightarrow> int \<Rightarrow> int" where
  "fireJitter node scheduleID cap =
     (if cap \<le> 0 then 0 else uint (fnv64a (node @ [CHR 0x00] @ scheduleID) mod word_of_int cap))"

definition fireJitterCap :: int where "fireJitterCap = 60 * 1000000000"

section \<open>Firing\<close>

record LocalSchedule =
  lsID :: string
  lsRepoID :: string
  lsStorage :: string
  lsAction :: string
  lsOn :: string  \<comment> \<open>the field \<open>on\<close> of the schedule\<close>
  lsInt :: "string \<Rightarrow> int"  \<comment> \<open>\<open>ParamInt\<close> and the like on the parameters\<close>
  lsString :: "string \<Rightarrow> string"
  lsBool :: "string \<Rightarrow> bool"
  lsStrings :: "string \<Rightarrow> string list"

definition resolveScheduleSnapshotID :: "LocalSchedule \<Rightarrow> string" where
  "resolveScheduleSnapshotID sch = (if lsString sch ''snapshot_id'' \<noteq> [] then lsString sch ''snapshot_id'' else lsRepoID sch)"

definition scheduleInvocation :: "agent \<Rightarrow> Repo \<Rightarrow> LocalSchedule \<Rightarrow> cliInvocation option" where
  "scheduleInvocation ag repo sch =
     (if lsAction sch = ActionBackup
      then Some (invocationForBackup (agNumCPU ag) repo (lsStorage sch) (lsString sch ''tag'') (lsInt sch ''threads''))
      else if lsAction sch = ActionCheck
      then Some (invocationForCheck repo (lsStorage sch) (lsString sch ''revisions'') (lsBool sch ''all'') (resolveScheduleSnapshotID sch))
      else if lsAction sch = ActionPrune
      then Some (invocationForPrune repo
             \<lparr>poStorage = lsStorage sch, poKeepRules = lsStrings sch ''keep_rules'', poExclusive = lsBool sch ''exclusive'', poExhaustive = lsBool sch ''exhaustive'',
              poSnapshotID = resolveScheduleSnapshotID sch, poDryRun = False, poThreads = lsInt sch ''threads'', poIgnore = lsStrings sch ''ignore''\<rparr>)
      else if lsAction sch = ActionCopy
      then let t = lsInt sch ''threads''; threads = (if t \<le> 0 then agCopyThreads ag else t)
           in Some (invocationForCopy (agNumCPU ag) repo (lsString sch ''copy_from'') (lsStorage sch) threads (lsString sch ''copy_id'') [] [])
      else None)"

definition withCopyKey :: "LocalSchedule \<Rightarrow> (string \<times> string) list \<Rightarrow> cliInvocation \<Rightarrow> cliInvocation" where
  "withCopyKey sch rsaPriv iv =
     (if lsAction sch = ActionCopy \<and> pathOf (lsString sch ''copy_from'') rsaPriv \<noteq> []
      then iv\<lparr>Args := Args iv @ [''-key'', pathOf (lsString sch ''copy_from'') rsaPriv]\<rparr> else iv)"

datatype fireResult = FireCancelled | FireNoRepo | FireUnsupported | FireVendFailed | FireStartFailed | FireStarted string

text \<open>\<open>ctxDone\<close>: the context ends while the fire waits.\<close>

definition fire :: "reqEnv \<Rightarrow> string \<Rightarrow> bool \<Rightarrow> LocalSchedule \<Rightarrow> string \<Rightarrow> agent \<Rightarrow> fireResult \<times> agent" where
  "fire q node ctxDone sch triggerKey ag =
     (if \<not> hasPrefix triggerKey ''manual'' \<and> \<not> hasPrefix triggerKey ''chain'' \<and> fireJitter node (lsID sch) fireJitterCap > 0 \<and> ctxDone
      then (FireCancelled, ag)
      else case getBySnapshotID (agRepos ag) (lsRepoID sch) of
        None \<Rightarrow> (FireNoRepo, ag)
      | Some repo \<Rightarrow>
          (case scheduleInvocation ag repo sch of
             None \<Rightarrow> (FireUnsupported, ag)
           | Some iv \<Rightarrow>
               (case prepEnv q repo ag of
                  (None, ag1) \<Rightarrow> (FireVendFailed, ag1)
                | (Some (env, rsaPriv, tmp), ag1) \<Rightarrow>
                    (case launch (rqNow q) (rqJobID q) repo (lsAction sch) (lsStorage sch) (withCopyKey sch rsaPriv (withEnv env iv))
                            (lsID sch) triggerKey (rqSpawn q) (tmp, None) ag1 of
                       (Accepted j, ag2) \<Rightarrow> (FireStarted j, ag2)
                     | (JobError _, ag2) \<Rightarrow> (FireStartFailed, ag2)))))"

section \<open>The handlers\<close>

text \<open>The scheduler of the library is a state \<open>'s\<close> with its operations; the agent runs without one when it could not be built.\<close>

definition handleListSchedules :: "('s \<Rightarrow> LocalSchedule list) \<Rightarrow> 's option \<Rightarrow> LocalSchedule list" where
  "handleListSchedules schedules sched = (case sched of None \<Rightarrow> [] | Some s \<Rightarrow> schedules s)"

definition handleSchedulesRefresh :: "('s \<Rightarrow> bool \<times> 's) \<Rightarrow> 's option \<Rightarrow> nat \<times> 's option" where
  "handleSchedulesRefresh pull sched =
     (case sched of None \<Rightarrow> (503, None) | Some s \<Rightarrow> (case pull s of (ok, s') \<Rightarrow> (if ok then 200 else 502, Some s')))"

definition handleSchedulesCache :: "('s \<Rightarrow> 'c) \<Rightarrow> 's option \<Rightarrow> 'c option" where
  "handleSchedulesCache cache sched = map_option cache sched"

section \<open>The chain\<close>

definition afterWaveSentinel :: string where "afterWaveSentinel = ''after_wave''"

definition isWaveJob :: "string \<Rightarrow> bool" where
  "isWaveJob a \<longleftrightarrow> a = ActionBackup \<or> a = ActionCopy"

definition waveComplete :: "jobRegistry \<Rightarrow> bool" where
  "waveComplete r \<longleftrightarrow> countActive [ActionBackup, ActionCopy] r = 0"

record chainStage =
  stName :: string
  stTriggerKey :: string
  stMatch :: "LocalSchedule \<Rightarrow> bool"
  stActive :: "jobRegistry \<Rightarrow> bool"

definition matchStage :: "JobAction \<Rightarrow> LocalSchedule \<Rightarrow> bool" where
  "matchStage act sch \<longleftrightarrow> lsOn sch = afterWaveSentinel \<and> lsAction sch = act"

definition activeStage :: "JobAction \<Rightarrow> jobRegistry \<Rightarrow> bool" where
  "activeStage act r \<longleftrightarrow> countActive [act] r > 0"

definition chainStages :: "chainStage list" where
  "chainStages =
     [\<lparr>stName = ''prune'', stTriggerKey = ''chain-prune'', stMatch = matchStage ActionPrune, stActive = activeStage ActionPrune\<rparr>,
      \<lparr>stName = ''check'', stTriggerKey = ''chain-check'', stMatch = matchStage ActionCheck, stActive = activeStage ActionCheck\<rparr>]"

section \<open>Bounds\<close>

text \<open>The delay of a fire lies in \<open>[0, cap)\<close> for every cap a \<open>time.Duration\<close> can hold: the 64-bit hash is reduced modulo the cap
  and the result does not overflow; for a cap that is not positive there is no delay.\<close>

theorem fireJitter_range:
  assumes "cap \<le> maxInt64"
  shows "0 \<le> fireJitter node sid cap \<and> (0 < cap \<longrightarrow> fireJitter node sid cap < cap) \<and> (cap \<le> 0 \<longrightarrow> fireJitter node sid cap = 0)"
proof -
  have "uint (x mod word_of_int cap :: 64 word) < cap" if "0 < cap" for x :: "64 word"
  proof -
    have c: "uint (word_of_int cap :: 64 word) = cap" using that assms by (simp add: uint_word_of_int maxInt64_def take_bit_int_eq_self)
    have "uint (x mod word_of_int cap) = uint x mod cap" by (simp add: uint_mod_distrib c)
    then show ?thesis using that by simp
  qed
  then show ?thesis by (simp add: fireJitter_def)
qed

text \<open>Witness: two schedules of one node.\<close>

theorem fireJitter_range_witness:
  "0 \<le> fireJitter ''nas'' ''a'' fireJitterCap \<and> fireJitter ''nas'' ''a'' fireJitterCap < fireJitterCap"
  using fireJitter_range [of fireJitterCap "''nas''" "''a''"] by (simp add: fireJitterCap_def maxInt64_def)

section \<open>Key files\<close>

text \<open>Agents whose jobs are started by requests and by schedules.\<close>

inductive agentReach :: "agent \<Rightarrow> agent \<Rightarrow> bool" for ag0 where
  start: "agentReach ag0 ag0"
| act: "agentReach ag0 ag \<Longrightarrow> \<nexists>i a b c d e f g. l = LStart i a b c d e f g \<Longrightarrow> agentExec now l ag = Some ag' \<Longrightarrow> agentReach ag0 ag'"
| req: "agentReach ag0 ag \<Longrightarrow> rqJobID q \<notin> fst ` set (rgHeap (agReg ag)) \<Longrightarrow> handleReq q rq ag = (resp, ag') \<Longrightarrow> agentReach ag0 ag'"
| fired: "agentReach ag0 ag \<Longrightarrow> rqJobID q \<notin> fst ` set (rgHeap (agReg ag)) \<Longrightarrow> fire q node ctxDone sch trig ag = (res, ag') \<Longrightarrow> agentReach ag0 ag'"

lemma agentOk_fire:
  assumes "agentOk base ag" "rqJobID q \<notin> fst ` set (rgHeap (agReg ag))" "fire q node ctxDone sch trig ag = (res, ag')"
  shows "agentOk base ag'"
proof (cases "\<exists>repo iv. getBySnapshotID (agRepos ag) (lsRepoID sch) = Some repo \<and> scheduleInvocation ag repo sch = Some iv \<and> ag' \<noteq> ag")
  case False
  then have "ag' = ag" using assms(3) by (auto simp: fire_def split: if_splits option.splits)
  then show ?thesis using assms(1) by simp
next
  case True
  then obtain repo iv where r: "getBySnapshotID (agRepos ag) (lsRepoID sch) = Some repo" "scheduleInvocation ag repo sch = Some iv" "ag' \<noteq> ag" by blast
  let ?iv = "\<lambda>env rsaPriv. withCopyKey sch rsaPriv (withEnv env iv)"
  obtain resp where "(case prepEnv q repo ag of (None, ag1) \<Rightarrow> (JobError 500, ag1)
     | (Some (env, rsa, tmp), ag1) \<Rightarrow> launch (rqNow q) (rqJobID q) repo (lsAction sch) (lsStorage sch) (?iv env rsa) (lsID sch) trig (rqSpawn q) (tmp, None) ag1) = (resp, ag')"
    using assms(3) r by (auto simp: fire_def split: if_splits option.splits prod.splits jobResp.splits)
  then show ?thesis by (rule agentOk_prepared [OF assms(1,2), where iv = ?iv and f = "\<lambda>a. a"]) simp
qed

lemma agentReach_ok: "agentReach ag0 ag \<Longrightarrow> agentOk base ag0 \<Longrightarrow> agentOk base ag"
  by (induction rule: agentReach.induct) (auto intro: agentOk_exec agentOk_request agentOk_fire)

text \<open>C3. Across all components: however requests for backups, restores, checks, prunes and copies, fires of schedules and the
  actions of their jobs interleave, the key files in /dev/shm are at every moment the ones that were there
  at first and files of jobs whose cleanup has not run; once every job has ended, /dev/shm is what it was.\<close>

theorem secrets_reclaimed:
  assumes "agentReach ag0 ag" "agReg ag0 = newJobRegistry copies maint" "agOwned ag0 = []"
  shows "filter (\<lambda>f. fst f \<notin> set (pendingFiles ag)) (shmFiles (ssShm (agSecrets ag))) = shmFiles (ssShm (agSecrets ag0)) \<and>
    ((\<forall>ob\<in>snd ` set (rgHeap (agReg ag)). oPhase ob = Ended) \<longrightarrow> shmFiles (ssShm (agSecrets ag)) = shmFiles (ssShm (agSecrets ag0)))"
proof -
  have "agentOk (shmOf ag0) ag0" using assms(2,3) by (simp add: agentOk_def filesInv_def regInv_new pendingFiles_def pendingOf_def)
  then have ok: "agentOk (shmOf ag0) ag" by (rule agentReach_ok [OF assms(1)])
  then have "filter (\<lambda>f. fst f \<notin> set (pendingFiles ag)) (shmOf ag) = shmOf ag0" by (simp add: agentOk_def filesInv_def)
  then show ?thesis using agentOk_ended [OF ok] by auto
qed

lemma agentReach_run:
  "agentRun ls ag = Some ag' \<Longrightarrow> agentReach ag0 ag \<Longrightarrow> list_all (\<lambda>x. case snd x of LStart _ _ _ _ _ _ _ _ \<Rightarrow> False | _ \<Rightarrow> True) ls \<Longrightarrow> agentReach ag0 ag'"
proof (induction ls ag rule: agentRun.induct)
  case (2 now l ls ag)
  then obtain a1 where a1: "agentExec now l ag = Some a1" "agentRun ls a1 = Some ag'" by (auto split: option.splits)
  have "agentReach ag0 a1" by (rule agentReach.act [OF "2.prems"(2) _ a1(1)]) (use "2.prems"(3) in auto)
  then show ?case using 2 a1 by simp
qed simp

text \<open>Witness: a restore with its key files in /dev/shm, and the same agent after the process has ended.\<close>

theorem secrets_reclaimed_witness:
  "\<exists>ag. exDone = Some ag \<and> agentReach (exAgent 1) ag \<and> length (shmOf exStarted) = 5 \<and> shmOf ag = shmOf (exAgent 1)"
proof -
  obtain ag where ag: "exDone = Some ag" "map (oPhase \<circ> snd) (rgHeap (agReg ag)) = [Ended]"
    using exDone_eval [unfolded map_option_eq_Some] by (elim exE conjE)
  have "set (map oPhase (map snd (rgHeap (agReg ag)))) = {Ended}" using ag(2) by simp
  then have e: "\<forall>ob\<in>snd ` set (rgHeap (agReg ag)). oPhase ob = Ended" by auto
  have s0: "agReg (exAgent 1) = newJobRegistry 1 1" "agOwned (exAgent 1) = []" by (simp_all add: exAgent_def)
  have "agentReach (exAgent 1) exStarted" unfolding exStarted_def
    by (rule agentReach.req [OF agentReach.start _ surjective_pairing]) (simp add: exAgent_def newJobRegistry_def)
  then have r: "agentReach (exAgent 1) ag" by (rule agentReach_run [OF ag(1) [unfolded exDone_def]]) (simp only: list.pred_inject snd_conv regLabel.case simp_thms)
  have "shmOf ag = shmOf (exAgent 1)" using secrets_reclaimed [OF r s0] e by blast
  then show ?thesis using ag(1) r exStarted_eval by blast
qed

section \<open>Scheduled prunes\<close>

text \<open>C6. A schedule never prunes without a scope and never previews: the job a prune schedule starts has a command line that
  begins with the storage and "-id" and the snapshot id of the schedule (the parameter, else the repository id of the
  schedule), and what follows are retention rules and flags, among them no "-dry-run" of the agent's own: every argument
  of that name is the value of a "-keep" or an "-ignore".\<close>

theorem fire_prune_scoped:
  assumes "fire q node ctxDone sch trig ag = (FireStarted j, ag')" "lsAction sch = ActionPrune" "lsRepoID sch \<noteq> []"
    "rqJobID q \<notin> fst ` set (rgHeap (agReg ag))"
  shows "resolveScheduleSnapshotID sch \<noteq> [] \<and> (\<exists>ob flags. map_of (rgHeap (agReg ag')) j = Some ob \<and> jAction (oJob ob) = ActionPrune \<and>
    jArgs (oJob ob) = ''prune'' # (if lsStorage sch = [] then [] else [''-storage'', lsStorage sch]) @ [''-id'', resolveScheduleSnapshotID sch] @
      concat (map (\<lambda>k. [''-keep'', k]) (lsStrings sch ''keep_rules'')) @
      concat (map (\<lambda>k. [''-ignore'', k]) (filter (\<lambda>i. i \<noteq> []) (lsStrings sch ''ignore''))) @ flags \<and> ''-dry-run'' \<notin> set flags)"
proof -
  have ne: "resolveScheduleSnapshotID sch \<noteq> []" using assms(3) by (simp add: resolveScheduleSnapshotID_def)
  let ?o = "\<lparr>poStorage = lsStorage sch, poKeepRules = lsStrings sch ''keep_rules'', poExclusive = lsBool sch ''exclusive'', poExhaustive = lsBool sch ''exhaustive'',
     poSnapshotID = resolveScheduleSnapshotID sch, poDryRun = False, poThreads = lsInt sch ''threads'', poIgnore = lsStrings sch ''ignore''\<rparr>"
  have s: "scheduleInvocation ag repo sch = Some (invocationForPrune repo ?o)" for repo
    using assms(2) by (simp add: scheduleInvocation_def ActionPrune_def ActionBackup_def ActionCheck_def)
  have k: "withCopyKey sch rsa iv = iv" for rsa iv using assms(2) by (simp add: withCopyKey_def ActionPrune_def ActionCopy_def)
  obtain repo env tmp ag1 where l: "launch (rqNow q) (rqJobID q) repo ActionPrune (lsStorage sch) (withEnv env (invocationForPrune repo ?o))
      (lsID sch) trig (rqSpawn q) (tmp, None) ag1 = (Accepted j, ag')" "agReg ag1 = agReg ag"
    using assms(1,2) prepEnv_cases(1) by (auto simp: fire_def s k split: if_splits option.splits prod.splits jobResp.splits)
  obtain ob where ob: "map_of (rgHeap (agReg ag')) j = Some ob" "jArgs (oJob ob) = Args (invocationForPrune repo ?o)" "jAction (oJob ob) = ActionPrune"
    using launch_job [OF l(1)] assms(4) l(2) by (auto simp: withEnv_def)
  let ?flags = "(if lsInt sch ''threads'' > 1 then [''-threads'', itoa (lsInt sch ''threads'')] else []) @
     (if lsBool sch ''exclusive'' then [''-exclusive''] else []) @ (if lsBool sch ''exhaustive'' then [''-exhaustive''] else [])"
  have d: "itoa n \<noteq> ''-dry-run''" if "n > 1" for n
  proof
    assume i: "itoa n = ''-dry-run''"
    have "list_all isDigit (natDigits (nat n))" by (simp add: natDigits_isDigit)
    moreover have "itoa n = natDigits (nat n)" using that by (simp add: itoa_def)
    ultimately have "list_all isDigit ''-dry-run''" using i by simp
    then show False by (simp add: isDigit_def)
  qed
  have "''-dry-run'' \<notin> set ?flags" using d [of "lsInt sch ''threads''"] by simp metis
  moreover have "jArgs (oJob ob) = ''prune'' # (if lsStorage sch = [] then [] else [''-storage'', lsStorage sch]) @ [''-id'', resolveScheduleSnapshotID sch] @
      concat (map (\<lambda>k. [''-keep'', k]) (lsStrings sch ''keep_rules'')) @
      concat (map (\<lambda>k. [''-ignore'', k]) (filter (\<lambda>i. i \<noteq> []) (lsStrings sch ''ignore''))) @ ?flags"
    using ne unfolding ob(2) prune_args by simp
  ultimately show ?thesis using ne ob(1,3) by blast
qed

definition exSchedule :: LocalSchedule where
  "exSchedule = \<lparr>lsID = ''s1'', lsRepoID = ''snap'', lsStorage = [], lsAction = ActionPrune, lsOn = ''after_wave'', lsInt = (\<lambda>_. 0), lsString = (\<lambda>_. []),
     lsBool = (\<lambda>k. k = ''exhaustive''), lsStrings = (\<lambda>k. if k = ''keep_rules'' then [''7:30''] else [])\<rparr>"

text \<open>Witness: a prune of the chain.\<close>

theorem fire_prune_scoped_witness:
  "\<exists>ag' ob. fire (exReq SpawnOk) ''nas'' False exSchedule ''chain-prune'' (exAgent 0) = (FireStarted ''j1'', ag') \<and>
     map_of (rgHeap (agReg ag')) ''j1'' = Some ob \<and> take 5 (jArgs (oJob ob)) = [''prune'', ''-id'', ''snap'', ''-keep'', ''7:30'']"
proof -
  have e: "fst (fire (exReq SpawnOk) ''nas'' False exSchedule ''chain-prune'' (exAgent 0)) = FireStarted ''j1''" by code_simp
  then obtain ag' where s: "fire (exReq SpawnOk) ''nas'' False exSchedule ''chain-prune'' (exAgent 0) = (FireStarted ''j1'', ag')" by (metis prod.collapse)
  have n: "rqJobID (exReq SpawnOk) \<notin> fst ` set (rgHeap (agReg (exAgent 0)))" by (simp add: exAgent_def newJobRegistry_def)
  have a: "lsAction exSchedule = ActionPrune" "lsRepoID exSchedule \<noteq> []" by (simp_all add: exSchedule_def)
  from fire_prune_scoped [OF s a n] show ?thesis using s by (auto simp: exSchedule_def resolveScheduleSnapshotID_def)
qed

section \<open>The wave\<close>

lemma regExec_stuck_job:
  assumes "regExec now l r = Some r'" "map_of (rgHeap r) i = Some ob" "oPhase ob = Stuck" "l \<noteq> LCancel i"
  shows "\<exists>ob'. map_of (rgHeap r') i = Some ob' \<and> oPhase ob' = Stuck \<and> oJob ob' = oJob ob"
proof (cases l)
  case (LStart i0 a b c d e f g)
  then have "i0 \<notin> fst ` set (rgHeap r)" "r' = startJob i0 a b c d e f g r" using assms(1) by (auto split: if_splits)
  moreover from this have "i \<noteq> i0" using map_of_SomeD [OF assms(2)] by force
  ultimately show ?thesis using assms(2,3) by (simp add: startJob_def Let_def update_conv' del: map_of_eq_Some_iff)
qed (use assms in \<open>auto simp: update_conv' exec_defs Let_def split: option.splits if_splits simp del: map_of_eq_Some_iff\<close>)

lemma regRun_stuck_job:
  "regRun ls r = Some r' \<Longrightarrow> map_of (rgHeap r) i = Some ob \<Longrightarrow> oPhase ob = Stuck \<Longrightarrow> list_all (\<lambda>x. snd x \<noteq> LCancel i) ls \<Longrightarrow>
   \<exists>ob'. map_of (rgHeap r') i = Some ob' \<and> oPhase ob' = Stuck \<and> oJob ob' = oJob ob"
proof (induction ls r arbitrary: ob rule: regRun.induct)
  case (2 now l ls r)
  then obtain r1 where r1: "regExec now l r = Some r1" "regRun ls r1 = Some r'" by (auto split: option.splits)
  obtain y where y: "map_of (rgHeap r1) i = Some y" "oPhase y = Stuck" "oJob y = oJob ob"
    using regExec_stuck_job [OF r1(1) "2.prems"(2,3)] "2.prems"(4) by auto
  show ?case using "2.IH" [OF r1 y(1,2)] "2.prems"(4) y(3) by simp
qed simp

text \<open>A backup or copy whose pipes could not be created stalls the chain: whatever the agent does later, unless that job is
  cancelled by hand the wave never counts as complete, so the prunes and checks that follow the wave are not started.\<close>

theorem pipe_error_stalls_wave:
  assumes "reachable copies maint r" "map_of (rgHeap r) i = Some ob" "oPhase ob = Spawning" "isWaveJob (jAction (oJob ob))"
    "jState (oJob ob) = JobPending" "regRun ((t, LPipeError i) # ls) r = Some r'" "list_all (\<lambda>x. snd x \<noteq> LCancel i) ls"
  shows "\<not> waveComplete r'"
proof -
  let ?r1 = "spawnPipeError i ob r"
  have r1: "regExec t (LPipeError i) r = Some ?r1" using assms(2,3) by (simp add: atPhase_def)
  then have run: "regRun ls ?r1 = Some r'" using assms(6) by simp
  have reach: "reachable copies maint r'" by (rule reachable_run [OF reachable.step [OF assms(1) r1] run])
  have "map_of (rgHeap ?r1) i = Some (ob\<lparr>oPhase := Stuck, oCtx := True\<rparr>)" by (simp add: spawnPipeError_def update_conv')
  from regRun_stuck_job [OF run this _ assms(7)] obtain ob' where ob': "map_of (rgHeap r') i = Some ob'" "oPhase ob' = Stuck" "oJob ob' = oJob ob" by auto
  have "mapInv r'" using reachable_inv [OF reach] by (simp add: regInv_def)
  then have "i \<in> set (rgJobs r')" using ob' by (auto simp: mapInv_def)
  then have "(i, ob') \<in> set (filter (\<lambda>(i, ob). i \<in> set (rgJobs r') \<and> jAction (oJob ob) \<in> set [ActionBackup, ActionCopy] \<and>
      jState (oJob ob) \<in> {JobRunning, JobPending}) (rgHeap r'))"
    using map_of_SomeD [OF ob'(1)] ob'(3) assms(4,5) by (auto simp: isWaveJob_def)
  then show ?thesis unfolding waveComplete_def countActive_def length_0_conv by (metis empty_iff list.set(1))
qed

text \<open>Witness: a second backup runs to its end.\<close>

theorem pipe_error_stalls_wave_witness:
  "\<exists>r'. regRun [(2, LPipeError ''a''), (3, LStart ''b'' ''r'' ''/p'' ActionBackup ''nas'' [] [] []), (3, LStartOk ''b''), (4, LRunning ''b''),
       (5, LExit ''b'' None), (6, LFinish ''b'')] (startJob ''a'' ''r'' ''/p'' ActionBackup ''nas'' [] [] [] (newJobRegistry 1 1)) = Some r' \<and> \<not> waveComplete r'"
proof -
  let ?r = "startJob ''a'' ''r'' ''/p'' ActionBackup ''nas'' [] [] [] (newJobRegistry 1 1)"
  let ?ls = "[(3, LStart ''b'' ''r'' ''/p'' ActionBackup ''nas'' [] [] []), (3, LStartOk ''b''), (4, LRunning ''b''), (5, LExit ''b'' None), (6, LFinish ''b'')]"
  have reach: "reachable 1 1 ?r"
    by (rule reachable.step [OF reachable.init, of 1 "LStart ''a'' ''r'' ''/p'' ActionBackup ''nas'' [] [] []"]) (simp add: newJobRegistry_def)
  have "map_option (\<lambda>ob. (oPhase ob, jState (oJob ob), jAction (oJob ob))) (map_of (rgHeap ?r) ''a'') = Some (Spawning, JobPending, ActionBackup)"
    "regRun ((2, LPipeError ''a'') # ?ls) ?r \<noteq> None" by code_simp+
  then obtain ob r' where ob: "map_of (rgHeap ?r) ''a'' = Some ob" "oPhase ob = Spawning" "jState (oJob ob) = JobPending" "jAction (oJob ob) = ActionBackup"
    and r': "regRun ((2, LPipeError ''a'') # ?ls) ?r = Some r'" by (auto simp del: map_of_eq_Some_iff regRun.simps)
  have w: "isWaveJob (jAction (oJob ob))" using ob(4) by (simp add: isWaveJob_def)
  have c: "list_all (\<lambda>x. snd x \<noteq> LCancel ''a'') ?ls" by simp
  show ?thesis using pipe_error_stalls_wave [OF reach ob(1,2) w ob(3) r' c] r' by blast
qed

end
