(* ===== verification/SnapshotStats.thy ===== *)
theory SnapshotStats
  imports JobParse StorageUrl
begin

text \<open>
  snapshot_stats.go: the table of the dedup figures that check runs print, as the list of its rows, with the statements the
  store runs on it; the figures for the storage pages; and the writing of a finished check job. The SQL statements are
  modelled by their meaning on the list (the order of rows that no \<open>ORDER BY\<close> fixes is the order of the list); the times a row
  carries are ordered as instants. What the database engine may refuse (a transaction, a query) is a parameter.
  The theorems: a run is written as a whole or not at all and a row is the last one written for its key; the cards count every
  snapshot once, at its highest revision, and agree with the table per repository; the points of a chart are in order of
  time; a size that is formatted and parsed again is off by at most a twentieth of its unit; the bounds within which the
  relative form of \<open>since\<close> does not wrap; and what a flushed job leaves in the table.
\<close>

section \<open>The table\<close>

record statRow =
  srRow :: snapshotStatRow  \<comment> \<open>the columns a line of the check table fills\<close>
  srRepoID :: string
  srStorageName :: string
  srDestKey :: string
  srDestLabel :: string
  srPoolBytes :: "int option"  \<comment> \<open>NULL in rows older than the column\<close>
  srPoolChunks :: "int option"
  srCapturedAt :: int

type_synonym statTable = "statRow list"

definition srKey :: "statRow \<Rightarrow> string \<times> int \<times> string" where
  "srKey r = (ssSnapshotID (srRow r), ssRevision (srRow r), srStorageName r)"

text \<open>\<open>INSERT ... ON CONFLICT DO UPDATE\<close>.\<close>

definition upsertRow :: "statRow \<Rightarrow> statTable \<Rightarrow> statTable" where
  "upsertRow r t = (if srKey r \<in> srKey ` set t then map (\<lambda>x. if srKey x = srKey r then r else x) t else t @ [r])"

record statFault =
  sfBegin :: bool
  sfPrepare :: bool
  sfExec :: "snapshotStatRow \<Rightarrow> bool"
  sfCommit :: bool

datatype statError = BeginFailed | PrepareFailed | UpsertFailed string int | CommitFailed

definition checkRow :: "string \<Rightarrow> string \<Rightarrow> string \<Rightarrow> string \<Rightarrow> int \<Rightarrow> int \<Rightarrow> int \<Rightarrow> snapshotStatRow \<Rightarrow> statRow" where
  "checkRow repoID storageName destKey destLabel capturedAt poolBytes poolChunks r =
     \<lparr>srRow = r, srRepoID = repoID, srStorageName = storageName, srDestKey = destKey, srDestLabel = destLabel,
      srPoolBytes = Some poolBytes, srPoolChunks = Some poolChunks, srCapturedAt = capturedAt\<rparr>"

fun execRows :: "(snapshotStatRow \<Rightarrow> bool) \<Rightarrow> (snapshotStatRow \<Rightarrow> statRow) \<Rightarrow> snapshotStatRow list \<Rightarrow> statTable \<Rightarrow> statError + statTable" where
  "execRows bad mk [] t = Inr t"
| "execRows bad mk (r # rs) t = (if bad r then Inl (UpsertFailed (ssSnapshotID r) (ssRevision r)) else execRows bad mk rs (upsertRow (mk r) t))"

text \<open>A transaction that is not committed is rolled back.\<close>

definition upsertCheckRun :: "statFault \<Rightarrow> string \<Rightarrow> string \<Rightarrow> string \<Rightarrow> string \<Rightarrow> int \<Rightarrow> int \<Rightarrow> int \<Rightarrow> snapshotStatRow list \<Rightarrow> statTable \<Rightarrow> statError option \<times> statTable" where
  "upsertCheckRun fl repoID storageName destKey destLabel capturedAt poolBytes poolChunks rows t =
     (if rows = [] then (None, t)
      else if sfBegin fl then (Some BeginFailed, t)
      else if sfPrepare fl then (Some PrepareFailed, t)
      else case execRows (sfExec fl) (checkRow repoID storageName destKey destLabel capturedAt poolBytes poolChunks) rows t of
        Inl e \<Rightarrow> (Some e, t)
      | Inr t' \<Rightarrow> if sfCommit fl then (Some CommitFailed, t) else (None, t'))"

section \<open>Listing\<close>

record SnapshotStatPublic =
  ppRow :: snapshotStatRow
  ppStorageName :: string
  ppDestinationKey :: string
  ppDestinationLabel :: string
  ppCapturedAt :: int

definition publicStat :: "statRow \<Rightarrow> SnapshotStatPublic" where
  "publicStat r = \<lparr>ppRow = srRow r, ppStorageName = srStorageName r, ppDestinationKey = srDestKey r, ppDestinationLabel = srDestLabel r,
     ppCapturedAt = srCapturedAt r\<rparr>"

text \<open>The queries return \<open>None\<close> when the engine refuses them.\<close>

definition listStats :: "bool \<Rightarrow> string \<Rightarrow> string \<Rightarrow> string \<Rightarrow> statTable \<Rightarrow> SnapshotStatPublic list option" where
  "listStats refused repoID storageName snapshotID t =
     (if refused then None
      else Some (map publicStat (sort_key (\<lambda>r. - ssRevision (srRow r)) (sort_key srStorageName
             (filter (\<lambda>r. srRepoID r = repoID \<and> (storageName \<noteq> [] \<longrightarrow> srStorageName r = storageName) \<and>
                          (snapshotID \<noteq> [] \<longrightarrow> ssSnapshotID (srRow r) = snapshotID)) t)))))"

definition listByRepo :: "bool \<Rightarrow> string \<Rightarrow> string \<Rightarrow> statTable \<Rightarrow> SnapshotStatPublic list option" where
  "listByRepo refused repoID storageName t = listStats refused repoID storageName [] t"

section \<open>The figures per destination\<close>

text \<open>\<open>SUM\<close> of an integer column: SQLite raises an error when the running sum leaves 64 bits.\<close>

fun sqlSum :: "int \<Rightarrow> int list \<Rightarrow> int option" where
  "sqlSum acc [] = Some acc"
| "sqlSum acc (x # xs) = (if acc + x < minInt64 \<or> maxInt64 < acc + x then None else sqlSum (acc + x) xs)"

text \<open>\<open>MAX\<close> skips NULL and is NULL on no values.\<close>

definition sqlMax :: "int option list \<Rightarrow> int option" where
  "sqlMax xs = (case List.map_filter (\<lambda>x. x) xs of [] \<Rightarrow> None | y # ys \<Rightarrow> Some (fold max ys y))"

definition groupBy :: "('a \<Rightarrow> 'k) \<Rightarrow> 'a list \<Rightarrow> ('k \<times> 'a list) list" where
  "groupBy f xs = map (\<lambda>k. (k, filter (\<lambda>x. f x = k) xs)) (remdups (map f xs))"

definition repoIDFilter :: "string list \<Rightarrow> statRow \<Rightarrow> bool" where
  "repoIDFilter repoIDs r \<longleftrightarrow> repoIDs = [] \<or> srRepoID r \<in> set repoIDs"

definition storageFilter :: "string \<Rightarrow> statRow \<Rightarrow> bool" where
  "storageFilter storageName r \<longleftrightarrow> (storageName \<noteq> [] \<longrightarrow> srStorageName r = storageName)"

text \<open>\<open>ROW_NUMBER() OVER (PARTITION BY snapshot_id, storage_name ORDER BY revision DESC, captured_at DESC) = 1\<close>.\<close>

definition srPart :: "statRow \<Rightarrow> string \<times> string" where
  "srPart r = (ssSnapshotID (srRow r), srStorageName r)"

definition newer :: "statRow \<Rightarrow> statRow \<Rightarrow> bool" where
  "newer a b \<longleftrightarrow> ssRevision (srRow b) < ssRevision (srRow a) \<or> (ssRevision (srRow b) = ssRevision (srRow a) \<and> srCapturedAt b < srCapturedAt a)"

definition firstRow :: "statRow list \<Rightarrow> statRow" where
  "firstRow rs = fold (\<lambda>r best. if newer r best then r else best) (tl rs) (hd rs)"

definition latestRows :: "statTable \<Rightarrow> statRow list" where
  "latestRows t = map (firstRow \<circ> snd) (groupBy srPart t)"

text \<open>A formatted size: the quotient, which is exact up to the rounding of the byte count to 53 bits, with one decimal, ties to even.\<close>

fun bitLen :: "nat \<Rightarrow> nat" where
  "bitLen n = (if n = 0 then 0 else Suc (bitLen (n div 2)))"

declare bitLen.simps [simp del]

definition divEven :: "int \<Rightarrow> int \<Rightarrow> int" where
  "divEven n d = (let q = n div d; r = n mod d in if d < 2 * r \<or> (2 * r = d \<and> odd q) then q + 1 else q)"

definition float64Int :: "int \<Rightarrow> int" where
  "float64Int b = (let e = bitLen (nat b) - 53 in divEven b (2 ^ e) * 2 ^ e)"

definition fixed1 :: "int \<Rightarrow> int \<Rightarrow> string" where
  "fixed1 b unit = (let t = divEven (10 * b) unit in itoa (t div 10) @ ''.'' @ itoa (t mod 10))"

definition formatPrettyBytes :: "int \<Rightarrow> string" where
  "formatPrettyBytes b =
     (let f = float64Int b in
      if b \<ge> 2 ^ 50 then fixed1 f (2 ^ 50) @ ''P''
      else if b \<ge> 2 ^ 40 then fixed1 f (2 ^ 40) @ ''T''
      else if b \<ge> 2 ^ 30 then fixed1 f (2 ^ 30) @ ''G''
      else if b \<ge> 2 ^ 20 then fixed1 f (2 ^ 20) @ ''M''
      else if b \<ge> 2 ^ 10 then fixed1 f (2 ^ 10) @ ''K''
      else itoa b)"

text \<open>The percentage is the exact value of the floating-point expression.\<close>

record StorageDestination =
  sdKey :: string
  sdLabel :: string
  sdPoolBytes :: int
  sdPoolBytesPretty :: string
  sdPoolChunks :: int
  sdReferencedBytes :: int
  sdReferencedBytesPretty :: string
  sdUniqBytes :: int
  sdUniqBytesPretty :: string
  sdDedupPct :: rat
  sdDedupPctPretty :: string
  sdLastCheckAt :: go_time
  sdSnapshotCount :: nat
  sdRevisionCount :: nat
  sdCurrentBytes :: int
  sdCurrentBytesPretty :: string

definition dedupPct :: "int \<Rightarrow> int \<Rightarrow> rat" where
  "dedupPct uniq referenced = (if referenced > 0 then max 0 ((1 - of_int uniq / of_int referenced) * 100) else 0)"

definition fmtPct :: "rat \<Rightarrow> string" where
  "fmtPct p = itoa (divEven (fst (quotient_of p)) (snd (quotient_of p))) @ ''%''"

definition coalesce0 :: "int option \<Rightarrow> int" where
  "coalesce0 x = (case x of None \<Rightarrow> 0 | Some v \<Rightarrow> v)"

definition destCard :: "string \<times> string \<Rightarrow> statRow list \<Rightarrow> StorageDestination option" where
  "destCard k rs =
     (case (sqlSum 0 (map (ssTotalBytes \<circ> srRow) rs), sqlSum 0 (map (ssUniqBytes \<circ> srRow) rs)) of
        (Some ref, Some uniq) \<Rightarrow>
          let pool = coalesce0 (sqlMax (map srPoolBytes rs)); pct = dedupPct uniq ref
          in Some \<lparr>sdKey = fst k, sdLabel = snd k, sdPoolBytes = pool, sdPoolBytesPretty = formatPrettyBytes pool,
                   sdPoolChunks = coalesce0 (sqlMax (map srPoolChunks rs)),
                   sdReferencedBytes = ref, sdReferencedBytesPretty = formatPrettyBytes ref,
                   sdUniqBytes = uniq, sdUniqBytesPretty = formatPrettyBytes uniq,
                   sdDedupPct = pct, sdDedupPctPretty = fmtPct pct,
                   sdLastCheckAt = sqlMax (map (Some \<circ> srCapturedAt) rs),
                   sdSnapshotCount = length (remdups (map (ssSnapshotID \<circ> srRow) rs)), sdRevisionCount = length rs,
                   sdCurrentBytes = ref, sdCurrentBytesPretty = formatPrettyBytes ref\<rparr>
      | _ \<Rightarrow> None)"

fun allSome :: "'a option list \<Rightarrow> 'a list option" where
  "allSome [] = Some []"
| "allSome (x # xs) = (case x of None \<Rightarrow> None | Some y \<Rightarrow> map_option ((#) y) (allSome xs))"

definition destKeyOf :: "statRow \<Rightarrow> string \<times> string" where
  "destKeyOf r = (srDestKey r, srDestLabel r)"

definition queryDestinations :: "bool \<Rightarrow> string list \<Rightarrow> string \<Rightarrow> statTable \<Rightarrow> StorageDestination list option" where
  "queryDestinations refused repoIDs storageName t =
     (if refused then None
      else let latest = latestRows (filter (\<lambda>r. repoIDFilter repoIDs r \<and> storageFilter storageName r) t)
           in allSome (map (\<lambda>(k, rs). destCard k rs) (sort_key (snd \<circ> fst) (groupBy destKeyOf latest))))"

section \<open>The charts\<close>

record StorageSeries =
  seKey :: string
  seLabel :: string
  sePoints :: "(int \<times> int) list"

text \<open>\<open>COALESCE(MAX(pool_bytes), SUM(total_bytes), 0)\<close>; a sum that overflows fails the query.\<close>

definition seriesBytes :: "statRow list \<Rightarrow> int option" where
  "seriesBytes rs = (case sqlSum 0 (map (ssTotalBytes \<circ> srRow) rs) of None \<Rightarrow> None | Some tb \<Rightarrow>
     Some (case sqlMax (map srPoolBytes rs) of Some m \<Rightarrow> m | None \<Rightarrow> tb))"

definition seriesRow :: "((string \<times> string) \<times> int) \<times> statRow list \<Rightarrow> (string \<times> string \<times> int \<times> int) option" where
  "seriesRow g = (case g of (((key, label), ts), rs) \<Rightarrow> map_option (\<lambda>b. (key, label, ts, b)) (seriesBytes rs))"

text \<open>The loop over the result, with \<open>byKey\<close> and \<open>order\<close> as one list.\<close>

fun addPoint :: "StorageSeries list \<Rightarrow> string \<times> string \<times> int \<times> int \<Rightarrow> StorageSeries list" where
  "addPoint [] (key, label, ts, b) = [\<lparr>seKey = key, seLabel = label, sePoints = [(ts, b)]\<rparr>]"
| "addPoint (s # ss) (key, label, ts, b) =
     (if seKey s = key then s\<lparr>sePoints := sePoints s @ [(ts, b)]\<rparr> # ss else s # addPoint ss (key, label, ts, b))"

definition seriesKeyOf :: "statRow \<Rightarrow> (string \<times> string) \<times> int" where
  "seriesKeyOf r = ((srDestKey r, srDestLabel r), srCapturedAt r)"

definition sinceFilter :: "go_time \<Rightarrow> statRow \<Rightarrow> bool" where
  "sinceFilter since r \<longleftrightarrow> (case since of None \<Rightarrow> True | Some s \<Rightarrow> s \<le> srCapturedAt r)"

definition querySeries :: "bool \<Rightarrow> string list \<Rightarrow> string \<Rightarrow> go_time \<Rightarrow> statTable \<Rightarrow> StorageSeries list option" where
  "querySeries refused repoIDs storageName since t =
     (if refused then None
      else let rows = filter (\<lambda>r. repoIDFilter repoIDs r \<and> storageFilter storageName r \<and> sinceFilter since r) t;
               groups = sort_key (snd \<circ> fst \<circ> fst) (sort_key (snd \<circ> fst) (groupBy seriesKeyOf rows))
           in map_option (foldl addPoint []) (allSome (map seriesRow groups)))"

record StorageRollup =
  roDestinations :: "StorageDestination list"
  roSeries :: "StorageSeries list"

definition rollup :: "bool \<Rightarrow> bool \<Rightarrow> string list \<Rightarrow> string \<Rightarrow> go_time \<Rightarrow> statTable \<Rightarrow> StorageRollup option" where
  "rollup refused1 refused2 repoIDs storageName since t =
     (case queryDestinations refused1 repoIDs storageName t of
        None \<Rightarrow> None
      | Some dest \<Rightarrow>
          (case querySeries refused2 repoIDs storageName since t of
             None \<Rightarrow> None
           | Some series \<Rightarrow> Some \<lparr>roDestinations = dest, roSeries = series\<rparr>))"

section \<open>The figures per repository\<close>

record RepoDestinationRow =
  rdRepoID :: string
  rdRepoSnapshotID :: string
  rdNode :: string
  rdDestinationKey :: string
  rdDestinationLabel :: string
  rdReferencedBytes :: int
  rdReferencedBytesPretty :: string
  rdUniqBytes :: int
  rdUniqBytesPretty :: string
  rdSnapshotCount :: nat
  rdLastCheckAt :: go_time

definition repoKeyOf :: "statRow \<Rightarrow> (string \<times> string) \<times> string \<times> string" where
  "repoKeyOf r = ((ssSnapshotID (srRow r), srRepoID r), srDestKey r, srDestLabel r)"

definition repoRow :: "string \<Rightarrow> ((string \<times> string) \<times> string \<times> string) \<times> statRow list \<Rightarrow> RepoDestinationRow option" where
  "repoRow node g =
     (case g of (((snap, repo), key, label), rs) \<Rightarrow>
        (case (sqlSum 0 (map (ssTotalBytes \<circ> srRow) rs), sqlSum 0 (map (ssUniqBytes \<circ> srRow) rs)) of
           (Some ref, Some uniq) \<Rightarrow>
             Some \<lparr>rdRepoID = repo, rdRepoSnapshotID = snap, rdNode = node, rdDestinationKey = key, rdDestinationLabel = label,
                   rdReferencedBytes = ref, rdReferencedBytesPretty = formatPrettyBytes ref, rdUniqBytes = uniq,
                   rdUniqBytesPretty = formatPrettyBytes uniq, rdSnapshotCount = length rs,
                   rdLastCheckAt = sqlMax (map (Some \<circ> srCapturedAt) rs)\<rparr>
         | _ \<Rightarrow> None))"

definition listRepoDestinations :: "bool \<Rightarrow> string \<Rightarrow> statTable \<Rightarrow> RepoDestinationRow list option" where
  "listRepoDestinations refused node t =
     (if refused then None
      else map_option (sort_key (\<lambda>r. - rdUniqBytes r)) (allSome (map (repoRow node) (groupBy repoKeyOf (latestRows t)))))"

section \<open>The end of a check\<close>

definition storageURLFor :: "Repo \<Rightarrow> string \<Rightarrow> string" where
  "storageURLFor repo storageName =
     (case find (\<lambda>s. sName s = storageName \<or> (storageName = [] \<and> sName s = ''default'')) (rStorages repo) of None \<Rightarrow> [] | Some s \<Rightarrow> sURL s)"

definition flushSnapshotStats :: "statFault \<Rightarrow> int \<Rightarrow> repoIndex \<Rightarrow> Job \<Rightarrow> statTable \<Rightarrow> Job \<times> statTable" where
  "flushSnapshotStats fl now ix j t =
     (case takeTabularRows j of (rows, j') \<Rightarrow>
        if rows = [] then (j', t)
        else case indexGet ix (jRepoID j') of
          None \<Rightarrow> (j', t)
        | Some repo \<Rightarrow>
            let storageURL = storageURLFor repo (jStorageName j')
            in if storageURL = [] then (j', t)
               else let (destKey, destLabel) = DestinationKey storageURL;
                        storageName = (if jStorageName j' = [] then ''default'' else jStorageName j');
                        poolBytes = (case jProgress j' of None \<Rightarrow> 0 | Some p \<Rightarrow> CheckPoolBytes p);
                        poolChunks = (case jProgress j' of None \<Rightarrow> 0 | Some p \<Rightarrow> CheckPoolChunks p)
                    in (j', snd (upsertCheckRun fl (jRepoID j') storageName destKey destLabel now poolBytes poolChunks rows t)))"

section \<open>The handlers\<close>

datatype 'a statResp = StatNotFound | StatFailed | StatOK 'a

definition respOf :: "'a option \<Rightarrow> 'a statResp" where
  "respOf x = (case x of None \<Rightarrow> StatFailed | Some v \<Rightarrow> StatOK v)"

definition handleListSnapshotStats :: "bool \<Rightarrow> repoIndex \<Rightarrow> string \<Rightarrow> string \<Rightarrow> string \<Rightarrow> statTable \<Rightarrow> SnapshotStatPublic list statResp" where
  "handleListSnapshotStats refused ix rid storage snapshotID t =
     (case indexGet ix rid of None \<Rightarrow> StatNotFound | Some repo \<Rightarrow> respOf (listStats refused (rID repo) storage snapshotID t))"

text \<open>\<open>time.Duration\<close> arithmetic is modulo \<open>2^64\<close>; \<open>rfc3339\<close> is \<open>time.Parse(time.RFC3339, \<dots>)\<close>.\<close>

definition int64 :: "int \<Rightarrow> int" where
  "int64 i = (i + 2 ^ 63) mod 2 ^ 64 - 2 ^ 63"

definition unitNs :: "char \<Rightarrow> int option" where
  "unitNs c =
     (if c = CHR ''d'' then Some (24 * 3600 * 1000000000) else if c = CHR ''h'' then Some (3600 * 1000000000)
      else if c = CHR ''m'' then Some (60 * 1000000000) else None)"

definition parseSinceParam :: "(string \<Rightarrow> go_time option) \<Rightarrow> int \<Rightarrow> string \<Rightarrow> go_time" where
  "parseSinceParam rfc3339 now s =
     (if s = [] then None
      else case rfc3339 s of
        Some t \<Rightarrow> t
      | None \<Rightarrow>
          if 2 \<le> length s then
            (case atoi (butlast s) of (num, ok) \<Rightarrow>
               if ok \<and> num > 0 then
                 (case unitNs (last s) of None \<Rightarrow> None | Some u \<Rightarrow> Some (now + int64 (- num * u)))
               else None)
          else None)"

definition handleRepoStorageRollup :: "bool \<Rightarrow> bool \<Rightarrow> (string \<Rightarrow> go_time option) \<Rightarrow> int \<Rightarrow> repoIndex \<Rightarrow> string \<Rightarrow> string \<Rightarrow> string \<Rightarrow> statTable \<Rightarrow> StorageRollup statResp" where
  "handleRepoStorageRollup refused1 refused2 rfc3339 now ix rid storage since t =
     (case indexGet ix rid of
        None \<Rightarrow> StatNotFound
      | Some repo \<Rightarrow> respOf (rollup refused1 refused2 [rID repo] storage (parseSinceParam rfc3339 now since) t))"

definition handleNodeStorageRollup :: "bool \<Rightarrow> bool \<Rightarrow> (string \<Rightarrow> go_time option) \<Rightarrow> int \<Rightarrow> string \<Rightarrow> statTable \<Rightarrow> StorageRollup statResp" where
  "handleNodeStorageRollup refused1 refused2 rfc3339 now since t = respOf (rollup refused1 refused2 [] [] (parseSinceParam rfc3339 now since) t)"

definition handleStorageReposBreakdown :: "bool \<Rightarrow> string \<Rightarrow> statTable \<Rightarrow> RepoDestinationRow list statResp" where
  "handleStorageReposBreakdown refused node t = respOf (listRepoDestinations refused node t)"

section \<open>Writing a run\<close>

definition statOf :: "statTable \<Rightarrow> string \<times> int \<times> string \<Rightarrow> statRow option" where
  "statOf t k = find (\<lambda>r. srKey r = k) t"

lemma upsertRow_keys: "map srKey (upsertRow r t) = (if srKey r \<in> srKey ` set t then map srKey t else map srKey t @ [srKey r])"
  by (auto simp: upsertRow_def)

lemma upsertRow_distinct: "distinct (map srKey t) \<Longrightarrow> distinct (map srKey (upsertRow r t))"
  by (simp add: upsertRow_keys)

lemma find_replaced:
  "find (\<lambda>x. srKey x = k) (map (\<lambda>x. if srKey x = srKey r then r else x) t) =
   (if k = srKey r \<and> k \<in> srKey ` set t then Some r else find (\<lambda>x. srKey x = k) t)"
  by (induction t) auto

lemma find_srKey_None: "k \<notin> srKey ` set t \<Longrightarrow> find (\<lambda>x. srKey x = k) t = None"
  by (auto simp: find_None_iff)

lemma statFind_append: "find P (xs @ ys) = (case find P xs of None \<Rightarrow> find P ys | Some x \<Rightarrow> Some x)"
  by (induction xs) auto

lemma statOf_upsertRow: "statOf (upsertRow r t) k = (if k = srKey r then Some r else statOf t k)"
  by (cases "srKey r \<in> srKey ` set t") (auto simp: statOf_def upsertRow_def find_replaced statFind_append find_srKey_None split: option.split)

lemma execRows_exact:
  "execRows bad mk rows t = Inr t' \<Longrightarrow>
   statOf t' k = (case find (\<lambda>r. srKey (mk r) = k) (rev rows) of Some r \<Rightarrow> Some (mk r) | None \<Rightarrow> statOf t k)"
proof (induction rows arbitrary: t)
  case (Cons r rows)
  then have "execRows bad mk rows (upsertRow (mk r) t) = Inr t'" by (auto split: if_splits)
  from Cons.IH [OF this] show ?case by (auto simp: statOf_upsertRow statFind_append split: option.splits)
qed simp

lemma execRows_distinct: "execRows bad mk rows t = Inr t' \<Longrightarrow> distinct (map srKey t) \<Longrightarrow> distinct (map srKey t')"
  by (induction rows arbitrary: t) (auto split: if_splits intro: upsertRow_distinct)

lemma execRows_ok: "(\<And>r. r \<in> set rows \<Longrightarrow> \<not> bad r) \<Longrightarrow> \<exists>t'. execRows bad mk rows t = Inr t'"
  by (induction rows arbitrary: t) auto

text \<open>C38. A check run is written as a whole or not at all: if any statement of the transaction fails the table is what it was, and
  it fails only when a statement does; after success the row of a key is the last one the run printed for it, with the identity,
  the pool size and the time of the run, and rows with other keys are as before. The primary key stays unique.\<close>

theorem upsertCheckRun_exact:
  assumes "upsertCheckRun fl repoID st dk dl now pb pc rows t = (e, t')" "distinct (map srKey t)"
  shows "distinct (map srKey t') \<and> (e \<noteq> None \<longrightarrow> t' = t) \<and>
    (\<not> sfBegin fl \<and> \<not> sfPrepare fl \<and> list_all (\<lambda>r. \<not> sfExec fl r) rows \<and> \<not> sfCommit fl \<longrightarrow> e = None) \<and>
    (e = None \<longrightarrow> (\<forall>k. statOf t' k =
       (case find (\<lambda>r. (ssSnapshotID r, ssRevision r, st) = k) (rev rows) of
          Some r \<Rightarrow> Some (checkRow repoID st dk dl now pb pc r) | None \<Rightarrow> statOf t k)))"
proof -
  let ?mk = "checkRow repoID st dk dl now pb pc"
  have k: "srKey (?mk r) = (ssSnapshotID r, ssRevision r, st)" for r by (simp add: srKey_def checkRow_def)
  show ?thesis
  proof (cases "execRows (sfExec fl) ?mk rows t")
    case (Inl x)
    then have "\<not> list_all (\<lambda>r. \<not> sfExec fl r) rows" using execRows_ok [of rows "sfExec fl" ?mk t] by (auto simp: list_all_iff)
    moreover have "rows \<noteq> []" using Inl by auto
    ultimately show ?thesis using Inl assms by (auto simp: upsertCheckRun_def split: if_splits)
  next
    case (Inr t1)
    note ex = execRows_exact [OF Inr, unfolded k] execRows_distinct [OF Inr assms(2)]
    have "e = None \<Longrightarrow> t' = t1" using Inr assms(1) by (auto simp: upsertCheckRun_def split: if_splits)
    moreover have "e \<noteq> None \<Longrightarrow> t' = t \<and> (sfBegin fl \<or> sfPrepare fl \<or> sfCommit fl)"
      using Inr assms(1) by (auto simp: upsertCheckRun_def split: if_splits)
    ultimately show ?thesis using ex assms(2) by (cases e) auto
  qed
qed

definition exStat :: "string \<Rightarrow> int \<Rightarrow> int \<Rightarrow> int \<Rightarrow> snapshotStatRow" where
  "exStat s rv tb ub = \<lparr>ssSnapshotID = s, ssRevision = rv, ssFiles = 1, ssBytes = tb, ssBytesPretty = [], ssTotalChunks = 1, ssTotalBytes = tb,
     ssTotalBytesPretty = [], ssUniqChunks = 1, ssUniqBytes = ub, ssUniqBytesPretty = [], ssNewChunks = 1, ssNewBytes = ub, ssNewBytesPretty = []\<rparr>"

definition exFaults :: statFault where
  "exFaults = \<lparr>sfBegin = False, sfPrepare = False, sfExec = (\<lambda>r. ssRevision r = 9), sfCommit = False\<rparr>"

definition exTable :: statTable where
  "exTable = snd (upsertCheckRun exFaults ''u1'' ''nas'' ''k'' ''NAS'' 5 700 7 [exStat ''a'' 1 10 1, exStat ''a'' 2 20 2, exStat ''b'' 1 30 3] [])"

text \<open>Witness: a second run replaces a row and adds one; a run whose last statement fails changes nothing.\<close>

theorem upsertCheckRun_exact_witness:
  "(case upsertCheckRun exFaults ''u1'' ''nas'' ''k'' ''NAS'' 6 800 8 [exStat ''a'' 2 21 2, exStat ''a'' 3 22 2] exTable of (e, t') \<Rightarrow>
      e = None \<and> map_option srCapturedAt (statOf t' (''a'', 2, ''nas'')) = Some 6 \<and> distinct (map srKey t')) \<and>
   snd (upsertCheckRun exFaults ''u1'' ''nas'' ''k'' ''NAS'' 6 800 8 [exStat ''a'' 2 21 2, exStat ''a'' 9 22 2] exTable) = exTable"
proof -
  have d: "distinct (map srKey exTable)" by code_simp
  have f: "fst (upsertCheckRun exFaults ''u1'' ''nas'' ''k'' ''NAS'' 6 800 8 [exStat ''a'' 2 21 2, exStat ''a'' 9 22 2] exTable) \<noteq> None" by code_simp
  obtain e t' where u: "upsertCheckRun exFaults ''u1'' ''nas'' ''k'' ''NAS'' 6 800 8 [exStat ''a'' 2 21 2, exStat ''a'' 3 22 2] exTable = (e, t')" by fastforce
  from upsertCheckRun_exact [OF u d] have "e = None" "distinct (map srKey t')" "statOf t' (''a'', 2, ''nas'') = Some (checkRow ''u1'' ''nas'' ''k'' ''NAS'' 6 800 8 (exStat ''a'' 2 21 2))"
    by (simp_all add: exFaults_def exStat_def)
  then show ?thesis using u f upsertCheckRun_exact [OF surjective_pairing d, of exFaults "''u1''" "''nas''" "''k''" "''NAS''" 6 800 8 "[exStat ''a'' 2 21 2, exStat ''a'' 9 22 2]"]
    by (simp add: checkRow_def)
qed

section \<open>The cards\<close>

lemma sqlSum_Some: "sqlSum acc xs = Some v \<Longrightarrow> v = acc + sum_list xs"
  by (induction acc xs rule: sqlSum.induct) (auto split: if_splits)

lemma allSome_Some: "allSome xs = Some ys \<longleftrightarrow> xs = map Some ys"
  by (induction xs arbitrary: ys) (auto split: option.splits)

lemma groupBy_keys: "map fst (groupBy f xs) = remdups (map f xs)"
  by (simp add: groupBy_def comp_def)

lemma groupBy_mem: "(k, g) \<in> set (groupBy f xs) \<longleftrightarrow> k \<in> f ` set xs \<and> g = filter (\<lambda>x. f x = k) xs"
  by (auto simp: groupBy_def)

lemma newer_trans: "\<not> newer a b \<Longrightarrow> \<not> newer b c \<Longrightarrow> \<not> newer a c"
  by (auto simp: newer_def)

lemma newer_asym: "newer a b \<Longrightarrow> \<not> newer b a"
  by (auto simp: newer_def)

lemma newer_irrefl: "\<not> newer a a"
  by (simp add: newer_def)

lemma fold_newer:
  assumes "x = fold (\<lambda>r best. if newer r best then r else best) rs b"
  shows "x \<in> insert b (set rs) \<and> (\<forall>r\<in>insert b (set rs). \<not> newer r x)"
  using assms
proof (induction rs arbitrary: b)
  case (Cons r rs)
  define c where "c = (if newer r b then r else b)"
  have i: "x \<in> insert c (set rs)" "\<forall>y\<in>insert c (set rs). \<not> newer y x" using Cons.IH [of c] Cons.prems by (simp_all add: c_def)
  have "\<not> newer b c" "\<not> newer r c" "c = b \<or> c = r" using newer_asym [of r b] newer_irrefl by (auto simp: c_def)
  moreover from this have "\<not> newer b x" "\<not> newer r x" using i(2) newer_trans by blast+
  ultimately show ?case using i by auto
qed (simp add: newer_irrefl)

lemma firstRow_max: "rs \<noteq> [] \<Longrightarrow> firstRow rs \<in> set rs \<and> (\<forall>r\<in>set rs. \<not> newer r (firstRow rs))"
  using fold_newer [OF firstRow_def [of rs]] by (cases rs) simp_all

definition isLatest :: "statTable \<Rightarrow> statRow \<Rightarrow> bool" where
  "isLatest t r \<longleftrightarrow> list_all (\<lambda>r'. srPart r' = srPart r \<longrightarrow> ssRevision (srRow r') \<le> ssRevision (srRow r)) t"

lemma latestRows_part: "map srPart (latestRows t) = remdups (map srPart t)"
proof -
  have "srPart (firstRow g) = k" if "(k, g) \<in> set (groupBy srPart t)" for k g
  proof -
    have g: "g = filter (\<lambda>x. srPart x = k) t" "g \<noteq> []" using that by (auto simp: groupBy_mem filter_empty_conv)
    then show ?thesis using firstRow_max [of g] by auto
  qed
  then have "map (srPart \<circ> (firstRow \<circ> snd)) (groupBy srPart t) = map fst (groupBy srPart t)" by (intro map_cong) auto
  then show ?thesis by (simp add: latestRows_def groupBy_keys)
qed

lemma latestRows_distinct: "distinct (latestRows t)"
  using distinct_remdups [of "map srPart t"] by (simp add: distinct_map flip: latestRows_part)

lemma latestRows_mem:
  assumes "distinct (map srKey t)"
  shows "r \<in> set (latestRows t) \<longleftrightarrow> r \<in> set t \<and> isLatest t r"
proof -
  have uniq: "a = b" if "a \<in> set t" "b \<in> set t" "srPart a = srPart b" "ssRevision (srRow a) = ssRevision (srRow b)" for a b
  proof -
    have "srKey a = srKey b" using that(3,4) by (simp add: srKey_def srPart_def)
    then show ?thesis using inj_onD [of srKey "set t"] assms that(1,2) by (simp add: distinct_map)
  qed
  have ff: "firstRow (filter (\<lambda>x. srPart x = srPart a) t) \<in> set t \<and> srPart (firstRow (filter (\<lambda>x. srPart x = srPart a) t)) = srPart a \<and>
     isLatest t (firstRow (filter (\<lambda>x. srPart x = srPart a) t))" if "a \<in> set t" for a
  proof -
    let ?g = "filter (\<lambda>x. srPart x = srPart a) t"
    have "?g \<noteq> []" using that by (auto simp: filter_empty_conv)
    from firstRow_max [OF this] have f: "firstRow ?g \<in> set t" "srPart (firstRow ?g) = srPart a" "\<And>x. x \<in> set t \<Longrightarrow> srPart x = srPart a \<Longrightarrow> \<not> newer x (firstRow ?g)" by auto
    have "ssRevision (srRow x) \<le> ssRevision (srRow (firstRow ?g))" if "x \<in> set t" "srPart x = srPart a" for x using f(3) [OF that] by (auto simp: newer_def)
    then show ?thesis using f(1,2) by (simp add: isLatest_def list_all_iff)
  qed
  have mem: "r \<in> set (latestRows t) \<longleftrightarrow> (\<exists>a\<in>set t. r = firstRow (filter (\<lambda>x. srPart x = srPart a) t))"
    by (force simp: latestRows_def groupBy_def)
  show ?thesis
  proof
    assume "r \<in> set (latestRows t)"
    then show "r \<in> set t \<and> isLatest t r" using mem ff by metis
  next
    assume r: "r \<in> set t \<and> isLatest t r"
    let ?x = "firstRow (filter (\<lambda>x. srPart x = srPart r) t)"
    have "ssRevision (srRow ?x) = ssRevision (srRow r)"
      using ff [of r] r by (intro order.antisym) (auto simp: isLatest_def list_all_iff)
    then have "r = ?x" using uniq [of r ?x] ff [of r] r by simp
    then show "r \<in> set (latestRows t)" using mem r by blast
  qed
qed

lemma destCard_Some:
  assumes "destCard k rs = Some d"
  shows "(sdKey d, sdLabel d) = k" "sdReferencedBytes d = (\<Sum>r\<leftarrow>rs. ssTotalBytes (srRow r))" "sdUniqBytes d = (\<Sum>r\<leftarrow>rs. ssUniqBytes (srRow r))"
    "sdRevisionCount d = length rs"
  using assms by (auto simp: destCard_def Let_def comp_def split: option.splits dest!: sqlSum_Some)

lemma cards_of:
  assumes "queryDestinations False ids st t = Some ds"
  shows "map (\<lambda>d. (sdKey d, sdLabel d)) ds = map fst (sort_key (snd \<circ> fst) (groupBy destKeyOf (latestRows (filter (\<lambda>r. repoIDFilter ids r \<and> storageFilter st r) t))))"
    and "d \<in> set ds \<Longrightarrow> destCard (sdKey d, sdLabel d) (filter (\<lambda>r. destKeyOf r = (sdKey d, sdLabel d)) (latestRows (filter (\<lambda>r. repoIDFilter ids r \<and> storageFilter st r) t))) = Some d"
proof -
  let ?l = "latestRows (filter (\<lambda>r. repoIDFilter ids r \<and> storageFilter st r) t)"
  have m: "map (\<lambda>(k, rs). destCard k rs) (sort_key (snd \<circ> fst) (groupBy destKeyOf ?l)) = map Some ds"
    using assms by (simp add: queryDestinations_def Let_def allSome_Some)
  have len: "length ds = length (sort_key (snd \<circ> fst) (groupBy destKeyOf ?l))" using arg_cong [OF m, of length] by simp
  have n: "destCard (fst (sort_key (snd \<circ> fst) (groupBy destKeyOf ?l) ! i)) (snd (sort_key (snd \<circ> fst) (groupBy destKeyOf ?l) ! i)) = Some (ds ! i)"
    if "i < length ds" for i using arg_cong [OF m, of "\<lambda>xs. xs ! i"] that len by (simp add: case_prod_beta)
  show "map (\<lambda>d. (sdKey d, sdLabel d)) ds = map fst (sort_key (snd \<circ> fst) (groupBy destKeyOf ?l))"
    using destCard_Some(1) [OF n] len by (intro nth_equalityI) simp_all
  assume "d \<in> set ds"
  then have "Some d \<in> set (map (\<lambda>(k, rs). destCard k rs) (sort_key (snd \<circ> fst) (groupBy destKeyOf ?l)))" unfolding m by simp
  then obtain k g where g: "(k, g) \<in> set (groupBy destKeyOf ?l)" "destCard k g = Some d" by auto
  then show "destCard (sdKey d, sdLabel d) (filter (\<lambda>r. destKeyOf r = (sdKey d, sdLabel d)) ?l) = Some d"
    using destCard_Some(1) [OF g(2)] by (auto simp: groupBy_mem)
qed

text \<open>The cards of the storage page count every snapshot once: a card sums, over the snapshots of its destination in scope, the
  figures of the row with the highest revision of the snapshot and storage, and every such row is counted in exactly one card;
  cards are in the order of their labels.\<close>

theorem queryDestinations_exact:
  assumes "queryDestinations False ids st t = Some ds" "distinct (map srKey t)"
  shows "sorted (map sdLabel ds) \<and> distinct (map (\<lambda>d. (sdKey d, sdLabel d)) ds) \<and>
    (let sc = filter (\<lambda>r. repoIDFilter ids r \<and> storageFilter st r) t
     in (\<forall>d\<in>set ds. let S = {r \<in> set sc. isLatest sc r \<and> destKeyOf r = (sdKey d, sdLabel d)}
           in sdReferencedBytes d = (\<Sum>r\<in>S. ssTotalBytes (srRow r)) \<and> sdUniqBytes d = (\<Sum>r\<in>S. ssUniqBytes (srRow r)) \<and> sdRevisionCount d = card S) \<and>
        (\<forall>r\<in>set sc. isLatest sc r \<longrightarrow> destKeyOf r \<in> (\<lambda>d. (sdKey d, sdLabel d)) ` set ds))"
proof -
  let ?sc = "filter (\<lambda>r. repoIDFilter ids r \<and> storageFilter st r) t"
  have dk: "distinct (map srKey ?sc)" using assms(2) by (rule distinct_map_filter)
  note mem = latestRows_mem [OF dk]
  note c = cards_of [OF assms(1)]
  have "sorted (map (snd \<circ> fst) (sort_key (snd \<circ> fst) (groupBy destKeyOf (latestRows ?sc))))" by (rule sorted_sort_key)
  then have "sorted (map sdLabel ds)" using arg_cong [OF c(1), of "map snd"] by (simp add: comp_def)
  moreover have ms: "mset (map (\<lambda>d. (sdKey d, sdLabel d)) ds) = mset (remdups (map destKeyOf (latestRows ?sc)))"
    unfolding c(1) groupBy_keys [symmetric] by (simp only: mset_map mset_sort)
  have s: "distinct (map (\<lambda>d. (sdKey d, sdLabel d)) ds)" "(\<lambda>d. (sdKey d, sdLabel d)) ` set ds = destKeyOf ` set (latestRows ?sc)"
    using mset_eq_imp_distinct_iff [OF ms] mset_eq_setD [OF ms] by simp_all
  moreover have "sdReferencedBytes d = (\<Sum>r\<in>S. ssTotalBytes (srRow r)) \<and> sdUniqBytes d = (\<Sum>r\<in>S. ssUniqBytes (srRow r)) \<and> sdRevisionCount d = card S"
    if d: "d \<in> set ds" and S: "S = {r \<in> set ?sc. isLatest ?sc r \<and> destKeyOf r = (sdKey d, sdLabel d)}" for d S
  proof -
    let ?g = "filter (\<lambda>r. destKeyOf r = (sdKey d, sdLabel d)) (latestRows ?sc)"
    have "set ?g = S" "distinct ?g" using mem S latestRows_distinct by auto
    then have "length ?g = card S" "(\<Sum>r\<leftarrow>?g. f r) = (\<Sum>r\<in>S. f r)" for f :: "statRow \<Rightarrow> int" by (simp_all only: sum_list_distinct_conv_sum_set flip: distinct_card)
    then show ?thesis using destCard_Some(2-4) [OF c(2) [OF d]] by simp
  qed
  moreover have "destKeyOf r \<in> (\<lambda>d. (sdKey d, sdLabel d)) ` set ds" if "r \<in> set ?sc" "isLatest ?sc r" for r using s(2) mem that by blast
  ultimately show ?thesis by (simp add: Let_def)
qed

text \<open>Witness: two snapshots, one with two revisions.\<close>

theorem queryDestinations_exact_witness:
  "\<exists>d. queryDestinations False [''u1''] [] exTable = Some [d] \<and> sdReferencedBytes d = 50 \<and> sdUniqBytes d = 5 \<and> sdRevisionCount d = 2 \<and> sorted (map sdLabel [d])"
proof -
  have d: "distinct (map srKey exTable)" by code_simp
  have "map_option (map (\<lambda>d. (sdReferencedBytes d, sdUniqBytes d, sdRevisionCount d))) (queryDestinations False [''u1''] [] exTable) = Some [(50, 5, 2)]" by code_simp
  then obtain c where c: "queryDestinations False [''u1''] [] exTable = Some [c]" "sdReferencedBytes c = 50" "sdUniqBytes c = 5" "sdRevisionCount c = 2" by auto
  from queryDestinations_exact [OF c(1) d] show ?thesis using c by blast
qed

section \<open>The table per repository\<close>

lemma sum_filter_disj:
  "(\<And>x. x \<in> set xs \<Longrightarrow> \<not> (P x \<and> Q x)) \<Longrightarrow> (\<Sum>x\<leftarrow>filter (\<lambda>x. P x \<or> Q x) xs. w x :: int) = (\<Sum>x\<leftarrow>filter P xs. w x) + (\<Sum>x\<leftarrow>filter Q xs. w x)"
  by (induction xs) auto

lemma sum_groups: "distinct ks \<Longrightarrow> (\<Sum>k\<leftarrow>ks. \<Sum>x\<leftarrow>filter (\<lambda>x. f x = k) xs. w x :: int) = (\<Sum>x\<leftarrow>filter (\<lambda>x. f x \<in> set ks) xs. w x)"
proof (induction ks)
  case (Cons k ks)
  then show ?case using sum_filter_disj [of xs "\<lambda>x. f x = k" "\<lambda>x. f x \<in> set ks" w] by auto
qed simp

lemma sum_groupBy:
  "(\<Sum>(k, g)\<leftarrow>filter (\<lambda>(k, g). P k) (groupBy f xs). \<Sum>x\<leftarrow>g. w x :: int) = (\<Sum>x\<leftarrow>filter (\<lambda>x. P (f x)) xs. w x)"
proof -
  have g: "filter (\<lambda>(k, g). P k) (groupBy f xs) = map (\<lambda>k. (k, filter (\<lambda>x. f x = k) xs)) (filter P (remdups (map f xs)))"
    by (simp add: groupBy_def filter_map comp_def)
  have "filter (\<lambda>x. f x \<in> set (filter P (remdups (map f xs)))) xs = filter (\<lambda>x. P (f x)) xs" by (rule filter_cong) auto
  then show ?thesis using sum_groups [of "filter P (remdups (map f xs))" w f xs] by (simp add: g comp_def)
qed

lemma sum_sort_key: "(\<Sum>x\<leftarrow>filter P (sort_key k xs). w x :: int) = (\<Sum>x\<leftarrow>filter P xs. w x)"
  by (metis filter_sort mset_map mset_sort sum_mset_sum_list)

lemma repoRow_Some:
  assumes "repoRow node (k, rs) = Some y"
  shows "(rdDestinationKey y, rdDestinationLabel y) = snd k" "rdReferencedBytes y = (\<Sum>r\<leftarrow>rs. ssTotalBytes (srRow r))"
    "rdUniqBytes y = (\<Sum>r\<leftarrow>rs. ssUniqBytes (srRow r))" "rdSnapshotCount y = length rs"
  using assms by (auto simp: repoRow_def Let_def comp_def split: option.splits prod.splits dest!: sqlSum_Some)

lemma sum_repoRows:
  assumes "map (repoRow node) gs = map Some ys" "\<And>k rs y. repoRow node (k, rs) = Some y \<Longrightarrow> F y = (\<Sum>r\<leftarrow>rs. w r :: int)"
  shows "(\<Sum>y\<leftarrow>filter (\<lambda>y. (rdDestinationKey y, rdDestinationLabel y) = c) ys. F y) = (\<Sum>(k, g)\<leftarrow>filter (\<lambda>(k, g). snd k = c) gs. \<Sum>x\<leftarrow>g. w x)"
  using assms(1)
proof (induction gs arbitrary: ys)
  case (Cons g gs)
  obtain k rs where g: "g = (k, rs)" by fastforce
  from Cons.prems obtain y zs where y: "ys = y # zs" "repoRow node (k, rs) = Some y" "map (repoRow node) gs = map Some zs" using g by (cases ys) auto
  show ?case using Cons.IH [OF y(3)] repoRow_Some(1) [OF y(2)] assms(2) [OF y(2)] by (simp add: g y(1))
qed simp

text \<open>The two views of the node agree: the referenced and the unique bytes of a card are the sums of those of the rows of the table
  per repository that have the destination of the card.\<close>

theorem rollup_agrees:
  assumes "queryDestinations False [] [] t = Some ds" "listRepoDestinations False node t = Some rs" "d \<in> set ds"
  shows "sdReferencedBytes d = (\<Sum>y\<leftarrow>filter (\<lambda>y. (rdDestinationKey y, rdDestinationLabel y) = (sdKey d, sdLabel d)) rs. rdReferencedBytes y) \<and>
    sdUniqBytes d = (\<Sum>y\<leftarrow>filter (\<lambda>y. (rdDestinationKey y, rdDestinationLabel y) = (sdKey d, sdLabel d)) rs. rdUniqBytes y)"
proof -
  let ?c = "(sdKey d, sdLabel d)"
  obtain ys where ys: "map (repoRow node) (groupBy repoKeyOf (latestRows t)) = map Some ys" "rs = sort_key (\<lambda>r. - rdUniqBytes r) ys"
    using assms(2) by (auto simp: listRepoDestinations_def allSome_Some)
  have k: "snd (repoKeyOf r) = destKeyOf r" for r by (simp add: repoKeyOf_def destKeyOf_def)
  have all: "filter (\<lambda>r. repoIDFilter [] r \<and> storageFilter [] r) t = t" by (simp add: repoIDFilter_def storageFilter_def)
  note card = destCard_Some [OF cards_of(2) [OF assms(1,3)], unfolded all]
  have "(\<Sum>y\<leftarrow>filter (\<lambda>y. (rdDestinationKey y, rdDestinationLabel y) = ?c) rs. F y) = (\<Sum>r\<leftarrow>filter (\<lambda>r. destKeyOf r = ?c) (latestRows t). w r)"
    if "\<And>k rs y. repoRow node (k, rs) = Some y \<Longrightarrow> F y = (\<Sum>r\<leftarrow>rs. w r :: int)" for F w
  proof -
    have "(\<Sum>y\<leftarrow>filter (\<lambda>y. (rdDestinationKey y, rdDestinationLabel y) = ?c) rs. F y) = (\<Sum>y\<leftarrow>filter (\<lambda>y. (rdDestinationKey y, rdDestinationLabel y) = ?c) ys. F y)"
      by (simp only: ys(2) sum_sort_key)
    also have "\<dots> = (\<Sum>(k, g)\<leftarrow>filter (\<lambda>(k, g). snd k = ?c) (groupBy repoKeyOf (latestRows t)). \<Sum>x\<leftarrow>g. w x)" by (rule sum_repoRows [OF ys(1) that])
    also have "\<dots> = (\<Sum>r\<leftarrow>filter (\<lambda>r. snd (repoKeyOf r) = ?c) (latestRows t). w r)" by (rule sum_groupBy)
    finally show ?thesis by (simp only: k)
  qed
  from this [OF repoRow_Some(2)] this [OF repoRow_Some(3)] show ?thesis using card(2,3) by simp
qed

text \<open>Witness: two snapshots at one destination.\<close>

theorem rollup_agrees_witness:
  "\<exists>ds rs d. queryDestinations False [] [] exTable = Some ds \<and> listRepoDestinations False ''n'' exTable = Some rs \<and> d \<in> set ds \<and> length rs = 2 \<and>
     sdReferencedBytes d = (\<Sum>y\<leftarrow>filter (\<lambda>y. (rdDestinationKey y, rdDestinationLabel y) = (sdKey d, sdLabel d)) rs. rdReferencedBytes y)"
proof -
  have "map_option length (queryDestinations False [] [] exTable) = Some 1" "map_option length (listRepoDestinations False ''n'' exTable) = Some 2" by code_simp+
  then obtain ds rs where q: "queryDestinations False [] [] exTable = Some ds" "length ds = 1" "listRepoDestinations False ''n'' exTable = Some rs" "length rs = 2" by auto
  then have "hd ds \<in> set ds" by (cases ds) auto
  with rollup_agrees [OF q(1,3)] q show ?thesis by blast
qed

section \<open>The points of a chart\<close>

definition pointsOf :: "string \<Rightarrow> (string \<times> string \<times> int \<times> int) list \<Rightarrow> (int \<times> int) list" where
  "pointsOf k xs = map (\<lambda>x. snd (snd x)) (filter (\<lambda>x. fst x = k) xs)"

definition seriesOk :: "(string \<times> string \<times> int \<times> int) list \<Rightarrow> StorageSeries list \<Rightarrow> bool" where
  "seriesOk xs ss \<longleftrightarrow> distinct (map seKey ss) \<and> seKey ` set ss = fst ` set xs \<and> (\<forall>s\<in>set ss. sePoints s = pointsOf (seKey s) xs)"

lemma addPoint_keys: "seKey ` set (addPoint ss (k, l, p)) = insert k (seKey ` set ss)" "distinct (map seKey ss) \<Longrightarrow> distinct (map seKey (addPoint ss (k, l, p)))"
proof -
  obtain ts b where p: "p = (ts, b)" by fastforce
  show a: "seKey ` set (addPoint ss (k, l, p)) = insert k (seKey ` set ss)" for ss unfolding p by (induction ss) auto
  show "distinct (map seKey ss) \<Longrightarrow> distinct (map seKey (addPoint ss (k, l, p)))" using a unfolding p by (induction ss) (auto simp flip: image_iff)
qed

lemma pointsOf_snoc: "pointsOf j (xs @ [(k, l, ts, b)]) = pointsOf j xs @ (if j = k then [(ts, b)] else [])"
  by (simp add: pointsOf_def)

lemma addPoint_points:
  "distinct (map seKey ss) \<Longrightarrow> (\<And>s. s \<in> set ss \<Longrightarrow> sePoints s = pointsOf (seKey s) xs) \<Longrightarrow> (k \<notin> seKey ` set ss \<Longrightarrow> pointsOf k xs = []) \<Longrightarrow>
   s \<in> set (addPoint ss (k, l, p)) \<Longrightarrow> sePoints s = pointsOf (seKey s) (xs @ [(k, l, p)])"
proof (induction ss)
  case Nil
  then show ?case by (cases p) (simp add: pointsOf_def)
next
  case (Cons a ss)
  obtain ts b where p: "p = (ts, b)" by fastforce
  show ?case
  proof (cases "seKey a = k")
    case True
    then have n: "seKey x \<noteq> k" if "x \<in> set ss" for x using Cons.prems(1) that True by (metis distinct.simps(2) imageI list.simps(9) set_map)
    consider "s = a\<lparr>sePoints := sePoints a @ [(ts, b)]\<rparr>" | "s \<in> set ss" using Cons.prems(4) True p by auto
    then show ?thesis
      by cases (use True Cons.prems(2) [of a] Cons.prems(2) [of s] n [of s] in \<open>simp_all add: p pointsOf_snoc\<close>)
  next
    case False
    consider "s = a" | "s \<in> set (addPoint ss (k, l, p))" using Cons.prems(4) False p by auto
    then show ?thesis
    proof cases
      case 1
      then show ?thesis using False Cons.prems(2) [of a] by (simp add: p pointsOf_snoc)
    next
      case 2
      show ?thesis by (rule Cons.IH) (use Cons.prems(1-3) False 2 in auto)
    qed
  qed
qed

lemma seriesOk_fold: "seriesOk xs (foldl addPoint [] xs)"
proof (induction xs rule: rev_induct)
  case (snoc x xs)
  obtain k l p where x: "x = (k, l, p)" by (cases x)
  have "k \<notin> fst ` set xs \<Longrightarrow> pointsOf k xs = []" by (force simp: pointsOf_def filter_empty_conv)
  then show ?case using snoc addPoint_keys [of "foldl addPoint [] xs" k l p] addPoint_points [of "foldl addPoint [] xs" xs k _ l p] by (auto simp: seriesOk_def x)
qed (simp add: seriesOk_def)

lemma seriesRow_iff: "seriesRow x = Some (k, l, ts, b) \<longleftrightarrow> (\<exists>g. x = (((k, l), ts), g) \<and> seriesBytes g = Some b)"
  by (cases x) (auto simp: seriesRow_def)

lemma seriesRows_mem:
  assumes "map seriesRow gs = map Some xs"
  shows "(k, l, ts, b) \<in> set xs \<longleftrightarrow> (\<exists>g. (((k, l), ts), g) \<in> set gs \<and> seriesBytes g = Some b)"
proof -
  have "(k, l, ts, b) \<in> set xs \<longleftrightarrow> Some (k, l, ts, b) \<in> set (map seriesRow gs)" unfolding assms by auto
  also have "\<dots> \<longleftrightarrow> (\<exists>x\<in>set gs. seriesRow x = Some (k, l, ts, b))" by force
  finally show ?thesis unfolding seriesRow_iff by blast
qed

lemma seriesRows_times:
  assumes "map seriesRow gs = map Some xs"
  shows "map (fst \<circ> snd \<circ> snd) (filter (\<lambda>x. fst x = k) xs) = map (snd \<circ> fst) (filter (\<lambda>x. fst (fst (fst x)) = k) gs)"
  using assms
proof (induction gs arbitrary: xs)
  case (Cons g gs)
  then obtain x ys where x: "xs = x # ys" "seriesRow g = Some x" "map seriesRow gs = map Some ys" by (cases xs) auto
  obtain k' l ts b where y: "x = (k', l, ts, b)" by (cases x)
  then obtain h where "g = (((k', l), ts), h)" using x(2) seriesRow_iff by blast
  then show ?case using y Cons.IH [OF x(3)] x(1) by simp
qed simp

lemma seriesRows_keys: "map seriesRow gs = map Some xs \<Longrightarrow> map fst xs = map (\<lambda>g. fst (fst (fst g))) gs"
proof (induction gs arbitrary: xs)
  case (Cons g gs)
  then obtain x ys where x: "xs = x # ys" "seriesRow g = Some x" "map seriesRow gs = map Some ys" by (cases xs) auto
  obtain k' l ts b where y: "x = (k', l, ts, b)" by (cases x)
  then obtain h where "g = (((k', l), ts), h)" using x(2) seriesRow_iff by blast
  then show ?case using y Cons.IH [OF x(3)] x(1) by simp
qed simp

definition oneLabel :: "statTable \<Rightarrow> bool" where
  "oneLabel t \<longleftrightarrow> list_all (\<lambda>r. list_all (\<lambda>r'. srDestKey r = srDestKey r' \<longrightarrow> srDestLabel r = srDestLabel r') t) t"

lemma oneLabelD: "oneLabel t \<Longrightarrow> r \<in> set t \<Longrightarrow> r' \<in> set t \<Longrightarrow> srDestKey r = srDestKey r' \<Longrightarrow> srDestLabel r = srDestLabel r'"
  unfolding oneLabel_def list_all_iff by blast

lemma series_group:
  assumes "oneLabel sc"
  shows "(((k, l), ts), g) \<in> set (groupBy seriesKeyOf sc) \<longleftrightarrow>
    (\<exists>r\<in>set sc. k = srDestKey r \<and> l = srDestLabel r \<and> ts = srCapturedAt r) \<and> g = filter (\<lambda>r. srDestKey r = k \<and> srCapturedAt r = ts) sc"
proof -
  have "(((k, l), ts), g) \<in> set (groupBy seriesKeyOf sc) \<longleftrightarrow>
      (\<exists>r\<in>set sc. k = srDestKey r \<and> l = srDestLabel r \<and> ts = srCapturedAt r) \<and> g = filter (\<lambda>r. seriesKeyOf r = ((k, l), ts)) sc"
    unfolding groupBy_mem by (simp add: seriesKeyOf_def image_iff)
  moreover have "filter (\<lambda>r. seriesKeyOf r = ((k, l), ts)) sc = filter (\<lambda>r. srDestKey r = k \<and> srCapturedAt r = ts) sc"
    if ex: "\<exists>r\<in>set sc. k = srDestKey r \<and> l = srDestLabel r \<and> ts = srCapturedAt r"
  proof (rule filter_cong [OF refl])
    fix x assume x: "x \<in> set sc"
    obtain r0 where r0: "r0 \<in> set sc" "k = srDestKey r0" "l = srDestLabel r0" using ex by blast
    show "(seriesKeyOf x = ((k, l), ts)) = (srDestKey x = k \<and> srCapturedAt x = ts)" using oneLabelD [OF assms x r0(1)] r0(2,3) by (auto simp: seriesKeyOf_def)
  qed
  ultimately show ?thesis by (metis (no_types, lifting))
qed

text \<open>The groups of one key carry one label, so the order by label leaves them in the order of time.\<close>

lemma series_key_order:
  assumes "oneLabel sc" "set ys = set (groupBy seriesKeyOf sc)"
  shows "filter (\<lambda>x. fst (fst (fst x)) = k) (sort_key (snd \<circ> fst \<circ> fst) ys) = filter (\<lambda>x. fst (fst (fst x)) = k) ys"
proof (cases "\<exists>r\<in>set sc. srDestKey r = k")
  case True
  then obtain r0 where r0: "r0 \<in> set sc" "srDestKey r0 = k" by blast
  have l: "snd (fst (fst x)) = srDestLabel r0" if x: "x \<in> set ys" "fst (fst (fst x)) = k" for x
  proof -
    obtain a b c g where xx: "x = (((a, b), c), g)" by (metis prod.exhaust)
    then obtain r where "r \<in> set sc" "a = srDestKey r" "b = srDestLabel r" using x(1) series_group [OF assms(1), of a b c g] assms(2) by blast
    then show ?thesis using oneLabelD [OF assms(1), of r r0] r0 x(2) xx by simp
  qed
  have e: "filter (\<lambda>x. fst (fst (fst x)) = k) zs = filter (\<lambda>x. fst (fst (fst x)) = k) (filter (\<lambda>x. (snd \<circ> fst \<circ> fst) x = srDestLabel r0) zs)" if "set zs = set ys" for zs
    unfolding filter_filter by (rule filter_cong) (use that l in auto)
  show ?thesis unfolding e [OF refl] e [of "sort_key (snd \<circ> fst \<circ> fst) ys", unfolded set_sort, OF refl] by (simp only: sort_key_stable)
next
  case False
  have "fst (fst (fst x)) \<noteq> k" if "x \<in> set ys" for x
  proof -
    obtain a b c g where xx: "x = (((a, b), c), g)" by (metis prod.exhaust)
    then show ?thesis using that series_group [OF assms(1), of a b c g] assms(2) False by auto
  qed
  then show ?thesis by (simp add: filter_empty_conv)
qed

lemma series_times_distinct:
  assumes "oneLabel sc"
  shows "distinct (map (snd \<circ> fst) (filter (\<lambda>x. fst (fst (fst x)) = k) (groupBy seriesKeyOf sc)))"
proof -
  have "inj_on (snd \<circ> fst) (set (filter (\<lambda>x. fst (fst (fst x)) = k) (groupBy seriesKeyOf sc)))"
  proof (rule inj_onI)
    fix x y assume xy: "x \<in> set (filter (\<lambda>x. fst (fst (fst x)) = k) (groupBy seriesKeyOf sc))"
      "y \<in> set (filter (\<lambda>x. fst (fst (fst x)) = k) (groupBy seriesKeyOf sc))" "(snd \<circ> fst) x = (snd \<circ> fst) y"
    obtain a b c g where e: "x = (((a, b), c), g)" by (metis prod.exhaust)
    obtain a' b' c' g' where e': "y = (((a', b'), c'), g')" by (metis prod.exhaust)
    have m: "x \<in> set (groupBy seriesKeyOf sc)" "y \<in> set (groupBy seriesKeyOf sc)" using xy(1,2) by simp_all
    have m': "a = k" "a' = k" "c = c'" using xy e e' by simp_all
    obtain r where r: "r \<in> set sc" "a = srDestKey r" "b = srDestLabel r" "g = filter (\<lambda>r. srDestKey r = a \<and> srCapturedAt r = c) sc"
      using m(1) unfolding e series_group [OF assms] by blast
    obtain r' where r': "r' \<in> set sc" "a' = srDestKey r'" "b' = srDestLabel r'" "g' = filter (\<lambda>r. srDestKey r = a' \<and> srCapturedAt r = c') sc"
      using m(2) unfolding e' series_group [OF assms] by blast
    show "x = y" using oneLabelD [OF assms r(1) r'(1)] r r' m' e e' by simp
  qed
  moreover have "distinct (groupBy seriesKeyOf sc)" using distinct_remdups [of "map seriesKeyOf sc"] unfolding groupBy_keys [symmetric] distinct_map by blast
  ultimately show ?thesis by (simp only: distinct_map distinct_filter)
qed

lemma series_sorted:
  assumes "oneLabel sc" "map seriesRow (sort_key (snd \<circ> fst \<circ> fst) (sort_key (snd \<circ> fst) (groupBy seriesKeyOf sc))) = map Some xs"
  shows "sorted_wrt (<) (map fst (pointsOf k xs))"
proof -
  have "map fst (pointsOf k xs) = map (snd \<circ> fst) (filter (\<lambda>x. fst (fst (fst x)) = k) (sort_key (snd \<circ> fst) (groupBy seriesKeyOf sc)))"
    using seriesRows_times [OF assms(2), of k] unfolding series_key_order [OF assms(1) set_sort] by (simp add: pointsOf_def comp_def)
  moreover have "sorted (map (snd \<circ> fst) (filter (\<lambda>x. fst (fst (fst x)) = k) (sort_key (snd \<circ> fst) (groupBy seriesKeyOf sc))))"
    by (rule sorted_filter) (rule sorted_sort_key)
  moreover have "distinct (map (snd \<circ> fst) (filter (\<lambda>x. fst (fst (fst x)) = k) (sort_key (snd \<circ> fst) (groupBy seriesKeyOf sc))))"
    using series_times_distinct [OF assms(1), of k] unfolding filter_sort
    by (simp only: distinct_map distinct_sort set_sort)
  ultimately show ?thesis by (metis strict_sorted_iff)
qed

lemma series_keys:
  assumes "map seriesRow (sort_key f (sort_key h (groupBy seriesKeyOf sc))) = map Some xs"
  shows "fst ` set xs = srDestKey ` set sc"
proof -
  have "fst ` set xs = (\<lambda>g. fst (fst (fst g))) ` set (groupBy seriesKeyOf sc)" using arg_cong [OF seriesRows_keys [OF assms], of set] by simp
  also have "\<dots> = (\<lambda>k. fst (fst k)) ` set (map fst (groupBy seriesKeyOf sc))" by (simp add: image_image)
  also have "\<dots> = srDestKey ` set sc" unfolding groupBy_keys by (simp add: image_image seriesKeyOf_def)
  finally show ?thesis .
qed

lemma series_points:
  assumes "oneLabel sc" "map seriesRow (sort_key f (sort_key h (groupBy seriesKeyOf sc))) = map Some xs"
  shows "(ts, b) \<in> set (pointsOf k xs) \<longleftrightarrow>
    filter (\<lambda>r. srDestKey r = k \<and> srCapturedAt r = ts) sc \<noteq> [] \<and> seriesBytes (filter (\<lambda>r. srDestKey r = k \<and> srCapturedAt r = ts) sc) = Some b"
proof -
  have "(ts, b) \<in> set (pointsOf k xs) \<longleftrightarrow> (\<exists>l. (k, l, ts, b) \<in> set xs)" by (force simp: pointsOf_def)
  also have "\<dots> \<longleftrightarrow> (\<exists>r\<in>set sc. srDestKey r = k \<and> srCapturedAt r = ts) \<and> seriesBytes (filter (\<lambda>r. srDestKey r = k \<and> srCapturedAt r = ts) sc) = Some b"
    unfolding seriesRows_mem [OF assms(2)] set_sort series_group [OF assms(1)] by blast
  finally show ?thesis unfolding filter_empty_conv by blast
qed

text \<open>The chart of a destination has its points in the order of time, one for every time at which a check captured rows in scope, with
  the pool size recorded then (for rows without one, the sum of the referenced bytes); provided rows of one destination key
  carry one label.\<close>

theorem querySeries_exact:
  assumes "querySeries False ids st since t = Some ss" "oneLabel t"
  shows "distinct (map seKey ss) \<and>
    (let sc = filter (\<lambda>r. repoIDFilter ids r \<and> storageFilter st r \<and> sinceFilter since r) t
     in seKey ` set ss = srDestKey ` set sc \<and>
        (\<forall>s\<in>set ss. sorted_wrt (<) (map fst (sePoints s)) \<and>
           (\<forall>ts b. (ts, b) \<in> set (sePoints s) \<longleftrightarrow>
              (let g = filter (\<lambda>r. srDestKey r = seKey s \<and> srCapturedAt r = ts) sc in g \<noteq> [] \<and> seriesBytes g = Some b))))"
proof -
  define sc where "sc = filter (\<lambda>r. repoIDFilter ids r \<and> storageFilter st r \<and> sinceFilter since r) t"
  obtain xs where xs: "map seriesRow (sort_key (snd \<circ> fst \<circ> fst) (sort_key (snd \<circ> fst) (groupBy seriesKeyOf sc))) = map Some xs" "ss = foldl addPoint [] xs"
    using assms(1) by (auto simp: querySeries_def allSome_Some Let_def sc_def)
  have lab: "oneLabel sc" using assms(2) by (auto simp: oneLabel_def list_all_iff sc_def)
  show ?thesis unfolding sc_def [symmetric] Let_def
    using seriesOk_fold [of xs, folded xs(2), unfolded seriesOk_def] series_keys [OF xs(1)] series_points [OF lab xs(1)] series_sorted [OF lab xs(1)] by simp
qed

text \<open>Witness: two runs at one destination.\<close>

theorem querySeries_exact_witness:
  "\<exists>s. querySeries False [] [] None (snd (upsertCheckRun exFaults ''u1'' ''nas'' ''k'' ''NAS'' 6 800 8 [exStat ''a'' 2 21 2] exTable)) = Some [s] \<and>
     sePoints s = [(5, 700), (6, 800)] \<and> sorted_wrt (<) (map fst (sePoints s))"
proof -
  let ?t = "snd (upsertCheckRun exFaults ''u1'' ''nas'' ''k'' ''NAS'' 6 800 8 [exStat ''a'' 2 21 2] exTable)"
  have "map_option (map sePoints) (querySeries False [] [] None ?t) = Some [[(5, 700), (6, 800)]]" "oneLabel ?t" by code_simp+
  then obtain s where s: "querySeries False [] [] None ?t = Some [s]" "sePoints s = [(5, 700), (6, 800)]" "oneLabel ?t" by auto
  from querySeries_exact [OF s(1,3)] show ?thesis using s by auto
qed

section \<open>Formatted sizes\<close>

lemma bitLen_le: "n < 2 ^ k \<Longrightarrow> bitLen n \<le> k"
proof (induction k arbitrary: n)
  case 0
  then show ?case by (simp add: bitLen.simps)
next
  case (Suc k)
  have "n div 2 < 2 ^ k" using Suc.prems by simp
  then show ?case using Suc.IH by (subst bitLen.simps) auto
qed

lemma float64Int_small: "0 \<le> b \<Longrightarrow> b < 2 ^ 53 \<Longrightarrow> float64Int b = b"
proof -
  assume b: "0 \<le> b" "b < 2 ^ 53"
  then have "nat b < 2 ^ 53" by (simp add: nat_less_iff)
  then have "bitLen (nat b) - 53 = 0" using bitLen_le by simp
  then show ?thesis by (simp add: float64Int_def divEven_def Let_def)
qed

lemma divEven_bounds:
  assumes "0 < d"
  shows "2 * n - d \<le> 2 * d * divEven n d" "2 * d * divEven n d \<le> 2 * n + d"
proof -
  define q m where "q = n div d" and "m = n mod d"
  have n: "n = d * q + m" "0 \<le> m" "m < d" using assms by (simp_all add: q_def m_def)
  have "2 * d * (q + 1) = 2 * d * q + 2 * d" by (simp add: algebra_simps)
  then show "2 * n - d \<le> 2 * d * divEven n d" "2 * d * divEven n d \<le> 2 * n + d"
    using n unfolding divEven_def Let_def q_def [symmetric] m_def [symmetric] by (auto simp: algebra_simps)
qed

lemma divEven_nonneg: "0 \<le> n \<Longrightarrow> 0 < d \<Longrightarrow> 0 \<le> divEven n d"
  by (simp add: divEven_def Let_def pos_imp_zdiv_nonneg_iff)

lemma takeWhile_digits: "takeWhile isDigit (natDigits a @ CHR ''.'' # s) = natDigits a" "dropWhile isDigit (natDigits a @ CHR ''.'' # s) = CHR ''.'' # s"
  using natDigits_isDigit [of a] by (simp_all add: takeWhile_append dropWhile_append list_all_iff isDigit_def)

lemma digit_one: "d < 10 \<Longrightarrow> \<exists>c. natDigits d = [c] \<and> digitVal c = d \<and> isDigit c"
proof -
  assume "d < 10"
  then obtain c where c: "natDigits d = [c]" by (simp add: natDigits.simps)
  then have "isDigit c" using natDigits_isDigit [of d] by simp
  moreover have "digitVal c = d" using digitsVal_natDigits [of d] c digitsVal_snoc [of "[]" c] by (simp add: digitsVal_def)
  ultimately show ?thesis using c by blast
qed

lemma parseDecimal_fixed: "d < 10 \<Longrightarrow> parseDecimal (natDigits a @ CHR ''.'' # natDigits d) = Some (of_nat (10 * a + d) / 10)"
proof -
  assume "d < 10"
  then obtain c where c: "natDigits d = [c]" "digitVal c = d" "isDigit c" using digit_one by blast
  then show ?thesis unfolding parseDecimal_def takeWhile_digits Let_def by simp
qed

lemma parseDecimal_nat: "parseDecimal (natDigits a) = Some (of_nat a)"
proof -
  have "takeWhile isDigit (natDigits a) = natDigits a" "dropWhile isDigit (natDigits a) = []" using natDigits_isDigit [of a] by (simp_all add: list_all_iff)
  then show ?thesis unfolding parseDecimal_def Let_def by (simp only:) simp
qed

lemma parseFloat_decimal:
  assumes "list_all (\<lambda>c. isDigit c \<or> c = CHR ''.'') s" "s \<noteq> []"
  shows "parseFloat s = parseDecimal s"
proof -
  have h: "\<not> isSign (hd s)" "\<not> prefix ''-'' s" using assms by (cases s; auto simp: isSign_def isDigit_def)+
  have "c \<noteq> CHR ''e'' \<and> c \<noteq> CHR ''E''" if "c \<in> set s" for c using assms(1) that by (auto simp: list_all_iff isDigit_def)
  then have "takeWhile (\<lambda>c. \<not> (c = CHR ''e'' \<or> c = CHR ''E'')) s = s" "dropWhile (\<lambda>c. \<not> (c = CHR ''e'' \<or> c = CHR ''E'')) s = []" by auto
  then have "parseFloat s = map_option (\<lambda>q. q) (case parseDecimal s of None \<Rightarrow> None | Some q \<Rightarrow> Some q)"
    unfolding parseFloat_def Let_def using h by (simp only: simp_thms if_False if_True)
  then show ?thesis by (cases "parseDecimal s") simp_all
qed

lemma truncRat_div: "0 \<le> n \<Longrightarrow> truncRat (of_int n / 10) = n div 10"
  using floor_divide_of_int_eq [of n 10, where 'a = rat] by (simp add: truncRat_def)

lemma digit_plain: "isDigit x \<Longrightarrow> \<not> isSpace x \<and> x \<noteq> CHR '','' \<and> suffixMult x = None \<and> x \<noteq> CHR ''-''"
proof -
  assume x: "isDigit x"
  have n: "x \<notin> set ''KkMmGgTtPp,- ''" by (rule notI) (use x in \<open>auto simp: isDigit_def\<close>)
  have "\<not> isSpace x" using x n by (simp add: isSpace_def isDigit_def)
  moreover have "suffixMult x = None" using n by (simp add: suffixMult_def)
  ultimately show ?thesis using n by simp
qed

lemma parse_number:
  assumes "list_all (\<lambda>c. isDigit c \<or> c = CHR ''.'') s" "s \<noteq> []" "parseDecimal s = Some v"
  shows "suffixMult c = Some m \<Longrightarrow> parsePrettyBytes (s @ [c]) = truncRat (v * of_int m)"
    and "parsePrettyBytes s = truncRat v"
proof -
  have "\<not> isSpace x \<and> x \<noteq> CHR '','' \<and> suffixMult x = None \<and> x \<noteq> CHR ''-''" if "isDigit x \<or> x = CHR ''.''" for x
    using that by (elim disjE) (use digit_plain [of x] in \<open>simp_all add: isSpace_def suffixMult_def\<close>)
  then have sp: "\<not> isSpace x" "x \<noteq> CHR '',''" "suffixMult x = None" "x \<noteq> CHR ''-''" if "x \<in> set s" for x
    using assms(1) that unfolding list_all_iff by blast+
  have "list_all (\<lambda>c. \<not> isSpace c) s" "filter (\<lambda>c. c \<noteq> CHR '','') s = s" "suffixMult (last s) = None" "s \<noteq> ''-''"
    using sp assms(2) by (auto simp: list_all_iff filter_id_conv)
  note s = this
  have ns: "\<not> isSpace c" "c \<noteq> CHR '',''" if m: "suffixMult c = Some m"
  proof -
    have "c \<in> set ''KkMmGgTtPp''" by (rule ccontr) (use m in \<open>simp add: suffixMult_def\<close>)
    then show "\<not> isSpace c" "c \<noteq> CHR '',''" by (auto simp: isSpace_def)
  qed
  show "parsePrettyBytes s = truncRat v"
    using s assms(2,3) trimSpace_id [OF s(1)] parseFloat_decimal [OF assms(1,2)] by (simp add: parsePrettyBytes_def Let_def)
  assume m: "suffixMult c = Some m"
  have t: "trimSpace (s @ [c]) = s @ [c]" using s(1) ns [OF m] by (intro trimSpace_id) (simp add: list_all_iff)
  have "s @ [c] \<noteq> ''-''" using assms(2) by (cases s) auto
  then show "parsePrettyBytes (s @ [c]) = truncRat (v * of_int m)"
    using s(2) ns [OF m] m assms(2,3) t parseFloat_decimal [OF assms(1,2)] by (simp add: parsePrettyBytes_def Let_def)
qed

lemma parse_fixed1:
  assumes "0 \<le> b" "0 < m" "suffixMult c = Some m"
  shows "parsePrettyBytes (fixed1 b m @ [c]) = divEven (10 * b) m * m div 10"
proof -
  define t where "t = divEven (10 * b) m"
  have t: "0 \<le> t" using assms divEven_nonneg unfolding t_def by simp
  define a d where "a = nat (t div 10)" and "d = nat (t mod 10)"
  have ad: "itoa (t div 10) = natDigits a" "itoa (t mod 10) = natDigits d" "d < 10" "int (10 * a + d) = t"
    using t by (simp_all add: itoa_def a_def d_def nat_less_iff pos_imp_zdiv_nonneg_iff)
  have "list_all (\<lambda>c. isDigit c \<or> c = CHR ''.'') (natDigits a @ CHR ''.'' # natDigits d)"
    using natDigits_isDigit [of a] natDigits_isDigit [of d] by (auto simp: list_all_iff)
  from parse_number(1) [OF this _ parseDecimal_fixed [OF ad(3)] assms(3)]
  have "parsePrettyBytes (fixed1 b m @ [c]) = truncRat (of_nat (10 * a + d) / 10 * of_int m)"
    using ad(1,2) by (simp add: fixed1_def t_def [symmetric] Let_def)
  also have "of_nat (10 * a + d) / 10 * of_int m = (of_int (t * m) / 10 :: rat)"
  proof -
    have "rat_of_nat (10 * a + d) = rat_of_int t" using ad(4) by (metis of_int_of_nat_eq)
    then show ?thesis by (simp only: of_int_mult times_divide_eq_left)
  qed
  also have "truncRat (of_int (t * m) / 10) = t * m div 10" using t assms(2) by (intro truncRat_div) simp
  finally show ?thesis by (simp add: t_def)
qed

definition prettyUnit :: "int \<Rightarrow> int" where
  "prettyUnit b = (if b \<ge> 2 ^ 50 then 2 ^ 50 else if b \<ge> 2 ^ 40 then 2 ^ 40 else if b \<ge> 2 ^ 30 then 2 ^ 30 else if b \<ge> 2 ^ 20 then 2 ^ 20
     else if b \<ge> 2 ^ 10 then 2 ^ 10 else 1)"

text \<open>A size that is formatted for the page and read back by the parser of the check table is the size itself below a kilobyte, and
  otherwise off by at most a twentieth of its unit, plus the byte the parser cuts off; up to \<open>2^53\<close>, where the conversion to floating
  point is exact.\<close>

theorem formatPrettyBytes_parse:
  assumes "0 \<le> b" "b < 2 ^ 53"
  shows "(b < 1024 \<longrightarrow> parsePrettyBytes (formatPrettyBytes b) = b) \<and>
    20 * b - prettyUnit b - 20 < 20 * parsePrettyBytes (formatPrettyBytes b) \<and> 20 * parsePrettyBytes (formatPrettyBytes b) \<le> 20 * b + prettyUnit b"
proof (cases "b < 1024")
  case True
  have "list_all (\<lambda>c. isDigit c \<or> c = CHR ''.'') (natDigits (nat b))" using natDigits_isDigit [of "nat b"] by (auto simp: list_all_iff)
  from parse_number(2) [OF this _ parseDecimal_nat] have "parsePrettyBytes (formatPrettyBytes b) = b"
    using assms(1) True by (simp add: formatPrettyBytes_def Let_def itoa_def truncRat_def)
  then show ?thesis using True by (simp add: prettyUnit_def)
next
  case False
  define c where "c = (if b \<ge> 2 ^ 50 then CHR ''P'' else if b \<ge> 2 ^ 40 then CHR ''T'' else if b \<ge> 2 ^ 30 then CHR ''G'' else if b \<ge> 2 ^ 20 then CHR ''M'' else CHR ''K'')"
  have c: "formatPrettyBytes b = fixed1 b (prettyUnit b) @ [c]" "suffixMult c = Some (prettyUnit b)" "0 < prettyUnit b"
    using False float64Int_small [OF assms] by (simp_all add: formatPrettyBytes_def prettyUnit_def suffixMult_def c_def Let_def)
  define x where "x = prettyUnit b * divEven (10 * b) (prettyUnit b)"
  have "parsePrettyBytes (formatPrettyBytes b) = x div 10" using parse_fixed1 [OF assms(1) c(3,2)] c(1) by (simp add: x_def mult.commute)
  moreover have "20 * b - prettyUnit b \<le> 2 * x" "2 * x \<le> 20 * b + prettyUnit b"
    using divEven_bounds [OF c(3), of "10 * b"] by (simp_all add: x_def mult.assoc)
  ultimately show ?thesis using False by simp linarith
qed

text \<open>Witness: a gigabyte and a half.\<close>

theorem formatPrettyBytes_parse_witness:
  "formatPrettyBytes 1663000000 = ''1.5G'' \<and> 20 * parsePrettyBytes (formatPrettyBytes 1663000000) \<le> 20 * 1663000000 + 2 ^ 30"
proof -
  have "formatPrettyBytes 1663000000 = ''1.5G''"
    by (simp add: formatPrettyBytes_def float64Int_small fixed1_def divEven_def itoa_def natDigits.simps Let_def) code_simp
  then show ?thesis using formatPrettyBytes_parse [of 1663000000] by (simp add: prettyUnit_def)
qed

section \<open>The bound of a chart\<close>

text \<open>The relative forms of \<open>since\<close> go back exactly that long as long as the duration fits a 64-bit count of nanoseconds, so
  106751 days; the next day wraps around and lies 292 years ahead, where no row is.\<close>

theorem parseSinceParam_relative:
  assumes "rfc3339 (itoa n @ [c]) = None" "0 < n" "n \<le> maxInt64" "unitNs c = Some u"
  shows "parseSinceParam rfc3339 now (itoa n @ [c]) = Some (now + int64 (- (n * u))) \<and>
    (n * u \<le> maxInt64 \<longrightarrow> parseSinceParam rfc3339 now (itoa n @ [c]) = Some (now - n * u))"
proof -
  have "atoi (itoa n) = (n, True)" using assms(2,3) by (intro atoi_itoa) (simp_all add: minInt64_def)
  moreover have "itoa n \<noteq> []" using assms(2) by (simp add: itoa_def)
  ultimately have p: "parseSinceParam rfc3339 now (itoa n @ [c]) = Some (now + int64 (- (n * u)))" using assms by (cases "itoa n") (simp_all add: parseSinceParam_def)
  have "0 < u" using assms(4) by (auto simp: unitNs_def split: if_splits)
  then have "0 < n * u" using assms(2) by simp
  then have "int64 (- (n * u)) = - (n * u)" if "n * u \<le> maxInt64" using that by (simp add: int64_def maxInt64_def mod_pos_pos_trivial)
  then show ?thesis using p by simp
qed

text \<open>Witness: the last day before the wrap, and the first after it.\<close>

theorem parseSinceParam_relative_witness:
  "parseSinceParam (\<lambda>_. None) 0 (itoa 106751 @ ''d'') = Some (- (106751 * 24 * 3600 * 1000000000)) \<and>
   parseSinceParam (\<lambda>_. None) 0 (itoa 106752 @ ''d'') = Some 9223371273709551616"
  using parseSinceParam_relative [of "\<lambda>_. None" 106751 "CHR ''d''" _ 0] parseSinceParam_relative [of "\<lambda>_. None" 106752 "CHR ''d''" _ 0]
  by (simp add: unitNs_def maxInt64_def int64_def)

section \<open>What a check leaves\<close>

lemma find_rev_distinct:
  "distinct (map f xs) \<Longrightarrow> r \<in> set xs \<Longrightarrow> find (\<lambda>x. f x = f r) (rev xs) = Some r"
proof -
  assume d: "distinct (map f xs)" "r \<in> set xs"
  obtain x where x: "find (\<lambda>x. f x = f r) (rev xs) = Some x" using d(2) by (cases "find (\<lambda>x. f x = f r) (rev xs)") (auto simp: find_None_iff)
  then have "x \<in> set xs" "f x = f r" by (auto simp: find_Some_iff dest: nth_mem) (metis length_rev nth_mem set_rev)
  then show ?thesis using d x inj_onD [of f "set xs" x r] by (simp add: distinct_map)
qed

lemma statOf_mem: "statOf t k = Some r \<Longrightarrow> r \<in> set t"
  by (auto simp: statOf_def find_Some_iff)

text \<open>The rows a finished check collected reach the page of its repository: when the repository is known, the storage of the job has a
  URL and the database does not fail, every row of the table that was parsed is listed for the repository under the name of the
  storage, with the destination derived from the URL and the time of the flush, and flushing the job again writes nothing.\<close>

theorem flushSnapshotStats_lists:
  assumes "flushSnapshotStats fl now ix j t = (j', t')" "indexGet ix (jRepoID j) = Some repo" "rID repo = jRepoID j"
    "storageURLFor repo (jStorageName j) \<noteq> []" "\<not> sfBegin fl" "\<not> sfPrepare fl" "\<not> sfCommit fl" "list_all (\<lambda>r. \<not> sfExec fl r) (jTabularRows j)"
    "distinct (map (\<lambda>r. (ssSnapshotID r, ssRevision r)) (jTabularRows j))"
  shows "(case handleListSnapshotStats False ix (jRepoID j) [] [] t' of
      StatOK ps \<Rightarrow> (\<forall>r\<in>set (jTabularRows j).
        \<lparr>ppRow = r, ppStorageName = (if jStorageName j = [] then ''default'' else jStorageName j),
         ppDestinationKey = fst (DestinationKey (storageURLFor repo (jStorageName j))),
         ppDestinationLabel = snd (DestinationKey (storageURLFor repo (jStorageName j))), ppCapturedAt = now\<rparr> \<in> set ps)
    | _ \<Rightarrow> False) \<and> jTabularRows j' = [] \<and> flushSnapshotStats fl later ix j' t' = (j', t')"
proof -
  let ?st = "if jStorageName j = [] then ''default'' else jStorageName j"
  obtain dk dl where dk: "DestinationKey (storageURLFor repo (jStorageName j)) = (dk, dl)" by fastforce
  have j': "j' = j\<lparr>jTabularRows := [], jTabular := None\<rparr>"
    using assms(1) by (auto simp: flushSnapshotStats_def takeTabularRows_def Let_def split: if_splits option.splits prod.splits)
  then have again: "jTabularRows j' = []" "flushSnapshotStats fl later ix j' t' = (j', t')" by (simp_all add: flushSnapshotStats_def takeTabularRows_def)
  have "\<lparr>ppRow = r, ppStorageName = ?st, ppDestinationKey = dk, ppDestinationLabel = dl, ppCapturedAt = now\<rparr> \<in>
      publicStat ` {x \<in> set t'. srRepoID x = jRepoID j}" if r: "r \<in> set (jTabularRows j)" for r
  proof -
    obtain pb pc where u: "t' = snd (upsertCheckRun fl (jRepoID j) ?st dk dl now pb pc (jTabularRows j) t)"
      using assms(1,2,4) dk r by (auto simp: flushSnapshotStats_def takeTabularRows_def Let_def split: if_splits)
    let ?mk = "checkRow (jRepoID j) ?st dk dl now pb pc"
    obtain t1 where e: "execRows (sfExec fl) ?mk (jTabularRows j) t = Inr t1" using execRows_ok [of "jTabularRows j" "sfExec fl" ?mk t] assms(8) by (auto simp: list_all_iff)
    then have "t' = t1" using u assms(5-7) r by (auto simp: upsertCheckRun_def)
    moreover have "find (\<lambda>x. srKey (?mk x) = srKey (?mk r)) (rev (jTabularRows j)) = Some r"
      by (rule find_rev_distinct [OF _ r]) (use assms(9) in \<open>simp add: srKey_def checkRow_def distinct_map inj_on_def\<close>)
    ultimately have "?mk r \<in> set t'" using execRows_exact [OF e, of "srKey (?mk r)"] statOf_mem by simp
    then show ?thesis by (intro image_eqI [of _ _ "?mk r"]) (simp_all add: publicStat_def checkRow_def)
  qed
  moreover have "handleListSnapshotStats False ix (jRepoID j) [] [] t' = StatOK ps \<Longrightarrow> set ps = publicStat ` {x \<in> set t'. srRepoID x = jRepoID j}" for ps
    using assms(2,3) by (auto simp: handleListSnapshotStats_def listStats_def respOf_def)
  moreover obtain ps where "handleListSnapshotStats False ix (jRepoID j) [] [] t' = StatOK ps"
    using assms(2,3) by (simp add: handleListSnapshotStats_def listStats_def respOf_def)
  ultimately show ?thesis using again dk by simp
qed

definition exCheckJob :: Job where
  "exCheckJob = (newJob ''j'' ''r'' ''/p'' ActionCheck [] [] [] [])\<lparr>jTabularRows := [exStat ''a'' 1 10 1, exStat ''a'' 2 20 2]\<rparr>"

definition exStatIndex :: repoIndex where
  "exStatIndex = (newRepoIndex [])\<lparr>ixRepos := [(''r'', (exRepo ''/p'')\<lparr>rID := ''r'',
     rStorages := [\<lparr>sName = ''default'', sURL = ''/mnt/pool'', sEncrypted = True, sNoBackup = False, sNoRestore = False,
       sFiltersFile = [], sConfiguredKeys = []\<rparr>]\<rparr>)]\<rparr>"

text \<open>Witness: two rows, default storage.\<close>

theorem flushSnapshotStats_lists_witness:
  "case flushSnapshotStats exFaults 9 exStatIndex exCheckJob [] of (j', t') \<Rightarrow> length t' = 2 \<and> jTabularRows j' = [] \<and>
     flushSnapshotStats exFaults 10 exStatIndex j' t' = (j', t')"
proof -
  obtain j' t' where f: "flushSnapshotStats exFaults 9 exStatIndex exCheckJob [] = (j', t')" by fastforce
  have "length (snd (flushSnapshotStats exFaults 9 exStatIndex exCheckJob [])) = 2" by code_simp
  moreover obtain repo where g: "indexGet exStatIndex (jRepoID exCheckJob) = Some repo" "rID repo = jRepoID exCheckJob" "storageURLFor repo (jStorageName exCheckJob) \<noteq> []"
    by (simp add: exStatIndex_def indexGet_def exCheckJob_def newJob_def storageURLFor_def)
  ultimately show ?thesis
    using flushSnapshotStats_lists [OF f g, of 10] f by (simp add: exFaults_def exCheckJob_def exStat_def)
qed

end
