(* ===== verification/Events.thy ===== *)
theory Events
  imports SnapshotStats Jobs Duplicacy "HOL-Library.Option_ord"
begin

text \<open>
  events.go, orphan_sweep.go, the job part of app.go and the snapshot of fleet_ws.go: the local table of jobs and the events
  sent to the controller, the sweep of jobs a crash left behind, the hooks that run at the end of a job, and what the fleet
  page is sent. The outbox that delivers events, the SQL of the sweep and the WebSocket hub are libraries (agent-kit-go): the
  outbox is the list of the events handed to it, the sweep's statement a parameter. The theorems: a job read back is the job
  written; after the boot sweep every job the crash left has its failure event queued, and only those; the last backup of a
  repository does not depend on how much other work followed; and how the fifty jobs of the fleet page are chosen, which drops
  the queued jobs first.
\<close>

section \<open>The table of jobs\<close>

definition tPtr :: "go_time \<Rightarrow> int option" where
  "tPtr t = t"

definition tsToNs :: "go_time \<Rightarrow> int" where
  "tsToNs t = (case t of None \<Rightarrow> 0 | Some n \<Rightarrow> n)"

definition nsToTime :: "int \<Rightarrow> go_time" where
  "nsToTime ns = (if ns = 0 then None else Some ns)"

definition stateName :: "JobState \<Rightarrow> string" where
  "stateName st =
     (case st of JobPending \<Rightarrow> ''pending'' | JobRunning \<Rightarrow> ''running'' | JobCompleted \<Rightarrow> ''completed'' | JobFailed \<Rightarrow> ''failed''
      | JobCancelled \<Rightarrow> ''cancelled'')"

definition stateOf :: "string \<Rightarrow> JobState option" where
  "stateOf s = find (\<lambda>st. stateName st = s) [JobPending, JobRunning, JobCompleted, JobFailed, JobCancelled]"

text \<open>A row of the table \<open>jobs\<close>; an absent progress is NULL.\<close>

record jobRow =
  jwID :: string
  jwRepoID :: string
  jwRepoPath :: string
  jwAction :: JobAction
  jwStorageName :: string
  jwState :: string
  jwStartedAtNs :: int
  jwCompletedAtNs :: int
  jwExitCode :: int
  jwError :: string
  jwLineCount :: nat
  jwScheduleID :: string
  jwTriggerKey :: string
  jwProgress :: "string option"
  jwUpdatedAtNs :: int

record EventPayload =
  epJobID :: string
  epSite :: string
  epNode :: string
  epRepoID :: string
  epRepoPath :: string
  epAction :: JobAction
  epStorageName :: string
  epState :: JobState
  epEvent :: JobEvent
  epStartedAt :: "int option"
  epCompletedAt :: "int option"
  epExitCode :: int
  epErrorMsg :: string
  epLineCount :: nat
  epScheduleID :: string
  epTriggerKey :: string
  epEmittedAt :: int

text \<open>\<open>ebDB\<close> is the database handle's table, \<open>None\<close> without a handle; \<open>ebOutbox\<close> holds what was enqueued.\<close>

record eventBuffer =
  ebSite :: string
  ebNode :: string
  ebDB :: "jobRow list option"
  ebOutbox :: "(string \<times> JobEvent \<times> EventPayload) list"

definition eventPayload :: "string \<Rightarrow> string \<Rightarrow> int \<Rightarrow> JobEvent \<Rightarrow> jobPublic \<Rightarrow> EventPayload" where
  "eventPayload site node now evt snap =
     \<lparr>epJobID = jID snap, epSite = site, epNode = node, epRepoID = jRepoID snap, epRepoPath = jRepoPath snap, epAction = jAction snap,
      epStorageName = jStorageName snap, epState = jState snap, epEvent = evt, epStartedAt = tPtr (jStartedAt snap),
      epCompletedAt = tPtr (jCompletedAt snap), epExitCode = jExitCode snap, epErrorMsg = jErrorMsg snap, epLineCount = jLineCount snap,
      epScheduleID = jScheduleID snap, epTriggerKey = jTriggerKey snap, epEmittedAt = now\<rparr>"

text \<open>\<open>json.Marshal\<close> and \<open>json.Unmarshal\<close> on the progress are parameters.\<close>

definition jobRowOf :: "(JobProgress \<Rightarrow> string option) \<Rightarrow> int \<Rightarrow> jobPublic \<Rightarrow> jobRow" where
  "jobRowOf enc now snap =
     \<lparr>jwID = jID snap, jwRepoID = jRepoID snap, jwRepoPath = jRepoPath snap, jwAction = jAction snap, jwStorageName = jStorageName snap,
      jwState = stateName (jState snap), jwStartedAtNs = tsToNs (jStartedAt snap), jwCompletedAtNs = tsToNs (jCompletedAt snap),
      jwExitCode = jExitCode snap, jwError = jErrorMsg snap, jwLineCount = jLineCount snap, jwScheduleID = jScheduleID snap,
      jwTriggerKey = jTriggerKey snap, jwProgress = (case jProgress snap of None \<Rightarrow> None | Some p \<Rightarrow> enc p), jwUpdatedAtNs = now\<rparr>"

definition upsertJobRow :: "jobRow \<Rightarrow> jobRow list \<Rightarrow> jobRow list" where
  "upsertJobRow r t = (if jwID r \<in> jwID ` set t then map (\<lambda>x. if jwID x = jwID r then r else x) t else t @ [r])"

definition upsertJob :: "bool \<Rightarrow> (JobProgress \<Rightarrow> string option) \<Rightarrow> int \<Rightarrow> jobPublic \<Rightarrow> eventBuffer \<Rightarrow> eventBuffer" where
  "upsertJob refused enc now snap e =
     (case ebDB e of None \<Rightarrow> e | Some t \<Rightarrow> if refused then e else e\<lparr>ebDB := Some (upsertJobRow (jobRowOf enc now snap) t)\<rparr>)"

definition handleJobEvent :: "bool \<Rightarrow> bool \<Rightarrow> (JobProgress \<Rightarrow> string option) \<Rightarrow> int \<Rightarrow> jobPublic \<Rightarrow> JobEvent \<Rightarrow> eventBuffer \<Rightarrow> eventBuffer" where
  "handleJobEvent marshalFails refused enc now snap evt e =
     (if marshalFails then e
      else let e1 = upsertJob refused enc now snap e
           in e1\<lparr>ebOutbox := ebOutbox e1 @ [(jID snap, evt, eventPayload (ebSite e) (ebNode e) now evt snap)]\<rparr>)"

text \<open>A state the agent did not write cannot be converted into \<open>JobState\<close>, which is a string in the code; such rows do not occur.\<close>

definition scanJob :: "(string \<Rightarrow> JobProgress option) \<Rightarrow> jobRow \<Rightarrow> jobPublic" where
  "scanJob dec r =
     \<lparr>jID = jwID r, jRepoID = jwRepoID r, jRepoPath = jwRepoPath r, jAction = jwAction r, jStorageName = jwStorageName r, jArgs = [],
      jState = (case stateOf (jwState r) of None \<Rightarrow> JobPending | Some st \<Rightarrow> st), jStartedAt = nsToTime (jwStartedAtNs r),
      jCompletedAt = nsToTime (jwCompletedAtNs r), jExitCode = jwExitCode r, jErrorMsg = jwError r, jLineCount = jwLineCount r,
      jProgress = (case jwProgress r of None \<Rightarrow> None | Some b \<Rightarrow> if b = [] then None else dec b),
      jScheduleID = jwScheduleID r, jTriggerKey = jwTriggerKey r\<rparr>"

definition listRecentJobs :: "bool \<Rightarrow> (string \<Rightarrow> JobProgress option) \<Rightarrow> nat \<Rightarrow> eventBuffer \<Rightarrow> jobPublic list option" where
  "listRecentJobs refused dec limit e =
     (case ebDB e of
        None \<Rightarrow> Some []
      | Some t \<Rightarrow> if refused then None else Some (map (scanJob dec) (take limit (sort_key (\<lambda>r. - jwUpdatedAtNs r) t))))"

definition lastBackupByRepo :: "bool \<Rightarrow> eventBuffer \<Rightarrow> (string \<times> int) list option" where
  "lastBackupByRepo refused e =
     (case ebDB e of
        None \<Rightarrow> Some []
      | Some t \<Rightarrow>
          if refused then None
          else let rows = filter (\<lambda>r. jwAction r = ''backup'' \<and> jwState r = ''completed'' \<and> jwCompletedAtNs r > 0) t
               in Some (map (\<lambda>(k, g). (k, fold max (map jwCompletedAtNs g) 0)) (groupBy jwRepoID rows)))"

definition getJobRow :: "bool \<Rightarrow> (string \<Rightarrow> JobProgress option) \<Rightarrow> string \<Rightarrow> eventBuffer \<Rightarrow> jobPublic option option" where
  "getJobRow refused dec jid e =
     (case ebDB e of
        None \<Rightarrow> Some None
      | Some t \<Rightarrow> if refused then None else Some (map_option (scanJob dec) (find (\<lambda>r. jwID r = jid) t)))"

section \<open>The sweep at boot\<close>

definition orphanSweepError :: string where
  "orphanSweepError = ''agent restart orphan (boot sweep): previous job did not emit a terminal event''"

definition orphanPayload :: "string \<Rightarrow> string \<Rightarrow> int \<Rightarrow> jobPublic \<Rightarrow> EventPayload" where
  "orphanPayload site node now jp =
     (eventPayload site node now EventFailed jp)\<lparr>epState := JobFailed, epCompletedAt := tPtr (Some now), epExitCode := 137, epErrorMsg := orphanSweepError\<rparr>"

text \<open>\<open>mark\<close> is \<open>jobstore.MarkOrphanedFailed\<close> with the options of the call; \<open>getFails\<close> tells which reads fail.\<close>

definition sweepOrphanJobs ::
  "(jobRow list \<Rightarrow> (string list \<times> jobRow list) option) \<Rightarrow> (string \<Rightarrow> bool) \<Rightarrow> (string \<Rightarrow> bool) \<Rightarrow> (string \<Rightarrow> JobProgress option) \<Rightarrow> int \<Rightarrow> eventBuffer \<Rightarrow> eventBuffer" where
  "sweepOrphanJobs mark getFails marshalFails dec now e =
     (case ebDB e of
        None \<Rightarrow> e
      | Some t \<Rightarrow>
          (case mark t of
             None \<Rightarrow> e
           | Some (ids, t') \<Rightarrow>
               fold (\<lambda>i e1. case getJobRow (getFails i) dec i e1 of
                       Some (Some jp) \<Rightarrow>
                         if marshalFails i then e1
                         else e1\<lparr>ebOutbox := ebOutbox e1 @ [(i, EventFailed, orphanPayload (ebSite e) (ebNode e) now (jp\<lparr>jID := i\<rparr>))]\<rparr>
                     | _ \<Rightarrow> e1)
                 ids (e\<lparr>ebDB := Some t'\<rparr>)))"

section \<open>The hooks\<close>

text \<open>What app.go registers: the flush of a check, the nudge of the cache warmer (a channel with one place), the chain.\<close>

definition checkFlushHook :: "JobEvent \<Rightarrow> jobPublic \<Rightarrow> bool" where
  "checkFlushHook evt snap \<longleftrightarrow> \<not> (evt \<noteq> EventCompleted \<or> jAction snap \<noteq> ActionCheck)"

definition warmHook :: "bool \<Rightarrow> JobEvent \<Rightarrow> jobPublic \<Rightarrow> bool \<Rightarrow> bool" where
  "warmHook cacheEnabled evt snap warmDirty =
     (if \<not> cacheEnabled \<or> evt \<noteq> EventCompleted then warmDirty
      else if jAction snap \<in> {ActionBackup, ActionCopy, ActionPrune} then True else warmDirty)"

definition chainHook :: "JobEvent \<Rightarrow> jobPublic \<Rightarrow> string option" where
  "chainHook evt snap = (if evt \<in> {EventCompleted, EventFailed, EventCancelled} then Some (jAction snap) else None)"

section \<open>The fleet page\<close>

definition fleetJobsCap :: nat where "fleetJobsCap = 50"

definition jobRecency :: "jobPublic \<Rightarrow> go_time" where
  "jobRecency j = (if jCompletedAt j \<noteq> None then jCompletedAt j else jStartedAt j)"

text \<open>\<open>sort.Slice\<close> is not stable: jobs of equal recency may come in any order.\<close>

definition fleetJobs :: "bool \<Rightarrow> (string \<Rightarrow> JobProgress option) \<Rightarrow> jobPublic list \<Rightarrow> eventBuffer option \<Rightarrow> jobPublic list" where
  "fleetJobs refused dec live events =
     (let persisted = (case events of None \<Rightarrow> [] | Some e \<Rightarrow> (case listRecentJobs refused dec fleetJobsCap e of None \<Rightarrow> [] | Some ps \<Rightarrow> ps));
          out = live @ filter (\<lambda>jp. jID jp \<notin> jID ` set live) persisted;
          sorted = rev (sort_key jobRecency out)
      in if length sorted > fleetJobsCap then take fleetJobsCap sorted else sorted)"

record HostInfo =
  hiHostname :: string
  hiNumCPU :: nat
  hiAutoThreads :: int

definition newHostInfo :: "string \<Rightarrow> nat \<Rightarrow> HostInfo" where
  "newHostInfo hostname numCPU = \<lparr>hiHostname = hostname, hiNumCPU = numCPU, hiAutoThreads = autoThreads numCPU\<rparr>"

record fleetSnapshot =
  fsHost :: HostInfo
  fsRepos :: "Repo list"
  fsJobs :: "jobPublic list"

text \<open>The builder of the hub. The repositories are pointers into the index: the time of the last backup is written there.\<close>

definition withLastBackup :: "(string \<times> int) list \<Rightarrow> Repo \<Rightarrow> Repo" where
  "withLastBackup lb r = (case map_of lb (rID r) of None \<Rightarrow> r | Some t \<Rightarrow> r\<lparr>rLastBackupAt := Some t\<rparr>)"

definition buildFleetSnapshot ::
  "bool \<Rightarrow> bool \<Rightarrow> (string \<Rightarrow> JobProgress option) \<Rightarrow> HostInfo \<Rightarrow> jobPublic list \<Rightarrow> eventBuffer option \<Rightarrow> repoIndex \<Rightarrow> fleetSnapshot \<times> repoIndex" where
  "buildFleetSnapshot refused1 refused2 dec host live events ix =
     (let lb = (case events of None \<Rightarrow> [] | Some e \<Rightarrow> (case lastBackupByRepo refused1 e of None \<Rightarrow> [] | Some l \<Rightarrow> l));
          ix' = ix\<lparr>ixRepos := map (\<lambda>(k, r). (k, withLastBackup lb r)) (ixRepos ix)\<rparr>
      in (\<lparr>fsHost = host, fsRepos = indexList ix', fsJobs = fleetJobs refused2 dec live events\<rparr>, ix'))"

section \<open>Reading a job back\<close>

lemma upsertJobRow_find: "find (\<lambda>x. jwID x = i) (upsertJobRow r t) = (if i = jwID r then Some r else find (\<lambda>x. jwID x = i) t)"
proof (cases "jwID r \<in> jwID ` set t")
  case True
  have "find (\<lambda>x. jwID x = i) (map (\<lambda>x. if jwID x = jwID r then r else x) xs) = (if i = jwID r \<and> i \<in> jwID ` set xs then Some r else find (\<lambda>x. jwID x = i) xs)" for xs
    by (induction xs) auto
  then show ?thesis using True by (simp add: upsertJobRow_def)
next
  case False
  then have "find (\<lambda>x. jwID x = jwID r) t = None" unfolding find_None_iff by (metis imageI)
  then show ?thesis using False by (auto simp: upsertJobRow_def statFind_append split: option.split)
qed

lemma upsertJobRow_distinct: "distinct (map jwID t) \<Longrightarrow> distinct (map jwID (upsertJobRow r t))"
proof -
  have "map jwID (map (\<lambda>x. if jwID x = jwID r then r else x) t) = map jwID t" by simp
  then have "map jwID (upsertJobRow r t) = (if jwID r \<in> jwID ` set t then map jwID t else map jwID t @ [jwID r])"
    unfolding upsertJobRow_def by (simp only: if_distrib [of "map jwID"] map_append list.map)
  then show "distinct (map jwID t) \<Longrightarrow> distinct (map jwID (upsertJobRow r t))" by (simp only:) simp
qed

lemma stateOf_stateName [simp]: "stateOf (stateName st) = Some st"
  by (cases st) (simp_all add: stateOf_def stateName_def)

lemma nsToTime_tsToNs [simp]: "t \<noteq> Some 0 \<Longrightarrow> nsToTime (tsToNs t) = t"
  by (cases t) (simp_all add: nsToTime_def tsToNs_def)

text \<open>Every event of a job makes the local table hold the job as it is at that moment, so that it is read back as it was (without
  its command line, which is not stored), provided its progress survives JSON; other jobs keep their rows, and the controller is
  sent one event with the times of the job, absent where they are not set.\<close>

theorem handleJobEvent_getJob:
  assumes "handleJobEvent False False enc now snap evt e = e'" "ebDB e = Some t" "distinct (map jwID t)"
    "case jProgress snap of None \<Rightarrow> True | Some p \<Rightarrow> (case enc p of None \<Rightarrow> False | Some b \<Rightarrow> b \<noteq> [] \<and> dec b = Some p)"
    "jStartedAt snap \<noteq> Some 0" "jCompletedAt snap \<noteq> Some 0"
  shows "getJobRow False dec (jID snap) e' = Some (Some (snap\<lparr>jArgs := []\<rparr>)) \<and>
    (i \<noteq> jID snap \<longrightarrow> getJobRow False dec i e' = getJobRow False dec i e) \<and>
    (\<exists>t'. ebDB e' = Some t' \<and> distinct (map jwID t')) \<and>
    (\<exists>p. ebOutbox e' = ebOutbox e @ [(jID snap, evt, p)] \<and> epStartedAt p = jStartedAt snap \<and> epCompletedAt p = jCompletedAt snap \<and> epState p = jState snap)"
proof -
  let ?r = "jobRowOf enc now snap"
  have e': "e' = e\<lparr>ebDB := Some (upsertJobRow ?r t), ebOutbox := ebOutbox e @ [(jID snap, evt, eventPayload (ebSite e) (ebNode e) now evt snap)]\<rparr>"
    using assms(1,2) by (simp add: handleJobEvent_def upsertJob_def)
  have prog: "(case (case jProgress snap of None \<Rightarrow> None | Some p \<Rightarrow> enc p) of None \<Rightarrow> None | Some b \<Rightarrow> if b = [] then None else dec b) = jProgress snap"
    using assms(4) by (auto split: option.splits)
  have readback: "scanJob dec ?r = snap\<lparr>jArgs := []\<rparr>"
    using assms(5,6) prog by (simp add: scanJob_def jobRowOf_def)
  have rid: "jwID ?r = jID snap" by (simp add: jobRowOf_def)
  show ?thesis
    using upsertJobRow_distinct [OF assms(3)] readback rid assms(2)
    by (simp add: e' getJobRow_def upsertJobRow_find eventPayload_def tPtr_def)
qed

definition exBuffer :: eventBuffer where
  "exBuffer = \<lparr>ebSite = ''s'', ebNode = ''n'', ebDB = Some [], ebOutbox = []\<rparr>"

definition exSnap :: "string \<Rightarrow> JobAction \<Rightarrow> JobState \<Rightarrow> go_time \<Rightarrow> go_time \<Rightarrow> jobPublic" where
  "exSnap i act st s c = \<lparr>jID = i, jRepoID = ''r'', jRepoPath = ''/p'', jAction = act, jStorageName = [], jArgs = [''backup''], jState = st,
     jStartedAt = s, jCompletedAt = c, jExitCode = 0, jErrorMsg = [], jLineCount = 3, jProgress = Some emptyProgress, jScheduleID = [], jTriggerKey = []\<rparr>"

text \<open>Witness: a finished backup.\<close>

theorem handleJobEvent_getJob_witness:
  "let snap = exSnap ''j'' ActionBackup JobCompleted (Some 4) (Some 9) in
   getJobRow False (\<lambda>b. if b = ''P'' then Some emptyProgress else None) ''j'' (handleJobEvent False False (\<lambda>_. Some ''P'') 10 snap EventCompleted exBuffer) =
     Some (Some (snap\<lparr>jArgs := []\<rparr>))"
proof -
  let ?s = "exSnap ''j'' ActionBackup JobCompleted (Some 4) (Some 9)"
  have h: "ebDB exBuffer = Some []" "distinct (map jwID [])"
    "case jProgress ?s of None \<Rightarrow> True | Some p \<Rightarrow> (case Some ''P'' of None \<Rightarrow> False | Some b \<Rightarrow> b \<noteq> [] \<and> (if b = ''P'' then Some emptyProgress else None) = Some p)"
    "jStartedAt ?s \<noteq> Some 0" "jCompletedAt ?s \<noteq> Some 0" by (simp_all add: exBuffer_def exSnap_def)
  from handleJobEvent_getJob [OF refl h] show ?thesis by (simp add: exSnap_def)
qed

section \<open>Jobs a crash left\<close>

definition orphanRow :: "jobRow \<Rightarrow> bool" where
  "orphanRow r \<longleftrightarrow> jwState r \<in> {''running'', ''pending''}"

definition markedRow :: "int \<Rightarrow> jobRow \<Rightarrow> jobRow" where
  "markedRow c r = (if orphanRow r then r\<lparr>jwState := ''failed'', jwError := orphanSweepError, jwExitCode := 137, jwCompletedAtNs := c\<rparr> else r)"

lemma find_marked: "find (\<lambda>r. jwID r = i) (map (markedRow c) t) = map_option (markedRow c) (find (\<lambda>r. jwID r = i) t)"
  by (induction t) (auto simp: markedRow_def)

lemma find_distinct: "distinct (map jwID t) \<Longrightarrow> r \<in> set t \<Longrightarrow> find (\<lambda>x. jwID x = jwID r) t = Some r"
  by (induction t) auto

lemma sweep_fold:
  assumes "distinct (map jwID t)" "set rs \<subseteq> set t" "ebDB e1 = Some (map (markedRow c) t)"
  shows "fold (\<lambda>i e1. case getJobRow False dec i e1 of
       Some (Some jp) \<Rightarrow> if False then e1 else e1\<lparr>ebOutbox := ebOutbox e1 @ [(i, EventFailed, orphanPayload site node now (jp\<lparr>jID := i\<rparr>))]\<rparr>
     | _ \<Rightarrow> e1) (map jwID rs) e1 =
   e1\<lparr>ebOutbox := ebOutbox e1 @ map (\<lambda>r. (jwID r, EventFailed, orphanPayload site node now (scanJob dec (markedRow c r)))) rs\<rparr>"
  using assms(2,3)
proof (induction rs arbitrary: e1)
  case (Cons r rs)
  have f: "find (\<lambda>x. jwID x = jwID r) t = Some r" using find_distinct [OF assms(1)] Cons.prems(1) by simp
  have k: "(scanJob dec (markedRow c r))\<lparr>jID := jwID r\<rparr> = scanJob dec (markedRow c r)" by (simp add: scanJob_def markedRow_def)
  have g: "getJobRow False dec (jwID r) e1 = Some (Some (scanJob dec (markedRow c r)))" using Cons.prems(2) f by (simp add: getJobRow_def find_marked)
  let ?e2 = "e1\<lparr>ebOutbox := ebOutbox e1 @ [(jwID r, EventFailed, orphanPayload site node now (scanJob dec (markedRow c r)))]\<rparr>"
  have "ebDB ?e2 = Some (map (markedRow c) t)" using Cons.prems(2) by simp
  from Cons.IH [OF _ this] show ?case using Cons.prems(1) g k by simp
qed simp

text \<open>After the boot sweep every job that a crash left running or pending is failed in the local table, and the controller is sent
  exactly one failure event for each of them, in order, with the identity of the job, exit code 137 and the time of the sweep; no other job is touched.
  Assumed is what the sweep's statement is documented to do: mark the running and pending rows failed and return their ids.\<close>

theorem sweepOrphanJobs_exact:
  assumes "sweepOrphanJobs mark (\<lambda>_. False) (\<lambda>_. False) dec now e = e'" "ebDB e = Some t" "distinct (map jwID t)"
    "mark t = Some (map jwID (filter orphanRow t), map (markedRow c) t)"
  shows "ebDB e' = Some (map (markedRow c) t) \<and> list_all (\<lambda>r. \<not> orphanRow r) (map (markedRow c) t) \<and>
    (\<exists>evs. ebOutbox e' = ebOutbox e @ evs \<and> length evs = length (filter orphanRow t) \<and>
       list_all2 (\<lambda>(i, ev, p) r. i = jwID r \<and> ev = EventFailed \<and> epJobID p = jwID r \<and> epRepoID p = jwRepoID r \<and> epAction p = jwAction r \<and>
          epState p = JobFailed \<and> epEvent p = EventFailed \<and> epExitCode p = 137 \<and> epErrorMsg p = orphanSweepError \<and>
          epStartedAt p = nsToTime (jwStartedAtNs r) \<and> epCompletedAt p = Some now) evs (filter orphanRow t))"
proof -
  let ?evs = "map (\<lambda>r. (jwID r, EventFailed, orphanPayload (ebSite e) (ebNode e) now (scanJob dec (markedRow c r)))) (filter orphanRow t)"
  have "e' = e\<lparr>ebDB := Some (map (markedRow c) t), ebOutbox := ebOutbox e @ ?evs\<rparr>"
    using assms(1,2,4) sweep_fold [OF assms(3), of "filter orphanRow t" "e\<lparr>ebDB := Some (map (markedRow c) t)\<rparr>" c, where dec = dec and site = "ebSite e" and node = "ebNode e" and now = now]
    by (simp add: sweepOrphanJobs_def)
  moreover have "list_all (\<lambda>r. \<not> orphanRow r) (map (markedRow c) t)" by (auto simp: list_all_iff markedRow_def orphanRow_def)
  ultimately show ?thesis
    by (intro conjI exI [of _ ?evs]) (simp_all add: list_all2_map1 list_all2_same orphanPayload_def eventPayload_def scanJob_def markedRow_def tPtr_def)
qed

definition exOrphans :: eventBuffer where
  "exOrphans = handleJobEvent False False (\<lambda>_. Some ''P'') 7 (exSnap ''a'' ActionBackup JobRunning (Some 4) None) EventStarted
     (handleJobEvent False False (\<lambda>_. Some ''P'') 6 (exSnap ''b'' ActionCheck JobCompleted (Some 2) (Some 5)) EventCompleted exBuffer)"

text \<open>Witness: a running backup beside a finished check.\<close>

theorem sweepOrphanJobs_exact_witness:
  "\<exists>t' e'. sweepOrphanJobs (\<lambda>t. Some (map jwID (filter orphanRow t), map (markedRow 11) t)) (\<lambda>_. False) (\<lambda>_. False) (\<lambda>_. None) 12 exOrphans = e' \<and>
     ebDB e' = Some t' \<and> map jwState t' = [''completed'', ''failed''] \<and> length (ebOutbox e') = 3"
proof -
  obtain t where t: "ebDB exOrphans = Some t" "map jwState t = [''completed'', ''running'']" "distinct (map jwID t)"
    by (simp add: exOrphans_def handleJobEvent_def upsertJob_def exBuffer_def upsertJobRow_def jobRowOf_def exSnap_def stateName_def)
  have o: "length (ebOutbox exOrphans) = 2" by (simp add: exOrphans_def handleJobEvent_def upsertJob_def exBuffer_def)
  have l: "length (filter orphanRow t) = 1" "map jwState (map (markedRow 11) t) = [''completed'', ''failed'']"
  proof -
    obtain a b where ab: "t = [a, b]" "jwState a = ''completed''" "jwState b = ''running''" using t(2) by (auto simp: map_eq_Cons_conv)
    then show "length (filter orphanRow t) = 1" "map jwState (map (markedRow 11) t) = [''completed'', ''failed'']" by (simp_all add: orphanRow_def markedRow_def)
  qed
  from sweepOrphanJobs_exact [where mark = "\<lambda>t. Some (map jwID (filter orphanRow t), map (markedRow 11) t)", OF refl t(1,3) refl, of "\<lambda>_. None" 12]
  show ?thesis using o l by auto
qed

section \<open>The last backup\<close>

lemma fold_max: "fold max xs (a :: int) = Max (insert a (set xs))"
  using Max.set_eq_fold [of a xs] by simp

text \<open>The time of the last backup of a repository is the latest completion of a completed backup in the whole table, and a repository
  is absent exactly when it has none; so however many other jobs follow, the time stays.\<close>

theorem lastBackupByRepo_exact:
  assumes "lastBackupByRepo False e = Some lb" "ebDB e = Some t"
  shows "distinct (map fst lb) \<and>
    (let S = (\<lambda>k. {jwCompletedAtNs r |r. r \<in> set t \<and> jwRepoID r = k \<and> jwAction r = ''backup'' \<and> jwState r = ''completed'' \<and> jwCompletedAtNs r > 0})
     in \<forall>k. map_of lb k = (if S k = {} then None else Some (Max (S k)))) \<and>
    (jAction snap \<noteq> ActionBackup \<and> jID snap \<notin> jwID ` set t \<longrightarrow>
       lastBackupByRepo False (handleJobEvent False False enc now snap evt e) = Some lb)"
proof -
  define ok where "ok = (\<lambda>r::jobRow. jwAction r = ''backup'' \<and> jwState r = ''completed'' \<and> jwCompletedAtNs r > 0)"
  define S where "S = (\<lambda>k. {jwCompletedAtNs r |r. r \<in> set t \<and> jwRepoID r = k \<and> jwAction r = ''backup'' \<and> jwState r = ''completed'' \<and> jwCompletedAtNs r > 0})"
  have lb: "lb = map (\<lambda>(k, g). (k, fold max (map jwCompletedAtNs g) 0)) (groupBy jwRepoID (filter ok t))"
    using assms by (simp add: lastBackupByRepo_def ok_def)
  have fst: "map fst lb = remdups (map jwRepoID (filter ok t))" unfolding lb groupBy_keys [symmetric] by (simp add: comp_def case_prod_beta)
  have S: "S k = jwCompletedAtNs ` set (filter (\<lambda>r. jwRepoID r = k) (filter ok t))" for k by (auto simp: S_def ok_def)
  have m: "map_of lb k = (if S k = {} then None else Some (Max (S k)))" for k
  proof (cases "k \<in> set (map fst lb)")
    case False
    then have "S k = {}" unfolding S fst by auto
    then show ?thesis using False by (simp add: map_of_eq_None_iff)
  next
    case True
    then have ne: "S k \<noteq> {}" unfolding S fst by auto
    have "(k, filter (\<lambda>r. jwRepoID r = k) (filter ok t)) \<in> set (groupBy jwRepoID (filter ok t))" using True by (auto simp: fst groupBy_mem)
    then have "(k, fold max (map jwCompletedAtNs (filter (\<lambda>r. jwRepoID r = k) (filter ok t))) 0) \<in> set lb" unfolding lb by force
    moreover have "fold max (map jwCompletedAtNs (filter (\<lambda>r. jwRepoID r = k) (filter ok t))) 0 = Max (insert 0 (S k))" by (simp add: fold_max S)
    moreover have "Max (insert 0 (S k)) = Max (S k)"
    proof -
      have "finite (S k)" unfolding S by simp
      moreover have "0 < Max (S k)" using Max_in [OF \<open>finite (S k)\<close> ne] by (auto simp: S_def)
      ultimately show ?thesis using ne by simp
    qed
    moreover have "distinct (map fst lb)" unfolding fst by simp
    ultimately show ?thesis using ne by (simp add: map_of_eq_Some_iff)
  qed
  have "lastBackupByRepo False (handleJobEvent False False enc now snap evt e) = Some lb" if h: "jAction snap \<noteq> ActionBackup" "jID snap \<notin> jwID ` set t"
  proof -
    have "ebDB (handleJobEvent False False enc now snap evt e) = Some (t @ [jobRowOf enc now snap])"
      using assms(2) h by (simp add: handleJobEvent_def upsertJob_def upsertJobRow_def jobRowOf_def)
    then show ?thesis using assms h by (simp add: lastBackupByRepo_def jobRowOf_def ActionBackup_def)
  qed
  then show ?thesis using m unfolding S_def [symmetric] Let_def by (simp add: fst)
qed

text \<open>Witness: a backup, then a check.\<close>

theorem lastBackupByRepo_exact_witness:
  "let e = handleJobEvent False False (\<lambda>_. Some ''P'') 10 (exSnap ''j'' ActionBackup JobCompleted (Some 4) (Some 9)) EventCompleted exBuffer in
   lastBackupByRepo False (handleJobEvent False False (\<lambda>_. Some ''P'') 12 (exSnap ''k'' ActionCheck JobCompleted (Some 10) (Some 11)) EventCompleted e) = Some [(''r'', 9)]"
proof -
  let ?e = "handleJobEvent False False (\<lambda>_. Some ''P'') 10 (exSnap ''j'' ActionBackup JobCompleted (Some 4) (Some 9)) EventCompleted exBuffer"
  obtain t where t: "ebDB ?e = Some t" "jwID ` set t = {''j''}" "lastBackupByRepo False ?e = Some [(''r'', 9)]"
    by (simp add: handleJobEvent_def upsertJob_def exBuffer_def upsertJobRow_def jobRowOf_def exSnap_def stateName_def lastBackupByRepo_def groupBy_def
        ActionBackup_def tsToNs_def)
  from lastBackupByRepo_exact [OF t(3,1), of "exSnap ''k'' ActionCheck JobCompleted (Some 10) (Some 11)"] t(2)
  show ?thesis by (simp add: exSnap_def ActionCheck_def ActionBackup_def)
qed

section \<open>The jobs of the fleet page\<close>

definition mergedJobs :: "jobPublic list \<Rightarrow> jobPublic list \<Rightarrow> jobPublic list" where
  "mergedJobs live persisted = live @ filter (\<lambda>jp. jID jp \<notin> jID ` set live) persisted"

lemma fleetJobs_merged:
  assumes "ebDB e = Some t" "ps = map (scanJob dec) (take fleetJobsCap (sort_key (\<lambda>r. - jwUpdatedAtNs r) t))"
  shows "fleetJobs False dec live (Some e) = take fleetJobsCap (rev (sort_key jobRecency (mergedJobs live ps)))"
  using assms by (simp add: fleetJobs_def listRecentJobs_def mergedJobs_def Let_def)

lemma fleet_order: "sorted_wrt (\<lambda>a b. jobRecency b \<le> jobRecency a) (rev (sort_key jobRecency xs))"
  using sorted_sort_key [of jobRecency xs] by (simp add: sorted_wrt_rev sorted_map)

text \<open>The fleet page shows at most fifty jobs, each once, most recent first; a job in memory is shown as it is there and not as the
  table has it; and a job that is left out is no more recent than any that is shown.\<close>

theorem fleetJobs_exact:
  assumes "ebDB e = Some t" "distinct (map jwID t)" "distinct (map jID live)"
  shows "(let out = fleetJobs False dec live (Some e);
              every = mergedJobs live (map (scanJob dec) (take fleetJobsCap (sort_key (\<lambda>r. - jwUpdatedAtNs r) t)))
     in length out = min fleetJobsCap (length every) \<and> distinct (map jID out) \<and> sorted_wrt (\<lambda>a b. jobRecency b \<le> jobRecency a) out \<and> set out \<subseteq> set every \<and>
        (\<forall>j\<in>set out. jID j \<in> jID ` set live \<longrightarrow> j \<in> set live) \<and>
        (\<forall>j\<in>set every - set out. \<forall>k\<in>set out. jobRecency j \<le> jobRecency k))"
proof -
  define ps where "ps = map (scanJob dec) (take fleetJobsCap (sort_key (\<lambda>r. - jwUpdatedAtNs r) t))"
  define xs where "xs = rev (sort_key jobRecency (mergedJobs live ps))"
  have out: "fleetJobs False dec live (Some e) = take fleetJobsCap xs" unfolding xs_def by (rule fleetJobs_merged [OF assms(1) ps_def])
  have set: "set xs = set (mergedJobs live ps)" "length xs = length (mergedJobs live ps)" by (simp_all add: xs_def)
  have "distinct (map jwID (sort_key (\<lambda>r. - jwUpdatedAtNs r) t))" using assms(2) by (simp add: distinct_map)
  then have "distinct (map jwID (take fleetJobsCap (sort_key (\<lambda>r. - jwUpdatedAtNs r) t)))" by (simp flip: take_map)
  moreover have "jID (scanJob dec r) = jwID r" for r by (simp add: scanJob_def)
  ultimately have dp: "distinct (map jID ps)" by (simp add: ps_def comp_def)
  have "distinct (map jID (mergedJobs live ps))" using assms(3) dp unfolding mergedJobs_def map_append distinct_append by (auto simp: distinct_map_filter intro: rev_image_eqI)
  then have d: "distinct (map jID xs)" by (simp add: xs_def distinct_map)
  have srt: "sorted_wrt (\<lambda>a b. jobRecency b \<le> jobRecency a) (take fleetJobsCap xs @ drop fleetJobsCap xs)" unfolding append_take_drop_id xs_def by (rule fleet_order)
  have "jobRecency j \<le> jobRecency k" if "j \<in> set xs - set (take fleetJobsCap xs)" "k \<in> set (take fleetJobsCap xs)" for j k
  proof -
    have "j \<in> set (drop fleetJobsCap xs)" using that(1) by (metis DiffE Un_iff append_take_drop_id set_append)
    then show ?thesis using srt that(2) unfolding sorted_wrt_append by blast
  qed
  moreover have "j \<in> set live" if "j \<in> set (take fleetJobsCap xs)" "jID j \<in> jID ` set live" for j
    using in_set_takeD [OF that(1)] that(2) set(1) by (auto simp: mergedJobs_def)
  moreover have "distinct (map jID (take fleetJobsCap xs))" using d by (simp flip: take_map)
  ultimately show ?thesis using set srt set_take_subset [of fleetJobsCap xs] unfolding ps_def [symmetric] out Let_def by (simp add: sorted_wrt_append min.commute)
qed

text \<open>Witness: a running backup, also in the table, and an older check.\<close>

theorem fleetJobs_exact_witness:
  "let out = fleetJobs False (\<lambda>_. None) [exSnap ''a'' ActionBackup JobRunning (Some 4) None] (Some exOrphans) in length out = 2 \<and> distinct (map jID out)"
proof -
  obtain t where t: "ebDB exOrphans = Some t" "map jwID t = [''b'', ''a'']"
    by (simp add: exOrphans_def handleJobEvent_def upsertJob_def exBuffer_def upsertJobRow_def jobRowOf_def exSnap_def)
  have d: "distinct (map jwID t)" "distinct (map jID [exSnap ''a'' ActionBackup JobRunning (Some 4) None])" unfolding t(2) by simp_all
  have "length (fleetJobs False (\<lambda>_. None) [exSnap ''a'' ActionBackup JobRunning (Some 4) None] (Some exOrphans)) = 2" by code_simp
  with fleetJobs_exact [OF t(1) d] show ?thesis by (simp add: Let_def)
qed

text \<open>Queued jobs vanish from the fleet page: a job without a time, as every job waiting for its turn is, is left out as soon as fifty other
  jobs, finished ones included, have one.\<close>

theorem fleetJobs_drops_queued:
  assumes "ebDB e = Some t" "jobRecency j = None"
    "fleetJobsCap \<le> length (filter (\<lambda>k. jobRecency k \<noteq> None) (mergedJobs live (map (scanJob dec) (take fleetJobsCap (sort_key (\<lambda>r. - jwUpdatedAtNs r) t)))))"
  shows "j \<notin> set (fleetJobs False dec live (Some e))"
proof
  define ps where "ps = map (scanJob dec) (take fleetJobsCap (sort_key (\<lambda>r. - jwUpdatedAtNs r) t))"
  define xs where "xs = rev (sort_key jobRecency (mergedJobs live ps))"
  have out: "fleetJobs False dec live (Some e) = take fleetJobsCap xs" unfolding xs_def by (rule fleetJobs_merged [OF assms(1) ps_def])
  assume j: "j \<in> set (fleetJobs False dec live (Some e))"
  have srt: "sorted_wrt (\<lambda>a b. jobRecency b \<le> jobRecency a) (take fleetJobsCap xs @ drop fleetJobsCap xs)" unfolding append_take_drop_id xs_def by (rule fleet_order)
  have "jobRecency k = None" if "k \<in> set (drop fleetJobsCap xs)" for k
  proof -
    have "jobRecency k \<le> jobRecency j" using srt j that unfolding out sorted_wrt_append by blast
    then show ?thesis using assms(2) by (cases "jobRecency k") simp_all
  qed
  then have "filter (\<lambda>k. jobRecency k \<noteq> None) (drop fleetJobsCap xs) = []" by (simp add: filter_empty_conv)
  then have "filter (\<lambda>k. jobRecency k \<noteq> None) xs = filter (\<lambda>k. jobRecency k \<noteq> None) (take fleetJobsCap xs)" by (metis append_Nil2 append_take_drop_id filter_append)
  moreover have "length (filter (\<lambda>k. jobRecency k \<noteq> None) (take fleetJobsCap xs)) < length (take fleetJobsCap xs)"
    by (rule length_filter_less [of j]) (use j assms(2) in \<open>simp_all add: out\<close>)
  moreover have "length (filter (\<lambda>k. jobRecency k \<noteq> None) xs) = length (filter (\<lambda>k. jobRecency k \<noteq> None) (mergedJobs live ps))"
    by (simp add: xs_def rev_filter [symmetric] filter_sort)
  ultimately show False using assms(3) unfolding ps_def [symmetric] by simp
qed

definition exBusy :: "eventBuffer" where
  "exBusy = exBuffer\<lparr>ebDB := Some (map (\<lambda>n. jobRowOf (\<lambda>_. None) (int n) (exSnap (itoa (int n)) ActionCheck JobCompleted (Some 1) (Some (int n + 2)))) [0..<50])\<rparr>"

text \<open>Witness: one queued copy after fifty finished checks.\<close>

theorem fleetJobs_drops_queued_witness:
  "exSnap ''q'' ActionCopy JobPending None None \<notin> set (fleetJobs False (\<lambda>_. None) [exSnap ''q'' ActionCopy JobPending None None] (Some exBusy))"
proof -
  let ?q = "exSnap ''q'' ActionCopy JobPending None None"
  let ?t = "map (\<lambda>n. jobRowOf (\<lambda>_. None) (int n) (exSnap (itoa (int n)) ActionCheck JobCompleted (Some 1) (Some (int n + 2)))) [0..<50]"
  let ?ps = "map (scanJob (\<lambda>_. None)) (take fleetJobsCap (sort_key (\<lambda>r. - jwUpdatedAtNs r) ?t))"
  have l: "length (sort_key (\<lambda>r. - jwUpdatedAtNs r) ?t) = 50" by simp
  have p: "jID j \<noteq> ''q'' \<and> jobRecency j \<noteq> None" if jm: "j \<in> set ?ps" for j
  proof -
    obtain r where r0: "r \<in> set (take fleetJobsCap (sort_key (\<lambda>r. - jwUpdatedAtNs r) ?t))" "j = scanJob (\<lambda>_. None) r" using jm unfolding set_map by blast
    then have r: "r \<in> set ?t" "j = scanJob (\<lambda>_. None) r" using in_set_takeD [OF r0(1)] by (simp_all only: set_sort)
    then obtain n where n: "r = jobRowOf (\<lambda>_. None) (int n) (exSnap (itoa (int n)) ActionCheck JobCompleted (Some 1) (Some (int n + 2)))" by auto
    have "list_all isDigit (itoa (int n))" by (simp add: itoa_def natDigits_isDigit)
    then have "itoa (int n) \<noteq> ''q''" by (auto simp: isDigit_def)
    then show ?thesis using r(2) n by (simp add: scanJob_def jobRowOf_def exSnap_def jobRecency_def nsToTime_def tsToNs_def)
  qed
  have "filter (\<lambda>jp. jID jp \<notin> jID ` set [?q]) ?ps = ?ps" by (rule filter_True) (use p in \<open>simp add: exSnap_def\<close>)
  moreover have "filter (\<lambda>k. jobRecency k \<noteq> None) ?ps = ?ps" by (rule filter_True) (use p in simp)
  moreover have "length ?ps = 50" using l by (simp add: fleetJobsCap_def)
  ultimately have c: "fleetJobsCap \<le> length (filter (\<lambda>k. jobRecency k \<noteq> None) (mergedJobs [?q] ?ps))"
    unfolding mergedJobs_def filter_append length_append by (simp add: fleetJobsCap_def)
  have t: "ebDB exBusy = Some ?t" by (simp add: exBusy_def)
  have n: "jobRecency ?q = None" by (simp add: jobRecency_def exSnap_def)
  show ?thesis by (rule fleetJobs_drops_queued [OF t n c])
qed

end
