(* ===== verification/Housekeeping.thy ===== *)
theory Housekeeping
  imports Events
begin

text \<open>
  The files and figures the agent keeps beside its work: the log of a finished job (job_logs.go), the heartbeat that tells a
  crash from a stop (heartbeat.go), the memory peaks of its children (child_rss.go), the compose projects offered for a new
  repository (compose.go), and the configuration (config.go, the level of logging_setup.go). The theorems: a log read back is
  the ring of the job; pruning keeps the newest; what a boot reports is decided by the last beat that was written; the
  peaks are maxima; each project is found once, as the walk of its root alone would find it; the lists and maps of the environment are
  read as written, and the agent starts only with what it needs.
\<close>

section \<open>Job logs\<close>

definition jobLogRetainN :: nat where "jobLogRetainN = 200"

datatype logError = NoLogDir | LogMkdir | LogWrite | LogRename

record logFault =
  lfMkdir :: bool
  lfWrite :: bool
  lfRename :: bool

definition logContent :: "string list \<Rightarrow> string" where
  "logContent ls =
     (let content = joinChar newline ls
      in if \<not> hasSuffix content [newline] \<and> length ls > 0 then content @ [newline] else content)"

text \<open>Files are paths with contents; a failed write may leave the file as it was.\<close>

definition flushJobLog :: "logFault \<Rightarrow> string \<Rightarrow> Job \<Rightarrow> (string \<times> string) list \<Rightarrow> logError option \<times> (string \<times> string) list" where
  "flushJobLog fl dir j fs =
     (if dir = [] then (Some NoLogDir, fs)
      else if lfMkdir fl then (Some LogMkdir, fs)
      else let target = pathJoin [dir, jID j @ ''.log'']; tmp = target @ ''.tmp''
           in if lfWrite fl then (Some LogWrite, fs)
              else if lfRename fl then (Some LogRename, AList.delete tmp fs)
              else (None, AList.update target (logContent (jRing j)) (AList.delete tmp fs)))"

datatype logResp = LogData string | LogReadError | LogNotFound

definition handleGetJobLog :: "(string \<Rightarrow> bool) \<Rightarrow> string \<Rightarrow> string \<Rightarrow> (string \<times> Job) list \<Rightarrow> (string \<times> string) list \<Rightarrow> logResp" where
  "handleGetJobLog readFails configDir jid jobs fs =
     (let path = pathJoin [configDir, ''job-logs'', jid @ ''.log'']
      in if configDir \<noteq> [] \<and> readFails path then LogReadError
         else case (if configDir = [] then None else map_of fs path) of
           Some d \<Rightarrow> LogData d
         | None \<Rightarrow> (case map_of jobs jid of Some j \<Rightarrow> LogData (joinChar newline (jRing j)) | None \<Rightarrow> LogNotFound))"

record logEntry =
  leName :: string
  leIsDir :: bool
  leModTime :: "int option"  \<comment> \<open>\<open>None\<close> when \<open>Info\<close> fails\<close>

text \<open>\<open>sort.Slice\<close> is not stable: files of equal age may come in any order.\<close>

definition pruneJobLogs :: "(string \<Rightarrow> bool) \<Rightarrow> string \<Rightarrow> nat \<Rightarrow> logEntry list option \<Rightarrow> logEntry list option" where
  "pruneJobLogs rmFails dir keepN ents =
     (if dir = [] then ents
      else case ents of
        None \<Rightarrow> None
      | Some es \<Rightarrow>
          let files = filter (\<lambda>e. \<not> leIsDir e \<and> hasSuffix (leName e) ''.log'' \<and> leModTime e \<noteq> None) es
          in if length files \<le> keepN then Some es
             else let old = drop keepN (rev (sort_key leModTime files))
                  in Some (filter (\<lambda>e. \<not> (e \<in> set old \<and> \<not> rmFails (leName e))) es))"

section \<open>The heartbeat\<close>

datatype bootReport = NotReported | FirstBoot | BeatUnreadable | BeatUnparsable | CleanStop | ClockSkew int | ShortGap int | LongGap int

datatype beatFile = BeatMissing | BeatUnread | Beat string

text \<open>One write: temporary file and rename, either of which may fail and leaves the old file.\<close>

definition beatWrite :: "bool \<Rightarrow> int \<Rightarrow> beatFile \<Rightarrow> beatFile" where
  "beatWrite fails unixNano f = (if fails then f else Beat (itoa unixNano))"

datatype beatStep = Tick bool int | Stop bool

text \<open>\<open>heartbeatLoop\<close>: beats until the context is done, which ends it with the mark of a clean stop.\<close>

fun heartbeatLoop :: "string \<Rightarrow> beatStep list \<Rightarrow> beatFile \<Rightarrow> beatFile" where
  "heartbeatLoop configDir [] f = f"
| "heartbeatLoop configDir (s # ss) f =
     (if configDir = [] then f
      else case s of
        Tick fails now \<Rightarrow> heartbeatLoop configDir ss (beatWrite fails now f)
      | Stop fails \<Rightarrow> beatWrite fails 0 f)"

definition twoMinutes :: int where "twoMinutes = 120 * 1000000000"

definition reportBootGap :: "string \<Rightarrow> int \<Rightarrow> beatFile \<Rightarrow> bootReport" where
  "reportBootGap configDir now f =
     (if configDir = [] then NotReported
      else case f of
        BeatMissing \<Rightarrow> FirstBoot
      | BeatUnread \<Rightarrow> BeatUnreadable
      | Beat s \<Rightarrow>
          (case atoi (trimSpace s) of
             (prevNano, ok) \<Rightarrow>
               if \<not> ok then BeatUnparsable
               else if prevNano = 0 then CleanStop
               else let gap = now - prevNano
                    in if gap < 0 then ClockSkew gap else if gap < twoMinutes then ShortGap gap else LongGap gap))"

section \<open>Memory of the children\<close>

text \<open>The process state: unknown, or the peak in kilobytes.\<close>

definition childMaxRSSKB :: "int option \<Rightarrow> int" where
  "childMaxRSSKB ps = (case ps of None \<Rightarrow> 0 | Some m \<Rightarrow> m)"

definition rssOf :: "(string \<times> int) list \<Rightarrow> string \<Rightarrow> int" where
  "rssOf mx kind = (case map_of mx kind of None \<Rightarrow> 0 | Some m \<Rightarrow> m)"

definition recordRSS :: "string \<Rightarrow> int option \<Rightarrow> (string \<times> int) list \<Rightarrow> int \<times> (string \<times> int) list" where
  "recordRSS kind ps mx =
     (let rss = childMaxRSSKB ps
      in if rss \<le> 0 then (0, mx) else (rss, if rss > rssOf mx kind then AList.update kind rss mx else mx))"

definition rssSnapshot :: "(string \<times> int) list \<Rightarrow> (string \<times> int) list" where
  "rssSnapshot mx = mx"

section \<open>Compose projects\<close>

record ComposeProject =
  cpName :: string
  cpWorkingDir :: string
  cpComposeFile :: string

definition composeFileNames :: "string list" where
  "composeFileNames = [''docker-compose.yml'', ''docker-compose.yaml'', ''compose.yml'', ''compose.yaml'']"

text \<open>A directory as the walk meets it: its name, which names in it are files (a \<open>Stat\<close> that finds no directory), and the
  directories in it, in lexical order (none when it cannot be listed). \<open>composeDepth\<close> is the bound of the scan.\<close>

datatype composeDir = ComposeDir string "string list" "composeDir list"

definition matchComposeFile :: "string list \<Rightarrow> string option" where
  "matchComposeFile fileNames = find (\<lambda>n. n \<in> set fileNames) composeFileNames"

definition composeDepth :: nat where "composeDepth = 3"

fun dirName :: "composeDir \<Rightarrow> string" where
  "dirName (ComposeDir n fs ds) = n"

fun composeWalk :: "nat \<Rightarrow> string \<Rightarrow> composeDir \<Rightarrow> ComposeProject list \<Rightarrow> ComposeProject list"
  and composeWalks :: "nat \<Rightarrow> string \<Rightarrow> composeDir list \<Rightarrow> ComposeProject list \<Rightarrow> ComposeProject list" where
  "composeWalk depth path (ComposeDir n fs ds) found =
     (if depth > composeDepth then found
      else if depth > 0 \<and> hasPrefix n ''.'' then found
      else case matchComposeFile fs of
        Some hit \<Rightarrow>
          if path \<in> cpWorkingDir ` set found then found
          else found @ [\<lparr>cpName = pathBase path, cpWorkingDir = path, cpComposeFile = hit\<rparr>]
      | None \<Rightarrow> composeWalks (Suc depth) path ds found)"
| "composeWalks depth path [] found = found"
| "composeWalks depth path (d # ds) found = composeWalks depth path ds (composeWalk depth (pathJoin [path, dirName d]) d found)"

text \<open>\<open>tree\<close> gives the directory of a root, \<open>None\<close> when it cannot be read or is none.\<close>

definition composeScan :: "(string \<Rightarrow> composeDir option) \<Rightarrow> string list \<Rightarrow> ComposeProject list" where
  "composeScan tree roots =
     sort_key cpWorkingDir
       (fold (\<lambda>r found. case tree (pathClean r) of None \<Rightarrow> found | Some d \<Rightarrow> composeWalk 0 (pathClean r) d found) roots [])"

definition handleListComposeProjects :: "(string \<Rightarrow> composeDir option) \<Rightarrow> string list option \<Rightarrow> ComposeProject list" where
  "handleListComposeProjects tree index =
     (case index of None \<Rightarrow> [] | Some roots \<Rightarrow> if roots = [] then [] else composeScan tree roots)"

section \<open>The configuration\<close>

definition splitCSV :: "string \<Rightarrow> string list" where
  "splitCSV s = filter (\<lambda>p. p \<noteq> []) (map trimSpace (splitChar CHR '','' s))"

definition parseMountMap :: "string \<Rightarrow> (string \<times> string) list" where
  "parseMountMap s =
     fold (\<lambda>p out. case cutChar CHR '':'' p of
             None \<Rightarrow> out
           | Some (host, container) \<Rightarrow> if host = [] \<or> container = [] then out else AList.update host container out)
       (splitCSV s) []"

definition requireEnv :: "(string \<Rightarrow> string) \<Rightarrow> string \<Rightarrow> string option" where
  "requireEnv env k = (if env k = [] then None else Some (env k))"

definition getEnv :: "(string \<Rightarrow> string) \<Rightarrow> string \<Rightarrow> string \<Rightarrow> string" where
  "getEnv env k dflt = (if env k \<noteq> [] then env k else dflt)"

definition getEnvInt :: "(string \<Rightarrow> string) \<Rightarrow> string \<Rightarrow> int \<Rightarrow> int" where
  "getEnvInt env k dflt =
     (let v = trimSpace (env k)
      in if v = [] then dflt else case atoi v of (n, ok) \<Rightarrow> if ok then n else dflt)"

text \<open>\<open>strconv.ParseBool\<close>.\<close>

definition parseBool :: "string \<Rightarrow> bool option" where
  "parseBool s =
     (if s \<in> {''1'', ''t'', ''T'', ''TRUE'', ''true'', ''True''} then Some True
      else if s \<in> {''0'', ''f'', ''F'', ''FALSE'', ''false'', ''False''} then Some False
      else None)"

definition getEnvBool :: "(string \<Rightarrow> string) \<Rightarrow> string \<Rightarrow> bool \<Rightarrow> bool" where
  "getEnvBool env k dflt =
     (let v = trimSpace (env k)
      in if v = [] then dflt else case parseBool v of None \<Rightarrow> dflt | Some b \<Rightarrow> b)"

text \<open>\<open>parseDuration\<close> is \<open>time.ParseDuration\<close>, in nanoseconds.\<close>

definition getEnvDuration :: "(string \<Rightarrow> int option) \<Rightarrow> (string \<Rightarrow> string) \<Rightarrow> string \<Rightarrow> int \<Rightarrow> int" where
  "getEnvDuration parseDuration env k dflt =
     (let v = trimSpace (env k)
      in if v = [] then dflt else case parseDuration v of None \<Rightarrow> dflt | Some d \<Rightarrow> d)"

definition readBearerToken :: "(string \<Rightarrow> string option) \<Rightarrow> string \<Rightarrow> string option" where
  "readBearerToken readFile path =
     (case readFile path of None \<Rightarrow> None | Some d \<Rightarrow> let tok = trimSpace d in if tok = [] then None else Some tok)"

record Config =
  cNodeName :: string
  cSiteID :: string
  cRemoteSite :: string
  cBackupRoots :: "string list"
  cBackupExcludePaths :: "string list"
  cLegacyBackuprootMap :: "(string \<times> string) list"
  cComposeScanRoots :: "string list"
  cConfigDir :: string
  cControlCenterURL :: string
  cTraefikDockerDNS :: string
  cTraefikDialPort :: string
  cDuplicacyBinary :: string
  cBearerTokenFile :: string
  cBearerToken :: string
  cRestoreScratchRoot :: string
  cCopyThreads :: int
  cMaxConcurrentCopies :: int
  cMaxConcurrentMaint :: int
  cListCacheEnabled :: bool
  cListCacheWarmN :: int
  cListCacheMaxBytes :: int
  cListCacheWarmInterval :: int
  cListCacheRowMaxBytes :: int
  cListMaxConcurrent :: int
  cListQueueWait :: int
  cListMaxHits :: int
  cTreeSizeEnabled :: bool
  cTreeSizeLargeFileThreshold :: int
  cTreeSizeSlowWalk :: int
  cTreeSizeLargeRefresh :: int
  cTreeSizeSmallRefresh :: int
  cTreeSizeWalkTimeout :: int
  cTreeSizeStepSleep :: int
  cTreeSizeStepEvery :: int
  cTreeSizeKeepDepth :: int
  cTreeSizeKeepMinFiles :: int
  cTreeSizeMaxEntries :: int
  cTreeSizeExcludePaths :: "string list"

definition second :: int where "second = 1000000000"

text \<open>\<open>None\<close> where the code exits.\<close>

definition loadConfig :: "(string \<Rightarrow> int option) \<Rightarrow> (string \<Rightarrow> string option) \<Rightarrow> (string \<Rightarrow> string) \<Rightarrow> Config option" where
  "loadConfig parseDuration readFile env =
     (case (requireEnv env ''NODE_NAME'', requireEnv env ''SITE_ID'', requireEnv env ''BACKUP_ROOTS'', requireEnv env ''CONTROL_CENTER_URL'') of
        (Some node, Some site, Some roots, Some url) \<Rightarrow>
          (case readBearerToken readFile (getEnv env ''BEARER_TOKEN_FILE'' ''/etc/duplicacy-agent-api/bearer-token'') of
             None \<Rightarrow> None
           | Some tok \<Rightarrow>
               Some \<lparr>cNodeName = node, cSiteID = site, cRemoteSite = getEnv env ''REMOTE_SITE'' [], cBackupRoots = splitCSV roots,
                  cBackupExcludePaths = splitCSV (getEnv env ''BACKUP_EXCLUDE_PATHS'' []),
                  cLegacyBackuprootMap = parseMountMap (getEnv env ''LEGACY_BACKUPROOT_MAP'' []),
                  cComposeScanRoots = splitCSV (getEnv env ''COMPOSE_SCAN_ROOTS'' []),
                  cConfigDir = getEnv env ''CONFIG_DIR'' ''/var/lib/duplicacy-agent-api'', cControlCenterURL = url,
                  cTraefikDockerDNS = getEnv env ''TRAEFIK_DOCKER_DNS'' [], cTraefikDialPort = getEnv env ''TRAEFIK_DIAL_PORT'' ''1443'',
                  cDuplicacyBinary = getEnv env ''DUPLICACY_BINARY'' ''/usr/local/bin/duplicacy'',
                  cBearerTokenFile = getEnv env ''BEARER_TOKEN_FILE'' ''/etc/duplicacy-agent-api/bearer-token'', cBearerToken = tok,
                  cRestoreScratchRoot = getEnv env ''RESTORE_SCRATCH_ROOT'' ''/tmp/duplicacy-restore'',
                  cCopyThreads = getEnvInt env ''DUPLICACY_COPY_THREADS'' 2,
                  cMaxConcurrentCopies = getEnvInt env ''DUPLICACY_MAX_CONCURRENT_COPIES'' 1,
                  cMaxConcurrentMaint = getEnvInt env ''DUPLICACY_MAX_CONCURRENT_MAINT'' 1,
                  cListCacheEnabled = getEnvBool env ''LIST_FILES_CACHE_ENABLED'' True,
                  cListCacheWarmN = getEnvInt env ''LIST_FILES_CACHE_WARM_N'' 5,
                  cListCacheMaxBytes = getEnvInt env ''LIST_FILES_CACHE_MAX_BYTES'' (2 ^ 30),
                  cListCacheWarmInterval = getEnvDuration parseDuration env ''LIST_FILES_CACHE_WARM_INTERVAL'' (30 * 60 * second),
                  cListCacheRowMaxBytes = getEnvInt env ''LIST_FILES_CACHE_ROW_MAX_BYTES'' (64 * 2 ^ 20),
                  cListMaxConcurrent = getEnvInt env ''LIST_FILES_MAX_CONCURRENT'' 1,
                  cListQueueWait = getEnvDuration parseDuration env ''LIST_FILES_QUEUE_WAIT'' (30 * second),
                  cListMaxHits = getEnvInt env ''LIST_FILES_MAX_CONCURRENT_HITS'' 4,
                  cTreeSizeEnabled = getEnvBool env ''TREE_SIZE_ENABLED'' True,
                  cTreeSizeLargeFileThreshold = getEnvInt env ''TREE_SIZE_LARGE_FILE_THRESHOLD'' 50000,
                  cTreeSizeSlowWalk = getEnvDuration parseDuration env ''TREE_SIZE_SLOW_WALK'' (30 * second),
                  cTreeSizeLargeRefresh = getEnvDuration parseDuration env ''TREE_SIZE_LARGE_REFRESH'' (24 * 3600 * second),
                  cTreeSizeSmallRefresh = getEnvDuration parseDuration env ''TREE_SIZE_SMALL_REFRESH'' (6 * 3600 * second),
                  cTreeSizeWalkTimeout = getEnvDuration parseDuration env ''TREE_SIZE_WALK_TIMEOUT'' (30 * 60 * second),
                  cTreeSizeStepSleep = getEnvDuration parseDuration env ''TREE_SIZE_STEP_SLEEP'' (2 * 1000000),
                  cTreeSizeStepEvery = getEnvInt env ''TREE_SIZE_STEP_EVERY'' 16,
                  cTreeSizeKeepDepth = getEnvInt env ''TREE_SIZE_KEEP_DEPTH'' 6,
                  cTreeSizeKeepMinFiles = getEnvInt env ''TREE_SIZE_KEEP_MIN_FILES'' 100,
                  cTreeSizeMaxEntries = getEnvInt env ''TREE_SIZE_MAX_ENTRIES'' 200000,
                  cTreeSizeExcludePaths = splitCSV (getEnv env ''TREE_SIZE_EXCLUDE_PATHS'' [])\<rparr>)
      | _ \<Rightarrow> None)"

datatype logLevel = LevelDebug | LevelInfo | LevelWarn | LevelError

definition parseLogLevel :: "string \<Rightarrow> logLevel" where
  "parseLogLevel level =
     (let l = toLower (trimSpace level)
      in if l = ''debug'' then LevelDebug else if l = ''warn'' then LevelWarn else if l = ''error'' then LevelError else LevelInfo)"

section \<open>A log read back\<close>

lemma pathJoin2: "a \<noteq> [] \<Longrightarrow> pathJoin [a, b] = pathClean (a @ sepChar # b)"
  by (simp add: pathJoin_def)

lemma pathJoin_three: "a \<noteq> [] \<Longrightarrow> pathJoin [a, b, c] = pathClean (a @ sepChar # b @ sepChar # c)"
  by (simp add: pathJoin_def)

lemma isAbs_append: "isAbs a \<Longrightarrow> isAbs (a @ x)"
  by (auto simp: isAbs_def prefix_def)

lemma cleanParts_join: "isAbs a \<Longrightarrow> cleanParts (a @ sepChar # x) = rev (foldl (cleanStep True) (rev (cleanParts a)) (splitChar sepChar x))"
  using isAbs_append [of a "sepChar # x"] by (simp add: cleanParts_def [of "a @ sepChar # x"] splitChar_append cleanParts_def [of a])

lemma pathJoin_assoc: "isAbs a \<Longrightarrow> pathJoin [pathJoin [a, b], c] = pathJoin [a, b, c]"
proof -
  assume a: "isAbs a"
  then have ne: "a \<noteq> []" by (auto simp: isAbs_def)
  let ?p = "pathClean (a @ sepChar # b)"
  have p: "isAbs ?p" using isAbs_append [OF a] by simp
  then have pne: "?p \<noteq> []" by (auto simp: isAbs_def)
  have "cleanParts (?p @ sepChar # c) = cleanParts ((a @ sepChar # b) @ sepChar # c)"
    using cleanParts_join [OF p] cleanParts_join [OF isAbs_append [OF a, of "sepChar # b"]] by simp
  moreover have "isAbs (?p @ sepChar # c) = isAbs ((a @ sepChar # b) @ sepChar # c)" using isAbs_append [OF p] isAbs_append [OF a] by simp
  ultimately have "pathClean (?p @ sepChar # c) = pathClean ((a @ sepChar # b) @ sepChar # c)" unfolding pathClean_eq_iff by blast
  then show ?thesis using ne pne by (simp add: pathJoin2 pathJoin_three)
qed

lemma joinChar_last: "ls \<noteq> [] \<Longrightarrow> last ls \<noteq> [] \<Longrightarrow> joinChar c ls \<noteq> [] \<and> last (joinChar c ls) = last (last ls)"
proof (induction ls)
  case (Cons x ls)
  then show ?case by (cases "ls = []") (auto simp: joinChar_Cons)
qed simp

text \<open>The log of a finished job is read back as the lines of its ring: what the handler serves after a successful flush, less the final
  newline, splits into them (if no line contains a newline and the last is not empty), whatever is still in memory; a flush that
  fails leaves every log as it was.\<close>

theorem flushJobLog_roundtrip:
  assumes "flushJobLog fl (pathJoin [configDir, ''job-logs'']) j fs = (e, fs')" "isAbs configDir" "jRing j \<noteq> []"
    "last (jRing j) \<noteq> []" "list_all (\<lambda>l. newline \<notin> set l) (jRing j)"
  shows "(e = None \<longrightarrow> (case handleGetJobLog (\<lambda>_. False) configDir (jID j) jobs fs' of
        LogData d \<Rightarrow> last d = newline \<and> splitChar newline (butlast d) = jRing j | _ \<Rightarrow> False)) \<and>
    (e \<noteq> None \<longrightarrow> (\<forall>p. hasSuffix p ''.log'' \<longrightarrow> map_of fs' p = map_of fs p))"
proof (intro conjI impI allI)
  let ?t = "pathJoin [pathJoin [configDir, ''job-logs''], jID j @ ''.log'']"
  have ne: "configDir \<noteq> []" using assms(2) by (auto simp: isAbs_def)
  have "last (jRing j) \<in> set (jRing j)" using assms(3) by simp
  then have "newline \<notin> set (last (jRing j))" using assms(5) by (simp add: list_all_iff)
  then have "last (joinChar newline (jRing j)) \<noteq> newline" using joinChar_last [OF assms(3,4), of newline] last_in_set [OF assms(4)] by metis
  then have nl: "\<not> hasSuffix (joinChar newline (jRing j)) [newline]" by (auto simp: suffix_def)
  {
    assume "e = None"
    then have fs': "map_of fs' ?t = Some (joinChar newline (jRing j) @ [newline])"
      using assms(1,3) nl by (auto simp: flushJobLog_def Let_def logContent_def update_conv' split: if_splits)
    have "splitChar newline (joinChar newline (jRing j)) = jRing j" using assms(3,5) by (intro splitChar_joinChar) (simp_all add: list_all_iff)
    then show "case handleGetJobLog (\<lambda>_. False) configDir (jID j) jobs fs' of
        LogData d \<Rightarrow> last d = newline \<and> splitChar newline (butlast d) = jRing j | _ \<Rightarrow> False"
      using fs' ne unfolding pathJoin_assoc [OF assms(2)] by (simp add: handleGetJobLog_def)
  next
    fix p assume e: "e \<noteq> None" and p: "hasSuffix p ''.log''"
    have "p \<noteq> ?t @ ''.tmp''" using p by (auto simp: suffix_def)
    then show "map_of fs' p = map_of fs p" using assms(1) e by (auto simp: flushJobLog_def Let_def delete_conv' split: if_splits)
  }
qed

text \<open>Witness: two lines.\<close>

theorem flushJobLog_roundtrip_witness:
  "case flushJobLog \<lparr>lfMkdir = False, lfWrite = False, lfRename = False\<rparr> (pathJoin [''/cfg'', ''job-logs'']) (exCheckJob\<lparr>jRing := [''one'', ''two'']\<rparr>) [] of (e, fs') \<Rightarrow>
     e = None \<and> (case handleGetJobLog (\<lambda>_. False) ''/cfg'' ''j'' [] fs' of LogData d \<Rightarrow> splitChar newline (butlast d) = [''one'', ''two''] | _ \<Rightarrow> False)"
proof -
  let ?fl = "\<lparr>lfMkdir = False, lfWrite = False, lfRename = False\<rparr>"
  let ?j = "exCheckJob\<lparr>jRing := [''one'', ''two'']\<rparr>"
  obtain e fs' where f: "flushJobLog ?fl (pathJoin [''/cfg'', ''job-logs'']) ?j [] = (e, fs')" by fastforce
  have "fst (flushJobLog ?fl (pathJoin [''/cfg'', ''job-logs'']) ?j []) = None" by code_simp
  then have e: "e = None" using f by simp
  have i: "jID ?j = ''j''" by (simp add: exCheckJob_def newJob_def)
  from flushJobLog_roundtrip [OF f, of "[]"] e i show ?thesis unfolding f by (auto simp: isAbs_def newline_def split: logResp.splits)
qed

section \<open>Pruning\<close>

text \<open>Pruning the job logs keeps the newest: what is removed is a log file, at most \<open>keepN\<close> logs remain (all of them if there are no more), no
  log that is removed is newer than one that stays, and everything else in the directory stays.\<close>

theorem pruneJobLogs_newest:
  assumes "pruneJobLogs (\<lambda>_. False) dir keepN (Some es) = Some es'" "distinct (map leName es)" "dir \<noteq> []"
  shows "(let isLog = (\<lambda>e. \<not> leIsDir e \<and> hasSuffix (leName e) ''.log'' \<and> leModTime e \<noteq> None)
     in length (filter isLog es') = min keepN (length (filter isLog es)) \<and> filter (\<lambda>e. \<not> isLog e) es' = filter (\<lambda>e. \<not> isLog e) es \<and>
        (\<forall>e\<in>set es - set es'. isLog e \<and> (\<forall>f\<in>set es'. isLog f \<longrightarrow> leModTime e \<le> leModTime f)))"
proof -
  define isLog where "isLog = (\<lambda>e::logEntry. \<not> leIsDir e \<and> hasSuffix (leName e) ''.log'' \<and> leModTime e \<noteq> None)"
  define fs where "fs = filter isLog es"
  define xs where "xs = rev (sort_key leModTime fs)"
  have "distinct es" using assms(2) by (simp add: distinct_map)
  then have dfs: "distinct fs" by (simp add: fs_def)
  have dx: "distinct xs" "set xs = set fs" "length xs = length fs" using dfs by (simp_all add: xs_def)
  have es': "es' = (if length fs \<le> keepN then es else filter (\<lambda>e. e \<notin> set (drop keepN xs)) es)"
    using assms(1,3) unfolding pruneJobLogs_def xs_def fs_def isLog_def Let_def by (simp split: if_splits)
  show ?thesis
  proof (cases "length fs \<le> keepN")
    case True
    then show ?thesis unfolding isLog_def [symmetric] Let_def es' by (simp add: fs_def)
  next
    case False
    have srt: "sorted_wrt (\<lambda>a b. leModTime b \<le> leModTime a) (take keepN xs @ drop keepN xs)"
      using sorted_sort_key [of leModTime fs] by (simp add: xs_def sorted_wrt_rev sorted_map)
    have old: "set (drop keepN xs) \<subseteq> set fs" using dx(2) set_drop_subset by metis
    have l: "filter isLog es' = filter (\<lambda>e. e \<notin> set (drop keepN xs)) fs" using False by (simp add: es' fs_def conj_commute)
    have ks: "set (filter (\<lambda>e. e \<notin> set (drop keepN xs)) fs) = set (take keepN xs)"
      using dx set_take_disj_set_drop_if_distinct [of xs keepN keepN] by (auto simp flip: dx(2)) (metis Un_iff append_take_drop_id set_append)+
    then have "length (filter isLog es') = length (take keepN xs)"
      using distinct_card [OF distinct_filter [OF dfs]] distinct_card [OF distinct_take [OF dx(1)]] l by metis
    moreover have "filter (\<lambda>e. \<not> isLog e) es' = filter (\<lambda>e. \<not> isLog e) es"
      using old False by (auto simp: es' fs_def intro!: filter_cong)
    moreover have "isLog e \<and> (\<forall>f\<in>set es'. isLog f \<longrightarrow> leModTime e \<le> leModTime f)" if "e \<in> set es - set es'" for e
    proof -
      have e: "e \<in> set (drop keepN xs)" using that False by (auto simp: es')
      moreover have "f \<in> set (take keepN xs)" if "f \<in> set es'" "isLog f" for f using that ks l by (metis (no_types, lifting) filter_set mem_Collect_eq set_filter)
      ultimately show ?thesis using old srt unfolding sorted_wrt_append fs_def by auto
    qed
    ultimately show ?thesis using dx(3) False unfolding isLog_def [symmetric] fs_def [symmetric] Let_def by simp
  qed
qed

text \<open>Witness: three logs and another file, two kept.\<close>

theorem pruneJobLogs_newest_witness:
  "\<exists>es'. pruneJobLogs (\<lambda>_. False) ''/l'' 2 (Some (map (\<lambda>(n, t). \<lparr>leName = n, leIsDir = False, leModTime = t\<rparr>)
       [(''a.log'', Some 3), (''b.log'', Some 1), (''c.log'', Some 2), (''d'', Some 0)])) = Some es' \<and> length (filter (\<lambda>e. leName e \<noteq> ''d'') es') = 2"
proof -
  let ?es = "map (\<lambda>(n, t). \<lparr>leName = n, leIsDir = False, leModTime = t\<rparr>) [(''a.log'', Some 3), (''b.log'', Some 1), (''c.log'', Some 2), (''d'', Some (0 :: int))]"
  obtain es' where e: "pruneJobLogs (\<lambda>_. False) ''/l'' 2 (Some ?es) = Some es'"
  proof -
    have "pruneJobLogs (\<lambda>_. False) ''/l'' 2 (Some ?es) \<noteq> None" by code_simp
    then show ?thesis using that by blast
  qed
  have "map_option (\<lambda>es. length (filter (\<lambda>e. leName e \<noteq> ''d'') es)) (pruneJobLogs (\<lambda>_. False) ''/l'' 2 (Some ?es)) = Some 2" by code_simp
  moreover have "distinct (map leName ?es)" by simp
  ultimately show ?thesis using e pruneJobLogs_newest [OF e] by simp
qed

section \<open>What a boot reports\<close>

lemma heartbeatLoop_ticks: "configDir \<noteq> [] \<Longrightarrow> heartbeatLoop configDir (map (Tick False) ts @ rest) f =
    heartbeatLoop configDir rest (if ts = [] then f else Beat (itoa (last ts)))"
  by (induction ts arbitrary: f) (simp_all add: beatWrite_def)

lemma digits_noSpace: "list_all (\<lambda>c. \<not> isSpace c) (itoa i)"
proof -
  have "\<not> isSpace x" if "x \<in> set (natDigits n)" for x n using natDigits_isDigit [of n] that digit_plain unfolding list_all_iff by blast
  then show ?thesis by (auto simp: itoa_def list_all_iff isSpace_def)
qed

text \<open>What a boot reports is decided by the last write of the previous instance: after a stop whose mark was written, that the stop was
  clean, however long ago; after a crash or a kill, or when the mark could not be written, the time since the last beat, as a short gap
  below two minutes and as a long one from there, and a skew of the clock when the beat lies ahead.\<close>

theorem reportBootGap_exact:
  assumes "configDir \<noteq> []" "ts \<noteq> []" "last ts \<noteq> 0" "minInt64 \<le> last ts" "last ts \<le> maxInt64"
  shows "reportBootGap configDir now (heartbeatLoop configDir (map (Tick False) ts @ [Stop False]) f) = CleanStop \<and>
    (\<forall>rest\<in>{[], [Stop True]}. reportBootGap configDir now (heartbeatLoop configDir (map (Tick False) ts @ rest) f) =
       (let gap = now - last ts in if gap < 0 then ClockSkew gap else if gap < 120 * 1000000000 then ShortGap gap else LongGap gap))"
proof -
  have t: "trimSpace (itoa i) = itoa i" for i by (rule trimSpace_id [OF digits_noSpace])
  have z: "atoi (itoa 0) = (0, True)" by (rule atoi_itoa) (simp_all add: minInt64_def maxInt64_def)
  have l: "atoi (itoa (last ts)) = (last ts, True)" by (rule atoi_itoa [OF assms(4,5)])
  show ?thesis using assms(1-3) z l
    by (simp add: heartbeatLoop_ticks reportBootGap_def beatWrite_def t twoMinutes_def Let_def)
qed

text \<open>Witness: two beats, a boot an hour later.\<close>

theorem reportBootGap_exact_witness:
  "reportBootGap ''/c'' 3600000000000 (heartbeatLoop ''/c'' [Tick False 5, Tick False 9] BeatMissing) = LongGap 3599999999991 \<and>
   reportBootGap ''/c'' 3600000000000 (heartbeatLoop ''/c'' [Tick False 5, Tick False 9, Stop False] BeatMissing) = CleanStop"
  using reportBootGap_exact [of "''/c''" "[5, 9]" 3600000000000 BeatMissing] by (simp add: minInt64_def maxInt64_def)

section \<open>The peaks\<close>

lemma rssOf_record: "rssOf (snd (recordRSS k ps mx)) k' = (if k' = k then max (rssOf mx k) (if childMaxRSSKB ps > 0 then childMaxRSSKB ps else rssOf mx k) else rssOf mx k')"
  by (simp add: recordRSS_def rssOf_def Let_def update_conv' max_def)

text \<open>The figure of a kind is the largest peak of its children, 0 when none is known.\<close>

theorem recordRSS_max:
  "rssOf (fold (\<lambda>(k, ps) mx. snd (recordRSS k ps mx)) cs []) kind = Max (insert 0 (childMaxRSSKB ` snd ` {c \<in> set cs. fst c = kind}))"
proof (induction cs rule: rev_induct)
  case Nil
  then show ?case by (simp add: rssOf_def)
next
  case (snoc c cs)
  obtain k ps where c: "c = (k, ps)" by (cases c)
  let ?S = "insert 0 (childMaxRSSKB ` snd ` {c \<in> set cs. fst c = kind})"
  have fin: "finite ?S" "?S \<noteq> {}" "0 \<le> Max ?S" by (simp_all add: Max_ge)
  define F where "F = fold (\<lambda>(k, ps) mx. snd (recordRSS k ps mx)) cs []"
  define M where "M = Max ?S"
  have F: "rssOf F kind = M" using snoc by (simp only: F_def M_def)
  have step: "rssOf (fold (\<lambda>(k, ps) mx. snd (recordRSS k ps mx)) (cs @ [c]) []) kind = rssOf (snd (recordRSS k ps F)) kind" by (simp add: F_def c)
  show ?case
  proof (cases "k = kind")
    case True
    then have "{x \<in> set (cs @ [c]). fst x = kind} = insert c {x \<in> set cs. fst x = kind}" by (auto simp: c)
    then have "insert 0 (childMaxRSSKB ` snd ` {x \<in> set (cs @ [c]). fst x = kind}) = insert (childMaxRSSKB ps) ?S"
      by (simp only: image_insert c snd_conv insert_commute [of 0])
    then have "Max (insert 0 (childMaxRSSKB ` snd ` {x \<in> set (cs @ [c]). fst x = kind})) = max (childMaxRSSKB ps) M"
      using Max_insert [OF fin(1,2)] by (simp only: M_def)
    then show ?thesis using True fin(3) F unfolding step rssOf_record M_def [symmetric] by (simp only:) (simp add: max_def)
  next
    case False
    then have "{x \<in> set (cs @ [c]). fst x = kind} = {x \<in> set cs. fst x = kind}" by (auto simp: c)
    then show ?thesis using False F unfolding step rssOf_record by (simp add: M_def)
  qed
qed

section \<open>Lists and maps of the environment\<close>

definition csvOk :: "string \<Rightarrow> bool" where
  "csvOk s \<longleftrightarrow> s \<noteq> [] \<and> list_all (\<lambda>c. \<not> isSpace c \<and> c \<noteq> CHR '','') s"

lemma csvOk_trim: "csvOk s \<Longrightarrow> trimSpace s = s"
  by (rule trimSpace_id) (simp add: csvOk_def list_all_iff)

lemma csvOk_colon: "csvOk a \<Longrightarrow> csvOk b \<Longrightarrow> csvOk (a @ CHR '':'' # b)"
proof -
  have "\<not> isSpace CHR '':''" by (simp add: isSpace_def)
  then show "csvOk a \<Longrightarrow> csvOk b \<Longrightarrow> csvOk (a @ CHR '':'' # b)" by (simp add: csvOk_def)
qed

lemma splitCSV_join: "list_all csvOk xs \<Longrightarrow> splitCSV (joinChar CHR '','' xs) = xs"
proof (cases "xs = []")
  case False
  assume ok: "list_all csvOk xs"
  have "splitChar CHR '','' (joinChar CHR '','' xs) = xs" using False ok by (intro splitChar_joinChar) (auto simp: list_all_iff csvOk_def)
  moreover have "map trimSpace xs = xs" using ok by (intro map_idI csvOk_trim) (simp add: list_all_iff)
  moreover have "filter (\<lambda>p. p \<noteq> []) xs = xs" using ok by (intro filter_True) (auto simp: list_all_iff csvOk_def)
  ultimately show ?thesis by (simp add: splitCSV_def)
qed (simp add: splitCSV_def trimSpace_def trimRightFunc_def trimLeftFunc_def)

lemma splitCSV_clean: "p \<in> set (splitCSV s) \<Longrightarrow> p \<noteq> []"
  by (auto simp: splitCSV_def)

definition mountEntry :: "string \<times> string \<Rightarrow> string" where
  "mountEntry p = fst p @ CHR '':'' # snd p"

text \<open>A map that is written as host:container pairs is read as that map, the last pair of a host winning; hosts contain no colon.\<close>

theorem parseMountMap_written:
  assumes "list_all (\<lambda>p. csvOk (fst p) \<and> csvOk (snd p) \<and> CHR '':'' \<notin> set (fst p)) ps"
  shows "map_of (parseMountMap (joinChar CHR '','' (map mountEntry ps))) = map_of (rev ps)"
proof -
  have "list_all csvOk (map mountEntry ps)" using assms csvOk_colon by (simp add: list_all_iff mountEntry_def)
  then have s: "splitCSV (joinChar CHR '','' (map mountEntry ps)) = map mountEntry ps" by (rule splitCSV_join)
  have f: "fold (\<lambda>p out. case cutChar CHR '':'' p of None \<Rightarrow> out
       | Some (host, container) \<Rightarrow> if host = [] \<or> container = [] then out else AList.update host container out) (map mountEntry ps) m =
     fold (\<lambda>p. AList.update (fst p) (snd p)) ps m" for m
    using assms
  proof (induction ps arbitrary: m)
    case (Cons p ps)
    then show ?case by (cases p) (simp add: mountEntry_def cutChar_append csvOk_def)
  qed simp
  have "map_of (fold (\<lambda>p. AList.update (fst p) (snd p)) qs m) = map_of m ++ map_of (rev qs)" for qs m
    by (induction qs arbitrary: m) (auto simp: update_conv' map_add_def fun_eq_iff split: option.splits)
  from this [of ps "[]"] show ?thesis unfolding parseMountMap_def s f by simp
qed

text \<open>The agent starts with a configuration exactly when the four variables without a default are set and the token file has a token in it; and
  then the lists have no blank entries and a number that does not parse is the default.\<close>

theorem loadConfig_starts:
  "(loadConfig parseDuration readFile env \<noteq> None \<longleftrightarrow>
      env ''NODE_NAME'' \<noteq> [] \<and> env ''SITE_ID'' \<noteq> [] \<and> env ''BACKUP_ROOTS'' \<noteq> [] \<and> env ''CONTROL_CENTER_URL'' \<noteq> [] \<and>
      (\<exists>d. readFile (getEnv env ''BEARER_TOKEN_FILE'' ''/etc/duplicacy-agent-api/bearer-token'') = Some d \<and> trimSpace d \<noteq> [])) \<and>
   (case loadConfig parseDuration readFile env of
      None \<Rightarrow> True
    | Some cfg \<Rightarrow> [] \<notin> set (cBackupRoots cfg) \<and> [] \<notin> set (cTreeSizeExcludePaths cfg) \<and> cBearerToken cfg \<noteq> [] \<and>
        (snd (atoi (trimSpace (env ''DUPLICACY_COPY_THREADS''))) \<or> cCopyThreads cfg = 2))"
proof -
  define tok where "tok = readBearerToken readFile (getEnv env ''BEARER_TOKEN_FILE'' ''/etc/duplicacy-agent-api/bearer-token'')"
  have t: "tok \<noteq> None \<longleftrightarrow> (\<exists>d. readFile (getEnv env ''BEARER_TOKEN_FILE'' ''/etc/duplicacy-agent-api/bearer-token'') = Some d \<and> trimSpace d \<noteq> [])"
    unfolding tok_def by (auto simp: readBearerToken_def Let_def split: option.splits)
  have tn: "tok = Some x \<Longrightarrow> x \<noteq> []" for x unfolding tok_def by (auto simp: readBearerToken_def Let_def split: option.splits if_splits)
  have th: "snd (atoi (trimSpace (env ''DUPLICACY_COPY_THREADS''))) \<or> getEnvInt env ''DUPLICACY_COPY_THREADS'' 2 = 2"
    by (simp add: getEnvInt_def Let_def split: prod.split)
  show ?thesis
  proof (cases "env ''NODE_NAME'' \<noteq> [] \<and> env ''SITE_ID'' \<noteq> [] \<and> env ''BACKUP_ROOTS'' \<noteq> [] \<and> env ''CONTROL_CENTER_URL'' \<noteq> []")
    case True
    show ?thesis
    proof (cases tok)
      case None
      then have "loadConfig parseDuration readFile env = None" by (simp add: loadConfig_def requireEnv_def tok_def [symmetric])
      then show ?thesis using None t by simp
    next
      case (Some x)
      then obtain cfg where "loadConfig parseDuration readFile env = Some cfg" "cBackupRoots cfg = splitCSV (env ''BACKUP_ROOTS'')" "cBearerToken cfg = x"
        "cTreeSizeExcludePaths cfg = splitCSV (getEnv env ''TREE_SIZE_EXCLUDE_PATHS'' [])" "cCopyThreads cfg = getEnvInt env ''DUPLICACY_COPY_THREADS'' 2"
        using True by (simp add: loadConfig_def requireEnv_def tok_def [symmetric])
      then show ?thesis using True Some t tn [OF Some] th splitCSV_clean by auto
    qed
  next
    case False
    then have "loadConfig parseDuration readFile env = None" by (auto simp: loadConfig_def requireEnv_def)
    then show ?thesis using False by auto
  qed
qed

section \<open>The projects found\<close>

text \<open>The projects of a tree without regard to what was found before: visible, at most three levels down, and not inside one another.\<close>

fun composeAt :: "nat \<Rightarrow> string \<Rightarrow> composeDir \<Rightarrow> string list"
  and composeAts :: "nat \<Rightarrow> string \<Rightarrow> composeDir list \<Rightarrow> string list" where
  "composeAt depth path (ComposeDir n fs ds) =
     (if depth > composeDepth \<or> (depth > 0 \<and> hasPrefix n ''.'') then []
      else if matchComposeFile fs \<noteq> None then [path] else composeAts (Suc depth) path ds)"
| "composeAts depth path [] = []"
| "composeAts depth path (d # ds) = composeAt depth (pathJoin [path, dirName d]) d @ composeAts depth path ds"

lemma composeWalk_at:
  "distinct (map cpWorkingDir found) \<Longrightarrow> distinct (map cpWorkingDir (composeWalk depth path d found)) \<and>
     cpWorkingDir ` set (composeWalk depth path d found) = cpWorkingDir ` set found \<union> set (composeAt depth path d)"
  "distinct (map cpWorkingDir found) \<Longrightarrow> distinct (map cpWorkingDir (composeWalks depth path ds found)) \<and>
     cpWorkingDir ` set (composeWalks depth path ds found) = cpWorkingDir ` set found \<union> set (composeAts depth path ds)"
proof (induction depth path d found and depth path ds found rule: composeWalk_composeWalks.induct)
  case (1 depth path n fs ds found)
  show ?case
  proof (cases "depth > composeDepth \<or> (depth > 0 \<and> hasPrefix n ''.'')")
    case True
    then show ?thesis using "1.prems" by auto
  next
    case False
    then show ?thesis using 1 by (cases "matchComposeFile fs") auto
  qed
qed auto

definition composeRoots :: "(string \<Rightarrow> composeDir option) \<Rightarrow> string list \<Rightarrow> string set" where
  "composeRoots tree roots = (\<Union>r\<in>set roots. case tree (pathClean r) of None \<Rightarrow> {} | Some d \<Rightarrow> set (composeAt 0 (pathClean r) d))"

text \<open>The scan finds each compose project once, in the order of their directories, and exactly the directories that the walk of each root
  alone would give, so the roots may overlap and come in any order.\<close>

theorem composeScan_exact:
  "sorted (map cpWorkingDir (composeScan tree roots)) \<and> distinct (map cpWorkingDir (composeScan tree roots)) \<and>
   cpWorkingDir ` set (composeScan tree roots) = composeRoots tree roots"
proof -
  let ?step = "\<lambda>r found. case tree (pathClean r) of None \<Rightarrow> found | Some d \<Rightarrow> composeWalk 0 (pathClean r) d found"
  have "distinct (map cpWorkingDir (fold ?step roots found)) \<and> cpWorkingDir ` set (fold ?step roots found) = cpWorkingDir ` set found \<union> composeRoots tree roots"
    if "distinct (map cpWorkingDir found)" for found
    using that
  proof (induction roots arbitrary: found)
    case (Cons r roots)
    show ?case
    proof (cases "tree (pathClean r)")
      case None
      then show ?thesis using Cons by (simp add: composeRoots_def)
    next
      case (Some d)
      note w = composeWalk_at(1) [OF Cons.prems, of 0 "pathClean r" d]
      show ?thesis using Cons.IH [OF w [THEN conjunct1]] w Some by (simp add: composeRoots_def Un_assoc)
    qed
  qed (simp add: composeRoots_def)
  from this [of "[]"] have f: "distinct (map cpWorkingDir (fold ?step roots []))" "cpWorkingDir ` set (fold ?step roots []) = composeRoots tree roots" by simp_all
  have "mset (map cpWorkingDir (composeScan tree roots)) = mset (map cpWorkingDir (fold ?step roots []))" unfolding composeScan_def mset_map mset_sort ..
  then have "distinct (map cpWorkingDir (composeScan tree roots))" using f(1) mset_eq_imp_distinct_iff by blast
  moreover have "cpWorkingDir ` set (composeScan tree roots) = composeRoots tree roots" using f(2) by (simp add: composeScan_def)
  moreover have "sorted (map cpWorkingDir (composeScan tree roots))" unfolding composeScan_def by (rule sorted_sort_key)
  ultimately show ?thesis by blast
qed

end
