(* ===== verification/KnownHosts.thy ===== *)
theory KnownHosts
  imports StorageUrl "HOL-Library.AList"
begin

text \<open>
  known_hosts.go: the file of trusted host keys of SFTP storages, its link at startup, and the check made before a run. The
  SSH library (golang.org/x/crypto/ssh and its knownhosts package) and the network are parameters. The theorems: the setup is
  idempotent and keeps the keys; a key is recorded once, also by two callers at a time, provided the library finds the lines it
  prints; but the stand-in key of the check is not a valid key, so no host is ever found in the file: every call dials and
  appends whatever key is offered.
\<close>

definition sftpHostFromURL :: "string \<Rightarrow> string option" where
  "sftpHostFromURL storageURL =
     (if \<not> hasPrefix storageURL ''sftp://'' then None
      else case urlParse storageURL of
        None \<Rightarrow> None
      | Some (u, host) \<Rightarrow> if host = [] then None else Some (if CHR '':'' \<in> set host then host else host @ '':22''))"

definition knownHostsContainerSymlink :: string where "knownHostsContainerSymlink = ''/root/.ssh/known_hosts''"

definition knownHostsPath :: "string \<Rightarrow> string" where
  "knownHostsPath configDir = pathJoin [configDir, ''known_hosts'']"

section \<open>The setup\<close>

datatype linkNode = LinkAbsent | LinkTo string | LinkOther

record khState =
  khFiles :: "(string \<times> string) list"
  khLink :: linkNode  \<comment> \<open>what is at \<open>knownHostsContainerSymlink\<close>\<close>

record khFault =
  kfMkdir :: bool
  kfStat :: bool
  kfCreate :: bool
  kfLstat :: bool
  kfReadlink :: bool
  kfRemove :: bool
  kfSymlink :: bool

datatype khError = KhMkdir | KhStat | KhCreate | KhLstat | KhRemove | KhSymlink

definition linkKnownHosts :: "khFault \<Rightarrow> string \<Rightarrow> khState \<Rightarrow> khError option \<times> khState" where
  "linkKnownHosts fl target st =
     (if kfLstat fl then (Some KhLstat, st)
      else if khLink st = LinkTo target \<and> \<not> kfReadlink fl then (None, st)
      else if khLink st \<noteq> LinkAbsent \<and> kfRemove fl then (Some KhRemove, st)
      else if kfSymlink fl then (Some KhSymlink, st\<lparr>khLink := LinkAbsent\<rparr>)
      else (None, st\<lparr>khLink := LinkTo target\<rparr>))"

definition ensureKnownHostsSetup :: "khFault \<Rightarrow> string \<Rightarrow> khState \<Rightarrow> khError option \<times> khState" where
  "ensureKnownHostsSetup fl configDir st =
     (if kfMkdir fl then (Some KhMkdir, st)
      else let target = knownHostsPath configDir
           in if kfStat fl then (Some KhStat, st)
              else case map_of (khFiles st) target of
                None \<Rightarrow>
                  if kfCreate fl then (Some KhCreate, st)
                  else linkKnownHosts fl target (st\<lparr>khFiles := AList.update target [] (khFiles st)\<rparr>)
              | Some c \<Rightarrow> linkKnownHosts fl target st)"

section \<open>Host keys\<close>

datatype keyCheck = KeyMatch | KeyErrorWant nat | OtherKeyError

text \<open>The library: reading the file gives a callback (on a host, its address and a key), parsing a line of an authorized_keys
  file a key, \<open>slLine\<close> prints a line; \<open>slDial\<close> is a connection: refused, or the key offered in the handshake, if any.\<close>

record 'k sshLib =
  slNew :: "string \<Rightarrow> (string \<Rightarrow> string option \<Rightarrow> 'k \<Rightarrow> keyCheck) option"
  slParse :: "string \<Rightarrow> 'k option"
  slLine :: "string \<Rightarrow> 'k \<Rightarrow> string"
  slResolve :: "string \<Rightarrow> string option"

datatype 'k dialResult = DialRefused | Dialed "'k option"

definition dummyKeyLine :: string where
  "dummyKeyLine = ''ssh-rsa AAAAB3NzaC1yc2EAAAADAQABAAABAQDtest test@dummy''"

definition hostInKnownHosts :: "'k sshLib \<Rightarrow> string option \<Rightarrow> string \<Rightarrow> bool" where
  "hostInKnownHosts lib content host =
     (case (case content of None \<Rightarrow> None | Some c \<Rightarrow> slNew lib c) of
        None \<Rightarrow> False
      | Some cb \<Rightarrow>
          (case slParse lib dummyKeyLine of
             None \<Rightarrow> False
           | Some dummyKey \<Rightarrow>
               (case cb host (slResolve lib host) dummyKey of
                  KeyMatch \<Rightarrow> True
                | KeyErrorWant n \<Rightarrow> n > 0
                | OtherKeyError \<Rightarrow> False)))"

datatype hostKeyError = HostMissing | DialFailed | NoKeyOffered | OpenFailed | AppendFailed

text \<open>The part under the lock; \<open>file\<close> is the content of the file, \<open>None\<close> when there is none.\<close>

definition appendHostKey :: "'k sshLib \<Rightarrow> bool \<Rightarrow> bool \<Rightarrow> string \<Rightarrow> 'k \<Rightarrow> string option \<Rightarrow> hostKeyError option \<times> string option" where
  "appendHostKey lib openFails writeFails host key content =
     (if hostInKnownHosts lib content host then (None, content)
      else if openFails then (Some OpenFailed, content)
      else let c = (case content of None \<Rightarrow> [] | Some c \<Rightarrow> c)
           in if writeFails then (Some AppendFailed, Some c) else (None, Some (c @ slLine lib host key @ [CHR 0x0A])))"

text \<open>The result tells also whether the host was dialed.\<close>

definition ensureHostKey :: "'k sshLib \<Rightarrow> (string \<Rightarrow> 'k dialResult) \<Rightarrow> bool \<Rightarrow> bool \<Rightarrow> string \<Rightarrow> string option \<Rightarrow> bool \<times> hostKeyError option \<times> string option" where
  "ensureHostKey lib dial openFails writeFails host0 content =
     (if host0 = [] then (False, Some HostMissing, content)
      else let host = (if CHR '':'' \<in> set host0 then host0 else host0 @ '':22'')
           in if hostInKnownHosts lib content host then (False, None, content)
              else case dial host of
                DialRefused \<Rightarrow> (True, Some DialFailed, content)
              | Dialed None \<Rightarrow> (True, Some NoKeyOffered, content)
              | Dialed (Some key) \<Rightarrow> (True, appendHostKey lib openFails writeFails host key content))"

section \<open>Properties\<close>

definition noKhFault :: khFault where
  "noKhFault = \<lparr>kfMkdir = False, kfStat = False, kfCreate = False, kfLstat = False, kfReadlink = False, kfRemove = False, kfSymlink = False\<rparr>"

text \<open>The setup at startup is idempotent and loses no key: after it succeeds the link leads to the file in the state directory, the file
  exists with the content it had (none when it was new), every other file is untouched, and running it again without faults changes nothing.\<close>

theorem ensureKnownHostsSetup_idem:
  assumes "ensureKnownHostsSetup fl configDir st = (None, st')"
  shows "khLink st' = LinkTo (knownHostsPath configDir) \<and>
    map_of (khFiles st') (knownHostsPath configDir) = Some (case map_of (khFiles st) (knownHostsPath configDir) of None \<Rightarrow> [] | Some c \<Rightarrow> c) \<and>
    (\<forall>p. p \<noteq> knownHostsPath configDir \<longrightarrow> map_of (khFiles st') p = map_of (khFiles st) p) \<and>
    ensureKnownHostsSetup noKhFault configDir st' = (None, st')"
proof (cases "map_of (khFiles st) (knownHostsPath configDir)")
  case None
  then show ?thesis using assms by (auto simp: ensureKnownHostsSetup_def linkKnownHosts_def noKhFault_def Let_def update_conv' split: if_splits)
next
  case (Some c)
  then show ?thesis using assms by (auto simp: ensureKnownHostsSetup_def linkKnownHosts_def noKhFault_def Let_def split: if_splits)
qed

text \<open>Witness: a regular file from an earlier mount is replaced.\<close>

theorem ensureKnownHostsSetup_idem_witness:
  "case ensureKnownHostsSetup noKhFault ''/cfg'' \<lparr>khFiles = [(''/cfg/known_hosts'', ''k'')], khLink = LinkOther\<rparr> of (e, st') \<Rightarrow>
     e = None \<and> khLink st' = LinkTo ''/cfg/known_hosts'' \<and> map_of (khFiles st') ''/cfg/known_hosts'' = Some ''k''"
proof -
  let ?st = "\<lparr>khFiles = [(''/cfg/known_hosts'', ''k'')], khLink = LinkOther\<rparr>"
  have p: "knownHostsPath ''/cfg'' = ''/cfg/known_hosts''" by code_simp
  have "fst (ensureKnownHostsSetup noKhFault ''/cfg'' ?st) = None" by code_simp
  then obtain st' where s: "ensureKnownHostsSetup noKhFault ''/cfg'' ?st = (None, st')" by (metis prod.collapse)
  from ensureKnownHostsSetup_idem [OF s] show ?thesis using s p by simp
qed

definition endsLine :: "string \<Rightarrow> bool" where
  "endsLine c \<longleftrightarrow> c = [] \<or> last c = CHR 0x0A"

definition withPort :: "string \<Rightarrow> string" where
  "withPort host = (if CHR '':'' \<in> set host then host else host @ '':22'')"

text \<open>What the library is relied on for a host: it reads a line it printed for the host, at the end of a file of whole lines, as an entry of the host.\<close>

definition findsOwnLines :: "'k sshLib \<Rightarrow> string \<Rightarrow> bool" where
  "findsOwnLines lib h \<longleftrightarrow> (\<forall>c k. \<not> endsLine c \<or>
     (case slNew lib (c @ slLine lib h k @ [CHR 0x0A]) of None \<Rightarrow> False | Some cb \<Rightarrow> (\<forall>a d. cb h a d \<noteq> OtherKeyError \<and> cb h a d \<noteq> KeyErrorWant 0)))"

lemma findsOwnLines_found:
  assumes "findsOwnLines lib h" "slParse lib dummyKeyLine \<noteq> None" "endsLine c"
  shows "hostInKnownHosts lib (Some (c @ slLine lib h k @ [CHR 0x0A])) h"
proof -
  obtain d where d: "slParse lib dummyKeyLine = Some d" using assms(2) by blast
  have "case slNew lib (c @ slLine lib h k @ [CHR 0x0A]) of None \<Rightarrow> False | Some cb \<Rightarrow> (\<forall>a d. cb h a d \<noteq> OtherKeyError \<and> cb h a d \<noteq> KeyErrorWant 0)"
    using assms(1,3) unfolding findsOwnLines_def by blast
  then obtain cb where cb: "slNew lib (c @ slLine lib h k @ [CHR 0x0A]) = Some cb" "cb h (slResolve lib h) d \<noteq> OtherKeyError" "cb h (slResolve lib h) d \<noteq> KeyErrorWant 0"
    by (cases "slNew lib (c @ slLine lib h k @ [CHR 0x0A])") simp_all
  then have "case cb h (slResolve lib h) d of KeyMatch \<Rightarrow> True | KeyErrorWant n \<Rightarrow> n > 0 | OtherKeyError \<Rightarrow> False"
    by (cases "cb h (slResolve lib h) d") auto
  then show ?thesis using d cb(1) by (simp add: hostInKnownHosts_def)
qed

text \<open>A key is recorded once, provided the library reads the stand-in key and finds its own lines: after a successful call on a file of whole lines
  the host is trusted without dialing, the file still has whole lines, and a second caller that dialed at the same time appends nothing.\<close>

theorem ensureHostKey_once:
  assumes "ensureHostKey lib dial openFails writeFails host content = (dialed, None, content')"
    "findsOwnLines lib (withPort host)" "slParse lib dummyKeyLine \<noteq> None" "case content of None \<Rightarrow> True | Some c \<Rightarrow> endsLine c"
  shows "ensureHostKey lib dial2 openFails2 writeFails2 host content' = (False, None, content') \<and>
    appendHostKey lib openFails2 writeFails2 (withPort host) key2 content' = (None, content') \<and>
    (case content' of None \<Rightarrow> True | Some c \<Rightarrow> endsLine c)"
proof -
  have ne: "host \<noteq> []" using assms(1) by (auto simp: ensureHostKey_def)
  note e = ensureHostKey_def [of lib _ _ _ host, folded withPort_def, unfolded Let_def]
  have "hostInKnownHosts lib content' (withPort host) \<and> (case content' of None \<Rightarrow> True | Some c \<Rightarrow> endsLine c)"
  proof (cases "hostInKnownHosts lib content (withPort host)")
    case True
    then show ?thesis using assms(1,4) ne by (simp add: e)
  next
    case False
    then obtain k where k: "appendHostKey lib openFails writeFails (withPort host) k content = (None, content')"
      using assms(1) ne by (auto simp: e split: dialResult.splits option.splits)
    define c where "c = (case content of None \<Rightarrow> [] | Some c \<Rightarrow> c)"
    have "endsLine c" using assms(4) by (simp add: c_def endsLine_def split: option.splits)
    moreover have "content' = Some (c @ slLine lib (withPort host) k @ [CHR 0x0A])" using k False by (auto simp: appendHostKey_def c_def Let_def split: if_splits)
    ultimately show ?thesis using findsOwnLines_found [OF assms(2,3)] by (simp add: endsLine_def)
  qed
  then show ?thesis using ne by (simp add: e appendHostKey_def)
qed

text \<open>A library of which this holds: keys are numbers, an entry is a line with the host and the key, any line is a key.\<close>

definition exEntries :: "string \<Rightarrow> string \<Rightarrow> string list" where
  "exEntries c h = filter (\<lambda>l. prefix (h @ '' '') l) (splitChar CHR 0x0A c)"

definition exLib :: "nat sshLib" where
  "exLib = \<lparr>slNew = (\<lambda>c. Some (\<lambda>h a k. if h @ '' '' @ natDigits k \<in> set (exEntries c h) then KeyMatch else KeyErrorWant (length (exEntries c h)))),
     slParse = (\<lambda>s. Some 0), slLine = (\<lambda>h k. h @ '' '' @ natDigits k), slResolve = (\<lambda>h. None)\<rparr>"

lemma exLib_finds: "findsOwnLines exLib ''nas:22''"
proof -
  have ne: "length (exEntries (c @ (''nas:22 '' @ natDigits k) @ [CHR 0x0A]) ''nas:22'') \<noteq> 0" if ec: "endsLine c" for c k
  proof -
    let ?l = "''nas:22 '' @ natDigits k"
    have "CHR 0x0A \<notin> set (natDigits k)" using natDigits_isDigit [of k] by (auto simp: list_all_iff isDigit_def)
    then have l: "CHR 0x0A \<notin> set ?l" by simp
    have one: "?l \<in> set (splitChar CHR 0x0A (?l @ CHR 0x0A # []))" by (simp only: splitChar_append_sep [OF l]) simp
    have "?l \<in> set (splitChar CHR 0x0A (c @ ?l @ [CHR 0x0A]))"
    proof (cases "c = []")
      case True
      then show ?thesis using one by simp
    next
      case False
      then obtain c' where "c = c' @ [CHR 0x0A]" using ec unfolding endsLine_def by (metis append_butlast_last_id)
      then show ?thesis using one splitChar_append [of "CHR 0x0A" c' "?l @ [CHR 0x0A]"] by simp
    qed
    then have "?l \<in> set (exEntries (c @ ?l @ [CHR 0x0A]) ''nas:22'')" by (simp add: exEntries_def)
    then show ?thesis by (cases "exEntries (c @ ?l @ [CHR 0x0A]) ''nas:22''") auto
  qed
  show ?thesis unfolding findsOwnLines_def
  proof (intro allI)
    fix c k
    show "\<not> endsLine c \<or> (case slNew exLib (c @ slLine exLib ''nas:22'' k @ [CHR 0x0A]) of None \<Rightarrow> False
       | Some cb \<Rightarrow> (\<forall>a d. cb ''nas:22'' a d \<noteq> OtherKeyError \<and> cb ''nas:22'' a d \<noteq> KeyErrorWant 0))"
    proof (cases "endsLine c")
      case True
      let ?c = "c @ (''nas:22 '' @ natDigits k) @ [CHR 0x0A]"
      have n: "length (exEntries ?c ''nas:22'') \<noteq> 0" by (rule ne [OF True])
      have "slNew exLib ?c = Some (\<lambda>h a d. if h @ '' '' @ natDigits d \<in> set (exEntries ?c h) then KeyMatch else KeyErrorWant (length (exEntries ?c h)))"
        "slLine exLib ''nas:22'' k = ''nas:22 '' @ natDigits k" unfolding exLib_def sshLib.simps by (rule refl) simp
      then show ?thesis using n by (simp only: option.case) (simp del: append_assoc length_0_conv)
    qed simp
  qed
qed

text \<open>Witness: first contact.\<close>

theorem ensureHostKey_once_witness:
  "\<exists>content'. ensureHostKey exLib (\<lambda>_. Dialed (Some 7)) False False ''nas'' (Some []) = (True, None, content') \<and>
     ensureHostKey exLib (\<lambda>_. DialRefused) False False ''nas'' content' = (False, None, content')"
proof -
  have "case ensureHostKey exLib (\<lambda>_. Dialed (Some 7)) False False ''nas'' (Some []) of (d, e, c) \<Rightarrow> d \<and> e = None" by code_simp
  then obtain content' where c: "ensureHostKey exLib (\<lambda>_. Dialed (Some 7)) False False ''nas'' (Some []) = (True, None, content')" by auto
  have w: "findsOwnLines exLib (withPort ''nas'')" using exLib_finds by (simp add: withPort_def)
  have d: "slParse exLib dummyKeyLine \<noteq> None" by (simp add: exLib_def)
  have l: "case Some [] of None \<Rightarrow> True | Some c \<Rightarrow> endsLine c" by (simp add: endsLine_def)
  from ensureHostKey_once [OF c w d l] show ?thesis using c by blast
qed

text \<open>A key in an authorized_keys line is padded base64, four characters at a time; the library looks for it in the fields after the first. In the line
  of the code no field can be one.\<close>

definition readsPaddedKeys :: "'k sshLib \<Rightarrow> bool" where
  "readsPaddedKeys lib \<longleftrightarrow> (\<forall>s. slParse lib s = None \<or> list_ex (\<lambda>f. length f mod 4 = 0) (tl (splitChar CHR '' '' s)))"

lemma dummy_unreadable: "readsPaddedKeys lib \<Longrightarrow> slParse lib dummyKeyLine = None"
proof -
  have "\<not> list_ex (\<lambda>f. length f mod 4 = 0) (tl (splitChar CHR '' '' dummyKeyLine))" by code_simp
  then show "readsPaddedKeys lib \<Longrightarrow> slParse lib dummyKeyLine = None" unfolding readsPaddedKeys_def by blast
qed

text \<open>As the code stands no host is ever found in the file, whatever it holds: the stand-in key has 35 characters and is not base64. So every
  call dials, and when the host offers a key the key is appended and trusted, though another may be recorded.\<close>

theorem ensureHostKey_never_found:
  assumes "readsPaddedKeys lib" "host \<noteq> []" "dial (withPort host) = Dialed (Some key)"
  shows "\<not> hostInKnownHosts lib content h \<and>
    ensureHostKey lib dial False False host (Some c) = (True, None, Some (c @ slLine lib (withPort host) key @ [CHR 0x0A]))"
  using assms dummy_unreadable [OF assms(1)]
  by (simp add: hostInKnownHosts_def ensureHostKey_def appendHostKey_def withPort_def Let_def split: option.splits)

definition strictLib :: "nat sshLib" where
  "strictLib = exLib\<lparr>slParse := (\<lambda>s. if list_ex (\<lambda>f. length f mod 4 = 0) (tl (splitChar CHR '' '' s)) then Some 0 else None)\<rparr>"

text \<open>Witness: a second key beside the first.\<close>

theorem ensureHostKey_never_found_witness:
  "ensureHostKey strictLib (\<lambda>_. Dialed (Some 8)) False False ''nas'' (Some (''nas:22 7'' @ [CHR 0x0A])) =
     (True, None, Some (''nas:22 7'' @ [CHR 0x0A] @ ''nas:22 8'' @ [CHR 0x0A]))"
proof -
  have r: "readsPaddedKeys strictLib" by (simp add: readsPaddedKeys_def strictLib_def)
  have n: "natDigits 8 = ''8''" by code_simp
  from ensureHostKey_never_found [OF r, of "''nas''" "\<lambda>_. Dialed (Some 8)" 8 None "[]" "''nas:22 7'' @ [CHR 0x0A]"]
  show ?thesis by (simp add: strictLib_def exLib_def withPort_def n)
qed

end
