(* ===== verification/Listing.thy ===== *)
theory Listing
  imports ListStream Secrets
begin

text \<open>
  The listing requests of duplicacy.go (\<open>handleListSnapshots\<close>, \<open>handleSnapshotFiles\<close>, \<open>serveSnapshotFiles\<close>) with the run of
  one listing into its spool (\<open>listSink\<close>, \<open>runListFiles\<close>) and the response (\<open>writeListing\<close>) of snapshot_files_stream.go.
  The cache is that of ListCache, spool and gates those of ListStream, the credentials those of Secrets.
\<close>

section \<open>Compression\<close>

text \<open>\<open>compress/gzip\<close>: a writer turns what is written to it into chunks for the spool, the rest of them when it is
  closed; \<open>gzInflate\<close> is what reading a stream yields, with whether it ended well, \<open>None\<close> when \<open>NewReader\<close> refuses it.\<close>

record 'z gzipLib =
  gzNew :: 'z
  gzWrite :: "string \<Rightarrow> 'z \<Rightarrow> string list \<times> 'z"
  gzClose :: "'z \<Rightarrow> string list"
  gzInflate :: "string \<Rightarrow> (string \<times> bool) option"

fun gzOutput :: "'z gzipLib \<Rightarrow> 'z \<Rightarrow> string list \<Rightarrow> string list" where
  "gzOutput lib z [] = gzClose lib z"
| "gzOutput lib z (p # ps) = fst (gzWrite lib p z) @ gzOutput lib (snd (gzWrite lib p z)) ps"

text \<open>What the code relies on: a stream written and closed inflates to the bytes written.\<close>

definition gzipLaw :: "'z gzipLib \<Rightarrow> bool" where
  "gzipLaw lib \<longleftrightarrow> (\<forall>ps. gzInflate lib (concat (gzOutput lib (gzNew lib) ps)) = Some (concat ps, True))"

section \<open>One listing run\<close>

text \<open>What the child wrote to the shared pipe, in the chunks read from it, and whether \<open>Run\<close> returned no error.\<close>

record childRun =
  cdOut :: "string list"
  cdOk :: bool

text \<open>\<open>skWrites\<close> counts the writes to the spool; the faults of the spool are given by that number.\<close>

record 'z listSink =
  skZw :: 'z
  skSpool :: listSpool
  skWrites :: nat
  skRaw :: int
  skTail :: tailRing
  skErr :: "spoolErr option"

type_synonym spoolFaults = "nat \<Rightarrow> bool \<times> bool"

fun spoolAll :: "spoolFaults \<Rightarrow> string list \<Rightarrow> nat \<Rightarrow> listSpool \<Rightarrow> spoolErr option \<times> nat \<times> listSpool" where
  "spoolAll f [] n s = (None, n, s)"
| "spoolAll f (c # cs) n s =
     (case spoolWrite (fst (f n)) (snd (f n)) c s of
        (Some e, s') \<Rightarrow> (Some e, Suc n, s')
      | (None, s') \<Rightarrow> spoolAll f cs (Suc n) s')"

definition sinkWrite :: "'z gzipLib \<Rightarrow> spoolFaults \<Rightarrow> string \<Rightarrow> 'z listSink \<Rightarrow> 'z listSink" where
  "sinkWrite lib f p k =
     (let k1 = k\<lparr>skTail := tailWrite (skTail k) p\<rparr>; (chunks, z) = gzWrite lib p (skZw k)
      in case spoolAll f chunks (skWrites k) (skSpool k) of
           (Some e, n, s) \<Rightarrow> k1\<lparr>skZw := z, skSpool := s, skWrites := n, skErr := Some e\<rparr>
         | (None, n, s) \<Rightarrow> k1\<lparr>skZw := z, skSpool := s, skWrites := n, skRaw := skRaw k + int (length p)\<rparr>)"

text \<open>\<open>os/exec\<close> copies the pipe into the sink until a write fails.\<close>

fun sinkCopy :: "'z gzipLib \<Rightarrow> spoolFaults \<Rightarrow> string list \<Rightarrow> 'z listSink \<Rightarrow> 'z listSink" where
  "sinkCopy lib f [] k = k"
| "sinkCopy lib f (p # ps) k =
     (let k' = sinkWrite lib f p k in if skErr k' = None then sinkCopy lib f ps k' else k')"

definition newListSink :: "'z gzipLib \<Rightarrow> int \<Rightarrow> 'z listSink" where
  "newListSink lib memMax =
     \<lparr>skZw = gzNew lib, skSpool = newListSpool memMax, skWrites = 0, skRaw = 0, skTail = newTailRing, skErr = None\<rparr>"

datatype listErr = ChildFailed | SpoolError spoolErr

text \<open>The result is the error with the tail of the output, or the raw length; the spool comes with it, closed after an
  error. \<open>sealFault\<close> is whether flushing the spill file fails.\<close>

definition runListFiles :: "'z gzipLib \<Rightarrow> spoolFaults \<Rightarrow> bool \<Rightarrow> int \<Rightarrow> childRun \<Rightarrow> (listErr \<times> string + int) \<times> listSpool" where
  "runListFiles lib f sealFault memMax r =
     (let k = sinkCopy lib f (cdOut r) (newListSink lib memMax);
          fail = (\<lambda>e s. (Inl (e, tailString (skTail k)), spoolClose s))
      in case skErr k of
           Some e \<Rightarrow> fail (SpoolError e) (skSpool k)
         | None \<Rightarrow>
             if \<not> cdOk r then fail ChildFailed (skSpool k)
             else case spoolAll f (gzClose lib (skZw k)) (skWrites k) (skSpool k) of
                    (Some e, n, s) \<Rightarrow> fail (SpoolError ErrSpoolFailed) s
                  | (None, n, s) \<Rightarrow>
                      if spFile s \<noteq> None \<and> sealFault then fail (SpoolError ErrSpoolFailed) s
                      else (Inr (skRaw k), s))"

section \<open>Responses\<close>

datatype listBody = QueueFull | AboveCeiling | SpoolTrouble | VendFails "prepError list" | RunFails string | RepoUnknown | BadRevision

text \<open>\<open>NoAnswer\<close>: the client is gone and nothing is written. \<open>ListError\<close> has the status, the error and \<open>Retry-After\<close>.
  \<open>ListData\<close> is a 200 with its \<open>Content-Length\<close> and the bytes sent. \<open>EmptyOk\<close> is the 200 without a body of a
  handler that writes nothing.\<close>

datatype listResp = NoAnswer | EmptyOk | ListError nat listBody "int option" | ListData int string

definition queueRefused :: "int \<Rightarrow> gateResult \<Rightarrow> listResp" where
  "queueRefused queueWait r =
     (if r = GateQueueTimeout then ListError 503 QueueFull (Some (max 1 (queueWait div 1000000000))) else NoAnswer)"

text \<open>\<open>client n body\<close>: the bytes of the body that reach a client promised \<open>n\<close> bytes, and whether the connection held. The result
  tells whether everything went well, whether the connection held, and the response when headers went out.\<close>

definition writeListing :: "'z gzipLib \<Rightarrow> (int \<Rightarrow> string \<Rightarrow> string \<times> bool) \<Rightarrow> string \<Rightarrow> int \<Rightarrow> bool \<times> bool \<times> listResp option" where
  "writeListing lib client gz rawBytes =
     (case gzInflate lib gz of
        None \<Rightarrow> (False, True, None)
      | Some (body, whole) \<Rightarrow>
          (case client rawBytes body of
             (sent, held) \<Rightarrow> (held \<and> whole \<and> int (length body) = rawBytes, held, Some (ListData rawBytes sent))))"

section \<open>Arguments\<close>

definition storageKeyOf :: "string \<Rightarrow> string" where
  "storageKeyOf storage = (if storage = [] then ''default'' else storage)"

definition listArgs :: "string list \<Rightarrow> (string \<times> string) list \<Rightarrow> string \<Rightarrow> string \<Rightarrow> string list" where
  "listArgs start rsaPriv storage idq =
     (let kp = (case map_of rsaPriv (storageKeyOf storage) of None \<Rightarrow> [] | Some p \<Rightarrow> p);
          a1 = (if kp \<noteq> [] then start @ [''-key'', kp] else start);
          a2 = (if idq \<noteq> [] then a1 @ [''-id'', idq] else a1)
      in if storage \<noteq> [] then a2 @ [''-storage'', storage] else a2)"

definition listFilesInvocation :: "Repo \<Rightarrow> int \<Rightarrow> string list \<Rightarrow> (string \<times> string) list \<Rightarrow> string \<Rightarrow> string \<Rightarrow> cliInvocation" where
  "listFilesInvocation repo rv env rsaPriv storage idq =
     \<lparr>RepoRoot = rPath repo, Args = listArgs [''list'', ''-files'', ''-r'', itoa rv] rsaPriv storage idq, EnvAdds = env\<rparr>"

section \<open>Serving a listing\<close>

text \<open>The parts of the agent a listing request uses, and what comes from outside: the gzip library, the client, how the waits at
  the gates end, what other requests and the warmer do to the cache meanwhile, which statements the database
  refuses, and the child.\<close>

record listApp =
  laCache :: "snapshotFilesCacheStore option"
  laHit :: listGate
  laList :: listGate
  laSecrets :: secretsState

datatype waitPoint = AtHit nat | AtList nat | AtRun

record 'z listEnv =
  leGzip :: "'z gzipLib"
  leClient :: "int \<Rightarrow> string \<Rightarrow> string \<times> bool"
  leWait :: "waitPoint \<Rightarrow> gateWait"
  leOthers :: "waitPoint \<Rightarrow> snapshotFilesCacheStore \<Rightarrow> snapshotFilesCacheStore"
  leHasFault :: "waitPoint \<Rightarrow> bool"
  leOpenFault :: "waitPoint \<Rightarrow> bool"
  leInfoFault :: bool
  leMarkFault :: bool
  lePutFault :: bool
  leVend :: "Repo \<Rightarrow> secretsState \<Rightarrow> (prepError list + string list \<times> (string \<times> string) list \<times> string list) \<times> secretsState"
  leRun :: "cliInvocation \<Rightarrow> childRun"
  leFaults :: spoolFaults
  leSealFault :: bool
  leStore :: sweepEnv
  leQueueWait :: int

record listReq =
  lqRev :: int
  lqStorage :: string
  lqId :: string

definition lqSnap :: "Repo \<Rightarrow> listReq \<Rightarrow> string" where
  "lqSnap repo q = (if lqId q = [] then rSnapshotID repo else lqId q)"

definition releaseHit :: "listApp \<Rightarrow> listApp" where
  "releaseHit a = a\<lparr>laHit := snd (gateRelease True (laHit a))\<rparr>"

definition releaseList :: "listApp \<Rightarrow> listApp" where
  "releaseList a = a\<lparr>laList := snd (gateRelease True (laList a))\<rparr>"

text \<open>A failed write to the connection cancels the context of the request (\<open>net/http\<close>), and the database refuses to drop
  the row under a cancelled context.\<close>

definition serveCached :: "'z listEnv \<Rightarrow> nat \<Rightarrow> string \<Rightarrow> int \<Rightarrow> string \<Rightarrow> listApp \<Rightarrow> listResp option \<times> listApp" where
  "serveCached e i snap rv storage a =
     (case laCache a of
        None \<Rightarrow> (None, a)
      | Some s \<Rightarrow>
          if snap = [] then (None, a)
          else if leHasFault e (AtHit i) \<or> \<not> cacheHas s snap rv storage then (None, a)
          else let a0 = a\<lparr>laCache := Some (leOthers e (AtHit i) s)\<rparr> in
            (case gateAcquire True (leWait e (AtHit i)) (laHit a) of
               (GateAcquired, g) \<Rightarrow>
                 let a1 = a0\<lparr>laHit := g\<rparr> in
                 if leOpenFault e (AtHit i) then (None, releaseHit a1)
                 else (case cacheOpen (seNow (leStore e)) snap rv storage (leOthers e (AtHit i) s) of
                         (None, s2) \<Rightarrow> (None, releaseHit (a1\<lparr>laCache := Some s2\<rparr>))
                       | (Some (gz, rawB), s2) \<Rightarrow>
                           (case writeListing (leGzip e) (leClient e) gz rawB of
                              (True, held, r) \<Rightarrow> (r, releaseHit (a1\<lparr>laCache := Some s2\<rparr>))
                            | (False, held, r) \<Rightarrow>
                                (r, releaseHit (a1\<lparr>laCache := Some (if held then cacheDrop snap rv storage s2 else s2)\<rparr>))))
             | (refused, g) \<Rightarrow> (Some (queueRefused (leQueueWait e) refused), a0\<lparr>laHit := g\<rparr>)))"

datatype slotResult = Answered listResp | SlotHeld

text \<open>The loop before the run; the first argument counts the attempts that still look into the cache.\<close>

fun listLoop :: "'z listEnv \<Rightarrow> nat \<Rightarrow> string \<Rightarrow> int \<Rightarrow> string \<Rightarrow> listApp \<Rightarrow> slotResult \<times> listApp" where
  "listLoop e left snap rv storage a =
     (let a0 = a\<lparr>laCache := map_option (leOthers e (AtList left)) (laCache a)\<rparr> in
      case gateAcquire True (leWait e (AtList left)) (laList a) of
        (GateAcquired, g) \<Rightarrow>
          let a1 = a0\<lparr>laList := g\<rparr> in
          (case left of
             0 \<Rightarrow> (SlotHeld, a1)
           | Suc n \<Rightarrow>
               if snap \<noteq> [] \<and> \<not> leHasFault e (AtList left) \<and> (case laCache a1 of None \<Rightarrow> False | Some s \<Rightarrow> cacheHas s snap rv storage)
               then (case serveCached e left snap rv storage (releaseList a1) of
                       (Some r, a3) \<Rightarrow> (Answered r, a3)
                     | (None, a3) \<Rightarrow> listLoop e n snap rv storage a3)
               else (SlotHeld, a1))
      | (refused, g) \<Rightarrow> (Answered (queueRefused (leQueueWait e) refused), a0\<lparr>laList := g\<rparr>))"

declare listLoop.simps [simp del]

definition ceilingMarked :: "'z listEnv \<Rightarrow> Repo \<Rightarrow> listReq \<Rightarrow> listApp \<Rightarrow> bool" where
  "ceilingMarked e repo q a \<longleftrightarrow>
     (case laCache a of
        None \<Rightarrow> False
      | Some s \<Rightarrow> lqSnap repo q \<noteq> [] \<and> \<not> leInfoFault e \<and>
          (case uncacheableInfo s (rID repo, storageKeyOf (lqStorage q), lqSnap repo q, lqRev q) of
             None \<Rightarrow> False | Some m \<Rightarrow> umReason m = SpoolCeiling \<and> umCapBytes m = listSpoolFileMax))"

definition answerFailure :: "'z listEnv \<Rightarrow> Repo \<Rightarrow> listReq \<Rightarrow> listErr \<Rightarrow> string \<Rightarrow> listApp \<Rightarrow> listResp \<times> listApp" where
  "answerFailure e repo q err outTl a =
     (case err of
        SpoolError ErrSpoolCeiling \<Rightarrow>
          (ListError 413 AboveCeiling None,
           a\<lparr>laCache := map_option (\<lambda>s. if lqSnap repo q = [] \<or> leMarkFault e then s
               else markUncacheable (rID repo) (storageKeyOf (lqStorage q)) (lqSnap repo q) (lqRev q) SpoolCeiling 0 listSpoolFileMax s)
             (laCache a)\<rparr>)
      | SpoolError ErrSpoolFailed \<Rightarrow> (ListError 503 SpoolTrouble (Some 30), a)
      | ChildFailed \<Rightarrow> (ListError 500 (RunFails outTl) None, a))"

definition storeResult :: "'z listEnv \<Rightarrow> Repo \<Rightarrow> listReq \<Rightarrow> listSpool \<Rightarrow> int \<Rightarrow> listApp \<Rightarrow> listApp" where
  "storeResult e repo q s rawB a =
     a\<lparr>laCache := map_option (\<lambda>c. if lePutFault e then c
         else storeListing (leStore e) (lqSnap repo q) (lqRev q) (storageKeyOf (lqStorage q)) (rID repo) (spoolBytes s) rawB c) (laCache a)\<rparr>"

text \<open>The part after the slot is held: the credentials, the run, the cache, the answer.\<close>

definition serveMiss :: "'z listEnv \<Rightarrow> Repo \<Rightarrow> listReq \<Rightarrow> listApp \<Rightarrow> listResp \<times> listApp" where
  "serveMiss e repo q a =
     (if ceilingMarked e repo q a then (ListError 413 AboveCeiling None, releaseList a)
      else case leVend e repo (laSecrets a) of
        (Inl errs, st) \<Rightarrow> (ListError 500 (VendFails errs) None, releaseList (a\<lparr>laSecrets := st\<rparr>))
      | (Inr (env, rsaPriv, tmp), st) \<Rightarrow>
          let a1 = a\<lparr>laSecrets := st, laCache := map_option (leOthers e AtRun) (laCache a)\<rparr>;
              cleanup = (\<lambda>b. b\<lparr>laSecrets := (laSecrets b)\<lparr>ssShm := cleanupTmpfiles tmp (ssShm (laSecrets b))\<rparr>\<rparr>)
          in case runListFiles (leGzip e) (leFaults e) (leSealFault e) (listSpoolMemMax (seRowMax (leStore e)))
                    (leRun e (listFilesInvocation repo (lqRev q) env rsaPriv (lqStorage q) (lqId q))) of
               (Inl (err, outTl), s) \<Rightarrow> (case answerFailure e repo q err outTl (releaseList a1) of (r, a2) \<Rightarrow> (r, cleanup a2))
             | (Inr rawB, s) \<Rightarrow>
                 (case writeListing (leGzip e) (leClient e) (spoolBytes s) rawB of
                    (_, _, r) \<Rightarrow> (case r of None \<Rightarrow> EmptyOk | Some x \<Rightarrow> x, cleanup (releaseList (storeResult e repo q s rawB a1)))))"

definition cacheTries :: nat where "cacheTries = 3"

definition serveSnapshotFiles :: "'z listEnv \<Rightarrow> Repo \<Rightarrow> listReq \<Rightarrow> listApp \<Rightarrow> listResp \<times> listApp" where
  "serveSnapshotFiles e repo q a =
     (let snap = lqSnap repo q; key = storageKeyOf (lqStorage q)
      in case serveCached e (Suc cacheTries) snap (lqRev q) key a of
           (Some r, a1) \<Rightarrow> (r, a1)
         | (None, a1) \<Rightarrow>
             (case listLoop e cacheTries snap (lqRev q) key a1 of
                (Answered r, a2) \<Rightarrow> (r, a2)
              | (SlotHeld, a2) \<Rightarrow> serveMiss e repo q a2))"

definition handleSnapshotFiles :: "'z listEnv \<Rightarrow> repoIndex \<Rightarrow> string \<Rightarrow> string \<Rightarrow> string \<Rightarrow> string \<Rightarrow> listApp \<Rightarrow> listResp \<times> listApp" where
  "handleSnapshotFiles e ix i rv storage idq a =
     (case indexGet ix i of
        None \<Rightarrow> (ListError 404 RepoUnknown None, a)
      | Some repo \<Rightarrow>
          (case atoi rv of
             (n, ok) \<Rightarrow>
               if \<not> ok \<or> n \<le> 0 then (ListError 400 BadRevision None, a)
               else serveSnapshotFiles e repo \<lparr>lqRev = n, lqStorage = storage, lqId = idq\<rparr> a))"

section \<open>Revisions\<close>

text \<open>A synchronous run: the combined output and the text of the error of \<open>Run\<close>, if any.\<close>

definition runSync :: "(cliInvocation \<Rightarrow> string \<times> string option) \<Rightarrow> cliInvocation \<Rightarrow> string \<times> string option" where
  "runSync run ci =
     (case run ci of
        (out, None) \<Rightarrow> (out, None)
      | (out, Some err) \<Rightarrow>
          (out, Some (''duplicacy '' @ joinChar (CHR '' '') (Args ci) @ '': '' @ err @ '' (output: '' @ Duplicacy.truncate out 400 @ '')'')))"

datatype snapshotsResp = SnapNotFound | SnapVendFails "prepError list" | SnapRunFails string string | SnapRows string "Snapshot list" "string option"

definition handleListSnapshots ::
    "(Repo \<Rightarrow> secretsState \<Rightarrow> (prepError list + string list \<times> (string \<times> string) list \<times> string list) \<times> secretsState) \<Rightarrow>
     (cliInvocation \<Rightarrow> string \<times> string option) \<Rightarrow> repoIndex \<Rightarrow> string \<Rightarrow> string \<Rightarrow> string \<Rightarrow> string \<Rightarrow> secretsState \<Rightarrow>
     snapshotsResp \<times> secretsState" where
  "handleListSnapshots vend run ix i storage idq debug st =
     (case indexGet ix i of
        None \<Rightarrow> (SnapNotFound, st)
      | Some repo \<Rightarrow>
          (case vend repo st of
             (Inl errs, st1) \<Rightarrow> (SnapVendFails errs, st1)
           | (Inr (env, rsaPriv, tmp), st1) \<Rightarrow>
               (let st2 = st1\<lparr>ssShm := cleanupTmpfiles tmp (ssShm st1)\<rparr>
                in case runSync run \<lparr>RepoRoot = rPath repo, Args = listArgs [''list''] rsaPriv storage idq, EnvAdds = env\<rparr> of
                     (out, Some err) \<Rightarrow> (SnapRunFails err out, st2)
                   | (out, None) \<Rightarrow>
                       (SnapRows (rID repo) (parseListOutput out) (if debug = ''1'' then Some out else None), st2))))"
section \<open>A run into the spool\<close>

lemma spoolOk_new: "spoolOk (newListSpool m)" "spoolBytes (newListSpool m) = []" "spN (newListSpool m) = 0"
    "spFileMax (newListSpool m) = listSpoolFileMax"
  by (simp_all add: spoolOk_def newListSpool_def spoolBytes_def listSpoolFileMax_def)

lemma spoolWrite_max: "spoolWrite cf wfault p s = (e, s') \<Longrightarrow> spFileMax s' = spFileMax s"
  by (auto simp: spoolWrite_def spoolAppend_def spoolSpill_def split: if_splits)

lemma spoolWrite_fits:
  "spN s + int (length p) \<le> spFileMax s \<Longrightarrow> spoolOk s \<Longrightarrow>
   \<exists>s'. spoolWrite False False p s = (None, s') \<and> spN s' = spN s + int (length p)"
  by (auto simp: spoolWrite_def spoolAppend_def spoolSpill_def spoolOk_def)

lemma spoolAll_ok:
  "spoolOk s \<Longrightarrow> spoolAll f cs n s = (e, n', s') \<Longrightarrow>
   spoolOk s' \<and> spFileMax s' = spFileMax s \<and> (e = None \<longrightarrow> spoolBytes s' = spoolBytes s @ concat cs)"
proof (induction cs arbitrary: n s)
  case (Cons c cs)
  obtain x s1 where w: "spoolWrite (fst (f n)) (snd (f n)) c s = (x, s1)" by fastforce
  note spoolWrite_ok [OF Cons.prems(1) w] spoolWrite_max [OF w]
  with Cons.IH [of s1 "Suc n"] Cons.prems(2) w show ?case by (cases x) auto
qed auto

lemma spoolAll_fits:
  assumes "\<forall>n. f n = (False, False)"
  shows "spoolOk s \<Longrightarrow> spN s + int (length (concat cs)) \<le> spFileMax s \<Longrightarrow>
    \<exists>n' s'. spoolAll f cs n s = (None, n', s') \<and> spN s' = spN s + int (length (concat cs))"
proof (induction cs arbitrary: n s)
  case (Cons c cs)
  obtain s1 where w: "spoolWrite False False c s = (None, s1)" "spN s1 = spN s + int (length c)"
    using spoolWrite_fits [of s c] Cons.prems by auto
  have "spoolOk s1" "spFileMax s1 = spFileMax s" using spoolWrite_ok [OF Cons.prems(1) w(1)] spoolWrite_max [OF w(1)] by auto
  with Cons.IH [of s1 "Suc n"] Cons.prems(2) w assms show ?case by (auto simp: add.assoc)
qed auto

lemma sinkWrite_tail: "skTail (sinkWrite lib f p k) = tailWrite (skTail k) p"
  by (auto simp: sinkWrite_def Let_def split: prod.splits option.splits)

lemma sinkWrite_ok:
  assumes "skErr k = None" "spoolOk (skSpool k)" "skErr (sinkWrite lib f p k) = None"
  shows "skRaw (sinkWrite lib f p k) = skRaw k + int (length p) \<and> spoolOk (skSpool (sinkWrite lib f p k)) \<and>
    skZw (sinkWrite lib f p k) = snd (gzWrite lib p (skZw k)) \<and>
    spoolBytes (skSpool (sinkWrite lib f p k)) = spoolBytes (skSpool k) @ concat (fst (gzWrite lib p (skZw k)))"
proof -
  obtain cs z where g: "gzWrite lib p (skZw k) = (cs, z)" by fastforce
  obtain e n s where a: "spoolAll f cs (skWrites k) (skSpool k) = (e, n, s)" by (metis prod_cases3)
  show ?thesis using assms(3) g a spoolAll_ok [OF assms(2) a] by (cases e) (auto simp: sinkWrite_def)
qed

lemma sinkCopy_ok:
  "skErr k = None \<Longrightarrow> spoolOk (skSpool k) \<Longrightarrow> skErr (sinkCopy lib f ps k) = None \<Longrightarrow>
   skRaw (sinkCopy lib f ps k) = skRaw k + int (length (concat ps)) \<and> spoolOk (skSpool (sinkCopy lib f ps k)) \<and>
   spoolBytes (skSpool (sinkCopy lib f ps k)) @ concat (gzClose lib (skZw (sinkCopy lib f ps k))) =
     spoolBytes (skSpool k) @ concat (gzOutput lib (skZw k) ps)"
proof (induction ps arbitrary: k)
  case (Cons p ps)
  have e: "skErr (sinkWrite lib f p k) = None" using Cons.prems(3) by (auto simp: Let_def split: if_splits)
  note sinkWrite_ok [OF Cons.prems(1,2) e]
  with Cons.IH [of "sinkWrite lib f p k"] Cons.prems(3) e show ?case by (auto simp: Let_def)
qed auto

lemma sinkCopy_spoolOk: "spoolOk (skSpool k) \<Longrightarrow> spoolOk (skSpool (sinkCopy lib f ps k))"
proof (induction ps arbitrary: k)
  case (Cons p ps)
  obtain cs z where g: "gzWrite lib p (skZw k) = (cs, z)" by fastforce
  obtain e n s where a: "spoolAll f cs (skWrites k) (skSpool k) = (e, n, s)" by (metis prod_cases3)
  have "spoolOk (skSpool (sinkWrite lib f p k))"
    using g a spoolAll_ok [OF Cons.prems a] by (cases e) (auto simp: sinkWrite_def)
  with Cons.IH show ?case by (auto simp: Let_def)
qed simp

lemma sinkCopy_tail:
  "\<exists>n. skTail (sinkCopy lib f ps k) = foldl tailWrite (skTail k) (take n ps)"
proof (induction ps arbitrary: k)
  case (Cons p ps)
  show ?case
  proof (cases "skErr (sinkWrite lib f p k) = None")
    case True
    obtain n where "skTail (sinkCopy lib f ps (sinkWrite lib f p k)) = foldl tailWrite (skTail (sinkWrite lib f p k)) (take n ps)"
      using Cons.IH by blast
    then show ?thesis using True by (intro exI [of _ "Suc n"]) (simp add: Let_def sinkWrite_tail)
  next
    case False
    then show ?thesis by (intro exI [of _ "Suc 0"]) (auto simp: Let_def sinkWrite_tail)
  qed
qed (auto intro: exI [of _ 0])

lemma tail_of_writes: "tailString (foldl tailWrite newTailRing chunks) = take_last listTailBytes (concat chunks)"
proof -
  have "tailInv listTailBytes newTailRing" "tailString newTailRing = []"
    by (simp_all add: tailInv_def newTailRing_def listTailBytes_def tailString_def)
  then show ?thesis using outTail.view_pushes [of newTailRing chunks] by simp
qed
lemma gzFlush_fits:
  assumes "\<forall>n. f n = (False, False)"
  shows "skErr k = None \<Longrightarrow> spoolOk (skSpool k) \<Longrightarrow>
    spN (skSpool k) + int (length (concat (gzOutput lib (skZw k) ps))) \<le> spFileMax (skSpool k) \<Longrightarrow>
    let k' = sinkCopy lib f ps k
    in skErr k' = None \<and> spFileMax (skSpool k') = spFileMax (skSpool k) \<and>
       spN (skSpool k') + int (length (concat (gzClose lib (skZw k')))) \<le> spFileMax (skSpool k)"
proof (induction ps arbitrary: k)
  case (Cons p ps)
  obtain cs z where g: "gzWrite lib p (skZw k) = (cs, z)" by fastforce
  have fit: "spN (skSpool k) + int (length (concat cs)) \<le> spFileMax (skSpool k)" using Cons.prems(3) g by simp
  obtain n s where a: "spoolAll f cs (skWrites k) (skSpool k) = (None, n, s)" "spN s = spN (skSpool k) + int (length (concat cs))"
    using spoolAll_fits [OF assms Cons.prems(2) fit] by blast
  note spoolAll_ok [OF Cons.prems(2) a(1)]
  with a g have k1: "skErr (sinkWrite lib f p k) = None" "skSpool (sinkWrite lib f p k) = s" "skZw (sinkWrite lib f p k) = z"
      "spoolOk s" "spFileMax s = spFileMax (skSpool k)"
    using Cons.prems(1) by (auto simp: sinkWrite_def)
  show ?case using Cons.IH [of "sinkWrite lib f p k"] Cons.prems(3) k1 a(2) g by (auto simp: Let_def add.assoc)
qed simp

lemma runListFiles_cases:
  assumes "gzipLaw lib" "runListFiles lib f sealFault memMax r = (res, s)"
  shows "(case res of
       Inr rawB \<Rightarrow> cdOk r \<and> rawB = int (length (concat (cdOut r))) \<and> gzInflate lib (spoolBytes s) = Some (concat (cdOut r), True)
     | Inl (e, t) \<Rightarrow> spFile s = None \<and> spMem s = [] \<and> (\<exists>n. t = take_last listTailBytes (concat (take n (cdOut r))))) \<and>
    ((\<exists>rawB. res = Inr rawB) \<or> \<not> cdOk r \<or> sealFault \<or> \<not> (\<forall>n. f n = (False, False)) \<or>
     listSpoolFileMax < int (length (concat (gzOutput lib (gzNew lib) (cdOut r)))))"
proof -
  let ?new = "newListSink lib memMax" let ?k = "sinkCopy lib f (cdOut r) ?new"
  obtain e n s1 where w: "spoolAll f (gzClose lib (skZw ?k)) (skWrites ?k) (skSpool ?k) = (e, n, s1)" by (metis prod_cases3)
  have k0: "skErr ?new = None" "spoolOk (skSpool ?new)" "skRaw ?new = 0" "spoolBytes (skSpool ?new) = []" "skZw ?new = gzNew lib"
      "spN (skSpool ?new) = 0" "spFileMax (skSpool ?new) = listSpoolFileMax" "skTail ?new = newTailRing"
    by (simp_all add: newListSink_def spoolOk_new)
  have ok: "skErr ?k = None \<Longrightarrow> skRaw ?k = int (length (concat (cdOut r))) \<and> spoolOk (skSpool ?k) \<and>
      spoolBytes (skSpool ?k) @ concat (gzClose lib (skZw ?k)) = concat (gzOutput lib (gzNew lib) (cdOut r))"
    using sinkCopy_ok [OF k0(1,2)] by (simp add: k0)
  have flushed: "gzInflate lib (spoolBytes s1) = Some (concat (cdOut r), True)" if "skErr ?k = None" "e = None"
    using ok [OF that(1)] spoolAll_ok [OF _ w] that(2) assms(1) by (auto simp: gzipLaw_def)
  have tail: "\<exists>n. tailString (skTail ?k) = take_last listTailBytes (concat (take n (cdOut r)))"
    using sinkCopy_tail [of lib f "cdOut r" ?new] by (auto simp: k0 tail_of_writes)
  have fits: "skErr ?k = None \<and> e = None" if "\<forall>n. f n = (False, False)" "int (length (concat (gzOutput lib (gzNew lib) (cdOut r)))) \<le> listSpoolFileMax"
  proof -
    from gzFlush_fits [OF that(1) k0(1,2), of lib "cdOut r"] that(2)
    have k: "skErr ?k = None" "spN (skSpool ?k) + int (length (concat (gzClose lib (skZw ?k)))) \<le> spFileMax (skSpool ?k)"
      by (auto simp: k0 Let_def)
    show ?thesis using k spoolAll_fits [OF that(1) _ k(2), of "skWrites ?k"] ok w by auto
  qed
  have "case res of
       Inr rawB \<Rightarrow> cdOk r \<and> rawB = int (length (concat (cdOut r))) \<and> gzInflate lib (spoolBytes s) = Some (concat (cdOut r), True)
     | Inl (e, t) \<Rightarrow> spFile s = None \<and> spMem s = [] \<and> (\<exists>n. t = take_last listTailBytes (concat (take n (cdOut r))))"
    using assms(2) w ok flushed tail by (auto simp: runListFiles_def Let_def spoolClose_def split: option.splits if_splits)
  moreover have "\<exists>rawB. res = Inr rawB" if "cdOk r" "\<not> sealFault" "\<forall>n. f n = (False, False)"
      "int (length (concat (gzOutput lib (gzNew lib) (cdOut r)))) \<le> listSpoolFileMax"
    using fits [OF that(3,4)] that(1,2) assms(2) w by (auto simp: runListFiles_def)
  ultimately show ?thesis using not_less by blast
qed

lemma runListFiles_good:
  "gzipLaw lib \<Longrightarrow> runListFiles lib f sealFault memMax r = (Inr rawB, s) \<Longrightarrow>
   cdOk r \<and> rawB = int (length (concat (cdOut r))) \<and> gzInflate lib (spoolBytes s) = Some (concat (cdOut r), True)"
  using runListFiles_cases [of lib f sealFault memMax r "Inr rawB" s] by simp

text \<open>A run yields a listing exactly when it can be trusted. When \<open>runListFiles\<close> succeeds, the child exited without
  error, the raw length is that of its whole output and the spool inflates to exactly that output, whatever the chunks, and in
  memory or spilled. When it fails, the spool is emptied and its file gone, and the text for the error message is the
  end of what the child had written so far. And it does succeed, when the child does, the disk holds and the compressed listing
  is within the ceiling.\<close>

theorem runListFiles_exact:
  assumes "gzipLaw lib" "runListFiles lib f sealFault memMax r = (res, s)"
  shows "(case res of
       Inr rawB \<Rightarrow> cdOk r \<and> rawB = int (length (concat (cdOut r))) \<and> gzInflate lib (spoolBytes s) = Some (concat (cdOut r), True)
     | Inl (e, t) \<Rightarrow> spFile s = None \<and> spMem s = [] \<and> (\<exists>n. t = take_last listTailBytes (concat (take n (cdOut r))))) \<and>
    ((\<exists>rawB. res = Inr rawB) \<or> \<not> cdOk r \<or> sealFault \<or> \<not> (\<forall>n. f n = (False, False)) \<or>
     listSpoolFileMax < int (length (concat (gzOutput lib (gzNew lib) (cdOut r)))))"
  by (rule runListFiles_cases [OF assms])

text \<open>A library that stores what it is given, to run the model on.\<close>

definition exGzip :: "unit gzipLib" where
  "exGzip = \<lparr>gzNew = (), gzWrite = \<lambda>p z. ([p], ()), gzClose = \<lambda>z. [], gzInflate = \<lambda>s. Some (s, True)\<rparr>"

lemma exGzip_law: "gzipLaw exGzip"
proof -
  have "concat (gzOutput exGzip z ps) = concat ps" for z ps
    by (induction ps arbitrary: z) (simp_all add: exGzip_def)
  then show ?thesis by (simp add: gzipLaw_def) (simp add: exGzip_def)
qed

theorem runListFiles_exact_witness:
  "(\<exists>s. runListFiles exGzip (\<lambda>n. (False, False)) False 2 \<lparr>cdOut = [''ab'', ''cd''], cdOk = True\<rparr> = (Inr 4, s) \<and> spoolBytes s = ''abcd'') \<and>
   (\<exists>e s. runListFiles exGzip (\<lambda>n. (False, n = 1)) False 2 \<lparr>cdOut = [''ab'', ''cd''], cdOk = True\<rparr> = (Inl e, s) \<and> spFile s = None)"
proof -
  obtain x s where r: "runListFiles exGzip (\<lambda>n. (False, False)) False 2 \<lparr>cdOut = [''ab'', ''cd''], cdOk = True\<rparr> = (x, s)" by fastforce
  obtain y t where q: "runListFiles exGzip (\<lambda>n. (False, n = 1)) False 2 \<lparr>cdOut = [''ab'', ''cd''], cdOk = True\<rparr> = (y, t)" by fastforce
  have "fst (runListFiles exGzip (\<lambda>n. (False, False)) False 2 \<lparr>cdOut = [''ab'', ''cd''], cdOk = True\<rparr>) = Inr 4"
    "map_sum fst id (fst (runListFiles exGzip (\<lambda>n. (False, n = 1)) False 2 \<lparr>cdOut = [''ab'', ''cd''], cdOk = True\<rparr>)) = Inl (SpoolError ErrSpoolFailed)"
    by (simp_all add: runListFiles_def exGzip_def newListSink_def newListSpool_def sinkWrite_def spoolWrite_def spoolSpill_def
        spoolAppend_def listSpoolFileMax_def Let_def)
  then show ?thesis using runListFiles_exact [OF exGzip_law r] runListFiles_exact [OF exGzip_law q] r q
    by (cases y) (auto simp: exGzip_def)
qed
section \<open>What a listing response says\<close>

text \<open>\<open>truth\<close> is the listing of every revision, by the key of the cache: the files of a revision never change.\<close>

definition rowsTrue :: "'z gzipLib \<Rightarrow> (string \<times> int \<times> string \<Rightarrow> string) \<Rightarrow> snapshotFilesCacheStore \<Rightarrow> bool" where
  "rowsTrue lib truth s \<longleftrightarrow>
     (\<forall>r\<in>set (cacheRows s). gzInflate lib (crGz r) = Some (truth (rowKey r), True) \<and> crRawBytes r = int (length (truth (rowKey r))))"

definition cacheTrue :: "'z gzipLib \<Rightarrow> (string \<times> int \<times> string \<Rightarrow> string) \<Rightarrow> listApp \<Rightarrow> bool" where
  "cacheTrue lib truth a \<longleftrightarrow> (case laCache a of None \<Rightarrow> True | Some s \<Rightarrow> rowsTrue lib truth s)"

definition othersTrue :: "'z listEnv \<Rightarrow> (string \<times> int \<times> string \<Rightarrow> string) \<Rightarrow> bool" where
  "othersTrue e truth \<longleftrightarrow> (\<forall>w s. rowsTrue (leGzip e) truth s \<longrightarrow> rowsTrue (leGzip e) truth (leOthers e w s))"

definition sent :: "'z listEnv \<Rightarrow> string \<Rightarrow> listResp" where
  "sent e t = ListData (int (length t)) (fst (leClient e (int (length t)) t))"

definition noData :: "listResp \<Rightarrow> bool" where
  "noData r \<longleftrightarrow> (case r of ListData n b \<Rightarrow> False | EmptyOk \<Rightarrow> False | _ \<Rightarrow> True)"

lemma noData_simps [simp]: "noData NoAnswer" "noData (ListError c b h)" "\<not> noData EmptyOk" "\<not> noData (ListData n x)"
  by (simp_all add: noData_def)

lemma noData_refused [simp]: "noData (queueRefused w r)"
  by (simp add: queueRefused_def)

lemma rowsTrue_subset: "rowsTrue lib truth s \<Longrightarrow> set (cacheRows s') \<subseteq> set (cacheRows s) \<Longrightarrow> rowsTrue lib truth s'"
  by (auto simp: rowsTrue_def)

lemma rowsTrue_touch: "rowsTrue lib truth s \<Longrightarrow> rowsTrue lib truth (snd (cacheOpen now snap rv storage s))"
  by (auto simp: rowsTrue_def cacheOpen_def rowKey_def split: option.splits)

lemma rowsTrue_open:
  "rowsTrue lib truth s \<Longrightarrow> cacheOpen now snap rv storage s = (Some (gz, rawB), s') \<Longrightarrow>
   gzInflate lib gz = Some (truth (snap, rv, storage), True) \<and> rawB = int (length (truth (snap, rv, storage)))"
  unfolding rowsTrue_def cacheOpen_def by (force simp: find_Some_iff split: option.splits)

lemma rowsTrue_drop: "rowsTrue lib truth s \<Longrightarrow> rowsTrue lib truth (cacheDrop snap rv storage s)"
  by (auto simp: rowsTrue_def cacheDrop_def)

lemma rowsTrue_mark: "rowsTrue lib truth s \<Longrightarrow> rowsTrue lib truth (markUncacheable repoID storage snap rv x n m s)"
  by (erule rowsTrue_subset) simp

lemma evictBySize_subset: "set (cacheRows (evictBySize ex s)) \<subseteq> set (cacheRows s)"
  by (auto simp: evictBySize_def markCapEvicted_def fold_markUncacheable deleteByRowID_def Let_def)

lemma rowsTrue_put:
  assumes "rowsTrue lib truth s" "gzInflate lib gz = Some (truth (snap, rv, storage), True)" "rawB = int (length (truth (snap, rv, storage)))"
  shows "rowsTrue lib truth (putGzipped now snap rv storage repoID gz rawB s)"
proof -
  have "rowsTrue lib truth (s\<lparr>cacheRows := xs\<rparr>)"
    if "set xs \<subseteq> set (cacheRows s) \<union> {r. crGz r = gz \<and> crRawBytes r = rawB \<and> rowKey r = (snap, rv, storage)}" for xs
    using that assms by (auto simp: rowsTrue_def)
  then show ?thesis unfolding putGzipped_def Let_def
    by (rule rowsTrue_subset [OF _ evictBySize_subset]) (auto simp: rowKey_def)
qed

lemma serveCached_true:
  assumes "serveCached e i snap rv storage a = (r, a')" "cacheTrue (leGzip e) truth a" "othersTrue e truth"
  shows "cacheTrue (leGzip e) truth a' \<and> (case r of None \<Rightarrow> True | Some x \<Rightarrow> noData x \<or> x = sent e (truth (snap, rv, storage)))"
proof (cases "laCache a")
  case None
  then show ?thesis using assms by (simp add: serveCached_def)
next
  case (Some s)
  let ?s = "leOthers e (AtHit i) s"
  have s: "rowsTrue (leGzip e) truth ?s" using assms(2,3) Some by (auto simp: cacheTrue_def othersTrue_def)
  obtain o1 s2 where op: "cacheOpen (seNow (leStore e)) snap rv storage ?s = (o1, s2)" by fastforce
  have s2: "rowsTrue (leGzip e) truth s2" using rowsTrue_touch [OF s] op by (metis snd_conv)
  obtain gr g where gt: "gateAcquire True (leWait e (AtHit i)) (laHit a) = (gr, g)" by fastforce
  obtain snt held where cl: "leClient e (int (length (truth (snap, rv, storage)))) (truth (snap, rv, storage)) = (snt, held)" by fastforce
  show ?thesis
  proof (cases "snap = [] \<or> leHasFault e (AtHit i) \<or> \<not> cacheHas s snap rv storage")
    case True
    then have "serveCached e i snap rv storage a = (None, a)" using Some by (auto simp: serveCached_def)
    then show ?thesis using assms(1,2) by simp
  next
    case False
    show ?thesis
    proof (cases "gr = GateAcquired \<and> \<not> leOpenFault e (AtHit i)")
      case True
      then show ?thesis using assms(1) Some False gt op s2 rowsTrue_drop [OF s2] rowsTrue_open [OF s, of _ snap rv storage] cl
        by (cases o1; cases held) (auto simp: serveCached_def writeListing_def cacheTrue_def releaseHit_def sent_def Let_def)
    next
      case no: False
      then show ?thesis using assms(1) Some False gt s
        by (cases gr) (auto simp: serveCached_def cacheTrue_def releaseHit_def Let_def)
    qed
  qed
qed

lemma cacheTrue_simps [simp]:
  "cacheTrue lib truth (a\<lparr>laHit := g\<rparr>) = cacheTrue lib truth a"
  "cacheTrue lib truth (a\<lparr>laList := g\<rparr>) = cacheTrue lib truth a"
  "cacheTrue lib truth (a\<lparr>laSecrets := x\<rparr>) = cacheTrue lib truth a"
  "cacheTrue lib truth (releaseList a) = cacheTrue lib truth a"
  by (simp_all add: cacheTrue_def releaseList_def)

lemma cacheTrue_map:
  "cacheTrue lib truth a \<Longrightarrow> (\<And>s. rowsTrue lib truth s \<Longrightarrow> rowsTrue lib truth (f s)) \<Longrightarrow>
   cacheTrue lib truth (a\<lparr>laCache := map_option f (laCache a)\<rparr>)"
  by (simp add: cacheTrue_def split: option.splits)

lemma listLoop_true:
  "othersTrue e truth \<Longrightarrow> cacheTrue (leGzip e) truth a \<Longrightarrow> listLoop e left snap rv storage a = (r, a') \<Longrightarrow>
   cacheTrue (leGzip e) truth a' \<and> (case r of SlotHeld \<Rightarrow> True | Answered x \<Rightarrow> noData x \<or> x = sent e (truth (snap, rv, storage)))"
proof (induction left arbitrary: a)
  case 0
  have "cacheTrue (leGzip e) truth (a\<lparr>laCache := map_option (leOthers e (AtList 0)) (laCache a)\<rparr>)"
    using 0 by (auto intro: cacheTrue_map simp: othersTrue_def)
  then show ?case using 0(3) [unfolded listLoop.simps [of e 0]] by (auto simp: Let_def split: prod.splits gateResult.splits)
next
  case (Suc n)
  let ?a = "a\<lparr>laCache := map_option (leOthers e (AtList (Suc n))) (laCache a)\<rparr>"
  have t: "cacheTrue (leGzip e) truth ?a"
    using Suc.prems by (auto intro: cacheTrue_map simp: othersTrue_def)
  obtain gr g where gt: "gateAcquire True (leWait e (AtList (Suc n))) (laList a) = (gr, g)" by fastforce
  let ?a1 = "?a\<lparr>laList := g\<rparr>"
  obtain x a3 where sc: "serveCached e (Suc n) snap rv storage (releaseList ?a1) = (x, a3)" by fastforce
  have a3: "cacheTrue (leGzip e) truth a3 \<and> (case x of None \<Rightarrow> True | Some y \<Rightarrow> noData y \<or> y = sent e (truth (snap, rv, storage)))"
    by (rule serveCached_true [OF sc _ Suc.prems(1)]) (use t in simp)
  note step = Suc.prems(3) [unfolded listLoop.simps [of e "Suc n"] Let_def]
  show ?case
  proof (cases "gr = GateAcquired")
    case True
    then show ?thesis using step gt t sc a3 Suc.IH [OF Suc.prems(1), of a3]
      by (cases x) (auto split: if_splits)
  next
    case False
    then show ?thesis using step gt t by (cases gr) auto
  qed
qed
definition runsTrue :: "'z listEnv \<Rightarrow> Repo \<Rightarrow> listReq \<Rightarrow> (string \<times> int \<times> string \<Rightarrow> string) \<Rightarrow> bool" where
  "runsTrue e repo q truth \<longleftrightarrow>
     (\<forall>env rsaPriv. let r = leRun e (listFilesInvocation repo (lqRev q) env rsaPriv (lqStorage q) (lqId q))
        in cdOk r \<longrightarrow> concat (cdOut r) = truth (lqSnap repo q, lqRev q, storageKeyOf (lqStorage q)))"

lemma serveMiss_true:
  assumes "gzipLaw (leGzip e)" "othersTrue e truth" "runsTrue e repo q truth" "cacheTrue (leGzip e) truth a"
    "serveMiss e repo q a = (r, a')"
  shows "cacheTrue (leGzip e) truth a' \<and> (noData r \<or> r = sent e (truth (lqSnap repo q, lqRev q, storageKeyOf (lqStorage q))))"
proof (cases "ceilingMarked e repo q a")
  case True
  then show ?thesis using assms(4,5) by (auto simp: serveMiss_def)
next
  case unmarked: False
  let ?t = "truth (lqSnap repo q, lqRev q, storageKeyOf (lqStorage q))"
  obtain x st where v: "leVend e repo (laSecrets a) = (x, st)" by fastforce
  show ?thesis
  proof (cases x)
    case (Inl errs)
    then show ?thesis using assms(4,5) unmarked v by (auto simp: serveMiss_def)
  next
    case (Inr y)
    obtain env rsaPriv tmp where y: "y = (env, rsaPriv, tmp)" by (metis prod_cases3)
    let ?run = "leRun e (listFilesInvocation repo (lqRev q) env rsaPriv (lqStorage q) (lqId q))"
    let ?a1 = "a\<lparr>laSecrets := st, laCache := map_option (leOthers e AtRun) (laCache a)\<rparr>"
    have a1: "cacheTrue (leGzip e) truth ?a1"
      using assms(2,4) by (auto simp: cacheTrue_def othersTrue_def split: option.splits)
    obtain res s where l: "runListFiles (leGzip e) (leFaults e) (leSealFault e) (listSpoolMemMax (seRowMax (leStore e))) ?run = (res, s)"
      by fastforce
    show ?thesis
    proof (cases res)
      case res: (Inl z)
      obtain err out where z: "z = (err, out)" by fastforce
      have "cacheTrue (leGzip e) truth (snd (answerFailure e repo q err out (releaseList ?a1))) \<and> noData (fst (answerFailure e repo q err out (releaseList ?a1)))"
        using a1 by (auto simp: answerFailure_def cacheTrue_def releaseList_def rowsTrue_mark split: listErr.splits spoolErr.splits option.splits)
      then show ?thesis using assms(5) unmarked v Inr y l res z
        by (auto simp: serveMiss_def Let_def split: prod.splits)
    next
      case res: (Inr rawB)
      have run: "cdOk ?run" "rawB = int (length (concat (cdOut ?run)))" "gzInflate (leGzip e) (spoolBytes s) = Some (concat (cdOut ?run), True)"
        using runListFiles_good [OF assms(1) l [unfolded res]] by auto
      have t: "concat (cdOut ?run) = ?t" using assms(3) run(1) by (simp add: runsTrue_def Let_def)
      have "rowsTrue (leGzip e) truth c \<Longrightarrow> rowsTrue (leGzip e) truth
          (storeListing (leStore e) (lqSnap repo q) (lqRev q) (storageKeyOf (lqStorage q)) (rID repo) (spoolBytes s) rawB c)" for c
        using run(2,3) t by (auto simp: storeListing_def rowsTrue_mark rowsTrue_put)
      then have "cacheTrue (leGzip e) truth (storeResult e repo q s rawB ?a1)"
        using a1 by (auto simp: storeResult_def cacheTrue_def split: option.splits)
      then show ?thesis using assms(5) unmarked v Inr y l res run(2,3) t
        by (auto simp: serveMiss_def writeListing_def sent_def Let_def split: prod.splits)
    qed
  qed
qed

text \<open>C4. Whatever happens - a hit, a wait at a gate while other requests store, drop and evict, a child killed half-way, a spool
  that overflows, a database that refuses statements - a listing request is answered either with an error or no answer at all,
  or with a 200 that announces exactly the length of the true listing of that snapshot, revision and storage and sends its bytes;
  never with a partial listing, an empty one or another revision's. And every row it leaves in the cache is the compressed true
  listing of its key. The hypothesis is that a run that exits well prints the listing of the key it is asked for, which is the
  immutability the cache is built on; the key has no repository in it.\<close>

theorem served_listing_complete:
  assumes "gzipLaw (leGzip e)" "othersTrue e truth" "cacheTrue (leGzip e) truth a"
    "\<forall>repo q. indexGet ix i = Some repo \<longrightarrow> runsTrue e repo q truth"
    "handleSnapshotFiles e ix i rv storage idq a = (r, a')"
  shows "cacheTrue (leGzip e) truth a' \<and>
    (noData r \<or>
     (\<exists>repo n. indexGet ix i = Some repo \<and> atoi rv = (n, True) \<and> 0 < n \<and>
        r = sent e (truth (lqSnap repo \<lparr>lqRev = n, lqStorage = storage, lqId = idq\<rparr>, n, storageKeyOf storage))))"
proof (cases "indexGet ix i")
  case None
  then show ?thesis using assms(3,5) by (auto simp: handleSnapshotFiles_def)
next
  case (Some repo)
  obtain n ok where rv: "atoi rv = (n, ok)" by fastforce
  let ?q = "\<lparr>lqRev = n, lqStorage = storage, lqId = idq\<rparr>"
  let ?key = "(lqSnap repo ?q, n, storageKeyOf storage)"
  show ?thesis
  proof (cases "ok \<and> 0 < n")
    case False
    then show ?thesis using assms(3,5) Some rv by (auto simp: handleSnapshotFiles_def)
  next
    case True
    then have s: "serveSnapshotFiles e repo ?q a = (r, a')" using assms(5) Some rv by (simp add: handleSnapshotFiles_def)
    obtain x1 a1 where c: "serveCached e (Suc cacheTries) (lqSnap repo ?q) n (storageKeyOf storage) a = (x1, a1)" by fastforce
    obtain x2 a2 where l: "listLoop e cacheTries (lqSnap repo ?q) n (storageKeyOf storage) a1 = (x2, a2)" by fastforce
    note c1 = serveCached_true [OF c assms(3,2)]
    note l1 = listLoop_true [OF assms(2) conjunct1 [OF c1] l]
    have run: "runsTrue e repo ?q truth" using assms(4) Some by blast
    have "cacheTrue (leGzip e) truth a' \<and> (noData r \<or> r = sent e (truth ?key))"
      using s c l c1 l1 serveMiss_true [OF assms(1,2) run, of a2]
      by (auto simp: serveSnapshotFiles_def Let_def split: option.splits slotResult.splits)
    then show ?thesis using Some rv True by auto
  qed
qed

definition exListEnv :: "unit listEnv" where
  "exListEnv =
     \<lparr>leGzip = exGzip, leClient = \<lambda>n b. (b, True), leWait = \<lambda>w. WaitExpired, leOthers = \<lambda>w s. s, leHasFault = \<lambda>w. False,
      leOpenFault = \<lambda>w. False, leInfoFault = False, leMarkFault = False, lePutFault = False,
      leVend = \<lambda>repo st. (Inr ([], [], []), st), leRun = \<lambda>ci. \<lparr>cdOut = [''f1 '', ''f2''], cdOk = True\<rparr>,
      leFaults = \<lambda>n. (False, False), leSealFault = False, leStore = exSweepEnv, leQueueWait = 5000000000\<rparr>"

definition exListApp :: listApp where
  "exListApp =
     \<lparr>laCache = Some (newSnapshotFilesCacheStore 0 2 [] []), laHit = newListGate 1, laList = newListGate 1,
      laSecrets = \<lparr>ssCache = [], ssShm = \<lparr>shmFiles = [], shmOutcomes = []\<rparr>, ssDisk = exDisk\<rparr>\<rparr>"

definition exListIndex :: repoIndex where
  "exListIndex = (newRepoIndex [])\<lparr>ixRepos := [(''R'', exRepo ''R'')]\<rparr>"

lemma exListEnv_sel [simp]:
  "leGzip exListEnv = exGzip" "leOthers exListEnv w s = s" "leRun exListEnv ci = \<lparr>cdOut = [''f1 '', ''f2''], cdOk = True\<rparr>"
  "leClient exListEnv n b = (b, True)"
  by (simp_all add: exListEnv_def)

lemma exList_true: "othersTrue exListEnv truth" "cacheTrue exGzip truth exListApp" "runsTrue exListEnv repo q (\<lambda>k. ''f1 f2'')"
  by (simp add: othersTrue_def, simp add: cacheTrue_def exListApp_def rowsTrue_def newSnapshotFilesCacheStore_def, simp add: runsTrue_def)

lemma exRun_ok:
  "\<exists>s. runListFiles exGzip (\<lambda>n. (False, False)) False m \<lparr>cdOut = [''f1 '', ''f2''], cdOk = True\<rparr> = (Inr 5, s)"
proof -
  obtain x s where r: "runListFiles exGzip (\<lambda>n. (False, False)) False m \<lparr>cdOut = [''f1 '', ''f2''], cdOk = True\<rparr> = (x, s)" by fastforce
  have "int (length (concat (gzOutput exGzip (gzNew exGzip) (cdOut \<lparr>cdOut = [''f1 '', ''f2''], cdOk = True\<rparr>)))) = 5" by (simp add: exGzip_def)
  then have "\<exists>rawB. x = Inr rawB" using runListFiles_cases [OF exGzip_law r] by (auto simp: listSpoolFileMax_def)
  then show ?thesis using runListFiles_good [OF exGzip_law, of _ _ _ "\<lparr>cdOut = [''f1 '', ''f2''], cdOk = True\<rparr>"] r by fastforce
qed

lemma exServe:
  "\<exists>b a'. serveSnapshotFiles exListEnv (exRepo ''R'') \<lparr>lqRev = 7, lqStorage = [], lqId = []\<rparr> exListApp = (ListData 5 b, a') \<and> laHit a' = newListGate 1"
proof -
  obtain s where r: "runListFiles exGzip (\<lambda>n. (False, False)) False (listSpoolMemMax (seRowMax exSweepEnv)) \<lparr>cdOut = [''f1 '', ''f2''], cdOk = True\<rparr> = (Inr 5, s)"
    using exRun_ok by blast
  have "gzInflate exGzip x = Some (x, True)" for x by (simp add: exGzip_def)
  then show ?thesis using r
    by (simp add: serveSnapshotFiles_def serveCached_def exListApp_def cacheHas_def newSnapshotFilesCacheStore_def storeResult_def
        cacheTries_def listLoop.simps numeral_3_eq_3 gateAcquire_def newListGate_def exListEnv_def serveMiss_def ceilingMarked_def
        uncacheableInfo_def writeListing_def releaseList_def Let_def)
qed

lemma exHandle: "\<exists>b a'. handleSnapshotFiles exListEnv exListIndex ''R'' ''7'' [] [] exListApp = (ListData 5 b, a')"
proof -
  have rv: "atoi ''7'' = (7, True)" by code_simp
  have ix: "indexGet exListIndex ''R'' = Some (exRepo ''R'')" by (simp add: exListIndex_def indexGet_def)
  show ?thesis using exServe by (auto simp: handleSnapshotFiles_def rv ix)
qed

theorem served_listing_complete_witness:
  "fst (handleSnapshotFiles exListEnv exListIndex ''R'' ''7'' [] [] exListApp) = ListData 5 ''f1 f2''"
proof -
  obtain r a' where h: "handleSnapshotFiles exListEnv exListIndex ''R'' ''7'' [] [] exListApp = (r, a')" by fastforce
  have "r = sent exListEnv ''f1 f2''"
    using exHandle served_listing_complete [of exListEnv "\<lambda>k. ''f1 f2''", OF _ exList_true(1) _ _ h] exList_true(2,3) exGzip_law h by auto
  then show ?thesis using h by (simp add: sent_def)
qed

section \<open>What a listing request gives back\<close>

definition neverFreed :: "'z listEnv \<Rightarrow> bool" where
  "neverFreed e \<longleftrightarrow> (\<forall>w. leWait e w \<noteq> SlotFreed)"

text \<open>No slot is kept: none is held that was not, and when no other request gave one up meanwhile, the gates are as before.\<close>

definition gateBack :: "bool \<Rightarrow> listGate \<Rightarrow> listGate \<Rightarrow> bool" where
  "gateBack still g g' \<longleftrightarrow> gSlots g' = gSlots g \<and> gHeld g' \<le> gHeld g \<and> (still \<longrightarrow> g' = g)"

definition slotsBack :: "'z listEnv \<Rightarrow> listApp \<Rightarrow> listApp \<Rightarrow> bool" where
  "slotsBack e a a' \<longleftrightarrow> gateBack (neverFreed e) (laHit a) (laHit a') \<and> gateBack (neverFreed e) (laList a) (laList a')"

lemma gateBack_refl [simp]: "gateBack still g g"
  by (simp add: gateBack_def)

lemma slotsBack_trans: "slotsBack e a b \<Longrightarrow> slotsBack e b c \<Longrightarrow> slotsBack e a c"
  by (auto simp: slotsBack_def gateBack_def)

lemma gateBack_acquire:
  "gateAcquire True (leWait e w) g = (x, g') \<Longrightarrow> neverFreed e = still \<Longrightarrow>
   if x = GateAcquired then gateBack still g (snd (gateRelease True g')) else g' = g"
  by (auto simp: gateAcquire_def gateRelease_def gateBack_def neverFreed_def Let_def split: if_splits gateWait.splits)

lemma serveCached_slots:
  assumes "serveCached e i snap rv storage a = (r, a')"
  shows "slotsBack e a a' \<and> laSecrets a' = laSecrets a \<and> laList a' = laList a"
proof (cases "case laCache a of None \<Rightarrow> True | Some s \<Rightarrow> snap = [] \<or> leHasFault e (AtHit i) \<or> \<not> cacheHas s snap rv storage")
  case True
  then have "serveCached e i snap rv storage a = (None, a)" by (auto simp: serveCached_def split: option.splits)
  then show ?thesis using assms by (simp add: slotsBack_def)
next
  case False
  then obtain s where s: "laCache a = Some s" "snap \<noteq> []" "\<not> leHasFault e (AtHit i)" "cacheHas s snap rv storage"
    by (auto split: option.splits)
  obtain x g where g: "gateAcquire True (leWait e (AtHit i)) (laHit a) = (x, g)" by fastforce
  note gateBack_acquire [OF g refl]
  then show ?thesis using assms s g
    by (cases x) (auto simp: serveCached_def slotsBack_def releaseHit_def Let_def split: if_splits prod.splits option.splits bool.splits)
qed

lemma releaseList_simps [simp]: "laHit (releaseList a) = laHit a" "laSecrets (releaseList a) = laSecrets a" "laCache (releaseList a) = laCache a"
  by (simp_all add: releaseList_def)

lemma listLoop_slots:
  "listLoop e left snap rv storage a = (r, a') \<Longrightarrow>
   laSecrets a' = laSecrets a \<and> slotsBack e a (case r of SlotHeld \<Rightarrow> releaseList a' | Answered x \<Rightarrow> a')"
proof (induction left arbitrary: a)
  case 0
  obtain x g where g: "gateAcquire True (leWait e (AtList 0)) (laList a) = (x, g)" by fastforce
  note gateBack_acquire [OF g refl]
  then show ?case using 0 [unfolded listLoop.simps [of e 0]] g
    by (cases x) (auto simp: slotsBack_def releaseList_def Let_def)
next
  case (Suc n)
  let ?a = "a\<lparr>laCache := map_option (leOthers e (AtList (Suc n))) (laCache a)\<rparr>"
  obtain x g where g: "gateAcquire True (leWait e (AtList (Suc n))) (laList a) = (x, g)" by fastforce
  note gb = gateBack_acquire [OF g refl]
  let ?a1 = "?a\<lparr>laList := g\<rparr>"
  obtain y a3 where sc: "serveCached e (Suc n) snap rv storage (releaseList ?a1) = (y, a3)" by fastforce
  note s3 = serveCached_slots [OF sc]
  have given: "x = GateAcquired \<Longrightarrow> slotsBack e a (releaseList ?a1)" using gb by (simp add: slotsBack_def releaseList_def)
  note step = Suc.prems [unfolded listLoop.simps [of e "Suc n"] Let_def]
  show ?case
  proof (cases "x = GateAcquired")
    case True
    from given [OF True] s3 have "slotsBack e a a3" by (blast intro: slotsBack_trans)
    then show ?thesis using step g True sc s3 given Suc.IH [of a3]
      by (cases y) (auto split: if_splits intro: slotsBack_trans)
  next
    case False
    then show ?thesis using step g gb by (cases x) (auto simp: slotsBack_def)
  qed
qed

lemma answerFailure_same: "laSecrets (snd (answerFailure e repo q err outTl a)) = laSecrets a"
    "laHit (snd (answerFailure e repo q err outTl a)) = laHit a" "laList (snd (answerFailure e repo q err outTl a)) = laList a"
  by (auto simp: answerFailure_def split: listErr.splits spoolErr.splits)

lemma serveMiss_back:
  assumes "\<And>st. leVend e repo st = prepareEnvForRepo sha pkcs1 v ms (rPath repo) st" "serveMiss e repo q a = (r, a')"
  shows "laHit a' = laHit a \<and> laList a' = laList (releaseList a) \<and> shmFiles (ssShm (laSecrets a')) = shmFiles (ssShm (laSecrets a))"
proof -
  obtain x st where p: "leVend e repo (laSecrets a) = (x, st)" by fastforce
  note shm = prepareEnv_shm [OF p [unfolded assms(1)]]
  show ?thesis
  proof (cases "ceilingMarked e repo q a")
    case True
    then show ?thesis using assms(2) by (auto simp: serveMiss_def releaseList_def)
  next
    case um: False
    show ?thesis
    proof (cases x)
      case (Inl errs)
      then show ?thesis using assms(2) p shm um by (auto simp: serveMiss_def releaseList_def)
    next
      case x: (Inr y)
    obtain env rsaPriv tmp where y: "y = (env, rsaPriv, tmp)" by (metis prod_cases3)
    have clean: "shmFiles (cleanupTmpfiles tmp (ssShm st)) = shmFiles (ssShm (laSecrets a))"
      using shm x y by (simp add: grows_cleanup)
    let ?a1 = "a\<lparr>laSecrets := st, laCache := map_option (leOthers e AtRun) (laCache a)\<rparr>"
    obtain res s where l: "runListFiles (leGzip e) (leFaults e) (leSealFault e) (listSpoolMemMax (seRowMax (leStore e)))
        (leRun e (listFilesInvocation repo (lqRev q) env rsaPriv (lqStorage q) (lqId q))) = (res, s)" by fastforce
    show ?thesis
    proof (cases res)
      case res: (Inl z)
      obtain err out where z: "z = (err, out)" by fastforce
      obtain r2 a2 where af: "answerFailure e repo q err out (releaseList ?a1) = (r2, a2)" by fastforce
      then have "laSecrets a2 = st" "laHit a2 = laHit a" "laList a2 = laList (releaseList a)"
        using answerFailure_same [of e repo q err out "releaseList ?a1"] by simp_all (simp add: releaseList_def)
      moreover have "a' = a2\<lparr>laSecrets := (laSecrets a2)\<lparr>ssShm := cleanupTmpfiles tmp (ssShm (laSecrets a2))\<rparr>\<rparr>"
        using assms(2) um p x y l res z af by (simp add: serveMiss_def)
      ultimately show ?thesis using clean by simp
    next
      case (Inr rawB)
      then show ?thesis using assms(2) p l x y clean um
        by (auto simp: serveMiss_def Let_def storeResult_def releaseList_def split: prod.splits)
    qed
  qed
  qed
qed

text \<open>C13. A listing request keeps nothing, on any path: every slot of either gate that it took is given back - on a hit, after a
  wait, when the client or the queue gives up, when credentials cannot be vended, when the child fails, when the spool
  overflows and after a full answer - and no key file of its credentials stays in /dev/shm.\<close>

theorem listing_gives_back:
  assumes "\<forall>repo st. leVend e repo st = prepareEnvForRepo sha pkcs1 v ms (rPath repo) st"
    "handleSnapshotFiles e ix i rv storage idq a = (r, a')"
  shows "slotsBack e a a' \<and> shmFiles (ssShm (laSecrets a')) = shmFiles (ssShm (laSecrets a))"
proof -
  have "slotsBack e a a' \<and> shmFiles (ssShm (laSecrets a')) = shmFiles (ssShm (laSecrets a))"
    if s: "serveSnapshotFiles e repo q a = (r, a')" for repo q
  proof -
    let ?S = "lqSnap repo q" and ?K = "storageKeyOf (lqStorage q)"
    obtain x1 a1 where c: "serveCached e (Suc cacheTries) ?S (lqRev q) ?K a = (x1, a1)" by fastforce
    obtain x2 a2 where l: "listLoop e cacheTries ?S (lqRev q) ?K a1 = (x2, a2)" by fastforce
    obtain x3 a3 where m: "serveMiss e repo q a2 = (x3, a3)" by fastforce
    note c1 = serveCached_slots [OF c] and l1 = listLoop_slots [OF l]
    have m1: "laHit a3 = laHit a2 \<and> laList a3 = laList (releaseList a2) \<and> shmFiles (ssShm (laSecrets a3)) = shmFiles (ssShm (laSecrets a2))"
      by (rule serveMiss_back [OF _ m]) (use assms(1) in simp)
    have "slotsBack e b (releaseList a2) \<Longrightarrow> slotsBack e b a3" for b
      using m1 by (simp add: slotsBack_def)
    with s c l m c1 l1 m1 show ?thesis
      by (auto simp: serveSnapshotFiles_def Let_def split: option.splits slotResult.splits intro: slotsBack_trans)
  qed
  then show ?thesis using assms(2)
    by (auto simp: handleSnapshotFiles_def slotsBack_def split: option.splits prod.splits if_splits)
qed
theorem listing_gives_back_witness:
  "let e = exListEnv\<lparr>leVend := \<lambda>repo. prepareEnvForRepo id id \<lparr>veNow = 0, veClient = True, veURL = [], veReply = \<lambda>c n. VendNetErr, veCtxDone = \<lambda>c n. False\<rparr>
         (newRepoMappingStore NoFile False) (rPath repo)\<rparr>;
       (r, a') = handleSnapshotFiles e exListIndex ''R'' ''7'' [] [] exListApp
   in r = ListError 500 (VendFails [NoMapping]) None \<and> laList a' = laList exListApp \<and> shmFiles (ssShm (laSecrets a')) = []"
proof -
  let ?v = "\<lparr>veNow = 0, veClient = True, veURL = [], veReply = \<lambda>c n. VendNetErr, veCtxDone = \<lambda>c n. False\<rparr>"
  let ?e = "exListEnv\<lparr>leVend := \<lambda>repo. prepareEnvForRepo id id ?v (newRepoMappingStore NoFile False) (rPath repo)\<rparr>"
  obtain r a' where h: "handleSnapshotFiles ?e exListIndex ''R'' ''7'' [] [] exListApp = (r, a')" by fastforce
  have "fst (handleSnapshotFiles ?e exListIndex ''R'' ''7'' [] [] exListApp) = ListError 500 (VendFails [NoMapping]) None" by code_simp
  moreover have "slotsBack ?e exListApp a' \<and> shmFiles (ssShm (laSecrets a')) = shmFiles (ssShm (laSecrets exListApp))"
    by (rule listing_gives_back [OF _ h, of id id ?v "newRepoMappingStore NoFile False"]) simp
  moreover have "neverFreed ?e" by (simp add: neverFreed_def exListEnv_def)
  ultimately show ?thesis using h by (simp add: slotsBack_def gateBack_def exListApp_def)
qed

section \<open>The second opening\<close>

definition noSizeCap :: "listApp \<Rightarrow> bool" where
  "noSizeCap a \<longleftrightarrow> (case laCache a of None \<Rightarrow> False | Some s \<Rightarrow> maxBytes s \<le> 0)"

definition hasRow :: "string \<times> int \<times> string \<Rightarrow> listApp \<Rightarrow> bool" where
  "hasRow k a \<longleftrightarrow> (case laCache a of None \<Rightarrow> False | Some s \<Rightarrow> cacheHas s (fst k) (fst (snd k)) (snd (snd k)))"

lemma cacheHas_iff: "cacheHas s x y z \<longleftrightarrow> (x, y, z) \<in> rowKey ` set (cacheRows s)"
  by (force simp: cacheHas_def list_ex_iff)

lemma cacheLook_has: "cacheLook s (x, y, z) \<noteq> None \<longleftrightarrow> cacheHas s x y z"
  by (auto simp: cacheLook_def cacheHas_def list_ex_iff find_None_iff)

lemma cacheOpen_keeps:
  "maxBytes (snd (cacheOpen now snap rv storage s)) = maxBytes s"
  "cacheHas (snd (cacheOpen now snap rv storage s)) x y z = cacheHas s x y z"
proof -
  have "map rowKey (cacheRows (snd (cacheOpen now snap rv storage s))) = map rowKey (cacheRows s)"
    by (auto simp: cacheOpen_def rowKey_def split: option.splits)
  then have "rowKey ` set (cacheRows (snd (cacheOpen now snap rv storage s))) = rowKey ` set (cacheRows s)" by (metis list.set_map)
  then show "cacheHas (snd (cacheOpen now snap rv storage s)) x y z = cacheHas s x y z" by (simp add: cacheHas_iff)
qed (auto simp: cacheOpen_def split: option.splits)

lemma putGzipped_has: "maxBytes s \<le> 0 \<Longrightarrow> cacheHas (putGzipped now snap rv storage repoID gz rawB s) snap rv storage"
  by (simp add: cacheLook_has [symmetric] cacheLook_put)

lemma serveCached_row:
  assumes "serveCached e i snap rv storage a = (r, a')" "\<And>w s. leOthers e w s = s" "cacheTrue (leGzip e) truth a" "noSizeCap a"
  shows "noSizeCap a' \<and> (case r of Some (ListData n b) \<Rightarrow> hasRow (snap, rv, storage) a' | _ \<Rightarrow> True)"
proof -
  obtain s where s: "laCache a = Some s" "maxBytes s \<le> 0" using assms(4) by (auto simp: noSizeCap_def split: option.splits)
  have t: "rowsTrue (leGzip e) truth s" using assms(3) s by (simp add: cacheTrue_def)
  show ?thesis
  proof (cases "snap = [] \<or> leHasFault e (AtHit i) \<or> \<not> cacheHas s snap rv storage")
    case True
    then have "serveCached e i snap rv storage a = (None, a)" using s by (auto simp: serveCached_def)
    then show ?thesis using assms(1,4) by simp
  next
    case False
    obtain x g where g: "gateAcquire True (leWait e (AtHit i)) (laHit a) = (x, g)" by fastforce
    obtain y s2 where op: "cacheOpen (seNow (leStore e)) snap rv storage s = (y, s2)" by fastforce
    note keep = cacheOpen_keeps [of "seNow (leStore e)" snap rv storage s, unfolded op snd_conv]
    have d: "maxBytes (cacheDrop snap rv storage s2) = maxBytes s2" by (simp add: cacheDrop_def)
    show ?thesis
    proof (cases y)
      case None
      then show ?thesis using assms(1,2) s False g op keep
        by (cases x) (auto simp: serveCached_def noSizeCap_def releaseHit_def queueRefused_def Let_def split: if_splits)
    next
      case (Some z)
      obtain gz rawB where z: "z = (gz, rawB)" by fastforce
      obtain snt held where cl: "leClient e rawB (truth (snap, rv, storage)) = (snt, held)" by fastforce
      show ?thesis using assms(1,2) s False g op keep Some z cl d rowsTrue_open [OF t, of _ snap rv storage gz rawB]
        by (cases x; cases held)
          (auto simp: serveCached_def writeListing_def noSizeCap_def hasRow_def releaseHit_def queueRefused_def Let_def split: if_splits)
    qed
  qed
qed

lemma row_simps [simp]:
  "noSizeCap (releaseList a) = noSizeCap a" "noSizeCap (a\<lparr>laList := g\<rparr>) = noSizeCap a" "noSizeCap (a\<lparr>laSecrets := x\<rparr>) = noSizeCap a"
  "hasRow k (releaseList a) = hasRow k a" "hasRow k (a\<lparr>laSecrets := x\<rparr>) = hasRow k a"
  by (simp_all add: noSizeCap_def hasRow_def releaseList_def)

lemma option_map_same: "(\<And>s. f s = s) \<Longrightarrow> map_option f x = x"
  by (cases x) simp_all

lemma listLoop_row:
  assumes oth: "\<And>w s. leOthers e w s = s"
  shows "cacheTrue (leGzip e) truth a \<Longrightarrow> noSizeCap a \<Longrightarrow> listLoop e left snap rv storage a = (r, a') \<Longrightarrow>
    noSizeCap a' \<and> (case r of Answered (ListData n b) \<Rightarrow> hasRow (snap, rv, storage) a' | _ \<Rightarrow> True)"
proof (induction left arbitrary: a)
  case 0
  have "a\<lparr>laCache := map_option (leOthers e (AtList 0)) (laCache a)\<rparr> = a" by (simp add: option_map_same [OF oth])
  with 0 show ?case unfolding listLoop.simps [of e 0]
    by (auto simp: queueRefused_def split: prod.splits gateResult.splits if_splits)
next
  case (Suc n)
  have same: "a\<lparr>laCache := map_option (leOthers e (AtList (Suc n))) (laCache a)\<rparr> = a" by (simp add: option_map_same [OF oth])
  obtain x g where g: "gateAcquire True (leWait e (AtList (Suc n))) (laList a) = (x, g)" by fastforce
  let ?a1 = "releaseList (a\<lparr>laList := g\<rparr>)"
  obtain y a3 where sc: "serveCached e (Suc n) snap rv storage ?a1 = (y, a3)" by fastforce
  have ot: "othersTrue e truth" by (simp add: othersTrue_def oth)
  have "noSizeCap a3 \<and> (case y of Some (ListData n b) \<Rightarrow> hasRow (snap, rv, storage) a3 | _ \<Rightarrow> True)"
    by (rule serveCached_row [OF sc oth]) (use Suc.prems in simp_all)
  moreover have "cacheTrue (leGzip e) truth a3" using serveCached_true [OF sc _ ot] Suc.prems(1) by simp
  moreover note Suc.IH [of a3] and step = Suc.prems(3) [unfolded listLoop.simps [of e "Suc n"] Let_def same]
  ultimately show ?case using g sc Suc.prems(2)
    by (cases x; cases y) (auto simp: queueRefused_def split: if_splits)
qed
lemma serveMiss_row:
  assumes "\<And>w s. leOthers e w s = s" "\<not> lePutFault e" "seRowMax (leStore e) \<le> 0" "lqSnap repo q \<noteq> []" "noSizeCap a"
    "serveMiss e repo q a = (ListData n b, a')"
  shows "hasRow (lqSnap repo q, lqRev q, storageKeyOf (lqStorage q)) a'"
proof -
  have um: "\<not> ceilingMarked e repo q a" using assms(6) by (auto simp: serveMiss_def)
  obtain env rsaPriv tmp st where v: "leVend e repo (laSecrets a) = (Inr (env, rsaPriv, tmp), st)"
    using assms(6) um by (auto simp: serveMiss_def split: prod.splits sum.splits)
  let ?a1 = "a\<lparr>laSecrets := st\<rparr>"
  have same: "a\<lparr>laSecrets := st, laCache := map_option (leOthers e AtRun) (laCache a)\<rparr> = ?a1"
    by (simp add: option_map_same [OF assms(1)])
  obtain res s where l: "runListFiles (leGzip e) (leFaults e) (leSealFault e) (listSpoolMemMax (seRowMax (leStore e)))
      (leRun e (listFilesInvocation repo (lqRev q) env rsaPriv (lqStorage q) (lqId q))) = (res, s)" by fastforce
  have "\<exists>rawB. res = Inr rawB" using assms(6) um v l
    by (cases res) (auto simp: serveMiss_def answerFailure_def Let_def split: prod.splits listErr.splits spoolErr.splits)
  then obtain rawB where res: "res = Inr rawB" by blast
  have row: "hasRow (lqSnap repo q, lqRev q, storageKeyOf (lqStorage q)) (storeResult e repo q s rawB ?a1)"
    using assms(2-5) by (auto simp: hasRow_def noSizeCap_def storeResult_def storeListing_def putGzipped_has split: option.splits)
  have "a' = (releaseList (storeResult e repo q s rawB ?a1))\<lparr>laSecrets := (laSecrets (releaseList (storeResult e repo q s rawB ?a1)))
      \<lparr>ssShm := cleanupTmpfiles tmp (ssShm (laSecrets (releaseList (storeResult e repo q s rawB ?a1))))\<rparr>\<rparr>"
    using assms(6) um v l res by (auto simp: serveMiss_def same Let_def split: prod.splits)
  then show ?thesis using row by simp
qed

text \<open>Opening the same revision again costs nothing: once a listing has been sent - from the cache, or from a run - and no size cap, row
  cap or other request takes the row away, the next request for it is answered from the cache with the very same listing, without
  vending a credential, without a slot of the listing gate and without a child, so it also works while the controller or the storage
  is down.\<close>

theorem second_opening_hits:
  assumes "gzipLaw (leGzip e)" "\<forall>w s. leOthers e w s = s" "cacheTrue (leGzip e) truth a" "runsTrue e repo q truth"
    "noSizeCap a" "seRowMax (leStore e) \<le> 0" "\<not> lePutFault e" "lqSnap repo q \<noteq> []"
    "serveSnapshotFiles e repo q a = (ListData n b, a1)"
    "leGzip e' = leGzip e" "\<forall>w s. leOthers e' w s = s" "\<forall>w. \<not> leHasFault e' w \<and> \<not> leOpenFault e' w" "gHeld (laHit a1) < gSlots (laHit a1)"
    "serveSnapshotFiles e' repo q a1 = (r, a2)"
  shows "r = sent e' (truth (lqSnap repo q, lqRev q, storageKeyOf (lqStorage q))) \<and>
    n = int (length (truth (lqSnap repo q, lqRev q, storageKeyOf (lqStorage q)))) \<and>
    laSecrets a2 = laSecrets a1 \<and> laList a2 = laList a1 \<and> laHit a2 = laHit a1"
proof -
  let ?S = "lqSnap repo q" and ?K = "storageKeyOf (lqStorage q)"
  let ?key = "(?S, lqRev q, ?K)"
  have oth: "leOthers e w s = s" for w s using assms(2) by blast
  have ot: "othersTrue e truth" by (simp add: othersTrue_def oth)
  obtain x1 b1 where c: "serveCached e (Suc cacheTries) ?S (lqRev q) ?K a = (x1, b1)" by fastforce
  obtain x2 b2 where l: "listLoop e cacheTries ?S (lqRev q) ?K b1 = (x2, b2)" by fastforce
  note c1 = serveCached_true [OF c assms(3) ot] and c2 = serveCached_row [OF c oth assms(3,5)]
  note l1 = listLoop_true [OF ot conjunct1 [OF c1] l] and l2 = listLoop_row [OF oth conjunct1 [OF c1] conjunct1 [OF c2] l]
  have first: "cacheTrue (leGzip e) truth a1 \<and> hasRow ?key a1 \<and> ListData n b = sent e (truth ?key)"
    using assms(9) c l c1 c2 l1 l2 serveMiss_true [OF assms(1) ot assms(4), of b2 "ListData n b" a1]
      serveMiss_row [OF oth assms(7,6,8), of b2 n b a1]
    by (cases x1; cases x2) (auto simp: serveSnapshotFiles_def sent_def Let_def)
  obtain s where s: "laCache a1 = Some s" "cacheHas s ?S (lqRev q) ?K" using first by (auto simp: hasRow_def split: option.splits)
  have t: "rowsTrue (leGzip e) truth s" using first s by (simp add: cacheTrue_def)
  obtain g where g: "gateAcquire True (leWait e' (AtHit (Suc cacheTries))) (laHit a1) = (GateAcquired, g)" "snd (gateRelease True g) = laHit a1"
    using assms(13) by (auto simp: gateAcquire_def gateRelease_def)
  have "cacheLook s ?key \<noteq> None" using s by (simp only: cacheLook_has)
  then obtain gz rawB s2 where op: "cacheOpen (seNow (leStore e')) ?S (lqRev q) ?K s = (Some (gz, rawB), s2)"
    by (metis cacheOpen_look prod.collapse option.exhaust)
  obtain snt held where cl: "leClient e' rawB (truth ?key) = (snt, held)" by fastforce
  obtain a3 where "serveCached e' (Suc cacheTries) ?S (lqRev q) ?K a1 = (Some (sent e' (truth ?key)), a3)"
      "laSecrets a3 = laSecrets a1" "laList a3 = laList a1" "laHit a3 = laHit a1"
    using s g op cl rowsTrue_open [OF t op] assms(8,10-12)
    by (cases held) (auto simp: serveCached_def writeListing_def releaseHit_def sent_def Let_def)
  then show ?thesis using assms(14) first by (auto simp: serveSnapshotFiles_def sent_def Let_def)
qed
text \<open>The controller and every storage are down.\<close>

definition exDownEnv :: "unit listEnv" where
  "exDownEnv = exListEnv\<lparr>leVend := \<lambda>repo st. (Inl [NoMapping], st), leRun := \<lambda>ci. \<lparr>cdOut = [], cdOk = False\<rparr>\<rparr>"

theorem second_opening_hits_witness:
  "let q = \<lparr>lqRev = 7, lqStorage = [], lqId = []\<rparr>
   in fst (serveSnapshotFiles exDownEnv (exRepo ''R'') q (snd (serveSnapshotFiles exListEnv (exRepo ''R'') q exListApp))) = ListData 5 ''f1 f2''"
proof -
  let ?q = "\<lparr>lqRev = 7, lqStorage = [], lqId = []\<rparr>"
  obtain b a1 where one: "serveSnapshotFiles exListEnv (exRepo ''R'') ?q exListApp = (ListData 5 b, a1)" "laHit a1 = newListGate 1"
    using exServe by blast
  obtain r a2 where two: "serveSnapshotFiles exDownEnv (exRepo ''R'') ?q a1 = (r, a2)" by fastforce
  have "noSizeCap exListApp" by (simp add: noSizeCap_def exListApp_def newSnapshotFilesCacheStore_def)
  moreover have "seRowMax (leStore exListEnv) \<le> 0" "\<not> lePutFault exListEnv" "lqSnap (exRepo ''R'') ?q \<noteq> []"
    by (simp_all add: exListEnv_def exSweepEnv_def lqSnap_def exRepo_def)
  moreover have "leGzip exDownEnv = leGzip exListEnv" "\<forall>w s. leOthers exDownEnv w s = s"
      "\<forall>w. \<not> leHasFault exDownEnv w \<and> \<not> leOpenFault exDownEnv w" "leClient exDownEnv = (\<lambda>n b. (b, True))"
    by (simp_all add: exDownEnv_def exListEnv_def)
  moreover have "gHeld (laHit a1) < gSlots (laHit a1)" by (simp add: one newListGate_def)
  ultimately have "r = sent exDownEnv ''f1 f2''"
    using second_opening_hits [of exListEnv "\<lambda>k. ''f1 f2''" exListApp "exRepo ''R''" ?q 5 b a1 exDownEnv r a2] exGzip_law exList_true one two by simp
  then show ?thesis using one two by (simp add: sent_def exDownEnv_def)
qed

section \<open>The ceiling at the end of a stream\<close>

text \<open>A listing whose compressed form exceeds the ceiling only with what the gzip writer holds until it is closed is taken for a
  disk fault: \<open>runListFiles\<close> rewraps every error of \<open>Close\<close> that is not \<open>errSpoolFailed\<close> as \<open>errSpoolFailed\<close>. The client is
  told to retry in 30 seconds and no marker is written, so every retry and every sweep runs the listing again, while
  the comment at \<open>errSpoolCeiling\<close> says that the revision exceeds the ceiling every time.\<close>

theorem ceiling_at_close_retried:
  assumes "k = sinkCopy lib f (cdOut r) (newListSink lib memMax)" "skErr k = None" "cdOk r"
    "fst (spoolAll f (gzClose lib (skZw k)) (skWrites k) (skSpool k)) = Some ErrSpoolCeiling"
  shows "(case fst (runListFiles lib f sealFault memMax r) of
       Inl (err, t) \<Rightarrow> answerFailure e repo q err t a = (ListError 503 SpoolTrouble (Some 30), a)
     | Inr n \<Rightarrow> False)"
proof -
  obtain n s where w: "spoolAll f (gzClose lib (skZw k)) (skWrites k) (skSpool k) = (Some ErrSpoolCeiling, n, s)"
    using assms(4) by (cases "spoolAll f (gzClose lib (skZw k)) (skWrites k) (skSpool k)") auto
  show ?thesis using assms(2,3) w unfolding runListFiles_def assms(1) Let_def by (simp add: answerFailure_def)
qed

text \<open>A library that gives out everything when it is closed.\<close>

definition lateGzip :: "string gzipLib" where
  "lateGzip = \<lparr>gzNew = [], gzWrite = \<lambda>p z. ([], z @ p), gzClose = \<lambda>z. [z], gzInflate = \<lambda>s. Some (s, True)\<rparr>"

theorem ceiling_at_close_retried_witness:
  "case fst (runListFiles lateGzip (\<lambda>n. (False, False)) False 0 \<lparr>cdOut = [replicate (2 ^ 31 + 1) CHR ''x''], cdOk = True\<rparr>) of
     Inl (err, t) \<Rightarrow> fst (answerFailure exListEnv (exRepo ''R'') \<lparr>lqRev = 7, lqStorage = [], lqId = []\<rparr> err t exListApp) =
       ListError 503 SpoolTrouble (Some 30)
   | Inr n \<Rightarrow> False"
proof -
  define big where "big = replicate (2 ^ 31 + 1) CHR ''x''"
  have len: "int (length big) = 2 ^ 31 + 1" by (simp only: big_def length_replicate) simp
  then have ne: "big \<noteq> []" by auto
  let ?f = "\<lambda>n::nat. (False, False)" and ?r = "\<lparr>cdOut = [big], cdOk = True\<rparr>"
  let ?k = "sinkCopy lateGzip ?f (cdOut ?r) (newListSink lateGzip 0)"
  have k: "skErr ?k = None" "skZw ?k = big" "skSpool ?k = newListSpool 0"
    by (simp_all add: sinkWrite_def newListSink_def lateGzip_def Let_def)
  have "fst (spoolAll ?f (gzClose lateGzip (skZw ?k)) (skWrites ?k) (skSpool ?k)) = Some ErrSpoolCeiling"
    using len by (simp only: k) (simp add: lateGzip_def spoolWrite_def spoolSpill_def spoolAppend_def newListSpool_def listSpoolFileMax_def ne)
  from ceiling_at_close_retried [OF refl k(1) _ this, where sealFault = False and e = exListEnv and repo = "exRepo ''R''"
      and q = "\<lparr>lqRev = 7, lqStorage = [], lqId = []\<rparr>" and a = exListApp]
  show ?thesis unfolding big_def [symmetric] by (auto split: sum.splits prod.splits)
qed

end
