(* ===== verification/HookOrder.thy ===== *)
theory HookOrder
  imports Events "HOL-Library.Multiset"
begin

text \<open>
  The order in which job events reach the database. \<open>jobRegistry.emit\<close> (jobs.go) starts a goroutine per hook and event, so the
  runs of \<open>handleJobEvent\<close> (events.go) for one job interleave: each takes its snapshot of the job and later writes
  the row and enqueues the event.
\<close>

section \<open>Goroutines\<close>

text \<open>The state of one job as the hooks see it, the event buffer, and the goroutines that run: an event, with the snapshot
  once it is taken.\<close>

record hookState =
  hkJob :: jobPublic
  hkBuffer :: eventBuffer
  hkRunning :: "(JobEvent \<times> jobPublic option) list"

text \<open>\<open>HkEmit\<close>: the registry has brought the job into a new state and emits an event. \<open>HkSnap\<close> and \<open>HkWrite\<close>: the goroutine at this place
  takes the snapshot, or does the rest of \<open>handleJobEvent\<close> at this time. \<open>HkChange\<close>: the job changes without an event, as on a progress line.\<close>

datatype hookLabel = HkEmit jobPublic JobEvent | HkChange jobPublic | HkSnap nat | HkWrite nat int

definition removeNth :: "nat \<Rightarrow> 'a list \<Rightarrow> 'a list" where
  "removeNth i xs = take i xs @ drop (Suc i) xs"

fun hookExec :: "(JobProgress \<Rightarrow> string option) \<Rightarrow> hookLabel \<Rightarrow> hookState \<Rightarrow> hookState option" where
  "hookExec enc (HkEmit jp evt) h =
     (if jID jp = jID (hkJob h) then Some (h\<lparr>hkJob := jp, hkRunning := hkRunning h @ [(evt, None)]\<rparr>) else None)"
| "hookExec enc (HkChange jp) h = (if jID jp = jID (hkJob h) then Some (h\<lparr>hkJob := jp\<rparr>) else None)"
| "hookExec enc (HkSnap i) h =
     (if i < length (hkRunning h)
      then (case hkRunning h ! i of
              (evt, None) \<Rightarrow> Some (h\<lparr>hkRunning := (hkRunning h)[i := (evt, Some (hkJob h))]\<rparr>)
            | _ \<Rightarrow> None)
      else None)"
| "hookExec enc (HkWrite i now) h =
     (if i < length (hkRunning h)
      then (case hkRunning h ! i of
              (evt, Some snap) \<Rightarrow>
                Some (h\<lparr>hkBuffer := handleJobEvent False False enc now snap evt (hkBuffer h), hkRunning := removeNth i (hkRunning h)\<rparr>)
            | _ \<Rightarrow> None)
      else None)"

fun hookRun :: "(JobProgress \<Rightarrow> string option) \<Rightarrow> hookLabel list \<Rightarrow> hookState \<Rightarrow> hookState option" where
  "hookRun enc [] h = Some h"
| "hookRun enc (l # ls) h = (case hookExec enc l h of None \<Rightarrow> None | Some h' \<Rightarrow> hookRun enc ls h')"

definition newHookState :: "jobPublic \<Rightarrow> eventBuffer \<Rightarrow> hookState" where
  "newHookState jp b = \<lparr>hkJob = jp, hkBuffer = b, hkRunning = []\<rparr>"

section \<open>What the row can be\<close>

text \<open>The states the job was in, in order.\<close>

fun statesOf :: "hookLabel list \<Rightarrow> jobPublic list" where
  "statesOf [] = []"
| "statesOf (HkEmit jp evt # ls) = jp # statesOf ls"
| "statesOf (HkChange jp # ls) = jp # statesOf ls"
| "statesOf (HkSnap i # ls) = statesOf ls"
| "statesOf (HkWrite i now # ls) = statesOf ls"

definition emittedOf :: "hookLabel list \<Rightarrow> JobEvent list" where
  "emittedOf ls = concat (map (\<lambda>l. case l of HkEmit jp evt \<Rightarrow> [evt] | _ \<Rightarrow> []) ls)"

text \<open>A goroutine only has a snapshot the job was in; the row of the job, when there is one, was written from such a snapshot; what is
  enqueued and what is still running are together the events emitted.\<close>

definition snapsIn :: "jobPublic set \<Rightarrow> (JobEvent \<times> jobPublic option) list \<Rightarrow> bool" where
  "snapsIn S run \<longleftrightarrow> (\<forall>g\<in>set run. case snd g of None \<Rightarrow> True | Some jp \<Rightarrow> jp \<in> S)"

definition rowsIn :: "(JobProgress \<Rightarrow> string option) \<Rightarrow> jobPublic set \<Rightarrow> string \<Rightarrow> jobRow list option \<Rightarrow> bool" where
  "rowsIn enc S i db \<longleftrightarrow> (\<forall>r\<in>set (case db of None \<Rightarrow> [] | Some t \<Rightarrow> t). jwID r = i \<longrightarrow> (\<exists>jp\<in>S. \<exists>now. r = jobRowOf enc now jp))"

definition queuedFor :: "string \<Rightarrow> (string \<times> JobEvent \<times> EventPayload) list \<Rightarrow> JobEvent list" where
  "queuedFor i ob = map (\<lambda>x. fst (snd x)) (filter (\<lambda>x. fst x = i) ob)"

definition hookInv :: "(JobProgress \<Rightarrow> string option) \<Rightarrow> string \<Rightarrow> jobPublic set \<Rightarrow> JobEvent multiset \<Rightarrow> hookState \<Rightarrow> bool" where
  "hookInv enc i S E h \<longleftrightarrow>
     hkJob h \<in> S \<and> (\<forall>jp\<in>S. jID jp = i) \<and> snapsIn S (hkRunning h) \<and> rowsIn enc S i (ebDB (hkBuffer h)) \<and>
     mset (queuedFor i (ebOutbox (hkBuffer h))) + mset (map fst (hkRunning h)) = E"

lemma removeNth_mset: "i < length xs \<Longrightarrow> mset xs = add_mset (xs ! i) (mset (removeNth i xs))"
  by (subst id_take_nth_drop [of i xs]) (simp_all add: removeNth_def)

lemma snapsIn_simps:
  "snapsIn S run \<Longrightarrow> S \<subseteq> S' \<Longrightarrow> snapsIn S' run"
  "snapsIn S run \<Longrightarrow> snapsIn S (removeNth i run)"
  "snapsIn S run \<Longrightarrow> jp \<in> S \<Longrightarrow> snapsIn S (run[i := (evt, Some jp)])"
  "snapsIn S (run @ [(evt, None)]) = snapsIn S run"
  by (auto simp: snapsIn_def removeNth_def dest!: in_set_takeD in_set_dropD set_update_subset_insert [THEN subsetD] split: option.splits)

lemma jobRowOf_id [simp]: "jwID (jobRowOf enc now jp) = jID jp"
  by (simp add: jobRowOf_def)

lemma rowsIn_mono: "rowsIn enc S i db \<Longrightarrow> S \<subseteq> S' \<Longrightarrow> rowsIn enc S' i db"
  unfolding rowsIn_def by blast

lemma upsertJobRow_mem: "x \<in> set (upsertJobRow r t) \<Longrightarrow> x \<in> set t \<or> x = r"
  by (auto simp: upsertJobRow_def split: if_splits)

lemma rowsIn_upsert: "rowsIn enc S i db \<Longrightarrow> jp \<in> S \<Longrightarrow> rowsIn enc S i (map_option (upsertJobRow (jobRowOf enc now jp)) db)"
  by (cases db) (auto simp: rowsIn_def dest!: upsertJobRow_mem)

lemma handleJobEvent_parts:
  "ebOutbox (handleJobEvent False False enc now snap evt e) = ebOutbox e @ [(jID snap, evt, eventPayload (ebSite e) (ebNode e) now evt snap)]"
  "ebDB (handleJobEvent False False enc now snap evt e) = map_option (upsertJobRow (jobRowOf enc now snap)) (ebDB e)"
  by (simp_all add: handleJobEvent_def upsertJob_def Let_def split: option.splits)

lemma hookInv_grow: "hookInv enc i S E h \<Longrightarrow> jID jp = i \<Longrightarrow> hookInv enc i (insert jp S) E (h\<lparr>hkJob := jp\<rparr>)"
  by (simp add: hookInv_def snapsIn_simps(1) [OF _ subset_insertI] rowsIn_mono [OF _ subset_insertI])

lemma hookInv_exec:
  assumes "hookInv enc k S E h" "hookExec enc l h = Some h'"
  shows "hookInv enc k (S \<union> set (statesOf [l])) (E + mset (emittedOf [l])) h'"
proof -
  have k: "jID (hkJob h) = k" using assms(1) by (auto simp: hookInv_def)
  show ?thesis
proof (cases l)
  case (HkEmit jp evt)
  then have "h' = h\<lparr>hkJob := jp, hkRunning := hkRunning h @ [(evt, None)]\<rparr>" "jID jp = k" using assms(2) k by (auto split: if_splits)
  then show ?thesis using hookInv_grow [OF assms(1), of jp] HkEmit by (auto simp: emittedOf_def hookInv_def snapsIn_simps(4))
next
  case (HkChange jp)
  then show ?thesis using assms(2) k hookInv_grow [OF assms(1), of jp] by (auto simp: emittedOf_def split: if_splits)
next
  case (HkSnap i)
  then obtain evt where i: "i < length (hkRunning h)" "hkRunning h ! i = (evt, None)"
      "h' = h\<lparr>hkRunning := (hkRunning h)[i := (evt, Some (hkJob h))]\<rparr>"
    using assms(2) by (auto split: if_splits prod.splits option.splits)
  have "map fst ((hkRunning h)[i := (evt, Some (hkJob h))]) = map fst (hkRunning h)"
    using i(1,2) by (metis fst_conv list_update_id map_update nth_map)
  then show ?thesis using assms(1) HkSnap i(3) by (auto simp: hookInv_def emittedOf_def snapsIn_simps(3))
next
  case (HkWrite i now)
  then obtain evt sn where i: "i < length (hkRunning h)" "hkRunning h ! i = (evt, Some sn)"
      "h' = h\<lparr>hkBuffer := handleJobEvent False False enc now sn evt (hkBuffer h), hkRunning := removeNth i (hkRunning h)\<rparr>"
    using assms(2) by (auto split: if_splits prod.splits option.splits)
  have "(evt, Some sn) \<in> set (hkRunning h)" using i(1,2) by (metis nth_mem)
  then have sn: "sn \<in> S" "jID sn = k" using assms(1) by (auto simp: hookInv_def snapsIn_def)
  have "mset (map fst (hkRunning h)) = add_mset evt (mset (map fst (removeNth i (hkRunning h))))"
    using removeNth_mset [OF i(1)] i(2) by simp
  then show ?thesis using assms(1) HkWrite i(3) sn
    by (auto simp: hookInv_def emittedOf_def handleJobEvent_parts queuedFor_def snapsIn_simps(2) rowsIn_upsert)
qed
qed

lemma statesOf_Cons: "set (statesOf (l # ls)) = set (statesOf [l]) \<union> set (statesOf ls)"
  by (cases l) auto

lemma emittedOf_Cons: "mset (emittedOf (l # ls)) = mset (emittedOf [l]) + mset (emittedOf ls)"
  by (simp add: emittedOf_def)

lemma hookInv_run:
  "hookInv enc k S E h \<Longrightarrow> hookRun enc ls h = Some h' \<Longrightarrow> hookInv enc k (S \<union> set (statesOf ls)) (E + mset (emittedOf ls)) h'"
proof (induction ls arbitrary: S E h)
  case Nil
  then show ?case by (simp add: emittedOf_def)
next
  case (Cons l ls)
  then obtain h1 where h1: "hookExec enc l h = Some h1" "hookRun enc ls h1 = Some h'" by (auto split: option.splits)
  note step = hookInv_exec [OF Cons.prems(1) h1(1)]
  show ?case using Cons.IH [OF step h1(2)]
    unfolding statesOf_Cons [of l ls] emittedOf_Cons [of l ls] by (simp add: Un_assoc add.assoc)
qed

text \<open>C20. In whatever order the goroutines of the hooks run, the row of a job in the database always describes a state the job really had, and
  once they have all ended every event emitted for it is in the outbox, each exactly as often as it was emitted.\<close>

theorem job_row_is_a_state:
  assumes "hookRun enc ls (newHookState jp b) = Some h"
    "jID jp \<notin> fst ` set (ebOutbox b)" "case ebDB b of None \<Rightarrow> True | Some t \<Rightarrow> jID jp \<notin> jwID ` set t"
  shows "(case ebDB (hkBuffer h) of
       None \<Rightarrow> True
     | Some t \<Rightarrow> \<forall>r\<in>set t. jwID r = jID jp \<longrightarrow> (\<exists>s\<in>set (jp # statesOf ls). \<exists>now. r = jobRowOf enc now s)) \<and>
    (hkRunning h = [] \<longrightarrow>
     mset (queuedFor (jID jp) (ebOutbox (hkBuffer h))) = mset (emittedOf ls))"
proof -
  have "filter (\<lambda>x. fst x = jID jp) (ebOutbox b) = []" using assms(2) by (force simp: filter_empty_conv)
  moreover have "rowsIn enc {jp} (jID jp) (ebDB b)" using assms(3) by (force simp: rowsIn_def split: option.splits)
  ultimately have inv: "hookInv enc (jID jp) {jp} {#} (newHookState jp b)"
    by (simp add: hookInv_def newHookState_def snapsIn_def queuedFor_def)
  from hookInv_run [OF inv assms(1)] show ?thesis unfolding hookInv_def rowsIn_def by (auto split: option.splits)
qed

definition exHookStarted :: jobPublic where "exHookStarted = exSnap ''j'' ActionBackup JobRunning (Some 4) None"

definition exEnded :: jobPublic where "exEnded = exSnap ''j'' ActionBackup JobCompleted (Some 4) (Some 9)"

text \<open>The goroutine of the start is delayed between its snapshot and its write; the one of the end runs in between.\<close>

definition exRace :: "hookLabel list" where
  "exRace = [HkEmit exHookStarted EventStarted, HkSnap 0, HkEmit exEnded EventCompleted, HkSnap 1, HkWrite 1 10, HkWrite 0 11]"

theorem job_row_is_a_state_witness:
  "\<exists>h. hookRun (\<lambda>p. None) exRace (newHookState (exHookStarted\<lparr>jState := JobPending\<rparr>) exBuffer) = Some h \<and> hkRunning h = [] \<and>
     mset (queuedFor ''j'' (ebOutbox (hkBuffer h))) = {#EventStarted, EventCompleted#}"
proof -
  let ?jp = "exHookStarted\<lparr>jState := JobPending\<rparr>"
  have "map_option hkRunning (hookRun (\<lambda>p. None) exRace (newHookState ?jp exBuffer)) = Some []" by code_simp
  then obtain h where h: "hookRun (\<lambda>p. None) exRace (newHookState ?jp exBuffer) = Some h" "hkRunning h = []" by auto
  have "jID ?jp = ''j''" by (simp add: exHookStarted_def exSnap_def)
  then show ?thesis using job_row_is_a_state [OF h(1)] h by (auto simp: exBuffer_def exRace_def emittedOf_def)
qed

section \<open>A completed job recorded as running\<close>

text \<open>Because each hook runs in a goroutine of its own and takes its snapshot before it writes, the row of a finished job can be left
  in the state \<open>running\<close>: here a backup starts and completes, every goroutine ends, both events are sent - the completion first -
  and the row says the backup is running. The backup is then missing from the freshness of its repository, and
  the sweep at the next boot marks the completed backup as failed with exit code 137 and sends a failure event for it.\<close>

theorem completed_job_left_running:
  "case hookRun (\<lambda>p. None) exRace (newHookState (exHookStarted\<lparr>jState := JobPending\<rparr>) exBuffer) of None \<Rightarrow> False | Some h \<Rightarrow>
     hkRunning h = [] \<and> jState (hkJob h) = JobCompleted \<and>
     map_option (map jwState) (ebDB (hkBuffer h)) = Some [''running''] \<and>
     map (\<lambda>x. fst (snd x)) (ebOutbox (hkBuffer h)) = [EventCompleted, EventStarted] \<and>
     lastBackupByRepo False (hkBuffer h) = Some [] \<and>
     (let b = sweepOrphanJobs (\<lambda>t. Some (map jwID (filter orphanRow t), map (markedRow 20) t)) (\<lambda>i. False) (\<lambda>i. False) (\<lambda>x. None) 20 (hkBuffer h)
      in map_option (map (\<lambda>r. (jwState r, jwExitCode r))) (ebDB b) = Some [(''failed'', 137)] \<and>
         map (\<lambda>x. fst (snd x)) (ebOutbox b) = [EventCompleted, EventStarted, EventFailed])"
  by code_simp

end
