(* ===== verification/LogStream.thy ===== *)
theory LogStream
  imports Events
begin

text \<open>
  The live log of a job over a WebSocket (\<open>handleJobLogsWS\<close>, jobs.go): the history on connecting, the batches of live lines, the
  heartbeat and the sentinel at the end, and \<open>appendLine\<close> at the grain of its locks: it appends to the ring and copies the set of subscriber channels under the
  lock of the job and sends to the channels outside of it, one channel operation at a time. The job has two goroutines that append, one for each output of the process. The WebSocket is the
  list of text frames written to it and, per write, whether it succeeds.
\<close>

section \<open>Appending\<close>

text \<open>The part of \<open>appendLine\<close> under the lock, and the \<open>select\<close>s of the send: try; when full, drain one; try again. \<open>None\<close> is the panic of a send on a closed channel.\<close>

definition appendLocked :: "string \<Rightarrow> Job \<Rightarrow> Job" where
  "appendLocked line j =
     (let ring = jRing j @ [line];
          ring' = (if length ring > ringBufferSize then drop (length ring - ringBufferSize) ring else ring)
      in j\<lparr>jRing := ring', jLineCount := jLineCount j + 1\<rparr>)"

datatype sendPhase = TrySend string | Drain string | SendAgain string

fun sendStep :: "bool \<Rightarrow> string list \<Rightarrow> sendPhase \<Rightarrow> (sendPhase option \<times> string list) option" where
  "sendStep shut c (TrySend line) =
     (if shut then None else if length c < subscriberBuffer then Some (None, c @ [line]) else Some (Some (Drain line), c))"
| "sendStep shut c (Drain line) = Some (Some (SendAgain line), tl c)"
| "sendStep shut c (SendAgain line) =
     (if shut then None else if length c < subscriberBuffer then Some (None, c @ [line]) else Some (None, c))"

text \<open>With nothing in between this is \<open>appendLine\<close> of JobParse.\<close>

lemma appendLine_locked: "appendLine line j = (appendLocked line j)\<lparr>jSubscribers := map (\<lambda>(i, c). (i, sendLine line c)) (jSubscribers j)\<rparr>"
  by (simp add: appendLine_def appendLocked_def Let_def)

lemma sendStep_sendLine:
  assumes "length c \<le> subscriberBuffer"
  shows "sendStep False c (TrySend line) = Some (None, sendLine line c) \<or>
    (sendStep False c (TrySend line) = Some (Some (Drain line), c) \<and> sendStep False c (Drain line) = Some (Some (SendAgain line), tl c) \<and>
     sendStep False (tl c) (SendAgain line) = Some (None, sendLine line c))"
  using assms by (auto simp: sendLine_def subscriberBuffer_def)

section \<open>A session\<close>

text \<open>The job, the channel of this client, what is in it and whether it is closed, where each of the two appending goroutines is in a send to it, the lines
  not yet sent, the frames sent, whether the job has ended, and whether the handler has returned or the agent has panicked.\<close>

datatype logSource = Stdout | Stderr

record wsSession =
  wsJob :: Job
  wsCh :: nat
  wsChan :: "string list"
  wsClosed :: bool
  wsPend :: "logSource \<Rightarrow> sendPhase option"
  wsBuf :: "string list"
  wsSent :: "string list"
  wsEnded :: bool
  wsOver :: bool
  wsPanic :: bool

definition maxBatch :: nat where "maxBatch = 20"

definition wsText :: "string list \<Rightarrow> string" where
  "wsText lines = joinChar newline lines @ [newline]"

definition registered :: "wsSession \<Rightarrow> bool" where
  "registered s \<longleftrightarrow> wsCh s \<in> fst ` set (jSubscribers (wsJob s))"

text \<open>What the deferred calls do when the handler returns.\<close>

definition wsReturn :: "wsSession \<Rightarrow> wsSession" where
  "wsReturn s = s\<lparr>wsJob := unsubscribe (wsCh s) (wsJob s), wsOver := True\<rparr>"

definition wsSend :: "bool \<Rightarrow> wsSession \<Rightarrow> bool \<times> wsSession" where
  "wsSend written s =
     (if wsBuf s = [] then (True, s)
      else (written, s\<lparr>wsSent := (if written then wsSent s @ [wsText (wsBuf s)] else wsSent s), wsBuf := []\<rparr>))"

definition sentinelText :: "Job \<Rightarrow> string" where
  "sentinelText j = ''[duplicacy-agent-api] job '' @ jID j @ '' state='' @ stateName (jState j) @ '' exit='' @ itoa (jExitCode j) @ [newline]"

definition wsConnect :: "nat \<Rightarrow> bool \<Rightarrow> Job \<Rightarrow> wsSession" where
  "wsConnect ch written j =
     (let (history, j') = subscribe ch j;
          s = \<lparr>wsJob = j', wsCh = ch, wsChan = [], wsClosed = False, wsPend = (\<lambda>_. None), wsBuf = [], wsSent = [], wsEnded = False, wsOver = False, wsPanic = False\<rparr>
      in if history = [] then s
         else if written then s\<lparr>wsSent := [wsText history]\<rparr>
         else wsReturn s)"

text \<open>The job side: a line appended by one of the two goroutines, which sends to the channel if it was registered under the lock; the next channel operation
  of such a send; the end of the job, which closes the registered channels and forgets them. The select of the loop: a receive, the two
  tickers, the client gone. Each carries whether the writes to the socket succeed.\<close>

datatype wsLabel = WsAppend logSource string | WsSend logSource | WsFinish JobState int | WsRecv bool bool | WsFlush bool | WsPing bool | WsGone bool

definition wsExec :: "wsLabel \<Rightarrow> wsSession \<Rightarrow> wsSession option" where
  "wsExec l s =
     (if wsOver s \<or> wsPanic s then None
      else case l of
        WsAppend src line \<Rightarrow>
          if wsPend s src \<noteq> None then None
          else Some (s\<lparr>wsJob := appendLocked line (wsJob s), wsPend := (if registered s then (wsPend s)(src := Some (TrySend line)) else wsPend s)\<rparr>)
      | WsSend src \<Rightarrow>
          (case wsPend s src of
             None \<Rightarrow> None
           | Some ph \<Rightarrow>
               (case sendStep (wsClosed s) (wsChan s) ph of
                  None \<Rightarrow> Some (s\<lparr>wsPanic := True\<rparr>)
                | Some (ph', c) \<Rightarrow> Some (s\<lparr>wsChan := c, wsPend := (wsPend s)(src := ph')\<rparr>)))
      | WsFinish st code \<Rightarrow>
          if wsEnded s then None
          else Some (s\<lparr>wsJob := (wsJob s)\<lparr>jState := st, jExitCode := code, jSubscribers := []\<rparr>, wsClosed := registered s, wsEnded := True\<rparr>)
      | WsRecv w1 w2 \<Rightarrow>
          (case wsChan s of
             line # rest \<Rightarrow>
               let s1 = s\<lparr>wsChan := rest, wsBuf := wsBuf s @ [line]\<rparr> in
               if length (wsBuf s1) \<ge> maxBatch
               then (case wsSend w1 s1 of (sent, s2) \<Rightarrow> Some (if sent then s2 else wsReturn s2))
               else Some s1
           | [] \<Rightarrow>
               if \<not> wsClosed s then None
               else (let s1 = snd (wsSend w1 s)
                     in Some (wsReturn (if w2 then s1\<lparr>wsSent := wsSent s1 @ [sentinelText (wsJob s1)]\<rparr> else s1))))
      | WsFlush w \<Rightarrow> (case wsSend w s of (sent, s1) \<Rightarrow> Some (if sent then s1 else wsReturn s1))
      | WsPing w \<Rightarrow> Some (if w then s else wsReturn s)
      | WsGone w \<Rightarrow> Some (wsReturn (snd (wsSend w s))))"

fun wsRun :: "wsLabel list \<Rightarrow> wsSession \<Rightarrow> wsSession option" where
  "wsRun [] s = Some s"
| "wsRun (l # ls) s = (case wsExec l s of None \<Rightarrow> None | Some s' \<Rightarrow> wsRun ls s')"

datatype wsAnswer = WsNotFound | WsNoUpgrade | WsStarted wsSession

definition handleJobLogsWS :: "(string \<Rightarrow> Job option) \<Rightarrow> bool \<Rightarrow> nat \<Rightarrow> bool \<Rightarrow> string \<Rightarrow> wsAnswer" where
  "handleJobLogsWS get upgraded ch written i =
     (case get i of
        None \<Rightarrow> WsNotFound
      | Some j \<Rightarrow> if \<not> upgraded then WsNoUpgrade else WsStarted (wsConnect ch written j))"

section \<open>What the client receives\<close>


















lemma other_source: "(src :: logSource) \<noteq> a \<Longrightarrow> src \<noteq> b \<Longrightarrow> a = b"
  by (cases src; cases a; cases b) simp_all

lemma subseq_front: "subseq (r @ c) ls \<Longrightarrow> subseq r ls"
  using list_emb_append_mono [of "(=)" r r "[]" c] by (auto intro: subseq_order.trans)









lemma wsReturn_simps [simp]:
  "wsBuf (wsReturn s) = wsBuf s" "wsSent (wsReturn s) = wsSent s" "wsOver (wsReturn s)" "wsClosed (wsReturn s) = wsClosed s"
  "wsChan (wsReturn s) = wsChan s" "wsPend (wsReturn s) = wsPend s" "wsEnded (wsReturn s) = wsEnded s"
  "\<not> registered (wsReturn s)" "sentinelText (wsJob (wsReturn s)) = sentinelText (wsJob s)"
  by (auto simp: wsReturn_def unsubscribe_def sentinelText_def registered_def)






definition exStreamJob :: Job where "exStreamJob = newJob ''j'' ''r'' ''/p'' ActionBackup [] [] [] []"



text \<open>A line appended while the job ends is sent on the closed channel: the agent panics.\<close>

theorem append_races_finish:
  "map_option wsPanic (wsRun [WsAppend Stdout ''b'', WsFinish JobCompleted 0, WsSend Stdout] (wsConnect 0 True exStreamJob)) = Some True"
  by code_simp

end
