(* ===== verification/Warmer.thy ===== *)
theory Warmer
  imports Listing Events Jobs
begin

text \<open>
  The goroutine that keeps the listing cache warm (snapshot_files_warm.go): what starts a sweep, the runs of a sweep with the slots they
  take, and the sweep of ListCache with those runs in it. The theorems: no completion of a backup, copy or prune is
  forgotten; a run takes both slots and gives both back; and a sweep leaves only complete listings in the cache, as the requests of Listing
  rely on.
\<close>

section \<open>The runs of a sweep\<close>

text \<open>\<open>acquireMaint\<close>: without a limit nothing is taken; a full semaphore is waited for, \<open>freed\<close> tells whether a slot came free before the
  context was done. A slot freed by another job while the warmer waits is taken at once.\<close>

definition acquireMaint :: "bool \<Rightarrow> jobRegistry \<Rightarrow> bool \<times> jobRegistry" where
  "acquireMaint freed r =
     (if rgMaintCap r = None then (True, r)
      else if semFree SemMaint r then (True, (semTake SemMaint r)\<lparr>rgWarm := Suc (rgWarm r)\<rparr>)
      else if freed then (True, r\<lparr>rgWarm := Suc (rgWarm r)\<rparr>)
      else (False, r))"

definition releaseMaint :: "jobRegistry \<Rightarrow> jobRegistry" where
  "releaseMaint r =
     (if rgMaintCap r = None then r else (release (Some SemMaint) r)\<lparr>rgWarm := rgWarm r - 1\<rparr>)"

text \<open>One run of \<open>list\<close> under a maintenance slot; \<open>None\<close> when the context was done first.\<close>

definition runListGated :: "(cliInvocation \<Rightarrow> string \<times> string option) \<Rightarrow> bool \<Rightarrow> cliInvocation \<Rightarrow> jobRegistry \<Rightarrow>
    (string \<times> string option) option \<times> jobRegistry" where
  "runListGated run freed ci r =
     (case acquireMaint freed r of
        (False, r1) \<Rightarrow> (None, r1)
      | (True, r1) \<Rightarrow> (Some (runSync run ci), releaseMaint r1))"

definition warmListSnapshots :: "(cliInvocation \<Rightarrow> string \<times> string option) \<Rightarrow> bool \<Rightarrow> Repo \<Rightarrow> string \<Rightarrow> string \<Rightarrow> string list \<Rightarrow> jobRegistry \<Rightarrow>
    Snapshot list option \<times> jobRegistry" where
  "warmListSnapshots run freed repo storage keyPath env r =
     (case runListGated run freed \<lparr>RepoRoot = rPath repo, Args = warmListArgs storage keyPath (rSnapshotID repo), EnvAdds = env\<rparr> r of
        (Some (out, None), r1) \<Rightarrow> (Some (parseListOutput out), r1)
      | (_, r1) \<Rightarrow> (None, r1))"

definition warmFilesArgs :: "string \<Rightarrow> string \<Rightarrow> string \<Rightarrow> int \<Rightarrow> string list" where
  "warmFilesArgs storage keyPath snap rv =
     (let a0 = [''list'', ''-files'', ''-r'', itoa rv];
          a1 = (if keyPath \<noteq> [] then a0 @ [''-key'', keyPath] else a0);
          a2 = (if snap \<noteq> [] then a1 @ [''-id'', snap] else a1)
      in if storage \<noteq> [] \<and> storage \<noteq> ''default'' then a2 @ [''-storage'', storage] else a2)"

definition warmFilesInvocation :: "Repo \<Rightarrow> string \<Rightarrow> string \<Rightarrow> string list \<Rightarrow> string \<Rightarrow> int \<Rightarrow> cliInvocation" where
  "warmFilesInvocation repo storage keyPath env snap rv =
     \<lparr>RepoRoot = rPath repo, Args = warmFilesArgs storage keyPath snap rv, EnvAdds = env\<rparr>"

text \<open>The loop of \<open>runWarmListing\<close>: each try says how its waits end and whether the context outlives the pause after it. \<open>None\<close> where the
  tries end while it still waits; \<open>run\<close> sees the slots as they are during the run.\<close>

record warmTry =
  wtMaint :: bool
  wtGate :: gateWait
  wtAlive :: bool

fun runWarmListing :: "(jobRegistry \<times> listGate \<Rightarrow> 'r) \<Rightarrow> 'r \<Rightarrow> warmTry list \<Rightarrow> jobRegistry \<Rightarrow> listGate \<Rightarrow> 'r option \<times> jobRegistry \<times> listGate" where
  "runWarmListing run cancelled [] r g = (None, r, g)"
| "runWarmListing run cancelled (t # ts) r g =
     (case acquireMaint (wtMaint t) r of
        (False, r1) \<Rightarrow> (Some cancelled, r1, g)
      | (True, r1) \<Rightarrow>
          (case gateAcquire True (wtGate t) g of
             (GateAcquired, g1) \<Rightarrow> (Some (run (r1, g1)), releaseMaint r1, snd (gateRelease True g1))
           | (GateQueueTimeout, g1) \<Rightarrow>
               if wtAlive t then runWarmListing run cancelled ts (releaseMaint r1) g1 else (Some cancelled, releaseMaint r1, g1)
           | (_, g1) \<Rightarrow> (Some cancelled, releaseMaint r1, g1)))"

text \<open>What a run means for the sweep.\<close>

definition warmOutcome :: "(listErr \<times> string + int) \<times> listSpool \<Rightarrow> listRun" where
  "warmOutcome res =
     (case res of
        (Inr rawB, s) \<Rightarrow> RunOk (spoolBytes s) rawB
      | (Inl (SpoolError ErrSpoolCeiling, _), _) \<Rightarrow> RunCeiling
      | (Inl _, _) \<Rightarrow> RunFailed)"

text \<open>The sweep's environment made of these runs: what is vended for a repository (environment and RSA keys), the runs of the
  binary, and the tries of each run.\<close>

record 'z warmEnv =
  wvGzip :: "'z gzipLib"
  wvVend :: "Repo \<Rightarrow> (string list \<times> (string \<times> string) list) option"
  wvList :: "cliInvocation \<Rightarrow> string \<times> string option"
  wvChild :: "cliInvocation \<Rightarrow> childRun"
  wvFaults :: "cliInvocation \<Rightarrow> spoolFaults"
  wvSealFault :: bool
  wvTries :: "cliInvocation \<Rightarrow> warmTry list"
  wvFreed :: bool
  wvReg :: jobRegistry
  wvGate :: listGate
  wvCancelled :: "Repo \<Rightarrow> string option \<Rightarrow> bool"
  wvNow :: int
  wvRowMax :: int
  wvWarmN :: int

definition keyOf :: "(string \<times> string) list \<Rightarrow> string \<Rightarrow> string" where
  "keyOf rsaPriv storage = (case map_of rsaPriv storage of None \<Rightarrow> [] | Some p \<Rightarrow> p)"

definition warmRun :: "'z warmEnv \<Rightarrow> Repo \<Rightarrow> string \<Rightarrow> string \<Rightarrow> int \<Rightarrow> listRun" where
  "warmRun w repo storage snap rv =
     (case wvVend w repo of
        None \<Rightarrow> RunFailed
      | Some (env, rsaPriv) \<Rightarrow>
          let ci = warmFilesInvocation repo storage (keyOf rsaPriv storage) env snap rv
          in (case fst (runWarmListing (\<lambda>_. warmOutcome (runListFiles (wvGzip w) (wvFaults w ci) (wvSealFault w) (listSpoolMemMax (wvRowMax w)) (wvChild w ci)))
                   RunFailed (wvTries w ci) (wvReg w) (wvGate w)) of
                None \<Rightarrow> RunFailed | Some x \<Rightarrow> x))"

definition warmLive :: "'z warmEnv \<Rightarrow> Repo \<Rightarrow> string \<Rightarrow> Snapshot list option" where
  "warmLive w repo storage =
     (case wvVend w repo of
        None \<Rightarrow> None
      | Some (env, rsaPriv) \<Rightarrow> fst (warmListSnapshots (wvList w) (wvFreed w) repo storage (keyOf rsaPriv storage) env (wvReg w)))"

definition sweepEnvOf :: "'z warmEnv \<Rightarrow> sweepEnv" where
  "sweepEnvOf w =
     \<lparr>seVend = (\<lambda>repo. wvVend w repo \<noteq> None), seLive = warmLive w, seRun = warmRun w, seCancelled = wvCancelled w, seNow = wvNow w,
      seRowMax = wvRowMax w, seWarmN = wvWarmN w\<rparr>"

section \<open>What starts a sweep\<close>

text \<open>The goroutine: the channel with one place, the timer of the start, whether it is in the inner loop, whether it has returned. A label
  of a sweep carries what the sweep meets; the runs of one sweep are not interleaved with the hooks, which only set the channel.\<close>

record warmer =
  wmDirty :: bool
  wmStartup :: bool
  wmSettling :: bool
  wmGone :: bool
  wmCache :: snapshotFilesCacheStore
  wmSweeps :: nat

datatype warmLabel =
    WmJob JobEvent jobPublic
  | WmDone
  | WmStartup sweepEnv "Repo list"
  | WmTick sweepEnv "Repo list"
  | WmTake
  | WmExtend
  | WmSettled sweepEnv "Repo list"

definition runSweep :: "sweepEnv \<Rightarrow> Repo list \<Rightarrow> warmer \<Rightarrow> warmer" where
  "runSweep e repos s = s\<lparr>wmCache := snd (warmListCacheSweep e repos (wmCache s)), wmSweeps := Suc (wmSweeps s)\<rparr>"

definition warmExec :: "bool \<Rightarrow> warmLabel \<Rightarrow> warmer \<Rightarrow> warmer option" where
  "warmExec ticking l s =
     (case l of
        WmJob evt snap \<Rightarrow> Some (s\<lparr>wmDirty := warmHook True evt snap (wmDirty s)\<rparr>)
      | _ \<Rightarrow>
          if wmGone s then None
          else case l of
            WmDone \<Rightarrow> Some (s\<lparr>wmGone := True\<rparr>)
          | WmStartup e repos \<Rightarrow> if wmSettling s \<or> \<not> wmStartup s then None else Some (runSweep e repos (s\<lparr>wmStartup := False\<rparr>))
          | WmTick e repos \<Rightarrow> if wmSettling s \<or> \<not> ticking then None else Some (runSweep e repos s)
          | WmTake \<Rightarrow> if wmSettling s \<or> \<not> wmDirty s then None else Some (s\<lparr>wmDirty := False, wmSettling := True\<rparr>)
          | WmExtend \<Rightarrow> if \<not> wmSettling s \<or> \<not> wmDirty s then None else Some (s\<lparr>wmDirty := False\<rparr>)
          | WmSettled e repos \<Rightarrow> if \<not> wmSettling s then None else Some (runSweep e repos (s\<lparr>wmSettling := False\<rparr>)))"

fun warmSteps :: "bool \<Rightarrow> warmLabel list \<Rightarrow> warmer \<Rightarrow> warmer option" where
  "warmSteps ticking [] s = Some s"
| "warmSteps ticking (l # ls) s = (case warmExec ticking l s of None \<Rightarrow> None | Some s' \<Rightarrow> warmSteps ticking ls s')"

definition newWarmer :: "snapshotFilesCacheStore \<Rightarrow> warmer" where
  "newWarmer c = \<lparr>wmDirty = False, wmStartup = True, wmSettling = False, wmGone = False, wmCache = c, wmSweeps = 0\<rparr>"

section \<open>No nudge is lost\<close>

definition isNudge :: "warmLabel \<Rightarrow> bool" where
  "isNudge l \<longleftrightarrow> (case l of WmJob evt snap \<Rightarrow> evt = EventCompleted \<and> jAction snap \<in> {ActionBackup, ActionCopy, ActionPrune} | _ \<Rightarrow> False)"

definition isTimed :: "warmLabel \<Rightarrow> bool" where
  "isTimed l \<longleftrightarrow> (case l of WmStartup e repos \<Rightarrow> True | WmTick e repos \<Rightarrow> True | _ \<Rightarrow> False)"

definition isSweep :: "warmLabel \<Rightarrow> bool" where
  "isSweep l \<longleftrightarrow> isTimed l \<or> (case l of WmSettled e repos \<Rightarrow> True | _ \<Rightarrow> False)"

text \<open>Whether a nudge came after the last sweep.\<close>

definition unserved :: "warmLabel list \<Rightarrow> bool" where
  "unserved ls = foldl (\<lambda>p l. if isSweep l then False else p \<or> isNudge l) False ls"

definition owes :: "warmer \<Rightarrow> nat" where
  "owes s = (if wmDirty s then 1 else 0) + (if wmSettling s then 1 else 0)"

lemma warmExec_cases:
  assumes "warmExec ticking l s = Some s'"
  shows "wmSweeps s' = wmSweeps s + (if isSweep l then 1 else 0) \<and>
    wmSweeps s' + owes s' \<le> wmSweeps s + owes s + (if isNudge l \<or> isTimed l then 1 else 0) \<and>
    (\<not> isSweep l \<longrightarrow> 0 < owes s \<or> isNudge l \<longrightarrow> 0 < owes s' \<or> wmGone s') \<and> (wmGone s \<longrightarrow> wmGone s')"
  using assms
  by (cases l) (auto simp: warmExec_def runSweep_def owes_def isSweep_def isTimed_def isNudge_def warmHook_def split: if_splits)

lemma warmSteps_append: "warmSteps ticking (xs @ ys) s = (case warmSteps ticking xs s of None \<Rightarrow> None | Some s' \<Rightarrow> warmSteps ticking ys s')"
  by (induction xs arbitrary: s) (auto split: option.split)

lemma warmSteps_inv:
  assumes "warmSteps ticking ls (newWarmer c) = Some s"
  shows "wmSweeps s = length (filter isSweep ls) \<and>
    wmSweeps s + owes s \<le> length (filter (\<lambda>l. isNudge l \<or> isTimed l) ls) \<and> (unserved ls \<longrightarrow> 0 < owes s \<or> wmGone s)"
  using assms
proof (induction ls arbitrary: s rule: rev_induct)
  case Nil
  then show ?case by (auto simp: newWarmer_def owes_def unserved_def)
next
  case (snoc l ls)
  obtain m where m: "warmSteps ticking ls (newWarmer c) = Some m" "warmExec ticking l m = Some s"
    using snoc.prems by (auto simp: warmSteps_append split: option.splits)
  have u: "unserved (ls @ [l]) \<Longrightarrow> \<not> isSweep l \<and> (unserved ls \<or> isNudge l)"
    unfolding unserved_def foldl_append foldl.simps by argo
  show ?case using snoc.IH [OF m(1)] warmExec_cases [OF m(2)] u by (auto split: if_splits)
qed

text \<open>C15. No completion of a backup, copy or prune is forgotten and no burst makes a queue of sweeps. Whatever the order of completions, timers and nudges,
  if a nudge came after the last sweep and the warmer has not been stopped, it gets to a sweep by at most two steps of its own, the window closing and
  perhaps the nudge being taken first; and the sweeps made are the debounced and the timed ones, never more than nudges and timers together.\<close>

theorem nudge_not_lost:
  assumes "warmSteps ticking ls (newWarmer c) = Some s" "unserved ls" "\<not> wmGone s"
  shows "(\<exists>ls' t. ls' \<in> {[WmSettled e repos], [WmTake, WmSettled e repos]} \<and> warmSteps ticking (ls @ ls') (newWarmer c) = Some t \<and>
      wmCache t = snd (warmListCacheSweep e repos (wmCache s)) \<and> wmSweeps t = Suc (wmSweeps s)) \<and>
    wmSweeps s = length (filter isSweep ls) \<and> length (filter isSweep ls) < length (filter (\<lambda>l. isNudge l \<or> isTimed l) ls)"
proof -
  have o: "0 < owes s" "wmSweeps s = length (filter isSweep ls)" "length (filter isSweep ls) < length (filter (\<lambda>l. isNudge l \<or> isTimed l) ls)"
    using warmSteps_inv [OF assms(1)] assms(2,3) by auto
  let ?ls = "if wmSettling s then [WmSettled e repos] else [WmTake, WmSettled e repos]"
  have "\<exists>t. warmSteps ticking (ls @ ?ls) (newWarmer c) = Some t \<and>
      wmCache t = snd (warmListCacheSweep e repos (wmCache s)) \<and> wmSweeps t = Suc (wmSweeps s)"
    using o(1) assms(1,3) by (auto simp: warmSteps_append owes_def warmExec_def runSweep_def split: if_splits)
  moreover have "?ls \<in> {[WmSettled e repos], [WmTake, WmSettled e repos]}" by simp
  ultimately show ?thesis using o(2,3) by blast
qed

definition exNudge :: warmLabel where
  "exNudge = WmJob EventCompleted (exSnap ''a'' ActionBackup JobCompleted (Some 4) (Some 5))"

definition idleSweep :: sweepEnv where
  "idleSweep = \<lparr>seVend = (\<lambda>_. False), seLive = (\<lambda>_ _. None), seRun = (\<lambda>_ _ _ _. RunFailed), seCancelled = (\<lambda>_ _. False), seNow = 0, seRowMax = 0, seWarmN = 0\<rparr>"

text \<open>Witness: two completions while the window is open, after the sweep of the start.\<close>

theorem nudge_not_lost_witness:
  "\<exists>s ls' t. warmSteps True [exNudge, WmStartup idleSweep [], WmTake, exNudge, WmExtend, exNudge] (newWarmer (newSnapshotFilesCacheStore 0 2 [] [])) = Some s \<and> wmSweeps s = 1 \<and>
     warmSteps True ([exNudge, WmStartup idleSweep [], WmTake, exNudge, WmExtend, exNudge] @ ls') (newWarmer (newSnapshotFilesCacheStore 0 2 [] [])) = Some t \<and> wmSweeps t = 2"
proof -
  let ?ls = "[exNudge, WmStartup idleSweep [], WmTake, exNudge, WmExtend, exNudge]"
  have n: "isNudge exNudge" "\<not> isSweep exNudge" "\<not> isTimed exNudge" by (simp_all add: isNudge_def isSweep_def isTimed_def exNudge_def exSnap_def)
  obtain s where s: "warmSteps True ?ls (newWarmer (newSnapshotFilesCacheStore 0 2 [] [])) = Some s" "\<not> wmGone s" "wmSweeps s = 1"
    by (simp add: warmExec_def exNudge_def warmHook_def exSnap_def newWarmer_def runSweep_def)
  have u: "unserved ?ls" using n by (simp add: unserved_def isSweep_def [of "WmTake"] isSweep_def [of WmExtend] isTimed_def)
  obtain ls' t where t: "warmSteps True (?ls @ ls') (newWarmer (newSnapshotFilesCacheStore 0 2 [] [])) = Some t" "wmSweeps t = Suc (wmSweeps s)"
    using nudge_not_lost [OF s(1) u s(2), of idleSweep "[]"] by blast
  then have "wmSweeps t = 2" using s(3) by simp
  then show ?thesis using t(1) s(1,3) by blast
qed

section \<open>The slots of a run\<close>

text \<open>A run is made with a listing slot held and, where maintenance is limited, a maintenance slot of the warmer; when it is over, or was given up,
  or still waits, the warmer holds no slot it did not hold before. Slots that others free while it waits count for them.\<close>

theorem warm_run_slots:
  assumes "runWarmListing run cancelled ts r g = (x, r', g')"
  shows "rgWarm r' = rgWarm r \<and> rgMaintCap r' = rgMaintCap r \<and> rgMaintHeld r' \<le> rgMaintHeld r \<and> gHeld g' \<le> gHeld g \<and>
    (list_all (\<lambda>t. \<not> wtMaint t \<and> wtGate t \<noteq> SlotFreed) ts \<longrightarrow> r' = r \<and> g' = g) \<and>
    (\<forall>y. x = Some y \<longrightarrow> y = cancelled \<or>
       (\<exists>r1 g1. y = run (r1, g1) \<and> 0 < gHeld g1 \<and> (rgMaintCap r \<noteq> None \<longrightarrow> rgWarm r1 = Suc (rgWarm r))))"
  using assms
proof (induction ts arbitrary: r g)
  case Nil
  then show ?case by simp
next
  case (Cons t ts)
  obtain got r1 where m: "acquireMaint (wtMaint t) r = (got, r1)" by fastforce
  obtain gr g1 where q: "gateAcquire True (wtGate t) g = (gr, g1)" by fastforce
  have taken: "rgWarm (releaseMaint r1) = rgWarm r \<and> rgMaintCap (releaseMaint r1) = rgMaintCap r \<and> rgMaintHeld (releaseMaint r1) \<le> rgMaintHeld r \<and>
      (\<not> wtMaint t \<longrightarrow> releaseMaint r1 = r) \<and> (rgMaintCap r \<noteq> None \<longrightarrow> rgWarm r1 = Suc (rgWarm r))" if got
    using m that by (auto simp: acquireMaint_def releaseMaint_def release_def semTake_def split: if_splits)
  have none: "\<not> got \<Longrightarrow> r1 = r" using m by (auto simp: acquireMaint_def split: if_splits)
  have gate: "gr = GateAcquired \<Longrightarrow> 0 < gHeld g1 \<and> gHeld (snd (gateRelease True g1)) \<le> gHeld g \<and> (wtGate t \<noteq> SlotFreed \<longrightarrow> snd (gateRelease True g1) = g)"
    "gr \<noteq> GateAcquired \<Longrightarrow> g1 = g"
    using q by (auto simp: gateAcquire_def gateRelease_def Let_def split: if_splits gateWait.splits)
  show ?case
  proof (cases "got \<and> gr = GateQueueTimeout \<and> wtAlive t")
    case True
    then have "runWarmListing run cancelled ts (releaseMaint r1) g = (x, r', g')" using Cons.prems m q gate(2) by simp
    from Cons.IH [OF this] taken True show ?thesis by auto
  next
    case False
    then show ?thesis using Cons.prems m q taken none gate by (cases got; cases gr) (auto split: if_splits)
  qed
qed

definition exIdleReg :: jobRegistry where
  "exIdleReg = newJobRegistry 1 1"

text \<open>Witness: the listing gate is full at the first try and free at the second.\<close>

theorem warm_run_slots_witness:
  "\<exists>g'. runWarmListing (\<lambda>(r1, g1). rgWarm r1 + gHeld g1) 0 [\<lparr>wtMaint = False, wtGate = WaitExpired, wtAlive = True\<rparr>, \<lparr>wtMaint = False, wtGate = SlotFreed, wtAlive = True\<rparr>]
     exIdleReg \<lparr>gSlots = 1, gHeld = 1\<rparr> = (Some 2, exIdleReg, g') \<and> gHeld g' \<le> 1"
proof -
  obtain x r' g' where r: "runWarmListing (\<lambda>(r1, g1). rgWarm r1 + gHeld g1) 0
      [\<lparr>wtMaint = False, wtGate = WaitExpired, wtAlive = True\<rparr>, \<lparr>wtMaint = False, wtGate = SlotFreed, wtAlive = True\<rparr>] exIdleReg \<lparr>gSlots = 1, gHeld = 1\<rparr> = (x, r', g')"
    by (metis prod_cases3)
  have "x = Some 2 \<and> r' = exIdleReg"
    using r by (simp add: acquireMaint_def releaseMaint_def exIdleReg_def newJobRegistry_def semFree_def semTake_def release_def gateAcquire_def gateRelease_def) auto
  then show ?thesis using r warm_run_slots [OF r] by auto
qed

section \<open>What a sweep leaves in the cache\<close>

definition runsGood :: "'z gzipLib \<Rightarrow> (string \<times> int \<times> string \<Rightarrow> string) \<Rightarrow> sweepEnv \<Rightarrow> bool" where
  "runsGood lib truth e \<longleftrightarrow>
     (\<forall>repo storage snap rv gz rawB. seRun e repo storage snap rv = RunOk gz rawB \<longrightarrow>
        gzInflate lib gz = Some (truth (snap, rv, storage), True) \<and> rawB = int (length (truth (snap, rv, storage))))"

lemma rowsTrue_cong: "cacheRows s' = cacheRows s \<Longrightarrow> rowsTrue lib truth s' = rowsTrue lib truth s"
  by (simp add: rowsTrue_def)

lemma storeListing_true:
  "rowsTrue lib truth s \<Longrightarrow> gzInflate lib gz = Some (truth (snap, rv, storage), True) \<Longrightarrow> rawB = int (length (truth (snap, rv, storage))) \<Longrightarrow>
   rowsTrue lib truth (storeListing e snap rv storage repoID gz rawB s)"
  by (simp add: storeListing_def rowsTrue_mark rowsTrue_put)

lemma warmOneListing_true:
  assumes "runsGood lib truth e" "rowsTrue lib truth s"
  shows "rowsTrue lib truth (snd (warmOneListing e repo storage snap rv s))"
proof (cases "seRun e repo storage snap rv")
  case (RunOk gz rawB)
  then have "gzInflate lib gz = Some (truth (snap, rv, storage), True)" "rawB = int (length (truth (snap, rv, storage)))"
    using assms(1) unfolding runsGood_def by blast+
  then show ?thesis using RunOk storeListing_true [OF assms(2)] by (simp add: warmOneListing_def)
qed (use assms(2) in \<open>simp_all add: warmOneListing_def rowsTrue_mark\<close>)

lemma warmRevs_true:
  "runsGood lib truth e \<Longrightarrow> rowsTrue lib truth (acStore acc) \<Longrightarrow> rowsTrue lib truth (acStore (warmRevs e repo storage sns ranks acc))"
proof (induction sns arbitrary: ranks acc)
  case (Cons sn sns)
  obtain want ranks' where w: "warmWanted e (acStore acc) ranks sn (rID repo) storage = (want, ranks')" by fastforce
  obtain d s' where d: "warmOneListing e repo storage (snSnapshotID sn) (snRevision sn) (acStore acc) = (d, s')" by fastforce
  have "rowsTrue lib truth s'" using warmOneListing_true [OF Cons.prems] d by (metis snd_conv)
  then show ?case using Cons.IH [OF Cons.prems(1)] Cons.prems(2) w d by simp
qed simp

lemma warmStorages_true:
  "runsGood lib truth e \<Longrightarrow> rowsTrue lib truth (acStore acc) \<Longrightarrow> rowsTrue lib truth (acStore (snd (warmStorages e repo stgs acc)))"
proof (induction stgs arbitrary: acc)
  case (Cons stg stgs)
  show ?case using Cons.IH [OF Cons.prems(1)] Cons.prems(2) warmRevs_true [OF Cons.prems(1)] by (simp add: Let_def split: option.split)
qed simp

lemma warmRepos_true:
  "runsGood lib truth e \<Longrightarrow> rowsTrue lib truth (acStore acc) \<Longrightarrow> rowsTrue lib truth (acStore (snd (warmRepos e repos acc)))"
proof (induction repos arbitrary: acc)
  case (Cons repo repos)
  let ?a = "acc\<lparr>acState := (acState acc)\<lparr>swKnown := rID repo # swKnown (acState acc)\<rparr>\<rparr>"
  obtain ab acc2 where st: "warmStorages e repo (rStorages repo) ?a = (ab, acc2)" by fastforce
  have t: "rowsTrue lib truth (acStore acc2)" using warmStorages_true [OF Cons.prems(1), of ?a repo "rStorages repo"] Cons.prems(2) st by simp
  have d: "rowsTrue lib truth (sweepRepoDone i (acStore acc2))" for i using t by (simp add: sweepRepoDone_def rowsTrue_def)
  show ?case using Cons.IH [OF Cons.prems(1)] Cons.prems(2) t d st by (simp add: Let_def)
qed simp

lemma reconcile_subset: "set (cacheRows (snd (reconcileAgainstKeep st s))) \<subseteq> set (cacheRows s)"
  by (auto simp: reconcileAgainstKeep_def reconcileMarkers_def deleteByRowID_def Let_def)

lemma warmListCacheSweep_true:
  assumes "runsGood lib truth e" "rowsTrue lib truth s"
  shows "rowsTrue lib truth (snd (warmListCacheSweep e repos s))"
proof -
  define acc0 where "acc0 = \<lparr>acStore = sweepBegin (map rID repos) s, acState = newSweepState, acWarmed = 0, acCapped = False\<rparr>"
  obtain ab acc where w: "warmRepos e repos acc0 = (ab, acc)" by fastforce
  have "rowsTrue lib truth (sweepBegin (map rID repos) s)" using assms(2) by (simp add: sweepBegin_def rowsTrue_def)
  then have "rowsTrue lib truth (acStore acc)" using warmRepos_true [OF assms(1), of acc0 repos] w by (simp add: acc0_def)
  then have "rowsTrue lib truth (sweepEnd (acStore acc))" by (simp add: sweepEnd_def rowsTrue_def)
  moreover from this have "rowsTrue lib truth (evictBySize ex (snd (reconcileAgainstKeep st (sweepEnd (acStore acc)))))" for ex st
    by (rule rowsTrue_subset [OF rowsTrue_subset [OF _ reconcile_subset] evictBySize_subset])
  ultimately show ?thesis using assms(2) w by (simp add: warmListCacheSweep_def acc0_def [symmetric] Let_def)
qed

lemma runWarmListing_result:
  "runWarmListing run cancelled ts r g = (Some y, r', g') \<Longrightarrow> y = cancelled \<or> (\<exists>a. y = run a)"
proof (induction ts arbitrary: r g)
  case (Cons t ts)
  then show ?case by (auto split: prod.splits bool.splits gateResult.splits if_splits)
qed simp

lemma warmRun_good:
  assumes "gzipLaw (wvGzip w)" "warmRun w repo storage snap rv = RunOk gz rawB"
  shows "\<exists>env rsaPriv. wvVend w repo = Some (env, rsaPriv) \<and>
    (let r = wvChild w (warmFilesInvocation repo storage (keyOf rsaPriv storage) env snap rv)
     in cdOk r \<and> rawB = int (length (concat (cdOut r))) \<and> gzInflate (wvGzip w) gz = Some (concat (cdOut r), True))"
proof -
  obtain env rsaPriv where v: "wvVend w repo = Some (env, rsaPriv)" using assms(2) by (auto simp: warmRun_def split: option.splits)
  let ?ci = "warmFilesInvocation repo storage (keyOf rsaPriv storage) env snap rv"
  let ?res = "runListFiles (wvGzip w) (wvFaults w ?ci) (wvSealFault w) (listSpoolMemMax (wvRowMax w)) (wvChild w ?ci)"
  obtain x r' g' where x: "runWarmListing (\<lambda>_. warmOutcome ?res) RunFailed (wvTries w ?ci) (wvReg w) (wvGate w) = (x, r', g')" by (metis prod_cases3)
  have "x = Some (RunOk gz rawB)" using assms(2) v x by (auto simp: warmRun_def Let_def split: option.splits)
  then have "warmOutcome ?res = RunOk gz rawB" using runWarmListing_result [of "\<lambda>_. warmOutcome ?res"] x by fastforce
  then obtain s where "?res = (Inr rawB, s)" "gz = spoolBytes s"
    by (auto simp: warmOutcome_def split: prod.splits sum.splits listErr.splits spoolErr.splits)
  then show ?thesis using v runListFiles_good [OF assms(1)] by (auto simp: Let_def)
qed

text \<open>C14. A sweep keeps the cache right. Suppose that a listing of the warmer that exits without error has written the listing of its
  snapshot, revision and storage. Then whatever fails, is refused, is cut off or exceeds a limit during a sweep, every row in the cache afterwards
  inflates to the whole listing it stands for, if that was so before: this is what a request assumes of the warmer.\<close>

theorem warm_sweep_complete:
  assumes "gzipLaw (wvGzip w)" "rowsTrue (wvGzip w) truth s"
    and "\<And>repo env rsaPriv storage snap rv.
      let r = wvChild w (warmFilesInvocation repo storage (keyOf rsaPriv storage) env snap rv)
      in cdOk r \<longrightarrow> concat (cdOut r) = truth (snap, rv, storage)"
  shows "rowsTrue (wvGzip w) truth (snd (warmListCacheSweep (sweepEnvOf w) repos s))"
proof (rule warmListCacheSweep_true [OF _ assms(2)])
  show "runsGood (wvGzip w) truth (sweepEnvOf w)"
    unfolding runsGood_def sweepEnvOf_def using warmRun_good [OF assms(1)] assms(3) by (fastforce simp: Let_def)
qed

definition exWarm :: "unit warmEnv" where
  "exWarm = \<lparr>wvGzip = exGzip, wvVend = \<lambda>_. Some ([], []), wvList = \<lambda>_. (''Snapshot a revision 1 created at 2024-01-01 10:00 -hash'', None),
     wvChild = \<lambda>_. \<lparr>cdOut = [''f1 '', ''f2''], cdOk = True\<rparr>, wvFaults = \<lambda>_ _. (False, False), wvSealFault = False,
     wvTries = \<lambda>_. [\<lparr>wtMaint = False, wtGate = WaitExpired, wtAlive = True\<rparr>], wvFreed = False, wvReg = exIdleReg, wvGate = newListGate 1,
     wvCancelled = \<lambda>_ _. False, wvNow = 9, wvRowMax = 0, wvWarmN = 2\<rparr>"

text \<open>Witness: the one revision of a repository is listed and cached.\<close>

theorem warm_sweep_complete_witness:
  "let s = snd (warmListCacheSweep (sweepEnvOf exWarm) [exRepo ''R''\<lparr>rStorages := [storageOf exPref]\<rparr>] (newSnapshotFilesCacheStore 0 2 [] []))
   in rowsTrue exGzip (\<lambda>k. ''f1 f2'') s \<and> map rowKey (cacheRows s) = [(''a'', 1, ''default'')]"
proof -
  obtain sp where r: "runListFiles exGzip (\<lambda>n. (False, False)) False (listSpoolMemMax 0) \<lparr>cdOut = [''f1 '', ''f2''], cdOk = True\<rparr> = (Inr 5, sp)"
    using exRun_ok by blast
  have live: "warmLive exWarm repo ''default'' = Some (parseListOutput ''Snapshot a revision 1 created at 2024-01-01 10:00 -hash'')" for repo
    by (simp add: warmLive_def exWarm_def warmListSnapshots_def runListGated_def runSync_def acquireMaint_def exIdleReg_def newJobRegistry_def semFree_def)
  have p: "map (\<lambda>sn. (snSnapshotID sn, snRevision sn)) (parseListOutput ''Snapshot a revision 1 created at 2024-01-01 10:00 -hash'') = [(''a'', 1)]"
    by code_simp
  then obtain sn where sn: "parseListOutput ''Snapshot a revision 1 created at 2024-01-01 10:00 -hash'' = [sn]" "snSnapshotID sn = ''a''" "snRevision sn = 1"
    by auto
  have run: "warmRun exWarm repo storage snap rv = RunOk (spoolBytes sp) 5" for repo storage snap rv
    using r by (simp add: warmRun_def exWarm_def acquireMaint_def exIdleReg_def newJobRegistry_def semFree_def gateAcquire_def newListGate_def warmOutcome_def Let_def)
  have k: "map rowKey (cacheRows (snd (warmListCacheSweep (sweepEnvOf exWarm) [exRepo ''R''\<lparr>rStorages := [storageOf exPref]\<rparr>] (newSnapshotFilesCacheStore 0 2 [] [])))) = [(''a'', 1, ''default'')]"
  proof -
    define e where "e = sweepEnvOf exWarm"
    have e: "seVend e repo" "seLive e repo ''default'' = Some [sn]" "seRun e repo storage snap rv = RunOk (spoolBytes sp) 5"
      "\<not> seCancelled e repo w" "seWarmN e = 2" "seRowMax e = 0" for repo storage snap rv w
      by (simp_all add: e_def sweepEnvOf_def live run sn(1)) (simp_all add: exWarm_def)
    let ?s = "newSnapshotFilesCacheStore 0 2 [] []" and ?repo = "exRepo ''R''\<lparr>rStorages := [storageOf exPref]\<rparr>"
    have mx: "maxBytes s \<le> 0 \<Longrightarrow> evictBySize ex s = s" for ex s by (simp add: evictBySize_def victimsOf_def)
    let ?row = "\<lparr>crRowid = 1, crSnapshot = ''a'', crRev = 1, crStorage = ''default'', crRepo = rID ?repo, crGz = spoolBytes sp, crRawBytes = 5, crLastAccess = seNow e\<rparr>"
    have wr: "warmRevs e ?repo ''default'' [sn] [] acc = acc\<lparr>acStore := (acStore acc)\<lparr>cacheRows := [?row]\<rparr>, acWarmed := 1\<rparr>"
      if "acWarmed acc = 0" "cacheRows (acStore acc) = []" "markers (acStore acc) = []" "warmKeepN (acStore acc) = 2" "maxBytes (acStore acc) = 0" for acc
      using that by (simp add: maxWarmListsPerSweep_def warmWanted_def effectivePinN_def cacheHas_def uncacheableInfo_def warmOneListing_def e storeListing_def
          putGzipped_def maxRowid_def mx sn(2,3) Let_def)
    have st: "sName (storageOf exPref) = ''default''" by (simp add: storageOf_def exPref_def)
    let ?st = "\<lparr>swSwept = [(rID ?repo, ''default'')], swSweptStorage = [''default''], swFailed = [], swKnown = [rID ?repo], swKeep = [storageSnapRevKey ''default'' ''a'' 1]\<rparr>"
    have w: "warmRepos e [?repo] \<lparr>acStore = sweepBegin (map rID [?repo]) ?s, acState = newSweepState, acWarmed = 0, acCapped = False\<rparr> =
        (False, \<lparr>acStore = (sweepRepoDone (rID ?repo) (sweepBegin (map rID [?repo]) ?s))\<lparr>cacheRows := [?row]\<rparr>, acState = ?st, acWarmed = 1, acCapped = False\<rparr>)"
    proof -
      have nr2: "newestRevisionsPerSnapshot [sn] 2 = [sn]" by (simp add: newestRevisionsPerSnapshot_def)
      have ws: "warmStorages e ?repo [storageOf exPref] acc = (False, warmRevs e ?repo ''default'' [sn] []
          (acc\<lparr>acState := (acState acc)\<lparr>swSwept := (rID ?repo, ''default'') # swSwept (acState acc), swSweptStorage := ''default'' # swSweptStorage (acState acc),
             swKeep := storageSnapRevKey ''default'' ''a'' 1 # swKeep (acState acc)\<rparr>\<rparr>))" for acc
        by (simp del: warmRevs.simps add: e(1,2,4,5) st sn(2,3) nr2 Let_def)
      have rs: "rStorages ?repo = [storageOf exPref]" by simp
      show ?thesis
        by (simp del: warmRevs.simps warmStorages.simps add: e(1,4) rs ws wr newSweepState_def sweepBegin_def newSnapshotFilesCacheStore_def sweepRepoDone_def Let_def)
    qed
    have "\<not> gone ?st (rID ?repo) ''default'' ''a'' 1" by (simp add: gone_def)
    then have "snd (warmListCacheSweep e [?repo] ?s) = (sweepEnd (sweepRepoDone (rID ?repo) (sweepBegin (map rID [?repo]) ?s)))\<lparr>cacheRows := [?row]\<rparr>"
      by (simp only: warmListCacheSweep_def w e)
         (simp add: Let_def reconcileAgainstKeep_def reconcileMarkers_def mx sweepBegin_def sweepEnd_def sweepRepoDone_def newSnapshotFilesCacheStore_def)
    then show ?thesis unfolding e_def [symmetric] by (simp add: rowKey_def)
  qed
  have g: "gzipLaw (wvGzip exWarm)" "rowsTrue (wvGzip exWarm) (\<lambda>k. ''f1 f2'') (newSnapshotFilesCacheStore 0 2 [] [])"
    by (simp add: exWarm_def exGzip_law, simp add: rowsTrue_def newSnapshotFilesCacheStore_def)
  have "rowsTrue (wvGzip exWarm) (\<lambda>k. ''f1 f2'') (snd (warmListCacheSweep (sweepEnvOf exWarm) [exRepo ''R''\<lparr>rStorages := [storageOf exPref]\<rparr>] (newSnapshotFilesCacheStore 0 2 [] [])))"
    by (rule warm_sweep_complete [OF g]) (simp add: exWarm_def)
  then show ?thesis using k by (simp add: exWarm_def Let_def)
qed

end
