(* ===== verification/Boot.thy ===== *)
theory Boot
  imports Lifecycle Jobs ListStream Filters TreeSizes Trees KnownHosts Housekeeping
begin

text \<open>
  The start of the agent: \<open>main\<close> (main.go), \<open>newApp\<close> with the goroutine it leaves behind and \<open>startBackgroundWorkers\<close>
  (app.go). Each step is the operation of the component it starts, on what the previous process left on disk. The theorems: when the agent
  comes up and what it reports otherwise; that it comes up with the registered repositories, an idle job registry and no job shown as
  running; and that the refresh of the registry from the controller, done at boot for a lost registry, does not reach the index.
\<close>

section \<open>What a start finds\<close>

record agentDisk =
  adSpool :: "string list"  \<comment> \<open>files in the spool directory\<close>
  adJobRows :: "jobRow list"
  adPending :: "(string \<times> JobEvent \<times> EventPayload) list"
  adCacheRows :: "cacheRow list"
  adMarkers :: "(markerKey \<times> uncacheableMarker) list"
  adLogs :: "logEntry list option"
  adMapping :: mappingFile
  adTree :: disk
  adKnown :: khState
  adFilters :: fileStore
  adSizes :: dirSizeCache
  adBeat :: beatFile

text \<open>What fails on the way; \<open>bfClient\<close> is the client for the controller (certificates), \<open>bfEvents\<close> the directory,
  database, schema or outbox of the events, \<open>bfSched\<close> the scheduler of agent-kit-go.\<close>

record bootFault =
  bfSpool :: bool
  bfClient :: bool
  bfEvents :: bool
  bfLogRm :: "string \<Rightarrow> bool"
  bfPersist :: bool
  bfKnown :: khFault
  bfFilterDir :: bool
  bfSchema :: bool
  bfSched :: bool

datatype bootError = ClientError | EventsError | MappingError | FiltersError | SchemaError | SchedulerError

record agentApp =
  aaCfg :: Config
  aaCore :: app
  aaJobs :: jobRegistry
  aaEvents :: eventBuffer
  aaFilters :: filterCache
  aaFilesCache :: "snapshotFilesCacheStore option"
  aaWarmDirty :: bool
  aaListGate :: listGate
  aaHitGate :: listGate
  aaTrees :: treeWalker
  aaSizes :: dirSizeCache

definition resetListSpool :: "bool \<Rightarrow> string list \<Rightarrow> string list" where
  "resetListSpool fails files = (if fails then files else [])"

definition newEventBuffer :: "bool \<Rightarrow> Config \<Rightarrow> agentDisk \<Rightarrow> eventBuffer option" where
  "newEventBuffer fails cfg d =
     (if fails then None
      else Some \<lparr>ebSite = cSiteID cfg, ebNode = cNodeName cfg, ebDB = Some (adJobRows d), ebOutbox = adPending d\<rparr>)"

definition newDirSizeCache :: "dirSizeCache \<Rightarrow> dirSizeCache" where
  "newDirSizeCache c = c\<lparr>dcMap := []\<rparr>"

text \<open>The state of the core, as Lifecycle has it.\<close>

definition newCore :: "Config \<Rightarrow> repoMappingStore \<Rightarrow> disk \<Rightarrow> app" where
  "newCore cfg mapping tree =
     \<lparr>cfgBackupRoots = cBackupRoots cfg, cfgNodeName = cNodeName cfg, appMapping = mapping,
      appRepos = newRepoIndex (cLegacyBackuprootMap cfg), appDisk = tree, appJobs = [], rescans = 0, fleetTriggers = 0\<rparr>"

section \<open>The application\<close>

definition newApp :: "(string \<Rightarrow> string) \<Rightarrow> bootFault \<Rightarrow> Config \<Rightarrow> agentDisk \<Rightarrow> (bootError + agentApp) \<times> agentDisk" where
  "newApp sha fl cfg d =
     (let d1 = d\<lparr>adSpool := resetListSpool (bfSpool fl) (adSpool d)\<rparr>
      in if bfClient fl then (Inl ClientError, d1)
      else case newEventBuffer (bfEvents fl) cfg d1 of
        None \<Rightarrow> (Inl EventsError, d1)
      | Some ev \<Rightarrow>
          let d2 = d1\<lparr>adLogs := pruneJobLogs (bfLogRm fl) (pathJoin [cConfigDir cfg, ''job-logs'']) jobLogRetainN (adLogs d1)\<rparr>
          in case mappingLoad sha (newRepoMappingStore (adMapping d2) (bfPersist fl)) of
            Inl _ \<Rightarrow> (Inl MappingError, d2)
          | Inr mapping \<Rightarrow>
              let d3 = d2\<lparr>adKnown := snd (ensureKnownHostsSetup (bfKnown fl) (cConfigDir cfg) (adKnown d2))\<rparr>
              in case newFilterCache (\<not> bfFilterDir fl) (cConfigDir cfg) (adFilters d3) of
                None \<Rightarrow> (Inl FiltersError, d3)
              | Some fc \<Rightarrow>
                  if cListCacheEnabled cfg \<and> bfSchema fl then (Inl SchemaError, d3)
                  else if bfSched fl then (Inl SchedulerError, d3)
                  else (Inr \<lparr>aaCfg = cfg, aaCore = newCore cfg mapping (adTree d3),
                             aaJobs = newJobRegistry (cMaxConcurrentCopies cfg) (cMaxConcurrentMaint cfg), aaEvents = ev, aaFilters = fc,
                             aaFilesCache = (if cListCacheEnabled cfg
                                             then Some (newSnapshotFilesCacheStore (cListCacheMaxBytes cfg) (cListCacheWarmN cfg) (adCacheRows d3) (adMarkers d3))
                                             else None),
                             aaWarmDirty = False, aaListGate = newListGate (cListMaxConcurrent cfg), aaHitGate = newListGate (cListMaxHits cfg),
                             aaTrees = newTreeWalker, aaSizes = newDirSizeCache (adSizes d3)\<rparr>, d3))"

definition onCore :: "(app \<Rightarrow> app) \<Rightarrow> agentApp \<Rightarrow> agentApp" where
  "onCore f a = a\<lparr>aaCore := f (aaCore a)\<rparr>"

text \<open>\<open>repoIndex.scan\<close> on the state of the application.\<close>

definition scanNow :: "(string \<Rightarrow> string) \<Rightarrow> int \<Rightarrow> app \<Rightarrow> app" where
  "scanNow sha now a = a\<lparr>appRepos := scan sha now (appDisk a) (appMapping a) (appRepos a)\<rparr>"

text \<open>What the goroutine of \<open>newApp\<close> does: the refresh from the controller, the scan, the broadcast.\<close>

definition initialRefresh :: "(string \<Rightarrow> string) \<Rightarrow> int \<Rightarrow> int \<Rightarrow> reconcileRepoDTO list ccAnswer \<Rightarrow> agentApp \<Rightarrow> agentApp" where
  "initialRefresh sha now now' answer =
     onCore (\<lambda>c. let c1 = scanNow sha now' (refreshMappingFromController sha now answer c) in c1\<lparr>fleetTriggers := fleetTriggers c1 + 1\<rparr>)"

definition startBackgroundWorkers :: "(string \<Rightarrow> string) \<Rightarrow> int \<Rightarrow> agentApp \<Rightarrow> agentApp" where
  "startBackgroundWorkers sha now = onCore (scanNow sha now)"

section \<open>The process\<close>

record bootEnv =
  bvDuration :: "string \<Rightarrow> int option"
  bvReadFile :: "string \<Rightarrow> string option"
  bvVars :: "string \<Rightarrow> string"
  bvFault :: bootFault
  bvMark :: "jobRow list \<Rightarrow> (string list \<times> jobRow list) option"
  bvGetFails :: "string \<Rightarrow> bool"
  bvMarshalFails :: "string \<Rightarrow> bool"
  bvDec :: "string \<Rightarrow> JobProgress option"
  bvNow :: int
  bvSweepAt :: int
  bvScanAt :: int

datatype bootResult = ExitConfig | ExitApp bootReport bootError | Started bootReport agentApp

text \<open>\<open>main\<close> up to the wait for a signal, without the goroutines it starts. The sweep of the orphans comes before the listener.\<close>

definition mainBoot :: "(string \<Rightarrow> string) \<Rightarrow> bootEnv \<Rightarrow> agentDisk \<Rightarrow> bootResult \<times> agentDisk" where
  "mainBoot sha v d =
     (case loadConfig (bvDuration v) (bvReadFile v) (bvVars v) of
        None \<Rightarrow> (ExitConfig, d)
      | Some cfg \<Rightarrow>
          let rep = reportBootGap (cConfigDir cfg) (bvNow v) (adBeat d)
          in case newApp sha (bvFault v) cfg d of
               (Inl err, d') \<Rightarrow> (ExitApp rep err, d')
             | (Inr a, d') \<Rightarrow>
                 let a1 = a\<lparr>aaEvents := sweepOrphanJobs (bvMark v) (bvGetFails v) (bvMarshalFails v) (bvDec v) (bvSweepAt v) (aaEvents a)\<rparr>
                 in (Started rep (startBackgroundWorkers sha (bvScanAt v) a1), d'))"

text \<open>The fleet page of the running agent.\<close>

definition fleetOf :: "bool \<Rightarrow> bool \<Rightarrow> (string \<Rightarrow> JobProgress option) \<Rightarrow> HostInfo \<Rightarrow> agentApp \<Rightarrow> fleetSnapshot" where
  "fleetOf refused1 refused2 dec host a =
     fst (buildFleetSnapshot refused1 refused2 dec host (appJobs (aaCore a)) (Some (aaEvents a)) (appRepos (aaCore a)))"

section \<open>When the agent starts\<close>

lemma newApp_Inr: "(\<exists>a d'. newApp sha fl cfg d = (Inr a, d')) \<longleftrightarrow>
    \<not> bfClient fl \<and> \<not> bfEvents fl \<and> adMapping d \<notin> {Unreadable, Malformed} \<and> \<not> bfFilterDir fl \<and>
    \<not> (cListCacheEnabled cfg \<and> bfSchema fl) \<and> \<not> bfSched fl"
  by (auto simp: newApp_def newEventBuffer_def mappingLoad_def newRepoMappingStore_def newFilterCache_def Let_def split: mappingFile.splits)

lemma newApp_ok:
  assumes "newApp sha fl cfg d = (Inr a, d')"
  shows "\<exists>mapping. mappingLoad sha (newRepoMappingStore (adMapping d) (bfPersist fl)) = Inr mapping \<and> aaCore a = newCore cfg mapping (adTree d) \<and>
    aaJobs a = newJobRegistry (cMaxConcurrentCopies cfg) (cMaxConcurrentMaint cfg) \<and>
    aaEvents a = \<lparr>ebSite = cSiteID cfg, ebNode = cNodeName cfg, ebDB = Some (adJobRows d), ebOutbox = adPending d\<rparr> \<and>
    aaWarmDirty a = False \<and> adSpool d' = resetListSpool (bfSpool fl) (adSpool d)"
  using assms by (auto simp: newApp_def newEventBuffer_def Let_def split: if_splits option.splits sum.splits)

text \<open>The agent starts exactly when the configuration loads and nothing it cannot do without fails: the client, the event database, a registry
  file that is there but cannot be read, the directory of the filters, the table of markers where the list cache is on, the
  scheduler. In particular a lost registry, failing known_hosts, log or spool files do not stop it.\<close>

theorem mainBoot_starts:
  "(\<exists>rep a d'. mainBoot sha v d = (Started rep a, d')) \<longleftrightarrow>
     (\<exists>cfg. loadConfig (bvDuration v) (bvReadFile v) (bvVars v) = Some cfg \<and> \<not> (cListCacheEnabled cfg \<and> bfSchema (bvFault v))) \<and>
     \<not> bfClient (bvFault v) \<and> \<not> bfEvents (bvFault v) \<and> adMapping d \<notin> {Unreadable, Malformed} \<and>
     \<not> bfFilterDir (bvFault v) \<and> \<not> bfSched (bvFault v)"
proof (cases "loadConfig (bvDuration v) (bvReadFile v) (bvVars v)")
  case None
  then show ?thesis by (simp add: mainBoot_def)
next
  case (Some cfg)
  have "(\<exists>rep a d'. mainBoot sha v d = (Started rep a, d')) \<longleftrightarrow> (\<exists>a d'. newApp sha (bvFault v) cfg d = (Inr a, d'))"
    using Some by (auto simp: mainBoot_def Let_def split: prod.splits sum.splits)
  then show ?thesis unfolding newApp_Inr using Some by auto
qed

section \<open>What a start recovers\<close>

lemma mainBoot_Started:
  assumes "mainBoot sha v d = (Started rep a, d')"
  shows "\<exists>cfg mapping. loadConfig (bvDuration v) (bvReadFile v) (bvVars v) = Some cfg \<and>
    mappingLoad sha (newRepoMappingStore (adMapping d) (bfPersist (bvFault v))) = Inr mapping \<and>
    aaCore a = scanNow sha (bvScanAt v) (newCore cfg mapping (adTree d)) \<and>
    aaJobs a = newJobRegistry (cMaxConcurrentCopies cfg) (cMaxConcurrentMaint cfg) \<and>
    aaEvents a = sweepOrphanJobs (bvMark v) (bvGetFails v) (bvMarshalFails v) (bvDec v) (bvSweepAt v)
       \<lparr>ebSite = cSiteID cfg, ebNode = cNodeName cfg, ebDB = Some (adJobRows d), ebOutbox = adPending d\<rparr>"
proof -
  obtain cfg where cfg: "loadConfig (bvDuration v) (bvReadFile v) (bvVars v) = Some cfg"
    using assms by (auto simp: mainBoot_def split: option.splits)
  obtain b where b: "newApp sha (bvFault v) cfg d = (Inr b, d')"
    and a: "a = startBackgroundWorkers sha (bvScanAt v)
      (b\<lparr>aaEvents := sweepOrphanJobs (bvMark v) (bvGetFails v) (bvMarshalFails v) (bvDec v) (bvSweepAt v) (aaEvents b)\<rparr>)"
    using assms cfg by (auto simp: mainBoot_def Let_def split: prod.splits sum.splits)
  show ?thesis using newApp_ok [OF b] cfg unfolding a by (auto simp: startBackgroundWorkers_def onCore_def)
qed

lemma scanNow_new: "appRepos (scanNow sha now (newCore cfg mapping tree)) = scanLocked sha now tree mapping (newRepoIndex (cLegacyBackuprootMap cfg))"
  by (simp add: scanNow_def newCore_def scan_def newRepoIndex_def)

lemma load_values:
  assumes "storeOk sha s" "storeFile s = Entries (map snd (byID s))" "mappingLoad sha (newRepoMappingStore (storeFile s) f) = Inr s'"
  shows "storeOk sha s' \<and> snd ` set (byID s') = snd ` set (byID s)"
proof -
  have ok: "storeOk sha s'" by (rule storeOk_mappingLoad [OF storeOk_new assms(3)])
  have "map_of (byID s') = map_of (byID s)"
    using load_fold [OF assms(1)] assms(2,3) by (auto simp: mappingLoad_def newRepoMappingStore_def)
  then have "set (byID s') = set (byID s)" using ok assms(1) by (metis map_of_inject_set storeOk_def)
  then show ?thesis using ok by simp
qed

definition agentRow :: "jobRow \<Rightarrow> bool" where
  "agentRow r \<longleftrightarrow> jwState r \<in> range stateName"

lemma scanJob_over:
  assumes "agentRow r" "\<not> orphanRow r"
  shows "jState (scanJob dec r) \<notin> {JobPending, JobRunning}"
proof -
  obtain st where st: "jwState r = stateName st" using assms(1) by (auto simp: agentRow_def)
  then show ?thesis using assms(2) by (cases st) (simp_all add: scanJob_def orphanRow_def stateName_def [of JobPending] stateName_def [of JobRunning])
qed

lemma sweep_db:
  assumes "ebDB e = Some t" "mark t = Some (ids, t')"
  shows "ebDB (sweepOrphanJobs mark g m dec now e) = Some t'"
proof -
  have "ebDB (fold (\<lambda>i e1. case getJobRow (g i) dec i e1 of
                       Some (Some jp) \<Rightarrow>
                         if m i then e1
                         else e1\<lparr>ebOutbox := ebOutbox e1 @ [(i, EventFailed, orphanPayload (ebSite e) (ebNode e) now (jp\<lparr>jID := i\<rparr>))]\<rparr>
                     | _ \<Rightarrow> e1) ids x) = ebDB x" for x
    by (induction ids arbitrary: x) (auto split: option.split)
  then show ?thesis using assms by (simp add: sweepOrphanJobs_def)
qed

text \<open>C9. A restart recovers the agent. Whatever the registry held when it was last written, after the start the index lists exactly its
  repositories whose preferences load, before the scheduler fires anything; no job is running or
  waiting, all slots are free, and the fleet page shows no job as running or waiting although the crash left such rows, for they were failed by the
  sweep. Assumed is what the sweep's statement is documented to do, and that the rows were written by the agent.\<close>

theorem restart_recovers:
  assumes "storeOk sha s" "persist s = (False, s1)" "adMapping d = storeFile s1"
    and "list_all agentRow (adJobRows d)"
    and "bvMark v (adJobRows d) = Some (map jwID (filter orphanRow (adJobRows d)), map (markedRow c) (adJobRows d))"
    and "loadConfig (bvDuration v) (bvReadFile v) (bvVars v) = Some cfg" "mainBoot sha v d = (Started rep a, d')"
  shows "(indexGet (appRepos (aaCore a)) i = Some r \<longleftrightarrow>
       (\<exists>m\<in>snd ` set (byID s). i = repoIDFromPath sha (mRepoPath m) \<and> \<not> isDuplicacyWebCache (pathClean (mRepoPath m)) \<and>
          loadRepo sha (bvScanAt v) (adTree d) (cLegacyBackuprootMap cfg) (pathClean (mRepoPath m)) = Inr r)) \<and>
    list_all (\<lambda>jp. jState jp \<notin> {JobPending, JobRunning}) (fsJobs (fleetOf refused1 refused2 dec host a)) \<and>
    aaJobs a = newJobRegistry (cMaxConcurrentCopies cfg) (cMaxConcurrentMaint cfg)"
proof -
  obtain mapping where mp: "mappingLoad sha (newRepoMappingStore (adMapping d) (bfPersist (bvFault v))) = Inr mapping"
    and core: "aaCore a = scanNow sha (bvScanAt v) (newCore cfg mapping (adTree d))"
    and jobs: "aaJobs a = newJobRegistry (cMaxConcurrentCopies cfg) (cMaxConcurrentMaint cfg)"
    and ev: "aaEvents a = sweepOrphanJobs (bvMark v) (bvGetFails v) (bvMarshalFails v) (bvDec v) (bvSweepAt v)
       \<lparr>ebSite = cSiteID cfg, ebNode = cNodeName cfg, ebDB = Some (adJobRows d), ebOutbox = adPending d\<rparr>"
    using mainBoot_Started [OF assms(7)] assms(6) by auto
  have s1: "storeFile s1 = Entries (map snd (byID s1))" "byID s1 = byID s" "storeOk sha s1"
    using assms(1,2) storeOk_byID [of s s1 sha] by (auto simp: persist_def split: if_splits)
  have vals: "storeOk sha mapping \<and> snd ` set (byID mapping) = snd ` set (byID s)"
    using load_values [OF s1(3,1)] mp s1(2) assms(3) by metis
  have ix: "indexGet (appRepos (aaCore a)) i = Some r \<longleftrightarrow>
       (\<exists>m\<in>snd ` set (byID s). i = repoIDFromPath sha (mRepoPath m) \<and> loadable sha (bvScanAt v) (adTree d) (cLegacyBackuprootMap cfg) m r)"
    unfolding core scanNow_new
    using fold_scanStep [OF storeOk_distinct_ids, of sha mapping "bvScanAt v" "adTree d" "cLegacyBackuprootMap cfg" "[]" i r] vals
    by (auto simp: indexGet_def scanLocked_def newRepoIndex_def)
  have db: "ebDB (aaEvents a) = Some (map (markedRow c) (adJobRows d))" unfolding ev by (rule sweep_db [where t = "adJobRows d"]) (simp, rule assms(5))
  have over: "jState (scanJob dec x) \<notin> {JobPending, JobRunning}" if xs: "x \<in> set (map (markedRow c) (adJobRows d))" for x
  proof (rule scanJob_over)
    obtain y where y: "x = markedRow c y" "agentRow y" using xs assms(4) unfolding list_all_iff set_map by blast
    show "agentRow x" using y by (auto simp: agentRow_def markedRow_def image_iff stateName_def intro: exI [of _ JobFailed])
    show "\<not> orphanRow x" unfolding y by (simp add: markedRow_def orphanRow_def)
  qed
  have live: "appJobs (aaCore a) = []" by (simp add: core scanNow_def newCore_def)
  have tk: "scanJob dec ` set (take n (sort_key f rs)) \<subseteq> scanJob dec ` set rs" for n f rs
    by (metis image_mono set_sort set_take_subset)
  have "set (fsJobs (fleetOf refused1 refused2 dec host a)) \<subseteq> scanJob dec ` set (map (markedRow c) (adJobRows d))"
    unfolding fleetOf_def buildFleetSnapshot_def Let_def live fst_conv fleetSnapshot.simps fleetJobs_def listRecentJobs_def
    using tk [of fleetJobsCap "\<lambda>r. - jwUpdatedAtNs r" "map (markedRow c) (adJobRows d)"]
    by (auto simp del: set_map simp: db list.set_map [where f = "scanJob dec"] split: if_splits dest!: in_set_takeD)
  then show ?thesis using ix jobs over by (auto simp: loadable_def list_all_iff)
qed

definition exVars :: "string \<Rightarrow> string" where
  "exVars k = (if k = ''BACKUP_ROOTS'' then ''/data'' else if k \<in> {''NODE_NAME'', ''SITE_ID'', ''CONTROL_CENTER_URL''} then ''n'' else [])"

definition exFault :: bootFault where
  "exFault = \<lparr>bfSpool = False, bfClient = False, bfEvents = False, bfLogRm = (\<lambda>_. False), bfPersist = False,
     bfKnown = \<lparr>kfMkdir = True, kfStat = False, kfCreate = False, kfLstat = False, kfReadlink = False, kfRemove = False, kfSymlink = False\<rparr>,
     bfFilterDir = False, bfSchema = False, bfSched = False\<rparr>"

definition exBoot :: bootEnv where
  "exBoot = \<lparr>bvDuration = (\<lambda>_. None), bvReadFile = (\<lambda>_. Some ''token''), bvVars = exVars, bvFault = exFault,
     bvMark = (\<lambda>t. Some (map jwID (filter orphanRow t), map (markedRow 11) t)), bvGetFails = (\<lambda>_. False), bvMarshalFails = (\<lambda>_. False),
     bvDec = (\<lambda>_. None), bvNow = 10, bvSweepAt = 11, bvScanAt = 12\<rparr>"

definition exNode :: "mappingFile \<Rightarrow> agentDisk" where
  "exNode f = \<lparr>adSpool = [''x''], adJobRows = [jobRowOf (\<lambda>_. None) 5 (exSnap ''a'' ActionBackup JobRunning (Some 4) None)], adPending = [],
     adCacheRows = [], adMarkers = [], adLogs = None, adMapping = f, adTree = exDisk, adKnown = \<lparr>khFiles = [], khLink = LinkAbsent\<rparr>,
     adFilters = \<lparr>ffFiles = [], ffReadErr = [], ffWriteErr = [], ffRenameErr = []\<rparr>,
     adSizes = \<lparr>dcMap = [], dcFile = SNoFile, dcLegacy = False, dcRemoveErr = False, dcSaveErr = False\<rparr>, adBeat = Beat ''4''\<rparr>"

lemma exVars_simps [simp]: "exVars ''BACKUP_ROOTS'' = ''/data''" "exVars ''NODE_NAME'' = ''n''" "exVars ''SITE_ID'' = ''n''" "exVars ''CONTROL_CENTER_URL'' = ''n''"
  by (simp_all add: exVars_def)

lemma exConfig: "\<exists>cfg. loadConfig (bvDuration exBoot) (bvReadFile exBoot) (bvVars exBoot) = Some cfg \<and> cNodeName cfg = ''n''"
proof -
  have t: "trimSpace ''token'' \<noteq> []" by code_simp
  show ?thesis by (simp add: exBoot_def loadConfig_def requireEnv_def readBearerToken_def Let_def t)
qed

lemma exStarts: "f \<notin> {Unreadable, Malformed} \<Longrightarrow> \<exists>rep a d'. mainBoot id exBoot (exNode f) = (Started rep a, d')"
  unfolding mainBoot_starts using exConfig by (auto simp: exBoot_def exFault_def exNode_def)

text \<open>Witness: a crash while a backup ran, with one repository registered and the directory of known_hosts not writable.\<close>

theorem restart_recovers_witness:
  "\<exists>rep a d' r. mainBoot id exBoot (exNode (Entries [stamped 7 exMapping])) = (Started rep a, d') \<and>
     indexGet (appRepos (aaCore a)) (repoIDFromPath id ''/data/a'') = Some r \<and> rPath r = ''/data/a'' \<and>
     list_all (\<lambda>jp. jState jp \<notin> {JobPending, JobRunning}) (fsJobs (fleetOf False False (\<lambda>_. None) (newHostInfo ''h'' 2) a))"
proof -
  let ?s = "snd (upsert id 7 exMapping (newRepoMappingStore NoFile False))"
  have ok: "storeOk id ?s" by (rule storeOk_upsert [OF storeOk_new])
  have vs: "map snd (byID ?s) = [stamped 7 exMapping]" by (simp add: byID_upsert newRepoMappingStore_def)
  have ps: "persist ?s = (False, ?s\<lparr>storeFile := Entries [stamped 7 exMapping]\<rparr>)"
    unfolding persist_def vs by (simp add: upsert_def persist_def newRepoMappingStore_def Let_def)
  obtain cfg where cfg: "loadConfig (bvDuration exBoot) (bvReadFile exBoot) (bvVars exBoot) = Some cfg" using exConfig by blast
  obtain rep a d' where b: "mainBoot id exBoot (exNode (Entries [stamped 7 exMapping])) = (Started rep a, d')" using exStarts by blast
  have rows: "list_all agentRow (adJobRows (exNode (Entries [stamped 7 exMapping])))" by (simp add: exNode_def agentRow_def jobRowOf_def exSnap_def)
  have c: "pathClean ''/data/a'' = ''/data/a''" "pathJoin [''/data/a'', ''.duplicacy'', ''preferences''] = ''/data/a/.duplicacy/preferences''"
    "\<not> isDuplicacyWebCache ''/data/a''" by code_simp+
  obtain r where r: "loadRepo id (bvScanAt exBoot) (adTree (exNode (Entries [stamped 7 exMapping]))) (cLegacyBackuprootMap cfg) ''/data/a'' = Inr r"
    by (simp add: loadRepo_def c readPreferences_def osStat_def exDisk_def exNode_def exPref_def trimRightSlash_def trimRightFunc_def Let_def)
  have m: "\<exists>m\<in>snd ` set (byID ?s). repoIDFromPath id ''/data/a'' = repoIDFromPath id (mRepoPath m) \<and> \<not> isDuplicacyWebCache (pathClean (mRepoPath m)) \<and>
      loadRepo id (bvScanAt exBoot) (adTree (exNode (Entries [stamped 7 exMapping]))) (cLegacyBackuprootMap cfg) (pathClean (mRepoPath m)) = Inr r"
    using vs r by (simp add: byID_upsert newRepoMappingStore_def exMapping_def c)
  have mk: "bvMark exBoot (adJobRows (exNode (Entries [stamped 7 exMapping]))) =
      Some (map jwID (filter orphanRow (adJobRows (exNode (Entries [stamped 7 exMapping])))), map (markedRow 11) (adJobRows (exNode (Entries [stamped 7 exMapping]))))"
    by (simp add: exBoot_def)
  have f: "adMapping (exNode (Entries [stamped 7 exMapping])) = storeFile (?s\<lparr>storeFile := Entries [stamped 7 exMapping]\<rparr>)" by (simp add: exNode_def)
  from restart_recovers [OF ok ps f rows mk cfg b, of "repoIDFromPath id ''/data/a''" r False False "\<lambda>_. None" "newHostInfo ''h'' 2"] m b loadRepo_paths [OF r]
  show ?thesis by blast
qed

section \<open>The refresh at boot\<close>

text \<open>C40. The refresh of the registry from the controller is not seen: the scan that ends it finds that the scan before the scheduler
  was made less than thirty seconds ago and does nothing. So after a start with a lost registry the fleet page broadcast by the refresh has no
  repository, whatever the controller answered, although the registry then has what the controller listed.\<close>

theorem boot_refresh_not_indexed:
  assumes "mainBoot sha v d = (Started rep a, d')" "now' - bvScanAt v < repoScanTTL"
  shows "appRepos (aaCore (initialRefresh sha now now' answer a)) = appRepos (aaCore a) \<and>
    appMapping (aaCore (initialRefresh sha now now' answer a)) = appMapping (refreshMappingFromController sha now answer (aaCore a)) \<and>
    (adMapping d = NoFile \<longrightarrow> fsRepos (fleetOf refused1 refused2 dec host (initialRefresh sha now now' answer a)) = [])"
proof -
  obtain cfg mapping where m: "mappingLoad sha (newRepoMappingStore (adMapping d) (bfPersist (bvFault v))) = Inr mapping"
    and core: "aaCore a = scanNow sha (bvScanAt v) (newCore cfg mapping (adTree d))"
    using mainBoot_Started [OF assms(1)] by auto
  have ix: "appRepos (aaCore a) = scanLocked sha (bvScanAt v) (adTree d) mapping (newRepoIndex (cLegacyBackuprootMap cfg))"
    by (simp add: core scanNow_new)
  have same: "appRepos (aaCore (initialRefresh sha now now' answer a)) = appRepos (aaCore a)"
    using assms(2) by (simp add: initialRefresh_def onCore_def scanNow_def refreshMappingFromController_def Let_def scan_def ix scanLocked_def split: option.split)
  moreover have "ixRepos (appRepos (aaCore a)) = []" if "adMapping d = NoFile"
    using m that unfolding ix by (auto simp: mappingLoad_def newRepoMappingStore_def scanLocked_def mappingList_def insertionSort_insRev)
  moreover have "appMapping (aaCore (initialRefresh sha now now' answer a)) = appMapping (refreshMappingFromController sha now answer (aaCore a))"
    by (simp add: initialRefresh_def onCore_def scanNow_def Let_def)
  ultimately show ?thesis by (simp add: fleetOf_def buildFleetSnapshot_def Let_def indexList_def)
qed

text \<open>Witness: the controller knows the repository that the lost registry had.\<close>

theorem boot_refresh_not_indexed_witness:
  "\<exists>rep a d'. mainBoot id exBoot (exNode NoFile) = (Started rep a, d') \<and>
     (let b = initialRefresh id 13 14 (CCOk [\<lparr>cID = ''u1'', cNode = ''n'', cRepoPath = ''/data/a''\<rparr>]) a
      in fsRepos (fleetOf False False (\<lambda>_. None) (newHostInfo ''h'' 2) b) = [])"
proof -
  obtain rep a d' where b: "mainBoot id exBoot (exNode NoFile) = (Started rep a, d')" using exStarts by blast
  have t: "(14 :: int) - bvScanAt exBoot < repoScanTTL" by (simp add: exBoot_def repoScanTTL_def)
  have n: "adMapping (exNode NoFile) = NoFile" by (simp add: exNode_def)
  from boot_refresh_not_indexed [OF b t] n b show ?thesis unfolding Let_def by blast
qed

end
