(* ===== verification/AgentCore.thy ===== *)
theory AgentCore
  imports Boot RepoInit
begin

text \<open>
  The registry, the index and the disk under everything that works on them: the handlers of init, bind, delete and invalidate, the reconcile tick,
  the refresh from the controller, scans, and what happens to the disk and the jobs from elsewhere, in any order from a start on, each taken as one
  step. The theorem: at every moment the registry and the index are well formed and a restart would find the registry as it is in memory.
\<close>

section \<open>The steps\<close>

inductive nodeStep :: "(string \<Rightarrow> string) \<Rightarrow> initApp \<Rightarrow> initApp \<Rightarrow> bool" for sha where
  delete: "handleDeleteRepo sha now req (iaApp a) = (resp, c) \<Longrightarrow> nodeStep sha a (a\<lparr>iaApp := c\<rparr>)"
| reconcile: "reconcileOrphans sha now answer tombs (iaApp a) = (ok, c) \<Longrightarrow> nodeStep sha a (a\<lparr>iaApp := c\<rparr>)"
| refresh: "nodeStep sha a (a\<lparr>iaApp := refreshMappingFromController sha now answer (iaApp a)\<rparr>)"
| list: "nodeStep sha a (a\<lparr>iaApp := scanNow sha now (iaApp a)\<rparr>)"
| rescan: "nodeStep sha a (a\<lparr>iaApp := (iaApp a)\<lparr>appRepos := scanLocked sha now (appDisk (iaApp a)) (appMapping (iaApp a)) (appRepos (iaApp a))\<rparr>\<rparr>)"
| init: "ieSha v = sha \<Longrightarrow> handleInitRepoNew v req a = (resp, a') \<Longrightarrow> nodeStep sha a a'"
| bind: "ieSha v = sha \<Longrightarrow> handleBindRepo v req a = (resp, a') \<Longrightarrow> nodeStep sha a a'"
| invalidate: "handleInvalidateCredential cid a = (n, a') \<Longrightarrow> nodeStep sha a a'"
| world: "nodeStep sha a (a\<lparr>iaApp := (iaApp a)\<lparr>appDisk := d, appJobs := js\<rparr>\<rparr>)"

inductive nodeReach :: "(string \<Rightarrow> string) \<Rightarrow> initApp \<Rightarrow> bool" for sha where
  boot: "mainBoot sha v d = (Started rep b, d') \<Longrightarrow> iaApp a = aaCore b \<Longrightarrow> nodeReach sha a"
| step: "nodeReach sha a \<Longrightarrow> nodeStep sha a a' \<Longrightarrow> nodeReach sha a'"

section \<open>The registry file\<close>

text \<open>Loading the file, as a restart would, gives the registry.\<close>

definition synced :: "(string \<Rightarrow> string) \<Rightarrow> repoMappingStore \<Rightarrow> bool" where
  "synced sha s \<longleftrightarrow> (case mappingLoad sha (newRepoMappingStore (storeFile s) False) of Inl _ \<Rightarrow> False | Inr s0 \<Rightarrow> mappingGet s0 = mappingGet s)"

definition regStep :: "(string \<Rightarrow> string) \<Rightarrow> repoMappingStore \<Rightarrow> repoMappingStore \<Rightarrow> bool" where
  "regStep sha s s' \<longleftrightarrow> storeFault s' = storeFault s \<and>
     (storeOk sha s \<longrightarrow> storeOk sha s' \<and> (storeFault s \<or> synced sha s \<longrightarrow> storeFault s' \<or> synced sha s'))"

lemma regStep_refl [simp, intro]: "regStep sha s s"
  by (simp add: regStep_def)

lemma regStep_trans: "regStep sha s t \<Longrightarrow> regStep sha t u \<Longrightarrow> regStep sha s u"
  by (auto simp: regStep_def)

lemma synced_entries: "storeOk sha s \<Longrightarrow> storeFile s = Entries (map snd (byID s)) \<Longrightarrow> synced sha s"
  using load_fold [of sha s] by (simp add: synced_def mappingLoad_def newRepoMappingStore_def mappingGet_fun)

lemma regStep_persist: "storeOk sha (s\<lparr>byID := m\<rparr>) \<Longrightarrow> regStep sha s (snd (persist (s\<lparr>byID := m\<rparr>)))"
  using synced_entries [of sha "snd (persist (s\<lparr>byID := m\<rparr>))"] storeOk_byID [of "s\<lparr>byID := m\<rparr>" "snd (persist (s\<lparr>byID := m\<rparr>))" sha]
  by (auto simp: regStep_def persist_def)

lemma regStep_upsert: "regStep sha s (snd (upsert sha now m s))"
proof (cases "storeOk sha s")
  case True
  have "snd (upsert sha now m s) = snd (persist (s\<lparr>byID := AList.update (repoIDFromPath sha (mRepoPath m)) (stamped now m) (byID s)\<rparr>))"
    by (simp add: upsert_def stamped_def Let_def)
  moreover have "storeOk sha (s\<lparr>byID := AList.update (repoIDFromPath sha (mRepoPath m)) (stamped now m) (byID s)\<rparr>)"
    by (rule storeOk_update [OF True]) simp
  ultimately show ?thesis using regStep_persist by metis
qed (simp add: regStep_def upsert_def Let_def persist_def)

lemma regStep_delete: "regStep sha s (snd (mappingDelete sha p s))"
proof (cases "storeOk sha s")
  case True
  have "storeOk sha (s\<lparr>byID := AList.delete (repoIDFromPath sha p) (byID s)\<rparr>)"
    using True set_delete_subset [of "repoIDFromPath sha p" "byID s"] by (auto simp: storeOk_def distinct_delete)
  then show ?thesis unfolding mappingDelete_def by (rule regStep_persist)
qed (simp add: regStep_def mappingDelete_def persist_def)

lemma regStep_fold: "(\<And>x y. regStep sha (f y) (f (g x y))) \<Longrightarrow> regStep sha (f a) (f (fold g xs a))"
  by (induction xs arbitrary: a) (auto intro: regStep_trans)

lemma regStep_load:
  assumes "mappingLoad sha (newRepoMappingStore f fault) = Inr s"
  shows "storeOk sha s \<and> synced sha s"
proof -
  have "storeFile s = f" using assms by (auto simp: mappingLoad_def newRepoMappingStore_def split: mappingFile.splits)
  moreover have "case mappingLoad sha (newRepoMappingStore f False) of Inl _ \<Rightarrow> False | Inr s0 \<Rightarrow> mappingGet s0 = mappingGet s"
    using assms by (auto simp: mappingLoad_def newRepoMappingStore_def mappingGet_fun split: mappingFile.splits)
  ultimately show ?thesis using storeOk_mappingLoad [OF storeOk_new assms] by (simp add: synced_def)
qed

section \<open>What the steps do to the registry and the index\<close>

definition coreStep :: "(string \<Rightarrow> string) \<Rightarrow> app \<Rightarrow> app \<Rightarrow> bool" where
  "coreStep sha c c' \<longleftrightarrow> regStep sha (appMapping c) (appMapping c') \<and> (indexOk sha (appRepos c) \<longrightarrow> indexOk sha (appRepos c'))"

lemma coreStep_refl [simp, intro]: "coreStep sha c c"
  by (simp add: coreStep_def)

lemma coreStep_trans: "coreStep sha a b \<Longrightarrow> coreStep sha b c \<Longrightarrow> coreStep sha a c"
  by (auto simp: coreStep_def intro: regStep_trans)

lemma coreStep_reg: "regStep sha (appMapping c) s \<Longrightarrow> coreStep sha c (c\<lparr>appDisk := d, appMapping := s\<rparr>)"
  by (simp add: coreStep_def)

lemma coreStep_disk [simp]: "coreStep sha c (c\<lparr>appDisk := d\<rparr>)"
  by (simp add: coreStep_def)

lemma coreStep_scan: "coreStep sha c (c\<lparr>appRepos := scan sha now d s (appRepos c)\<rparr>)"
  by (simp add: coreStep_def indexOk_scan)

lemma coreStep_fold:
  assumes "\<And>x y. coreStep sha (snd y) (snd (g x y))"
  shows "coreStep sha (snd a) (snd (fold g xs a))"
proof (induction xs arbitrary: a)
  case (Cons x xs)
  show ?case using coreStep_trans [OF assms Cons.IH] by simp
qed simp

lemma wipeParents_core: "coreStep sha a (snd (wipeParents sha ps wiped a))"
proof (induction ps arbitrary: wiped a)
  case (Cons p ps)
  obtain err d where r: "removeAll (dupDir p) (appDisk a) = (err, d)" by fastforce
  have "coreStep sha a (a\<lparr>appDisk := d, appMapping := snd (mappingDelete sha p (appMapping a))\<rparr>)" by (rule coreStep_reg [OF regStep_delete])
  then show ?case using r Cons.IH [of a wiped] coreStep_trans [OF _ Cons.IH] by (auto simp: Let_def)
qed simp

lemma rescanAsync_core [simp]: "coreStep sha c (rescanAsync c') = coreStep sha c c'"
  by (simp add: coreStep_def rescanAsync_def)

lemma handleDeleteRepo_core: "coreStep sha c (snd (handleDeleteRepo sha now req c))"
proof -
  have r: "coreStep sha c c1" if "resolveParents sha now p c = Some (ps, via, c1)" for p ps via c1
    using that coreStep_scan by (auto simp: resolveParents_def Let_def split: statResult.splits)
  have d: "coreStep sha c2 (c2\<lparr>appMapping := snd (mappingDelete sha p (appMapping c2))\<rparr>)" for c2 p
    by (simp add: coreStep_def regStep_delete)
  have w: "coreStep sha c c2" if "resolveParents sha now p c = Some (ps, via, c1)" "wipeParents sha qs ws c1 = (x, c2)" for p ps via c1 c2 qs ws x
    using r [OF that(1)] wipeParents_core [of sha c1 qs ws] that(2) coreStep_trans by fastforce
  show ?thesis using r w coreStep_trans [OF w d]
    by (auto simp: handleDeleteRepo_def Let_def split: option.splits prod.splits)
qed

lemma reconcileOrphans_core: "coreStep sha c (snd (reconcileOrphans sha now answer tombs c))"
proof -
  have o: "coreStep sha (snd y) (snd (orphanStep sha keep m y))" for keep m y
    by (auto simp: orphanStep_def Let_def coreStep_def regStep_delete split: prod.split dest: sym [of "mappingDelete _ _ _"]) (metis regStep_delete snd_conv)+
  have t: "coreStep sha (snd y) (snd (tombStep sha ts m y))" for ts m y
    by (auto simp: tombStep_def Let_def coreStep_def regStep_delete split: prod.split)
  have tb: "coreStep sha x (snd (reconcileTombstones sha now tombs x))" for x
  proof -
    have "coreStep sha x (snd (fold (tombStep sha ts) xs (0, x\<lparr>appRepos := scan sha now (appDisk x) (appMapping x) (appRepos x)\<rparr>)))" for ts xs
      using coreStep_trans [OF coreStep_scan coreStep_fold [where g = "tombStep sha ts", OF t, of "(0, x\<lparr>appRepos := scan sha now (appDisk x) (appMapping x) (appRepos x)\<rparr>)" xs, simplified]] .
    then show ?thesis by (auto simp: reconcileTombstones_def Let_def split: option.split)
  qed
  have f: "coreStep sha c (snd (fold (orphanStep sha keep) ms (0, c)))" for keep ms
    using coreStep_fold [where g = "orphanStep sha keep", OF o, of "(0, c)" ms] by simp
  have k: "coreStep sha c x \<Longrightarrow> coreStep sha c (x\<lparr>appRepos := scanLocked sha now (appDisk x) (appMapping x) (appRepos x), fleetTriggers := n\<rparr>)" for x n
    by (auto simp: coreStep_def indexOk_scanLocked)
  show ?thesis
    using coreStep_trans [OF f tb] k [OF coreStep_trans [OF f tb]]
    by (auto simp: reconcileOrphans_def Let_def case_prod_beta split: option.split)
qed

lemma refresh_core: "coreStep sha c (refreshMappingFromController sha now answer c)"
proof -
  have "regStep sha s (refreshStep sha now r s)" for r s by (simp add: refreshStep_def Let_def regStep_upsert)
  then have "regStep sha s (fold (refreshStep sha now) rs s)" for rs s using regStep_fold [of sha "\<lambda>x. x" "refreshStep sha now"] by simp
  then show ?thesis by (simp add: refreshMappingFromController_def coreStep_def split: option.split)
qed

lemma initRunSync_core: "coreStep sha (iaApp a) (iaApp (snd (initRunSync v ci a)))"
  by (simp add: initRunSync_def split: prod.split)

lemma addStorages_core: "coreStep sha (iaApp a) (iaApp (snd (addStorages v req primary ps existing ss a)))"
proof (induction v req primary ps existing ss a rule: addStorages.induct)
  case (2 v req primary ps existing s ss a)
  obtain x a' where ad: "addStorages v req primary ps existing (s # ss) a = (x, a')" by fastforce
  define ci where "ci = (let pw = sbEncryptionPassword (isSecrets (stReq s)); bi = (pw \<noteq> [] \<and> pw = sbEncryptionPassword (isSecrets primary));
      ci0 = invocationForAdd (irRepoPath req) (isStorageAlias (stReq s)) (irRepoID req) (isStorageURL (stReq s)) True (stRsaPubPath s) (isStorageAlias primary) bi
    in ci0\<lparr>EnvAdds := EnvAdds ci0 @ stEnv ps @ stEnv s\<rparr>)"
  obtain ok out a1 where r: "initRunSync v ci a = ((ok, out), a1)" by (metis prod.exhaust)
  have c1: "coreStep sha (iaApp a) (iaApp a1)" using initRunSync_core [of sha a v ci] r by simp
  have "a' = a \<or> a' = a1 \<or> (x, a') = addStorages v req primary ps existing ss a \<or> (x, a') = addStorages v req primary ps existing ss a1"
    using ad r by (auto simp: ci_def Let_def split: if_splits option.splits bool.splits)
  then show ?case using ad c1 "2.IH" [OF refl, of a] coreStep_trans [OF c1 "2.IH" [OF refl, of a1]] by (auto simp del: addStorages.simps dest: sym)
qed simp

lemma finishInit_core: "coreStep (ieSha v) (iaApp a) (iaApp (snd (finishInit v req ad a)))"
  by (simp add: finishInit_def Let_def coreStep_reg regStep_upsert)

lemma runInit_core: "coreStep (ieSha v) (iaApp a) (iaApp (snd (runInit v req primary staged a)))"
proof -
  define ps where "ps = stagedFor staged (isStorageAlias primary)"
  define ci where "ci = (let ci0 = invocationForInit (irRepoPath req) (irRepoID req) (isStorageURL primary) True (stRsaPubPath ps) cloudOptimizedChunks
     in ci0\<lparr>EnvAdds := EnvAdds ci0 @ stEnv ps\<rparr>)"
  define sec where "sec = (\<lambda>existing a. case addStorages v req primary ps existing staged a of
             (Some resp, a1) \<Rightarrow> (resp, a1)
           | (None, a1) \<Rightarrow> finishInit v req (existing \<noteq> None) a1)"
  obtain ok out a1 where r: "initRunSync v ci a = ((ok, out), a1)" by (metis prod.exhaust)
  have s1: "coreStep (ieSha v) (iaApp a) (iaApp a1)" using initRunSync_core [of "ieSha v" a v ci] r by simp
  have s2: "coreStep (ieSha v) (iaApp a) (iaApp (snd (sec ex a1)))" for ex
  proof -
    obtain x a2 where ad: "addStorages v req primary ps ex staged a1 = (x, a2)" by fastforce
    have "coreStep (ieSha v) (iaApp a) (iaApp a2)" using coreStep_trans [OF s1 addStorages_core] ad by (metis snd_conv)
    then show ?thesis using coreStep_trans [OF _ finishInit_core] by (cases x) (auto simp: sec_def ad)
  qed
  have "runInit v req primary staged a = (if ok then sec None a1
     else if \<not> isAlreadyInitialized out then (InitErr 500 (InitFailed (outputTail out 4096)), a1)
     else case readPreferenceURLs (appDisk (iaApp a1)) (irRepoPath req) of
       None \<Rightarrow> (InitErr 500 PrefsUnreadable, a1)
     | Some existing \<Rightarrow>
         let got = (case map_of existing (isStorageAlias primary) of None \<Rightarrow> [] | Some u \<Rightarrow> u)
         in if got \<noteq> isStorageURL primary then (InitErr 409 (PrimaryConflict got), a1) else sec (Some existing) a1)"
    using r unfolding runInit_def sec_def ci_def ps_def Let_def by simp
  then show ?thesis using s1 s2 by (simp add: Let_def split: option.split)
qed

lemma handleInitRepoNew_core: "coreStep (ieSha v) (iaApp a) (iaApp (snd (handleInitRepoNew v req a)))"
proof -
  have k: "coreStep (ieSha v) (iaApp a) (iaApp y)"
    if "runInit v r primary staged (a\<lparr>iaApp := (iaApp a)\<lparr>appDisk := d\<rparr>, iaShm := st\<rparr>) = (x, y)" for r primary staged d st x y
    using runInit_core [of v "a\<lparr>iaApp := (iaApp a)\<lparr>appDisk := d\<rparr>, iaShm := st\<rparr>" r primary staged] coreStep_trans [OF coreStep_disk [of _ "iaApp a" d]] that by simp
  show ?thesis
    by (auto simp: handleInitRepoNew_def Let_def split: option.split sum.split bool.split prod.split dest: k)
qed

lemma handleBindRepo_core: "coreStep (ieSha v) (iaApp a) (iaApp (snd (handleBindRepo v req a)))"
proof -
  have "coreStep (ieSha v) (iaApp a) ((iaApp a)\<lparr>appMapping := snd (upsert (ieSha v) n m (appMapping (iaApp a)))\<rparr>)" for n m
    by (simp add: coreStep_def regStep_upsert)
  then show ?thesis
    by (auto simp: handleBindRepo_def Let_def split: option.split sum.split statResult.split prod.split bool.split) (metis snd_conv)+
qed

lemma nodeStep_core: "nodeStep sha a a' \<Longrightarrow> coreStep sha (iaApp a) (iaApp a')"
proof (induction rule: nodeStep.induct)
  case (delete now req a resp c)
  then show ?case using handleDeleteRepo_core [of sha "iaApp a" now req] by simp
next
  case (reconcile now answer tombs a ok c)
  then show ?case using reconcileOrphans_core [of sha "iaApp a" now answer tombs] by simp
next
  case (list a now)
  show ?case by (simp add: scanNow_def coreStep_scan)
next
  case (rescan a now)
  show ?case by (simp add: coreStep_def indexOk_scanLocked)
next
  case (init v req a resp a')
  then show ?case using handleInitRepoNew_core [of v a req] by simp
next
  case (bind v req a resp a')
  then show ?case using handleBindRepo_core [of v a req] by simp
next
  case (invalidate cid a n a')
  then show ?case by (auto simp: handleInvalidateCredential_def split: if_splits)
next
  case (refresh a now answer)
  show ?case by (simp add: refresh_core)
next
  case (world a d js)
  show ?case by (simp add: coreStep_def)
qed

section \<open>The invariant\<close>

lemma boot_core:
  assumes "mainBoot sha v d = (Started rep b, d')"
  shows "storeOk sha (appMapping (aaCore b)) \<and> synced sha (appMapping (aaCore b)) \<and> indexOk sha (appRepos (aaCore b))"
proof -
  obtain cfg mapping where "mappingLoad sha (newRepoMappingStore (adMapping d) (bfPersist (bvFault v))) = Inr mapping"
    "aaCore b = scanNow sha (bvScanAt v) (newCore cfg mapping (adTree d))"
    using mainBoot_Started [OF assms] by auto
  then show ?thesis using regStep_load by (simp add: scanNow_new indexOk_scanLocked) (simp add: scanNow_def newCore_def)
qed

lemma nodeReach_ok:
  "nodeReach sha a \<Longrightarrow> storeOk sha (appMapping (iaApp a)) \<and> indexOk sha (appRepos (iaApp a)) \<and>
     (storeFault (appMapping (iaApp a)) \<or> synced sha (appMapping (iaApp a)))"
proof (induction rule: nodeReach.induct)
  case (boot v d rep b d' a)
  then show ?case using boot_core by simp
next
  case (step a a')
  then show ?case using nodeStep_core [OF step(2)] by (auto simp: coreStep_def regStep_def)
qed

text \<open>C19. Whatever requests, ticks, scans and outside changes come in whatever order after a start, the registry and the index stay well formed, and the registry
  is durable. Every mapping is found under the id of its path and under no other; every repository of the index is found under its own id, which is the id of
  its path, a canonical one; and as long as the file can be written, a restart at this very moment loads a registry that answers
  every lookup as the running one does.\<close>

theorem agent_wellformed:
  assumes "nodeReach sha a"
  shows "(\<forall>k m. mappingGet (appMapping (iaApp a)) k = Some m \<longrightarrow> k = repoIDFromPath sha (mRepoPath m)) \<and>
    (\<forall>r\<in>set (indexList (appRepos (iaApp a))).
       indexGet (appRepos (iaApp a)) (rID r) = Some r \<and> rID r = repoIDFromPath sha (rPath r) \<and> pathClean (rPath r) = rPath r) \<and>
    (\<not> storeFault (appMapping (iaApp a)) \<longrightarrow>
     (\<exists>s0. mappingLoad sha (newRepoMappingStore (storeFile (appMapping (iaApp a))) False) = Inr s0 \<and>
        mappingGet s0 = mappingGet (appMapping (iaApp a))))"
proof -
  note ok = nodeReach_ok [OF assms]
  show ?thesis
  proof (intro conjI)
    show "\<forall>k m. mappingGet (appMapping (iaApp a)) k = Some m \<longrightarrow> k = repoIDFromPath sha (mRepoPath m)"
      using ok by (auto simp: storeOk_def mappingGet_def dest: map_of_SomeD)
    show "\<forall>r\<in>set (indexList (appRepos (iaApp a))).
       indexGet (appRepos (iaApp a)) (rID r) = Some r \<and> rID r = repoIDFromPath sha (rPath r) \<and> pathClean (rPath r) = rPath r"
    proof
      fix r assume "r \<in> set (indexList (appRepos (iaApp a)))"
      then obtain k where k: "(k, r) \<in> set (ixRepos (appRepos (iaApp a)))" by auto
      have ix: "distinct (map fst (ixRepos (appRepos (iaApp a))))" "k = rID r \<and> rID r = repoIDFromPath sha (rPath r) \<and> pathClean (rPath r) = rPath r"
        using ok k unfolding indexOk_def reposOk_def by auto
      then show "indexGet (appRepos (iaApp a)) (rID r) = Some r \<and> rID r = repoIDFromPath sha (rPath r) \<and> pathClean (rPath r) = rPath r"
        using k by (simp add: indexGet_def)
    qed
    show "\<not> storeFault (appMapping (iaApp a)) \<longrightarrow>
     (\<exists>s0. mappingLoad sha (newRepoMappingStore (storeFile (appMapping (iaApp a))) False) = Inr s0 \<and>
        mappingGet s0 = mappingGet (appMapping (iaApp a)))"
      using ok unfolding synced_def by (auto split: sum.splits)
  qed
qed
text \<open>Witness: after a start with a lost registry and the refresh from the controller, a restart would find what the refresh added.\<close>

theorem agent_wellformed_witness:
  "\<exists>a s0 m. nodeReach id a \<and> mappingGet (appMapping (iaApp a)) (repoIDFromPath id ''/data/a'') = Some m \<and>
     mappingLoad id (newRepoMappingStore (storeFile (appMapping (iaApp a))) False) = Inr s0 \<and> mappingGet s0 (repoIDFromPath id ''/data/a'') = Some m"
proof -
  let ?ans = "CCOk [\<lparr>cID = ''u1'', cNode = ''n'', cRepoPath = ''/data/a''\<rparr>]"
  obtain rep b d' where b: "mainBoot id exBoot (exNode NoFile) = (Started rep b, d')" using exStarts by blast
  obtain cfg where cfg: "cNodeName cfg = ''n''" "aaCore b = scanNow id 12 (newCore cfg (newRepoMappingStore NoFile False) exDisk)"
    using mainBoot_Started [OF b] exConfig by (auto simp: exNode_def exBoot_def exFault_def mappingLoad_def newRepoMappingStore_def)
  define a0 where "a0 = \<lparr>iaApp = aaCore b, iaSiteID = [], iaRemoteSite = [], iaShm = \<lparr>shmFiles = [], shmOutcomes = []\<rparr>, iaCache = [], iaRuns = []\<rparr>"
  define a where "a = a0\<lparr>iaApp := refreshMappingFromController id 13 ?ans (iaApp a0)\<rparr>"
  have r: "nodeReach id a" unfolding a_def by (rule nodeReach.step [OF nodeReach.boot [OF b] nodeStep.refresh]) (simp add: a0_def)
  have c: "pathClean ''/data/a'' = ''/data/a''" by code_simp
  have m: "appMapping (iaApp a) = snd (upsert id 13 \<lparr>mRepoPath = ''/data/a'', mRepoID = [], mUUID = ''u1'', mStorages = [], mRegisteredAt = None\<rparr> (newRepoMappingStore NoFile False))"
    by (simp add: a_def a0_def cfg scanNow_def newCore_def refreshMappingFromController_def fetchCentralRepos_def refreshStep_def c getByPath_def
        mappingGet_def newRepoMappingStore_def)
  obtain x where x: "mappingGet (appMapping (iaApp a)) (repoIDFromPath id ''/data/a'') = Some x"
    unfolding m by (simp add: mappingGet_fun byID_upsert newRepoMappingStore_def)
  have "\<not> storeFault (appMapping (iaApp a))" unfolding m by (simp add: upsert_def newRepoMappingStore_def Let_def)
  then obtain s0 where "mappingLoad id (newRepoMappingStore (storeFile (appMapping (iaApp a))) False) = Inr s0" "mappingGet s0 = mappingGet (appMapping (iaApp a))"
    using agent_wellformed [OF r] by blast
  then show ?thesis using r x by auto
qed

end
