(* ===== verification/Spec2Isabelle.thy ===== *)
theory Spec2Isabelle
  imports Prelude Paths Repos Lifecycle Duplicacy ListCache ListStream CheckTabular JobParse JobRuns StorageUrl Secrets Handlers Filters MountGuard TreeSizes Trees
    RepoInit Schedules SnapshotStats Events Housekeeping KnownHosts Listing HookOrder LogStream Warmer Boot AgentCore
begin

text \<open>
  The duplicacy agent: root theory.

  The agent (package main of duplicacy-agent-api, Go) runs beside the \<open>duplicacy\<close> backup tool on each node of a fleet. It keeps a registry of the
  repositories of its node, starts backups, copies, checks, prunes and restores as jobs on request or by schedule, hands them credentials
  that a central controller vends, reports their events, and serves listings, logs, sizes, trees and figures. The theories model its own
  logic, file by file; what it imports (agent-kit-go, gin, gorilla/websocket, modernc.org/sqlite, x/crypto/ssh, x/sys/unix) and what is outside of it (the duplicacy binary, the
  controller, the network, other processes) are arguments of the definitions.

  How the code is represented. Go structs are records and enumerations datatypes with the names of the source; strings are lists of bytes; \<open>int\<close> and
  \<open>int64\<close> are \<open>int\<close>, with the bounds written out where a parser or a shift depends on them (\<open>atoi\<close>, sizes of table cells, durations); a \<open>uint32\<close> is a natural
  number below \<open>2 ^ 32\<close>; \<open>time.Time\<close> is an optional instant in nanoseconds, absent for the zero time. Maps are association lists, a SQL table is
  the list of its rows and a statement its meaning on them. Errors are values of sums and options, every early return is a branch. State is passed
  explicitly; faults of the disk, of the database and of the network are arguments, so a theorem that does not restrict them holds under every pattern of failures. Goroutines are
  labels of a step function (\<open>regExec\<close>, \<open>hookExec\<close>, \<open>wsExec\<close>, \<open>warmExec\<close>) or rules of a step relation (\<open>gateStep\<close>, \<open>nodeStep\<close>, \<open>agentReach\<close>), and the theorems
  are about all their interleavings. Timers and tickers are labels; a timeout is a wait that ends in that way.

  The theories, in the order of their imports.

  Prelude, Regex: the part of \<open>strings\<close>, \<open>strconv\<close> and \<open>regexp\<close> that the sources use, shared lemmas, and the interfaces \<open>tail_buffer\<close> (the last elements of
  a stream) and \<open>keyed_store\<close> (put, delete and look up under a key).

  Paths (init_handler.go, repos.go): \<open>filepath.Clean\<close> and \<open>Join\<close>, and the containment tests, all instances of \<open>path_guard\<close>: the prefix test is containment by components.
  Repos (repos.go, repos_mapping.go): the registry \<open>repos.json\<close> with its file, the loading of preferences, the index.
  Lifecycle (delete_handler.go, reconcile.go): removal of repositories on request, as orphans and as tombstones, and the refresh from the controller:
  nothing outside the \<open>.duplicacy\<close> directories below the backup roots disappears, and none with a running job.
  RepoInit (init_handler.go, sftp_mkdir.go): init, adopt, add and bind: what a request runs, what is then on disk, and what it registers.
  AgentCore: all of these on one state, in any order from a start on; registry and index stay well formed and the file durable.

  JobTypes, JobParse, Jobs, JobRuns (jobs.go): the record of a job, its log ring and subscribers, the parsers of its output; the registry as a state machine with the
  control points of each goroutine; the bounds on running processes, one cleanup and one terminal event per job, retention, cancellation, and that from every
  reachable state the jobs' own steps, in any order, end with every job ended and no slot held, those hit by a pipe error aside. Handlers (jobs.go): the requests that start, cancel and show jobs, with the credentials they hold and the restore
  target. LogStream (jobs.go): the stream of a job's log, with the appends at the grain of their lock and of the channel operations outside of it. HookOrder (jobs.go, events.go): the order in which the hooks of one job reach the database.
  Schedules (schedules.go, chain.go): what a schedule fires and what the chain after the nightly wave waits for; credentials are reclaimed under all interleavings of requests and jobs.

  Secrets (secrets.go, secrets_runtime.go, network.go): bundles, their cache, vending with retries, the environment of a run and its key files in /dev/shm.
  StorageUrl (storage_url_validator.go, s3region.go, template.go, destination.go): validation and expansion of storage URLs. KnownHosts (known_hosts.go): host keys.
  Duplicacy (duplicacy.go): command lines, the parser of \<open>duplicacy list\<close>, scrubbing of preferences.

  ListCache (snapshot_files_cache.go, snapshot_files_warm.go), ListStream (snapshot_files_stream.go): the cache of listings with its pin policy, eviction and reconciliation, the spool, the ring of the output's
  end, the gate. Listing (duplicacy.go, snapshot_files_stream.go): one run of a listing and the requests for it, over cache, gates and credentials; compression is any library with \<open>gzipLaw\<close>: a stream
  written and closed inflates to what was written. Warmer (snapshot_files_warm.go): the goroutine that warms the cache with such runs. What Listing assumes of others, that the rows they
  leave are complete listings, is what Warmer proves of the sweep.

  CheckTabular (check_tabular.go), SnapshotStats (snapshot_stats.go): the table a check prints, and the figures drawn from it. Events (events.go, orphan_sweep.go, app.go, fleet_ws.go):
  the table of jobs, the events handed to the outbox, the sweep at boot, the fleet page. Housekeeping (job_logs.go, heartbeat.go, child_rss.go, compose.go, config.go): logs, heartbeat, peaks, compose
  projects, configuration. Filters (filters.go): filter sets and the file rendered from them. MountGuard (mountguard.go), TreeSizes (tree_sizes.go), Trees (trees.go): what the walkers skip, the
  sizes of directories and the trees pushed to the controller, each with what a cache that lags behind the disk makes of them. Boot (main.go, app.go): the start of the agent out of all of these.

  Interfaces. A locale states what a client uses of a provider, and is interpreted in the provider's theory: \<open>path_guard\<close> by both containment tests, \<open>keyed_store\<close> by the registry and by the listing cache,
  \<open>tail_buffer\<close> by the log ring of a job and by the ring of a listing's output, \<open>env_invariant\<close> (what every step of \<open>buildEnv\<close> keeps) by the lines it has emitted and by the way each key has gone, \<open>walk_invariant\<close>
  by what the totals are during a pass.

  Termination and bounds. All definitions are total. Recursions that are not structural have a measure: the pieces of a pattern for the matcher, the text for placeholders, the level for the holder
  graph of block devices, which the code cuts at eight. Loops that wait (the vending with four attempts, the queue of a listing with three looks into the cache, the pauses of a warm run) recurse on a number or on
  the list of how the waits end; no other fuel is used.

  What the theorems do not hold of. Several state behaviours that contradict a comment of the source or lose work; they stand beside the theorem they limit, such as a job whose pipes cannot be made, the order of the
  hooks of one job, or the refresh at boot.

  Not modelled. HTTP routing, JSON, the WebSocket and SSH transports, the scheduler, the outbox, the fleet hub and the job-state reconcile loop (libraries, used by contract); SQL schema creation and
  migration; TLS and the dialing of the controller; the PEM conversion of a private key (a parameter); starting processes and reading their pipes beyond what the labels say; logging, the
  memory limit, log rotation and shutdown; write deadlines. They have no logic of the agent in them or only calls into libraries. Times measured by the process and
  resource usage are arguments.
\<close>

end
